(* ===== verification/Prelude.thy ===== *)
theory Prelude
  imports Complex_Main "HOL-Library.Char_ord" "HOL-Library.List_Lexorder" "HOL-Library.Word"
    "HOL-Library.Code_Target_Numeral"
begin

text \<open>
  What every component shares: the Rust types the model uses (\<open>str\<close>, \<open>usize\<close>, \<open>u8\<close>,
  \<open>f64\<close>), the ordered containers of the standard library (\<open>BTreeSet\<close> and \<open>BTreeMap\<close>
  as sorted lists), the string operations the sources use, and the lemmas about them.

  A Rust string is its UTF-8 byte sequence, one \<open>char\<close> per byte, so \<open>length\<close> is
  \<open>str::len\<close> and the lexicographic order of \<^typ>\<open>string\<close> is the order of \<open>str\<close>.
\<close>

section \<open>Rust types\<close>

type_synonym str = string
type_synonym u8 = "8 word"
type_synonym u16 = "16 word"
type_synonym u32 = "32 word"
type_synonym u64 = "64 word"

named_theorems btree_simps "lookup, membership and set equations of the ordered containers"
named_theorems btree_inv "invariant preservation of the ordered containers"

text \<open>\<open>usize\<close> on the aarch64 target is 64 bits wide; counts are \<^typ>\<open>nat\<close> and the
  saturating operations write the bound out.\<close>

definition usize_max :: nat where
  "usize_max = 2 ^ 64 - 1"

definition saturating_add :: "nat \<Rightarrow> nat \<Rightarrow> nat" where
  "saturating_add a b = min (a + b) usize_max"

definition u8_saturating_add :: "u8 \<Rightarrow> u8 \<Rightarrow> u8" where
  "u8_saturating_add x y = (if unat x + unat y < 256 then x + y else 255)"

lemma saturating_add_le [simp]: "saturating_add a b \<le> usize_max"
  by (simp add: saturating_add_def)

lemma saturating_add_pos: "0 < saturating_add a b \<longleftrightarrow> 0 < a \<or> 0 < b"
  by (auto simp: saturating_add_def usize_max_def)

text \<open>
  An IEEE double: the values comparisons distinguish. A finite double is the rational it
  denotes; the two zeros compare equal, so both are \<open>Fin 0\<close>.
\<close>

datatype f64 = NaN | PosInf | NegInf | Fin rat

fun f64_is_finite :: "f64 \<Rightarrow> bool" where
  "f64_is_finite (Fin _) = True"
| "f64_is_finite _ = False"

fun f64_le :: "f64 \<Rightarrow> f64 \<Rightarrow> bool" where
  "f64_le NaN _ = False"
| "f64_le _ NaN = False"
| "f64_le NegInf _ = True"
| "f64_le _ PosInf = True"
| "f64_le (Fin a) (Fin b) = (a \<le> b)"
| "f64_le _ _ = False"

fun f64_less :: "f64 \<Rightarrow> f64 \<Rightarrow> bool" where
  "f64_less NaN _ = False"
| "f64_less _ NaN = False"
| "f64_less PosInf _ = False"
| "f64_less _ PosInf = True"
| "f64_less _ NegInf = False"
| "f64_less NegInf _ = True"
| "f64_less (Fin a) (Fin b) = (a < b)"

text \<open>\<open>p.is_finite() && (0.0..=1.0).contains(&p)\<close>\<close>

definition f64_unit_interval :: "f64 \<Rightarrow> bool" where
  "f64_unit_interval p \<longleftrightarrow> f64_is_finite p \<and> f64_le (Fin 0) p \<and> f64_le p (Fin 1)"

lemma f64_unit_intervalD:
  "f64_unit_interval p \<Longrightarrow> \<exists>q. p = Fin q \<and> 0 \<le> q \<and> q \<le> 1"
  by (cases p) (auto simp: f64_unit_interval_def)

lemma f64_unit_interval_Fin [simp]: "f64_unit_interval (Fin q) \<longleftrightarrow> 0 \<le> q \<and> q \<le> 1"
  by (simp add: f64_unit_interval_def)

section \<open>BTreeSet: sorted lists without duplicates\<close>

definition bset_ok :: "'a::linorder list \<Rightarrow> bool" where
  "bset_ok xs \<longleftrightarrow> sorted xs \<and> distinct xs"

fun bset_insert :: "'a::linorder \<Rightarrow> 'a list \<Rightarrow> 'a list" where
  "bset_insert x [] = [x]"
| "bset_insert x (y # ys) =
     (if x < y then x # y # ys else if x = y then y # ys else y # bset_insert x ys)"

definition bset_extend :: "'a::linorder list \<Rightarrow> 'a list \<Rightarrow> 'a list" where
  "bset_extend xs ys = fold bset_insert ys xs"

definition bset_is_disjoint :: "'a list \<Rightarrow> 'a list \<Rightarrow> bool" where
  "bset_is_disjoint xs ys \<longleftrightarrow> list_all (\<lambda>x. \<not> List.member ys x) xs"

lemma set_bset_insert [btree_simps, simp]: "set (bset_insert x xs) = insert x (set xs)"
  by (induction xs) auto

lemma bset_ok_insert [btree_inv]: "bset_ok xs \<Longrightarrow> bset_ok (bset_insert x xs)"
  by (induction xs) (auto simp: bset_ok_def)

lemma bset_ok_Nil [btree_inv, simp]: "bset_ok []"
  by (simp add: bset_ok_def)

lemma set_bset_extend [btree_simps, simp]: "set (bset_extend xs ys) = set xs \<union> set ys"
  by (induction ys arbitrary: xs) (auto simp: bset_extend_def)

lemma bset_ok_extend [btree_inv]: "bset_ok xs \<Longrightarrow> bset_ok (bset_extend xs ys)"
  by (induction ys arbitrary: xs) (auto simp: bset_extend_def bset_ok_insert)

lemma bset_is_disjoint_iff [btree_simps, simp]:
  "bset_is_disjoint xs ys \<longleftrightarrow> set xs \<inter> set ys = {}"
  by (auto simp: bset_is_disjoint_def list_all_iff)

lemma bset_unique: "bset_ok xs \<Longrightarrow> bset_ok ys \<Longrightarrow> set xs = set ys \<Longrightarrow> xs = ys"
  by (auto simp: bset_ok_def intro: sorted_distinct_set_unique)

section \<open>BTreeMap: association lists sorted by key\<close>

definition bmap_ok :: "('k::linorder \<times> 'v) list \<Rightarrow> bool" where
  "bmap_ok m \<longleftrightarrow> bset_ok (map fst m)"

fun bmap_insert :: "'k::linorder \<Rightarrow> 'v \<Rightarrow> ('k \<times> 'v) list \<Rightarrow> ('k \<times> 'v) list" where
  "bmap_insert k v [] = [(k, v)]"
| "bmap_insert k v ((k', v') # m) =
     (if k < k' then (k, v) # (k', v') # m
      else if k = k' then (k, v) # m
      else (k', v') # bmap_insert k v m)"

lemma map_of_bmap_insert_other: "k \<noteq> k' \<Longrightarrow> map_of (bmap_insert k v m) k' = map_of m k'"
  by (induction m) (auto split: if_splits)

lemma map_of_bmap_insert_same [simp]: "map_of (bmap_insert k v m) k = Some v"
  by (induction m) auto

lemma map_of_bmap_insert [btree_simps]: "map_of (bmap_insert k v m) = (map_of m)(k \<mapsto> v)"
  by (rule ext) (simp add: map_of_bmap_insert_other)

lemma map_fst_bmap_insert: "map fst (bmap_insert k v m) = bset_insert k (map fst m)"
  by (induction m) auto

lemma keys_bmap_insert [btree_simps]:
  "fst ` set (bmap_insert k v m) = insert k (fst ` set m)"
  by (metis map_fst_bmap_insert set_bset_insert set_map)

lemma bmap_ok_insert [btree_inv]: "bmap_ok m \<Longrightarrow> bmap_ok (bmap_insert k v m)"
  by (simp add: bmap_ok_def map_fst_bmap_insert bset_ok_insert)

lemma bmap_ok_Nil [btree_inv, simp]: "bmap_ok []"
  by (simp add: bmap_ok_def)

text \<open>The interface a client of an ordered map uses, with the laws it relies on.\<close>

locale ordered_map =
  fixes empty_map :: 'm
    and put :: "'k::linorder \<Rightarrow> 'v \<Rightarrow> 'm \<Rightarrow> 'm"
    and look :: "'m \<Rightarrow> 'k \<Rightarrow> 'v option"
    and ok :: "'m \<Rightarrow> bool"
  assumes look_empty: "look empty_map k = None"
    and look_put: "ok m \<Longrightarrow> look (put k v m) = (look m)(k \<mapsto> v)"
    and ok_empty: "ok empty_map"
    and ok_put: "ok m \<Longrightarrow> ok (put k v m)"
begin

definition put_all :: "('k \<times> 'v) list \<Rightarrow> 'm \<Rightarrow> 'm" where
  "put_all kvs m = fold (\<lambda>(k, v). put k v) kvs m"

lemma ok_put_all: "ok m \<Longrightarrow> ok (put_all kvs m)"
  by (induction kvs arbitrary: m) (auto simp: put_all_def ok_put)

lemma look_put_all: "ok m \<Longrightarrow> look (put_all kvs m) = look m ++ map_of (rev kvs)"
  by (induction kvs arbitrary: m) (auto simp: put_all_def ok_put look_put map_add_def
        fun_eq_iff split: option.splits)

end

interpretation bmap: ordered_map "[]" bmap_insert map_of bmap_ok
  by unfold_locales (auto simp: map_of_bmap_insert bmap_ok_insert)

end
