(* ===== verification/Rust_Str.thy ===== *)
theory Rust_Str
  imports Prelude
begin

text \<open>
  The operations of Rust's \<open>str\<close> and \<open>char\<close> the modelled sources call, over UTF-8 byte
  strings: decoding to code points and back, whitespace, trimming, splitting, ASCII case and
  classes, prefixes and substrings. Code points are \<^typ>\<open>nat\<close>. Full Unicode lower-casing is a
  table of the standard library; the operations that use it take it as the argument \<open>lower\<close>.
\<close>

section \<open>UTF-8\<close>

definition byte :: "nat \<Rightarrow> char" where
  "byte n = char_of n"

fun utf8_encode_char :: "nat \<Rightarrow> str" where
  "utf8_encode_char c =
     (if c < 0x80 then [byte c]
      else if c < 0x800 then [byte (0xC0 + c div 64), byte (0x80 + c mod 64)]
      else if c < 0x10000 then
        [byte (0xE0 + c div 4096), byte (0x80 + c div 64 mod 64), byte (0x80 + c mod 64)]
      else
        [byte (0xF0 + c div 262144), byte (0x80 + c div 4096 mod 64),
         byte (0x80 + c div 64 mod 64), byte (0x80 + c mod 64)])"

definition utf8_encode :: "nat list \<Rightarrow> str" where
  "utf8_encode cs = concat (map utf8_encode_char cs)"

definition cont :: "char \<Rightarrow> nat" where
  "cont b = of_char b - 0x80"

text \<open>\<open>str::chars\<close>. A Rust string is valid UTF-8, so the malformed tails never occur; the
  model reads a stray byte as its own number.\<close>

fun utf8_decode :: "str \<Rightarrow> nat list" where
  "utf8_decode [] = []"
| "utf8_decode (a # s) =
     (let n = of_char a in
      if n < 0xC0 then n # utf8_decode s
      else if n < 0xE0 then
        (case s of b # s' \<Rightarrow> ((n - 0xC0) * 64 + cont b) # utf8_decode s' | _ \<Rightarrow> [n])
      else if n < 0xF0 then
        (case s of b # c # s' \<Rightarrow>
           ((n - 0xE0) * 4096 + cont b * 64 + cont c) # utf8_decode s' | _ \<Rightarrow> [n])
      else
        (case s of b # c # d # s' \<Rightarrow>
           ((n - 0xF0) * 262144 + cont b * 4096 + cont c * 64 + cont d) # utf8_decode s'
         | _ \<Rightarrow> [n]))"

lemma of_char_byte: "n < 256 \<Longrightarrow> of_char (byte n) = n"
  by (simp add: byte_def)

lemma utf8_decode_encode_char:
  assumes "c < 0x110000"
  shows "utf8_decode (utf8_encode_char c @ s) = c # utf8_decode s"
proof -
  have b: "of_char (byte n) = n" if "n < 256" for n using that by (rule of_char_byte)
  have d: "c div 4096 = c div 64 div 64" "c div 262144 = c div 64 div 64 div 64"
    by (simp_all flip: div_mult2_eq)
  have parts: "c div 4096 * 4096 + c div 64 mod 64 * 64 + c mod 64 = c"
    "c div 262144 * 262144 + c div 4096 mod 64 * 4096 + c div 64 mod 64 * 64 + c mod 64 = c"
    unfolding d using mult_div_mod_eq[of 64 c] mult_div_mod_eq[of 64 "c div 64"]
      mult_div_mod_eq[of 64 "c div 64 div 64"] by linarith+
  consider "c < 0x80" | "0x80 \<le> c" "c < 0x800" | "0x800 \<le> c" "c < 0x10000" | "0x10000 \<le> c" by linarith
  then show ?thesis
  proof cases
    case 1
    then show ?thesis by (simp add: b)
  next
    case 2
    have "c div 64 * 64 + c mod 64 = c" by simp
    moreover have "0xC0 + c div 64 < 0xE0" using 2 by (simp add: div_less_iff_less_mult)
    ultimately show ?thesis using 2 by (simp add: b cont_def Let_def)
  next
    case 3
    then have "0xE0 + c div 4096 < 0xF0" by simp
    moreover have "c div 4096 * 4096 + c div 64 mod 64 * 64 + c mod 64 = c"
      using parts by simp
    ultimately show ?thesis using 3 by (simp add: b cont_def Let_def)
  next
    case 4
    then have "0xF0 + c div 262144 < 256" using assms by simp
    moreover have "c div 262144 * 262144 + c div 4096 mod 64 * 4096 + c div 64 mod 64 * 64 + c mod 64 = c"
      using parts by simp
    ultimately show ?thesis using 4 by (simp add: b cont_def Let_def)
  qed
qed

lemma utf8_roundtrip: "\<forall>c \<in> set cs. c < 0x110000 \<Longrightarrow> utf8_decode (utf8_encode cs) = cs"
  by (induction cs) (simp_all add: utf8_encode_def utf8_decode_encode_char del: utf8_encode_char.simps)

section \<open>Whitespace\<close>

text \<open>\<open>char::is_whitespace\<close>: the code points with the property \<open>White_Space\<close>.\<close>

definition is_whitespace :: "nat \<Rightarrow> bool" where
  "is_whitespace c \<longleftrightarrow> 0x09 \<le> c \<and> c \<le> 0x0D \<or> c = 0x20 \<or> c = 0x85 \<or> c = 0xA0 \<or> c = 0x1680
     \<or> 0x2000 \<le> c \<and> c \<le> 0x200A \<or> c = 0x2028 \<or> c = 0x2029 \<or> c = 0x202F \<or> c = 0x205F \<or> c = 0x3000"

definition trim_points :: "nat list \<Rightarrow> nat list" where
  "trim_points cs = rev (dropWhile is_whitespace (rev (dropWhile is_whitespace cs)))"

definition trim :: "str \<Rightarrow> str" where
  "trim s = utf8_encode (trim_points (utf8_decode s))"

fun split_whitespace_points :: "nat list \<Rightarrow> nat list \<Rightarrow> nat list list" where
  "split_whitespace_points cur [] = (if cur = [] then [] else [cur])"
| "split_whitespace_points cur (c # cs) =
     (if is_whitespace c
      then (if cur = [] then split_whitespace_points [] cs
            else cur # split_whitespace_points [] cs)
      else split_whitespace_points (cur @ [c]) cs)"

definition split_whitespace :: "str \<Rightarrow> str list" where
  "split_whitespace s = map utf8_encode (split_whitespace_points [] (utf8_decode s))"

fun join :: "'a list \<Rightarrow> 'a list list \<Rightarrow> 'a list" where
  "join sep [] = []"
| "join sep [s] = s"
| "join sep (s # t # ss) = s @ sep @ join sep (t # ss)"

lemma utf8_encode_empty [simp]: "utf8_encode cs = [] \<longleftrightarrow> cs = []"
  by (cases cs) (auto simp: utf8_encode_def)

lemma trim_empty_iff: "trim s = [] \<longleftrightarrow> list_all is_whitespace (utf8_decode s)"
proof -
  have "(\<forall>c \<in> set (dropWhile P cs). P c) \<longleftrightarrow> (\<forall>c \<in> set cs. P c)" for P :: "nat \<Rightarrow> bool" and cs
    by (induction cs) auto
  then have "trim_points cs = [] \<longleftrightarrow> (\<forall>c \<in> set cs. is_whitespace c)" for cs
    by (simp add: trim_points_def)
  then show ?thesis by (simp add: trim_def list_all_iff)
qed

section \<open>ASCII classes and case\<close>

definition is_ascii_digit :: "char \<Rightarrow> bool" where
  "is_ascii_digit c \<longleftrightarrow> CHR ''0'' \<le> c \<and> c \<le> CHR ''9''"

definition is_ascii_lowercase :: "char \<Rightarrow> bool" where
  "is_ascii_lowercase c \<longleftrightarrow> CHR ''a'' \<le> c \<and> c \<le> CHR ''z''"

definition is_ascii_uppercase :: "char \<Rightarrow> bool" where
  "is_ascii_uppercase c \<longleftrightarrow> CHR ''A'' \<le> c \<and> c \<le> CHR ''Z''"

definition is_ascii_alphabetic :: "char \<Rightarrow> bool" where
  "is_ascii_alphabetic c \<longleftrightarrow> is_ascii_lowercase c \<or> is_ascii_uppercase c"

definition is_ascii_alphanumeric :: "char \<Rightarrow> bool" where
  "is_ascii_alphanumeric c \<longleftrightarrow> is_ascii_alphabetic c \<or> is_ascii_digit c"

definition ascii_lower :: "char \<Rightarrow> char" where
  "ascii_lower c = (if is_ascii_uppercase c then char_of (of_char c + 32 :: nat) else c)"

definition ascii_upper :: "char \<Rightarrow> char" where
  "ascii_upper c = (if is_ascii_lowercase c then char_of (of_char c - 32 :: nat) else c)"

definition to_ascii_lowercase :: "str \<Rightarrow> str" where
  "to_ascii_lowercase s = map ascii_lower s"

definition to_ascii_uppercase :: "str \<Rightarrow> str" where
  "to_ascii_uppercase s = map ascii_upper s"

definition eq_ignore_ascii_case :: "str \<Rightarrow> str \<Rightarrow> bool" where
  "eq_ignore_ascii_case s t \<longleftrightarrow> to_ascii_lowercase s = to_ascii_lowercase t"

section \<open>Prefixes, substrings, splitting\<close>

fun strip_prefix :: "'a list \<Rightarrow> 'a list \<Rightarrow> 'a list option" where
  "strip_prefix [] s = Some s"
| "strip_prefix (p # ps) [] = None"
| "strip_prefix (p # ps) (c # s) = (if p = c then strip_prefix ps s else None)"

definition starts_with :: "'a list \<Rightarrow> 'a list \<Rightarrow> bool" where
  "starts_with p s \<longleftrightarrow> strip_prefix p s \<noteq> None"

definition ends_with :: "'a list \<Rightarrow> 'a list \<Rightarrow> bool" where
  "ends_with p s \<longleftrightarrow> starts_with (rev p) (rev s)"

definition strip_suffix :: "'a list \<Rightarrow> 'a list \<Rightarrow> 'a list option" where
  "strip_suffix p s = map_option rev (strip_prefix (rev p) (rev s))"

fun contains :: "'a list \<Rightarrow> 'a list \<Rightarrow> bool" where
  "contains p [] \<longleftrightarrow> p = []"
| "contains p (c # s) \<longleftrightarrow> starts_with p (c # s) \<or> contains p s"

fun split_on :: "'a \<Rightarrow> 'a list \<Rightarrow> 'a list list" where
  "split_on d [] = [[]]"
| "split_on d (c # s) =
     (if c = d then [] # split_on d s
      else (case split_on d s of [] \<Rightarrow> [[c]] | t # ts \<Rightarrow> (c # t) # ts))"

fun split_once :: "'a \<Rightarrow> 'a list \<Rightarrow> ('a list \<times> 'a list) option" where
  "split_once d [] = None"
| "split_once d (c # s) =
     (if c = d then Some ([], s)
      else map_option (\<lambda>(a, b). (c # a, b)) (split_once d s))"

text \<open>\<open>split([a, b, ..]).next()\<close>, and \<open>split_once\<close> at a string.\<close>

fun until_any :: "char list \<Rightarrow> str \<Rightarrow> str" where
  "until_any ds [] = []"
| "until_any ds (c # s) = (if c \<in> set ds then [] else c # until_any ds s)"

fun split_once_str :: "str \<Rightarrow> str \<Rightarrow> (str \<times> str) option" where
  "split_once_str sep [] = (if sep = [] then Some ([], []) else None)"
| "split_once_str sep (c # s) =
     (case strip_prefix sep (c # s) of
        Some r \<Rightarrow> Some ([], r)
      | None \<Rightarrow> map_option (\<lambda>(a, b). (c # a, b)) (split_once_str sep s))"

lemma strip_prefix_Some: "strip_prefix p s = Some r \<longleftrightarrow> s = p @ r"
  by (induction p s rule: strip_prefix.induct) auto

lemma starts_with_iff: "starts_with p s \<longleftrightarrow> (\<exists>r. s = p @ r)"
  by (simp add: starts_with_def strip_prefix_Some)

lemma contains_iff: "contains p s \<longleftrightarrow> (\<exists>a b. s = a @ p @ b)"
proof (induction p s rule: contains.induct)
  case (2 p c s)
  show ?case
  proof
    assume "contains p (c # s)"
    then consider "starts_with p (c # s)" | "contains p s" by auto
    then show "\<exists>a b. c # s = a @ p @ b"
    proof cases
      case 1
      then show ?thesis using starts_with_iff[of p "c # s"] by (metis append_Nil)
    next
      case 2
      then show ?thesis using 2 "2.IH" by (metis append_Cons)
    qed
  next
    assume "\<exists>a b. c # s = a @ p @ b"
    then obtain a b where "c # s = a @ p @ b" by blast
    then consider "c # s = p @ b" | a' where "s = a' @ p @ b" by (cases a) auto
    then show "contains p (c # s)"
    proof cases
      case 1
      then have "starts_with p (c # s)" using starts_with_iff by blast
      then show ?thesis by simp
    qed (use "2.IH" in auto)
  qed
qed auto

lemma split_on_not_Nil [simp]: "split_on d s \<noteq> []"
  by (induction s) (auto split: list.splits)

lemma join_split_on: "join [d] (split_on d s) = s"
proof (induction s)
  case (Cons c s)
  then show ?case
    by (cases "split_on d s"; cases "tl (split_on d s)") auto
qed simp

lemma split_on_pieces: "t \<in> set (split_on d s) \<Longrightarrow> d \<notin> set t"
  by (induction s arbitrary: t) (auto split: list.splits if_splits)

lemma split_once_Some: "split_once d s = Some (a, b) \<Longrightarrow> s = a @ d # b \<and> d \<notin> set a"
  by (induction s arbitrary: a b) (auto split: if_splits)

lemma split_once_None: "split_once d s = None \<longleftrightarrow> d \<notin> set s"
  by (induction s) auto

section \<open>Numbers\<close>

text \<open>\<open>str::parse\<close> of an unsigned type with maximum \<open>m\<close>: an optional plus sign, at least one
  digit, and no overflow.\<close>

definition digit_value :: "char \<Rightarrow> nat" where
  "digit_value c = of_char c - 48"

fun parse_digits :: "nat \<Rightarrow> nat \<Rightarrow> str \<Rightarrow> nat option" where
  "parse_digits m acc [] = Some acc"
| "parse_digits m acc (c # s) =
     (if is_ascii_digit c \<and> acc * 10 + digit_value c \<le> m
      then parse_digits m (acc * 10 + digit_value c) s else None)"

definition parse_unsigned :: "nat \<Rightarrow> str \<Rightarrow> nat option" where
  "parse_unsigned m s =
     (let t = (case s of c # r \<Rightarrow> if c = CHR ''+'' then r else s | [] \<Rightarrow> [])
      in if t = [] then None else parse_digits m 0 t)"

lemma parse_digits_le: "acc \<le> m \<Longrightarrow> parse_digits m acc s = Some n \<Longrightarrow> n \<le> m"
  by (induction m acc s rule: parse_digits.induct) (auto split: if_splits)

lemma parse_unsigned_le: "parse_unsigned m s = Some n \<Longrightarrow> n \<le> m"
  using parse_digits_le[of 0 m] by (auto simp: parse_unsigned_def Let_def split: if_splits)

text \<open>\<open>to_string\<close> of an unsigned number.\<close>

fun show_nat :: "nat \<Rightarrow> str" where
  "show_nat n = (if n < 10 then [char_of (n + 48)] else show_nat (n div 10) @ [char_of (n mod 10 + 48)])"

declare show_nat.simps [simp del]


lemma show_nat_length: "n < 10 ^ k \<Longrightarrow> 0 < k \<Longrightarrow> length (show_nat n) \<le> k"
proof (induction k arbitrary: n)
  case (Suc k)
  show ?case
  proof (cases "n < 10")
    case False
    then have "n div 10 < 10 ^ k" "0 < k" using Suc.prems by (auto intro: Nat.gr0I)
    from Suc.IH[OF this] False show ?thesis by (subst show_nat.simps) simp
  qed (simp add: show_nat.simps)
qed simp

end
