(* ===== verification/Canonical_Family.thy ===== *)
theory Canonical_Family
  imports Rust_Str
begin

text \<open>
  The canonical family label of \<open>src/evidence_ancestry.rs\<close> (\<open>canonical_family\<close>,
  \<open>is_ignorable\<close>, \<open>is_compatibility_form\<close>, \<open>ascii_lookalike\<close>, \<open>fold_lookalike\<close>) and its
  generated tables in \<open>src/evidence_ancestry/lookalike.rs\<close>, over code points. Lower-casing a
  whole string is the Unicode table of the standard library and stays an argument, \<open>lower\<close>.
  A binary search of a sorted table is its contract: the matching entry, if there is one.
\<close>

section \<open>The generated tables\<close>

definition IGNORABLE :: "(nat \<times> nat) list" where
  "IGNORABLE = [
    (0x00AD, 0x00AD), (0x034F, 0x034F), (0x061C, 0x061C), (0x115F, 0x1160), (0x17B4, 0x17B5),
    (0x180B, 0x180F), (0x200B, 0x200F), (0x202A, 0x202E), (0x2060, 0x206F), (0x3164, 0x3164),
    (0xFE00, 0xFE0F), (0xFEFF, 0xFEFF), (0xFFA0, 0xFFA0), (0xFFF0, 0xFFF8), (0x1BCA0, 0x1BCA3),
    (0x1D173, 0x1D17A), (0xE0000, 0xE0FFF)]"

definition LOOKALIKE_low :: "(nat \<times> char) list" where
  "LOOKALIKE_low = [
    (0x00A1, CHR ''i''), (0x00D7, CHR ''x''), (0x00FE, CHR ''p''), (0x0131, CHR ''i''),
    (0x017F, CHR ''f''), (0x0184, CHR ''b''), (0x018D, CHR ''g''), (0x0192, CHR ''f''),
    (0x0196, CHR ''l''), (0x01A6, CHR ''R''), (0x01A7, CHR ''2''), (0x01B7, CHR ''3''),
    (0x01BC, CHR ''5''), (0x01BD, CHR ''s''), (0x01BF, CHR ''p''), (0x01C0, CHR ''l''),
    (0x021C, CHR ''3''), (0x0222, CHR ''8''), (0x0223, CHR ''8''), (0x0237, CHR ''j''),
    (0x024C, CHR ''R''), (0x0251, CHR ''a''), (0x0261, CHR ''g''), (0x0263, CHR ''y''),
    (0x0269, CHR ''i''), (0x026A, CHR ''i''), (0x026F, CHR ''w''), (0x0284, CHR ''f''),
    (0x028B, CHR ''u''), (0x028F, CHR ''y''), (0x037F, CHR ''J''), (0x0391, CHR ''A''),
    (0x0392, CHR ''B''), (0x0395, CHR ''E''), (0x0396, CHR ''Z''), (0x0397, CHR ''H''),
    (0x0399, CHR ''l''), (0x039A, CHR ''K''), (0x039C, CHR ''M''), (0x039D, CHR ''N''),
    (0x039F, CHR ''O''), (0x03A1, CHR ''P''), (0x03A4, CHR ''T''), (0x03A5, CHR ''Y''),
    (0x03A7, CHR ''X''), (0x03B1, CHR ''a''), (0x03B3, CHR ''y''), (0x03B9, CHR ''i''),
    (0x03BD, CHR ''v''), (0x03BF, CHR ''o''), (0x03C1, CHR ''p''), (0x03C3, CHR ''o''),
    (0x03C5, CHR ''u''), (0x03D2, CHR ''Y''), (0x03DC, CHR ''F''), (0x03E8, CHR ''2''),
    (0x03EC, CHR ''6''), (0x03ED, CHR ''o''), (0x03F1, CHR ''p''), (0x03F2, CHR ''c''),
    (0x03F3, CHR ''j''), (0x03F8, CHR ''p''), (0x03F9, CHR ''C''), (0x03FA, CHR ''M''),
    (0x0405, CHR ''S''), (0x0406, CHR ''l''), (0x0408, CHR ''J''), (0x0410, CHR ''A''),
    (0x0412, CHR ''B''), (0x0415, CHR ''E''), (0x0417, CHR ''3''), (0x041A, CHR ''K''),
    (0x041C, CHR ''M''), (0x041D, CHR ''H''), (0x041E, CHR ''O''), (0x0420, CHR ''P''),
    (0x0421, CHR ''C''), (0x0422, CHR ''T''), (0x0423, CHR ''Y''), (0x0425, CHR ''X''),
    (0x042C, CHR ''b''), (0x0430, CHR ''a''), (0x0431, CHR ''6''), (0x0433, CHR ''r''),
    (0x0435, CHR ''e''), (0x043E, CHR ''o''), (0x0440, CHR ''p''), (0x0441, CHR ''c''),
    (0x0443, CHR ''y''), (0x0445, CHR ''x''), (0x0448, CHR ''w''), (0x0455, CHR ''s''),
    (0x0456, CHR ''i''), (0x0458, CHR ''j''), (0x0461, CHR ''w''), (0x0474, CHR ''V''),
    (0x0475, CHR ''v''), (0x04AE, CHR ''Y''), (0x04AF, CHR ''y''), (0x04BA, CHR ''h''),
    (0x04BB, CHR ''h''), (0x04BD, CHR ''e''), (0x04C0, CHR ''l''), (0x04CF, CHR ''l''),
    (0x04E0, CHR ''3''), (0x0501, CHR ''d''), (0x050C, CHR ''G''), (0x051A, CHR ''Q''),
    (0x051B, CHR ''q''), (0x051C, CHR ''W''), (0x051D, CHR ''w''), (0x0545, CHR ''3''),
    (0x054D, CHR ''U''), (0x054F, CHR ''S''), (0x0555, CHR ''O''), (0x0561, CHR ''w''),
    (0x0563, CHR ''q''), (0x0566, CHR ''q''), (0x0570, CHR ''h''), (0x0575, CHR ''j''),
    (0x0578, CHR ''n''), (0x057C, CHR ''n''), (0x057D, CHR ''u''), (0x0581, CHR ''g''),
    (0x0582, CHR ''i''), (0x0584, CHR ''f''), (0x0585, CHR ''o''), (0x05C0, CHR ''l''),
    (0x05D5, CHR ''l''), (0x05D8, CHR ''v''), (0x05DF, CHR ''l''), (0x05E1, CHR ''o''),
    (0x0627, CHR ''l''), (0x0647, CHR ''o''), (0x0661, CHR ''l''), (0x0665, CHR ''o''),
    (0x0667, CHR ''V''), (0x06BE, CHR ''o''), (0x06C1, CHR ''o''), (0x06D5, CHR ''o''),
    (0x06F1, CHR ''l''), (0x06F5, CHR ''o''), (0x06F7, CHR ''V''), (0x07C0, CHR ''O''),
    (0x07CA, CHR ''l''), (0x07CB, CHR ''o''), (0x07CC, CHR ''Y''), (0x07D3, CHR ''F''),
    (0x07D5, CHR ''b''), (0x07E0, CHR ''T''), (0x0840, CHR ''o''), (0x0964, CHR ''l''),
    (0x0966, CHR ''o''), (0x0969, CHR ''3''), (0x09E6, CHR ''o''), (0x09EA, CHR ''8''),
    (0x09ED, CHR ''9''), (0x0A66, CHR ''o''), (0x0A67, CHR ''9''), (0x0A6A, CHR ''8''),
    (0x0AE6, CHR ''o''), (0x0AE9, CHR ''3''), (0x0B03, CHR ''8''), (0x0B20, CHR ''O''),
    (0x0B66, CHR ''o''), (0x0B68, CHR ''9''), (0x0BE6, CHR ''o''), (0x0C02, CHR ''o''),
    (0x0C66, CHR ''o''), (0x0C82, CHR ''o''), (0x0CE6, CHR ''O''), (0x0D02, CHR ''o''),
    (0x0D1F, CHR ''s''), (0x0D20, CHR ''o''), (0x0D66, CHR ''o''), (0x0D6D, CHR ''9''),
    (0x0D82, CHR ''o''), (0x0E50, CHR ''o''), (0x0ED0, CHR ''o''), (0x1004, CHR ''c''),
    (0x101D, CHR ''o''), (0x1040, CHR ''o''), (0x104A, CHR ''l''), (0x105A, CHR ''c''),
    (0x10B9, CHR ''h''), (0x10BD, CHR ''S''), (0x10C7, CHR ''2''), (0x10CD, CHR ''Z''),
    (0x10E7, CHR ''y''), (0x10FD, CHR ''S''), (0x10FF, CHR ''o''), (0x110B, CHR ''o''),
    (0x11BC, CHR ''o''), (0x1200, CHR ''U''), (0x12D0, CHR ''O''), (0x13A0, CHR ''D''),
    (0x13A1, CHR ''R''), (0x13A2, CHR ''T''), (0x13A5, CHR ''i''), (0x13A9, CHR ''Y''),
    (0x13AA, CHR ''A''), (0x13AB, CHR ''J''), (0x13AC, CHR ''E''), (0x13B3, CHR ''W''),
    (0x13B7, CHR ''M''), (0x13BB, CHR ''H''), (0x13BD, CHR ''Y''), (0x13C0, CHR ''G''),
    (0x13C2, CHR ''h''), (0x13C3, CHR ''Z''), (0x13CE, CHR ''4''), (0x13CF, CHR ''b''),
    (0x13D2, CHR ''R''), (0x13D4, CHR ''W''), (0x13D5, CHR ''S''), (0x13D9, CHR ''V''),
    (0x13DA, CHR ''S''), (0x13DE, CHR ''L''), (0x13DF, CHR ''C''), (0x13E2, CHR ''P''),
    (0x13E6, CHR ''K''), (0x13E7, CHR ''d''), (0x13EE, CHR ''6''), (0x13F3, CHR ''G''),
    (0x13F4, CHR ''B''), (0x142F, CHR ''V''), (0x144C, CHR ''U''), (0x146D, CHR ''P''),
    (0x146F, CHR ''d''), (0x1472, CHR ''b''), (0x148D, CHR ''J''), (0x14AA, CHR ''L''),
    (0x14BF, CHR ''2''), (0x1541, CHR ''x''), (0x157C, CHR ''H''), (0x157D, CHR ''x''),
    (0x1587, CHR ''R''), (0x15AF, CHR ''b''), (0x15B4, CHR ''F''), (0x15C5, CHR ''A''),
    (0x15DE, CHR ''D''), (0x15EA, CHR ''D''), (0x15F0, CHR ''M''), (0x15F7, CHR ''B''),
    (0x1616, CHR ''2''), (0x166D, CHR ''X''), (0x166E, CHR ''x''), (0x16B7, CHR ''X''),
    (0x16C1, CHR ''l''), (0x16D0, CHR ''l''), (0x16D5, CHR ''K''), (0x16D6, CHR ''M''),
    (0x1702, CHR ''3''), (0x172A, CHR ''7''), (0x1763, CHR ''x''), (0x17E0, CHR ''o''),
    (0x1A45, CHR ''o''), (0x1A80, CHR ''o''), (0x1A90, CHR ''o''), (0x1BEA, CHR ''o''),
    (0x1BEC, CHR ''x''), (0x1C82, CHR ''o''), (0x1C83, CHR ''c''), (0x1C84, CHR ''7''),
    (0x1C95, CHR ''3''), (0x1CB7, CHR ''2''), (0x1CBD, CHR ''S''), (0x1CBF, CHR ''O''),
    (0x1CF5, CHR ''X''), (0x1D04, CHR ''c''), (0x1D0F, CHR ''o''), (0x1D11, CHR ''o''),
    (0x1D1C, CHR ''u''), (0x1D20, CHR ''v''), (0x1D21, CHR ''w''), (0x1D22, CHR ''z''),
    (0x1D26, CHR ''r''), (0x1D83, CHR ''g''), (0x1D8C, CHR ''y''), (0x1E9D, CHR ''f''),
    (0x1EFF, CHR ''y''), (0x2102, CHR ''C''), (0x210A, CHR ''g''), (0x210B, CHR ''H''),
    (0x210C, CHR ''H''), (0x210D, CHR ''H''), (0x210E, CHR ''h''), (0x2110, CHR ''l''),
    (0x2111, CHR ''l''), (0x2112, CHR ''L''), (0x2113, CHR ''l''), (0x2115, CHR ''N''),
    (0x2119, CHR ''P''), (0x211A, CHR ''Q''), (0x211B, CHR ''R''), (0x211C, CHR ''R''),
    (0x211D, CHR ''R''), (0x2124, CHR ''Z''), (0x2128, CHR ''Z''), (0x212C, CHR ''B''),
    (0x212D, CHR ''C''), (0x212E, CHR ''e''), (0x212F, CHR ''e''), (0x2130, CHR ''E''),
    (0x2131, CHR ''F''), (0x2133, CHR ''M''), (0x2134, CHR ''o''), (0x2139, CHR ''i''),
    (0x213D, CHR ''y''), (0x2145, CHR ''D''), (0x2146, CHR ''d''), (0x2147, CHR ''e''),
    (0x2148, CHR ''i''), (0x2149, CHR ''j''), (0x2160, CHR ''l''), (0x2164, CHR ''V''),
    (0x2169, CHR ''X''), (0x216C, CHR ''L''), (0x216D, CHR ''C''), (0x216E, CHR ''D''),
    (0x216F, CHR ''M''), (0x2170, CHR ''i''), (0x2174, CHR ''v''), (0x2179, CHR ''x''),
    (0x217C, CHR ''l''), (0x217D, CHR ''c''), (0x217E, CHR ''d''), (0x21BF, CHR ''l''),
    (0x2223, CHR ''l''), (0x2228, CHR ''v''), (0x222A, CHR ''U''), (0x22A4, CHR ''T''),
    (0x22C1, CHR ''v''), (0x22C3, CHR ''U''), (0x22FF, CHR ''E''), (0x2373, CHR ''i''),
    (0x2374, CHR ''p''), (0x237A, CHR ''a''), (0x23FD, CHR ''l''), (0x2502, CHR ''l''),
    (0x2503, CHR ''l''), (0x2573, CHR ''X''), (0x27D9, CHR ''T''), (0x292B, CHR ''x''),
    (0x292C, CHR ''x''), (0x29E2, CHR ''w''), (0x2A2F, CHR ''x''), (0x2C6B, CHR ''Z''),
    (0x2C6C, CHR ''z''), (0x2C82, CHR ''B''), (0x2C85, CHR ''r''), (0x2C8C, CHR ''Z''),
    (0x2C8D, CHR ''z''), (0x2C8E, CHR ''H''), (0x2C92, CHR ''l''), (0x2C93, CHR ''i''),
    (0x2C94, CHR ''K''), (0x2C98, CHR ''M''), (0x2C9A, CHR ''N''), (0x2C9C, CHR ''3''),
    (0x2C9E, CHR ''O''), (0x2C9F, CHR ''o''), (0x2CA2, CHR ''P''), (0x2CA3, CHR ''p''),
    (0x2CA4, CHR ''C''), (0x2CA5, CHR ''c''), (0x2CA6, CHR ''T''), (0x2CA8, CHR ''Y''),
    (0x2CA9, CHR ''y''), (0x2CAC, CHR ''X''), (0x2CBD, CHR ''w''), (0x2CC4, CHR ''3''),
    (0x2CCA, CHR ''9''), (0x2CCB, CHR ''9''), (0x2CCC, CHR ''3''), (0x2CCE, CHR ''P''),
    (0x2CCF, CHR ''p''), (0x2CD0, CHR ''L''), (0x2CD2, CHR ''6''), (0x2CD3, CHR ''6''),
    (0x2CDC, CHR ''6''), (0x2D2D, CHR ''z''), (0x2D38, CHR ''V''), (0x2D39, CHR ''E''),
    (0x2D4A, CHR ''l''), (0x2D4F, CHR ''l''), (0x2D54, CHR ''O''), (0x2D55, CHR ''Q''),
    (0x2D5D, CHR ''X''), (0x3007, CHR ''O''), (0x3112, CHR ''T''), (0x311A, CHR ''Y''),
    (0x3147, CHR ''o''), (0x4E05, CHR ''T''), (0x4E2B, CHR ''Y''), (0xA4D0, CHR ''B''),
    (0xA4D1, CHR ''P''), (0xA4D2, CHR ''d''), (0xA4D3, CHR ''D''), (0xA4D4, CHR ''T''),
    (0xA4D6, CHR ''G''), (0xA4D7, CHR ''K''), (0xA4D9, CHR ''J''), (0xA4DA, CHR ''C''),
    (0xA4DC, CHR ''Z''), (0xA4DD, CHR ''F''), (0xA4DF, CHR ''M''), (0xA4E0, CHR ''N''),
    (0xA4E1, CHR ''L''), (0xA4E2, CHR ''S''), (0xA4E3, CHR ''R''), (0xA4E6, CHR ''V''),
    (0xA4E7, CHR ''H''), (0xA4EA, CHR ''W''), (0xA4EB, CHR ''X''), (0xA4EC, CHR ''Y''),
    (0xA4EE, CHR ''A''), (0xA4F0, CHR ''E''), (0xA4F2, CHR ''l''), (0xA4F3, CHR ''O''),
    (0xA4F4, CHR ''U''), (0xA50B, CHR ''T''), (0xA543, CHR ''6''), (0xA557, CHR ''B''),
    (0xA56F, CHR ''l''), (0xA576, CHR ''S''), (0xA589, CHR ''8''), (0xA5CB, CHR ''E''),
    (0xA644, CHR ''2''), (0xA647, CHR ''i''), (0xA6C9, CHR ''Z''), (0xA6DF, CHR ''V''),
    (0xA6EF, CHR ''2''), (0xA731, CHR ''s''), (0xA75A, CHR ''2''), (0xA76A, CHR ''3''),
    (0xA76E, CHR ''9''), (0xA76F, CHR ''9''), (0xA781, CHR ''l''), (0xA798, CHR ''F''),
    (0xA799, CHR ''f''), (0xA79F, CHR ''u''), (0xA7AB, CHR ''3''), (0xA7AE, CHR ''l''),
    (0xA7B2, CHR ''J''), (0xA7B3, CHR ''X''), (0xA7B4, CHR ''B''), (0xA7FA, CHR ''w''),
    (0xA7FE, CHR ''l''), (0xA830, CHR ''l''), (0xA8CE, CHR ''l''), (0xAA5D, CHR ''l''),
    (0xAB32, CHR ''e''), (0xAB35, CHR ''f''), (0xAB3D, CHR ''o''), (0xAB47, CHR ''r''),
    (0xAB48, CHR ''r''), (0xAB4E, CHR ''u''), (0xAB52, CHR ''u''), (0xAB5A, CHR ''y''),
    (0xAB64, CHR ''a''), (0xAB75, CHR ''i''), (0xAB81, CHR ''r''), (0xAB83, CHR ''w''),
    (0xAB93, CHR ''z''), (0xAB9E, CHR ''4''), (0xABA4, CHR ''w''), (0xABA9, CHR ''v''),
    (0xABAA, CHR ''s''), (0xABAF, CHR ''c''), (0xABBE, CHR ''6''), (0xFBA6, CHR ''o''),
    (0xFBA7, CHR ''o''), (0xFBA8, CHR ''o''), (0xFBA9, CHR ''o''), (0xFBAA, CHR ''o''),
    (0xFBAB, CHR ''o''), (0xFBAC, CHR ''o''), (0xFBAD, CHR ''o''), (0xFE31, CHR ''l''),
    (0xFE8D, CHR ''l''), (0xFE8E, CHR ''l''), (0xFEE9, CHR ''o''), (0xFEEA, CHR ''o''),
    (0xFEEB, CHR ''o''), (0xFEEC, CHR ''o''), (0xFF10, CHR ''O''), (0xFF11, CHR ''l''),
    (0xFF12, CHR ''2''), (0xFF13, CHR ''3''), (0xFF14, CHR ''4''), (0xFF15, CHR ''5''),
    (0xFF16, CHR ''6''), (0xFF17, CHR ''7''), (0xFF18, CHR ''8''), (0xFF19, CHR ''9''),
    (0xFF21, CHR ''A''), (0xFF22, CHR ''B''), (0xFF23, CHR ''C''), (0xFF24, CHR ''D''),
    (0xFF25, CHR ''E''), (0xFF26, CHR ''F''), (0xFF27, CHR ''G''), (0xFF28, CHR ''H''),
    (0xFF29, CHR ''l''), (0xFF2A, CHR ''J''), (0xFF2B, CHR ''K''), (0xFF2C, CHR ''L''),
    (0xFF2D, CHR ''M''), (0xFF2E, CHR ''N''), (0xFF2F, CHR ''O''), (0xFF30, CHR ''P''),
    (0xFF31, CHR ''Q''), (0xFF32, CHR ''R''), (0xFF33, CHR ''S''), (0xFF34, CHR ''T''),
    (0xFF35, CHR ''U''), (0xFF36, CHR ''V''), (0xFF37, CHR ''W''), (0xFF38, CHR ''X''),
    (0xFF39, CHR ''Y''), (0xFF3A, CHR ''Z''), (0xFF41, CHR ''a''), (0xFF42, CHR ''b''),
    (0xFF43, CHR ''c''), (0xFF44, CHR ''d''), (0xFF45, CHR ''e''), (0xFF46, CHR ''f''),
    (0xFF47, CHR ''g''), (0xFF48, CHR ''h''), (0xFF49, CHR ''i''), (0xFF4A, CHR ''j''),
    (0xFF4B, CHR ''k''), (0xFF4C, CHR ''l''), (0xFF4E, CHR ''n''), (0xFF4F, CHR ''o''),
    (0xFF50, CHR ''p''), (0xFF51, CHR ''q''), (0xFF52, CHR ''r''), (0xFF53, CHR ''s''),
    (0xFF54, CHR ''t''), (0xFF55, CHR ''u''), (0xFF56, CHR ''v''), (0xFF57, CHR ''w''),
    (0xFF58, CHR ''x''), (0xFF59, CHR ''y''), (0xFF5A, CHR ''z''), (0xFF5C, CHR ''l''),
    (0xFFB7, CHR ''o''), (0xFFE8, CHR ''l''), (0x1017E, CHR ''f''), (0x1018B, CHR ''d''),
    (0x10282, CHR ''B''), (0x10286, CHR ''E''), (0x10287, CHR ''F''), (0x1028A, CHR ''l''),
    (0x10290, CHR ''X''), (0x10292, CHR ''O''), (0x10295, CHR ''P''), (0x10296, CHR ''S''),
    (0x10297, CHR ''T''), (0x102A0, CHR ''A''), (0x102A1, CHR ''B''), (0x102A2, CHR ''C''),
    (0x102A5, CHR ''F''), (0x102AB, CHR ''O''), (0x102B0, CHR ''M''), (0x102B1, CHR ''T''),
    (0x102B2, CHR ''Y''), (0x102B4, CHR ''X''), (0x102CF, CHR ''H''), (0x102F5, CHR ''Z''),
    (0x10301, CHR ''B''), (0x10302, CHR ''C''), (0x10309, CHR ''l''), (0x1030F, CHR ''O''),
    (0x10311, CHR ''M''), (0x10315, CHR ''T''), (0x10317, CHR ''X''), (0x1031A, CHR ''8''),
    (0x1031C, CHR ''b''), (0x10320, CHR ''l''), (0x10322, CHR ''X''), (0x10404, CHR ''O''),
    (0x10415, CHR ''C''), (0x1041B, CHR ''L''), (0x10420, CHR ''S''), (0x1042C, CHR ''o''),
    (0x1043D, CHR ''c''), (0x10448, CHR ''s''), (0x104B4, CHR ''R''), (0x104C2, CHR ''O''),
    (0x104CE, CHR ''U''), (0x104D2, CHR ''7''), (0x104EA, CHR ''o''), (0x104F6, CHR ''u''),
    (0x10507, CHR ''Z''), (0x1050E, CHR ''l''), (0x10513, CHR ''N''), (0x10516, CHR ''O''),
    (0x10518, CHR ''K''), (0x1051B, CHR ''C''), (0x1051D, CHR ''V''), (0x10525, CHR ''F''),
    (0x10526, CHR ''L''), (0x10527, CHR ''X''), (0x10926, CHR ''l''), (0x1092C, CHR ''o''),
    (0x10C13, CHR ''X''), (0x10C17, CHR ''O''), (0x10C1F, CHR ''V''), (0x10C20, CHR ''Y''),
    (0x10C21, CHR ''M''), (0x10C3E, CHR ''l''), (0x10C82, CHR ''X''), (0x10CA5, CHR ''l''),
    (0x10CC2, CHR ''x''), (0x10CFA, CHR ''l''), (0x10CFC, CHR ''X''), (0x10D07, CHR ''o''),
    (0x11047, CHR ''l''), (0x110C0, CHR ''l''), (0x11124, CHR ''o''), (0x11141, CHR ''l''),
    (0x111C5, CHR ''l''), (0x11302, CHR ''o''), (0x113D4, CHR ''l''), (0x11445, CHR ''8''),
    (0x1144B, CHR ''l''), (0x114D0, CHR ''o''), (0x115C5, CHR ''l''), (0x11641, CHR ''l''),
    (0x11706, CHR ''v''), (0x1170A, CHR ''w''), (0x1170E, CHR ''w''), (0x1170F, CHR ''w''),
    (0x118A0, CHR ''V''), (0x118A2, CHR ''F''), (0x118A3, CHR ''L''), (0x118A4, CHR ''Y''),
    (0x118A6, CHR ''E''), (0x118A9, CHR ''Z''), (0x118AC, CHR ''9''), (0x118AE, CHR ''E''),
    (0x118AF, CHR ''4''), (0x118B2, CHR ''L''), (0x118B5, CHR ''O''), (0x118B8, CHR ''U''),
    (0x118BB, CHR ''5''), (0x118BC, CHR ''T''), (0x118C0, CHR ''v''), (0x118C1, CHR ''s''),
    (0x118C2, CHR ''F''), (0x118C3, CHR ''i''), (0x118C4, CHR ''y''), (0x118C6, CHR ''7''),
    (0x118C8, CHR ''o''), (0x118CA, CHR ''3''), (0x118CC, CHR ''9''), (0x118D5, CHR ''6''),
    (0x118D6, CHR ''9''), (0x118D7, CHR ''o''), (0x118D8, CHR ''u''), (0x118DC, CHR ''y''),
    (0x118E0, CHR ''O''), (0x118E5, CHR ''Z''), (0x118E6, CHR ''W''), (0x118E9, CHR ''C''),
    (0x118EC, CHR ''X''), (0x118EF, CHR ''W''), (0x118F2, CHR ''C''), (0x11ABC, CHR ''Z''),
    (0x11ABE, CHR ''N''), (0x11C41, CHR ''l''), (0x11DDA, CHR ''l''), (0x11DE0, CHR ''O''),
    (0x11DE1, CHR ''l''), (0x169C1, CHR ''9''), (0x169FE, CHR ''8''), (0x16A19, CHR ''r''),
    (0x16AD6, CHR ''S''), (0x16AE9, CHR ''O''), (0x16D63, CHR ''l''), (0x16E82, CHR ''4''),
    (0x16E8A, CHR ''7''), (0x16EAA, CHR ''l''), (0x16EB6, CHR ''b''), (0x16F08, CHR ''V''),
    (0x16F0A, CHR ''T''), (0x16F16, CHR ''L''), (0x16F28, CHR ''l''), (0x16F35, CHR ''R''),
    (0x16F3A, CHR ''S''), (0x16F3B, CHR ''3''), (0x16F40, CHR ''A''), (0x16F42, CHR ''U''),
    (0x16F43, CHR ''Y''), (0x1CCD6, CHR ''A''), (0x1CCD7, CHR ''B''), (0x1CCD8, CHR ''C''),
    (0x1CCD9, CHR ''D''), (0x1CCDA, CHR ''E''), (0x1CCDB, CHR ''F''), (0x1CCDC, CHR ''G''),
    (0x1CCDD, CHR ''H''), (0x1CCDE, CHR ''l''), (0x1CCDF, CHR ''J''), (0x1CCE0, CHR ''K''),
    (0x1CCE1, CHR ''L''), (0x1CCE2, CHR ''M''), (0x1CCE3, CHR ''N''), (0x1CCE4, CHR ''O''),
    (0x1CCE5, CHR ''P''), (0x1CCE6, CHR ''Q''), (0x1CCE7, CHR ''R''), (0x1CCE8, CHR ''S''),
    (0x1CCE9, CHR ''T''), (0x1CCEA, CHR ''U''), (0x1CCEB, CHR ''V''), (0x1CCEC, CHR ''W''),
    (0x1CCED, CHR ''X''), (0x1CCEE, CHR ''Y''), (0x1CCEF, CHR ''Z''), (0x1CCF0, CHR ''O''),
    (0x1CCF1, CHR ''l''), (0x1CCF2, CHR ''2''), (0x1CCF3, CHR ''3''), (0x1CCF4, CHR ''4''),
    (0x1CCF5, CHR ''5''), (0x1CCF6, CHR ''6''), (0x1CCF7, CHR ''7''), (0x1CCF8, CHR ''8''),
    (0x1CCF9, CHR ''9''), (0x1CEFC, CHR ''V''), (0x1D100, CHR ''l''), (0x1D134, CHR ''c''),
    (0x1D1FE, CHR ''7''), (0x1D206, CHR ''3''), (0x1D207, CHR ''b''), (0x1D20C, CHR ''W''),
    (0x1D20D, CHR ''V''), (0x1D212, CHR ''7''), (0x1D213, CHR ''F''), (0x1D216, CHR ''R''),
    (0x1D22A, CHR ''L''), (0x1D373, CHR ''T''), (0x1D377, CHR ''l''), (0x1D400, CHR ''A''),
    (0x1D401, CHR ''B''), (0x1D402, CHR ''C''), (0x1D403, CHR ''D''), (0x1D404, CHR ''E''),
    (0x1D405, CHR ''F''), (0x1D406, CHR ''G''), (0x1D407, CHR ''H''), (0x1D408, CHR ''l''),
    (0x1D409, CHR ''J''), (0x1D40A, CHR ''K''), (0x1D40B, CHR ''L''), (0x1D40C, CHR ''M''),
    (0x1D40D, CHR ''N''), (0x1D40E, CHR ''O''), (0x1D40F, CHR ''P''), (0x1D410, CHR ''Q''),
    (0x1D411, CHR ''R''), (0x1D412, CHR ''S''), (0x1D413, CHR ''T''), (0x1D414, CHR ''U''),
    (0x1D415, CHR ''V''), (0x1D416, CHR ''W''), (0x1D417, CHR ''X''), (0x1D418, CHR ''Y''),
    (0x1D419, CHR ''Z''), (0x1D41A, CHR ''a''), (0x1D41B, CHR ''b''), (0x1D41C, CHR ''c''),
    (0x1D41D, CHR ''d''), (0x1D41E, CHR ''e''), (0x1D41F, CHR ''f''), (0x1D420, CHR ''g''),
    (0x1D421, CHR ''h''), (0x1D422, CHR ''i''), (0x1D423, CHR ''j''), (0x1D424, CHR ''k''),
    (0x1D425, CHR ''l''), (0x1D427, CHR ''n''), (0x1D428, CHR ''o''), (0x1D429, CHR ''p''),
    (0x1D42A, CHR ''q''), (0x1D42B, CHR ''r''), (0x1D42C, CHR ''s''), (0x1D42D, CHR ''t''),
    (0x1D42E, CHR ''u''), (0x1D42F, CHR ''v''), (0x1D430, CHR ''w''), (0x1D431, CHR ''x''),
    (0x1D432, CHR ''y''), (0x1D433, CHR ''z''), (0x1D434, CHR ''A''), (0x1D435, CHR ''B''),
    (0x1D436, CHR ''C''), (0x1D437, CHR ''D''), (0x1D438, CHR ''E''), (0x1D439, CHR ''F''),
    (0x1D43A, CHR ''G''), (0x1D43B, CHR ''H''), (0x1D43C, CHR ''l''), (0x1D43D, CHR ''J''),
    (0x1D43E, CHR ''K''), (0x1D43F, CHR ''L''), (0x1D440, CHR ''M''), (0x1D441, CHR ''N''),
    (0x1D442, CHR ''O''), (0x1D443, CHR ''P''), (0x1D444, CHR ''Q''), (0x1D445, CHR ''R''),
    (0x1D446, CHR ''S''), (0x1D447, CHR ''T''), (0x1D448, CHR ''U''), (0x1D449, CHR ''V''),
    (0x1D44A, CHR ''W''), (0x1D44B, CHR ''X''), (0x1D44C, CHR ''Y''), (0x1D44D, CHR ''Z''),
    (0x1D44E, CHR ''a''), (0x1D44F, CHR ''b''), (0x1D450, CHR ''c''), (0x1D451, CHR ''d''),
    (0x1D452, CHR ''e''), (0x1D453, CHR ''f''), (0x1D454, CHR ''g''), (0x1D456, CHR ''i''),
    (0x1D457, CHR ''j''), (0x1D458, CHR ''k''), (0x1D459, CHR ''l''), (0x1D45B, CHR ''n''),
    (0x1D45C, CHR ''o''), (0x1D45D, CHR ''p''), (0x1D45E, CHR ''q''), (0x1D45F, CHR ''r''),
    (0x1D460, CHR ''s''), (0x1D461, CHR ''t''), (0x1D462, CHR ''u''), (0x1D463, CHR ''v''),
    (0x1D464, CHR ''w''), (0x1D465, CHR ''x''), (0x1D466, CHR ''y''), (0x1D467, CHR ''z''),
    (0x1D468, CHR ''A''), (0x1D469, CHR ''B''), (0x1D46A, CHR ''C''), (0x1D46B, CHR ''D''),
    (0x1D46C, CHR ''E''), (0x1D46D, CHR ''F''), (0x1D46E, CHR ''G''), (0x1D46F, CHR ''H''),
    (0x1D470, CHR ''l''), (0x1D471, CHR ''J''), (0x1D472, CHR ''K''), (0x1D473, CHR ''L''),
    (0x1D474, CHR ''M''), (0x1D475, CHR ''N''), (0x1D476, CHR ''O''), (0x1D477, CHR ''P''),
    (0x1D478, CHR ''Q''), (0x1D479, CHR ''R''), (0x1D47A, CHR ''S''), (0x1D47B, CHR ''T''),
    (0x1D47C, CHR ''U''), (0x1D47D, CHR ''V''), (0x1D47E, CHR ''W''), (0x1D47F, CHR ''X''),
    (0x1D480, CHR ''Y''), (0x1D481, CHR ''Z''), (0x1D482, CHR ''a''), (0x1D483, CHR ''b''),
    (0x1D484, CHR ''c''), (0x1D485, CHR ''d''), (0x1D486, CHR ''e''), (0x1D487, CHR ''f''),
    (0x1D488, CHR ''g''), (0x1D489, CHR ''h''), (0x1D48A, CHR ''i''), (0x1D48B, CHR ''j''),
    (0x1D48C, CHR ''k''), (0x1D48D, CHR ''l''), (0x1D48F, CHR ''n''), (0x1D490, CHR ''o''),
    (0x1D491, CHR ''p''), (0x1D492, CHR ''q''), (0x1D493, CHR ''r''), (0x1D494, CHR ''s''),
    (0x1D495, CHR ''t''), (0x1D496, CHR ''u''), (0x1D497, CHR ''v''), (0x1D498, CHR ''w''),
    (0x1D499, CHR ''x''), (0x1D49A, CHR ''y''), (0x1D49B, CHR ''z''), (0x1D49C, CHR ''A'')]"

definition LOOKALIKE_high :: "(nat \<times> char) list" where
  "LOOKALIKE_high = [
    (0x1D49E, CHR ''C''), (0x1D49F, CHR ''D''), (0x1D4A2, CHR ''G''), (0x1D4A5, CHR ''J''),
    (0x1D4A6, CHR ''K''), (0x1D4A9, CHR ''N''), (0x1D4AA, CHR ''O''), (0x1D4AB, CHR ''P''),
    (0x1D4AC, CHR ''Q''), (0x1D4AE, CHR ''S''), (0x1D4AF, CHR ''T''), (0x1D4B0, CHR ''U''),
    (0x1D4B1, CHR ''V''), (0x1D4B2, CHR ''W''), (0x1D4B3, CHR ''X''), (0x1D4B4, CHR ''Y''),
    (0x1D4B5, CHR ''Z''), (0x1D4B6, CHR ''a''), (0x1D4B7, CHR ''b''), (0x1D4B8, CHR ''c''),
    (0x1D4B9, CHR ''d''), (0x1D4BB, CHR ''f''), (0x1D4BD, CHR ''h''), (0x1D4BE, CHR ''i''),
    (0x1D4BF, CHR ''j''), (0x1D4C0, CHR ''k''), (0x1D4C1, CHR ''l''), (0x1D4C3, CHR ''n''),
    (0x1D4C5, CHR ''p''), (0x1D4C6, CHR ''q''), (0x1D4C7, CHR ''r''), (0x1D4C8, CHR ''s''),
    (0x1D4C9, CHR ''t''), (0x1D4CA, CHR ''u''), (0x1D4CB, CHR ''v''), (0x1D4CC, CHR ''w''),
    (0x1D4CD, CHR ''x''), (0x1D4CE, CHR ''y''), (0x1D4CF, CHR ''z''), (0x1D4D0, CHR ''A''),
    (0x1D4D1, CHR ''B''), (0x1D4D2, CHR ''C''), (0x1D4D3, CHR ''D''), (0x1D4D4, CHR ''E''),
    (0x1D4D5, CHR ''F''), (0x1D4D6, CHR ''G''), (0x1D4D7, CHR ''H''), (0x1D4D8, CHR ''l''),
    (0x1D4D9, CHR ''J''), (0x1D4DA, CHR ''K''), (0x1D4DB, CHR ''L''), (0x1D4DC, CHR ''M''),
    (0x1D4DD, CHR ''N''), (0x1D4DE, CHR ''O''), (0x1D4DF, CHR ''P''), (0x1D4E0, CHR ''Q''),
    (0x1D4E1, CHR ''R''), (0x1D4E2, CHR ''S''), (0x1D4E3, CHR ''T''), (0x1D4E4, CHR ''U''),
    (0x1D4E5, CHR ''V''), (0x1D4E6, CHR ''W''), (0x1D4E7, CHR ''X''), (0x1D4E8, CHR ''Y''),
    (0x1D4E9, CHR ''Z''), (0x1D4EA, CHR ''a''), (0x1D4EB, CHR ''b''), (0x1D4EC, CHR ''c''),
    (0x1D4ED, CHR ''d''), (0x1D4EE, CHR ''e''), (0x1D4EF, CHR ''f''), (0x1D4F0, CHR ''g''),
    (0x1D4F1, CHR ''h''), (0x1D4F2, CHR ''i''), (0x1D4F3, CHR ''j''), (0x1D4F4, CHR ''k''),
    (0x1D4F5, CHR ''l''), (0x1D4F7, CHR ''n''), (0x1D4F8, CHR ''o''), (0x1D4F9, CHR ''p''),
    (0x1D4FA, CHR ''q''), (0x1D4FB, CHR ''r''), (0x1D4FC, CHR ''s''), (0x1D4FD, CHR ''t''),
    (0x1D4FE, CHR ''u''), (0x1D4FF, CHR ''v''), (0x1D500, CHR ''w''), (0x1D501, CHR ''x''),
    (0x1D502, CHR ''y''), (0x1D503, CHR ''z''), (0x1D504, CHR ''A''), (0x1D505, CHR ''B''),
    (0x1D507, CHR ''D''), (0x1D508, CHR ''E''), (0x1D509, CHR ''F''), (0x1D50A, CHR ''G''),
    (0x1D50D, CHR ''J''), (0x1D50E, CHR ''K''), (0x1D50F, CHR ''L''), (0x1D510, CHR ''M''),
    (0x1D511, CHR ''N''), (0x1D512, CHR ''O''), (0x1D513, CHR ''P''), (0x1D514, CHR ''Q''),
    (0x1D516, CHR ''S''), (0x1D517, CHR ''T''), (0x1D518, CHR ''U''), (0x1D519, CHR ''V''),
    (0x1D51A, CHR ''W''), (0x1D51B, CHR ''X''), (0x1D51C, CHR ''Y''), (0x1D51E, CHR ''a''),
    (0x1D51F, CHR ''b''), (0x1D520, CHR ''c''), (0x1D521, CHR ''d''), (0x1D522, CHR ''e''),
    (0x1D523, CHR ''f''), (0x1D524, CHR ''g''), (0x1D525, CHR ''h''), (0x1D526, CHR ''i''),
    (0x1D527, CHR ''j''), (0x1D528, CHR ''k''), (0x1D529, CHR ''l''), (0x1D52B, CHR ''n''),
    (0x1D52C, CHR ''o''), (0x1D52D, CHR ''p''), (0x1D52E, CHR ''q''), (0x1D52F, CHR ''r''),
    (0x1D530, CHR ''s''), (0x1D531, CHR ''t''), (0x1D532, CHR ''u''), (0x1D533, CHR ''v''),
    (0x1D534, CHR ''w''), (0x1D535, CHR ''x''), (0x1D536, CHR ''y''), (0x1D537, CHR ''z''),
    (0x1D538, CHR ''A''), (0x1D539, CHR ''B''), (0x1D53B, CHR ''D''), (0x1D53C, CHR ''E''),
    (0x1D53D, CHR ''F''), (0x1D53E, CHR ''G''), (0x1D540, CHR ''l''), (0x1D541, CHR ''J''),
    (0x1D542, CHR ''K''), (0x1D543, CHR ''L''), (0x1D544, CHR ''M''), (0x1D546, CHR ''O''),
    (0x1D54A, CHR ''S''), (0x1D54B, CHR ''T''), (0x1D54C, CHR ''U''), (0x1D54D, CHR ''V''),
    (0x1D54E, CHR ''W''), (0x1D54F, CHR ''X''), (0x1D550, CHR ''Y''), (0x1D552, CHR ''a''),
    (0x1D553, CHR ''b''), (0x1D554, CHR ''c''), (0x1D555, CHR ''d''), (0x1D556, CHR ''e''),
    (0x1D557, CHR ''f''), (0x1D558, CHR ''g''), (0x1D559, CHR ''h''), (0x1D55A, CHR ''i''),
    (0x1D55B, CHR ''j''), (0x1D55C, CHR ''k''), (0x1D55D, CHR ''l''), (0x1D55F, CHR ''n''),
    (0x1D560, CHR ''o''), (0x1D561, CHR ''p''), (0x1D562, CHR ''q''), (0x1D563, CHR ''r''),
    (0x1D564, CHR ''s''), (0x1D565, CHR ''t''), (0x1D566, CHR ''u''), (0x1D567, CHR ''v''),
    (0x1D568, CHR ''w''), (0x1D569, CHR ''x''), (0x1D56A, CHR ''y''), (0x1D56B, CHR ''z''),
    (0x1D56C, CHR ''A''), (0x1D56D, CHR ''B''), (0x1D56E, CHR ''C''), (0x1D56F, CHR ''D''),
    (0x1D570, CHR ''E''), (0x1D571, CHR ''F''), (0x1D572, CHR ''G''), (0x1D573, CHR ''H''),
    (0x1D574, CHR ''l''), (0x1D575, CHR ''J''), (0x1D576, CHR ''K''), (0x1D577, CHR ''L''),
    (0x1D578, CHR ''M''), (0x1D579, CHR ''N''), (0x1D57A, CHR ''O''), (0x1D57B, CHR ''P''),
    (0x1D57C, CHR ''Q''), (0x1D57D, CHR ''R''), (0x1D57E, CHR ''S''), (0x1D57F, CHR ''T''),
    (0x1D580, CHR ''U''), (0x1D581, CHR ''V''), (0x1D582, CHR ''W''), (0x1D583, CHR ''X''),
    (0x1D584, CHR ''Y''), (0x1D585, CHR ''Z''), (0x1D586, CHR ''a''), (0x1D587, CHR ''b''),
    (0x1D588, CHR ''c''), (0x1D589, CHR ''d''), (0x1D58A, CHR ''e''), (0x1D58B, CHR ''f''),
    (0x1D58C, CHR ''g''), (0x1D58D, CHR ''h''), (0x1D58E, CHR ''i''), (0x1D58F, CHR ''j''),
    (0x1D590, CHR ''k''), (0x1D591, CHR ''l''), (0x1D593, CHR ''n''), (0x1D594, CHR ''o''),
    (0x1D595, CHR ''p''), (0x1D596, CHR ''q''), (0x1D597, CHR ''r''), (0x1D598, CHR ''s''),
    (0x1D599, CHR ''t''), (0x1D59A, CHR ''u''), (0x1D59B, CHR ''v''), (0x1D59C, CHR ''w''),
    (0x1D59D, CHR ''x''), (0x1D59E, CHR ''y''), (0x1D59F, CHR ''z''), (0x1D5A0, CHR ''A''),
    (0x1D5A1, CHR ''B''), (0x1D5A2, CHR ''C''), (0x1D5A3, CHR ''D''), (0x1D5A4, CHR ''E''),
    (0x1D5A5, CHR ''F''), (0x1D5A6, CHR ''G''), (0x1D5A7, CHR ''H''), (0x1D5A8, CHR ''l''),
    (0x1D5A9, CHR ''J''), (0x1D5AA, CHR ''K''), (0x1D5AB, CHR ''L''), (0x1D5AC, CHR ''M''),
    (0x1D5AD, CHR ''N''), (0x1D5AE, CHR ''O''), (0x1D5AF, CHR ''P''), (0x1D5B0, CHR ''Q''),
    (0x1D5B1, CHR ''R''), (0x1D5B2, CHR ''S''), (0x1D5B3, CHR ''T''), (0x1D5B4, CHR ''U''),
    (0x1D5B5, CHR ''V''), (0x1D5B6, CHR ''W''), (0x1D5B7, CHR ''X''), (0x1D5B8, CHR ''Y''),
    (0x1D5B9, CHR ''Z''), (0x1D5BA, CHR ''a''), (0x1D5BB, CHR ''b''), (0x1D5BC, CHR ''c''),
    (0x1D5BD, CHR ''d''), (0x1D5BE, CHR ''e''), (0x1D5BF, CHR ''f''), (0x1D5C0, CHR ''g''),
    (0x1D5C1, CHR ''h''), (0x1D5C2, CHR ''i''), (0x1D5C3, CHR ''j''), (0x1D5C4, CHR ''k''),
    (0x1D5C5, CHR ''l''), (0x1D5C7, CHR ''n''), (0x1D5C8, CHR ''o''), (0x1D5C9, CHR ''p''),
    (0x1D5CA, CHR ''q''), (0x1D5CB, CHR ''r''), (0x1D5CC, CHR ''s''), (0x1D5CD, CHR ''t''),
    (0x1D5CE, CHR ''u''), (0x1D5CF, CHR ''v''), (0x1D5D0, CHR ''w''), (0x1D5D1, CHR ''x''),
    (0x1D5D2, CHR ''y''), (0x1D5D3, CHR ''z''), (0x1D5D4, CHR ''A''), (0x1D5D5, CHR ''B''),
    (0x1D5D6, CHR ''C''), (0x1D5D7, CHR ''D''), (0x1D5D8, CHR ''E''), (0x1D5D9, CHR ''F''),
    (0x1D5DA, CHR ''G''), (0x1D5DB, CHR ''H''), (0x1D5DC, CHR ''l''), (0x1D5DD, CHR ''J''),
    (0x1D5DE, CHR ''K''), (0x1D5DF, CHR ''L''), (0x1D5E0, CHR ''M''), (0x1D5E1, CHR ''N''),
    (0x1D5E2, CHR ''O''), (0x1D5E3, CHR ''P''), (0x1D5E4, CHR ''Q''), (0x1D5E5, CHR ''R''),
    (0x1D5E6, CHR ''S''), (0x1D5E7, CHR ''T''), (0x1D5E8, CHR ''U''), (0x1D5E9, CHR ''V''),
    (0x1D5EA, CHR ''W''), (0x1D5EB, CHR ''X''), (0x1D5EC, CHR ''Y''), (0x1D5ED, CHR ''Z''),
    (0x1D5EE, CHR ''a''), (0x1D5EF, CHR ''b''), (0x1D5F0, CHR ''c''), (0x1D5F1, CHR ''d''),
    (0x1D5F2, CHR ''e''), (0x1D5F3, CHR ''f''), (0x1D5F4, CHR ''g''), (0x1D5F5, CHR ''h''),
    (0x1D5F6, CHR ''i''), (0x1D5F7, CHR ''j''), (0x1D5F8, CHR ''k''), (0x1D5F9, CHR ''l''),
    (0x1D5FB, CHR ''n''), (0x1D5FC, CHR ''o''), (0x1D5FD, CHR ''p''), (0x1D5FE, CHR ''q''),
    (0x1D5FF, CHR ''r''), (0x1D600, CHR ''s''), (0x1D601, CHR ''t''), (0x1D602, CHR ''u''),
    (0x1D603, CHR ''v''), (0x1D604, CHR ''w''), (0x1D605, CHR ''x''), (0x1D606, CHR ''y''),
    (0x1D607, CHR ''z''), (0x1D608, CHR ''A''), (0x1D609, CHR ''B''), (0x1D60A, CHR ''C''),
    (0x1D60B, CHR ''D''), (0x1D60C, CHR ''E''), (0x1D60D, CHR ''F''), (0x1D60E, CHR ''G''),
    (0x1D60F, CHR ''H''), (0x1D610, CHR ''l''), (0x1D611, CHR ''J''), (0x1D612, CHR ''K''),
    (0x1D613, CHR ''L''), (0x1D614, CHR ''M''), (0x1D615, CHR ''N''), (0x1D616, CHR ''O''),
    (0x1D617, CHR ''P''), (0x1D618, CHR ''Q''), (0x1D619, CHR ''R''), (0x1D61A, CHR ''S''),
    (0x1D61B, CHR ''T''), (0x1D61C, CHR ''U''), (0x1D61D, CHR ''V''), (0x1D61E, CHR ''W''),
    (0x1D61F, CHR ''X''), (0x1D620, CHR ''Y''), (0x1D621, CHR ''Z''), (0x1D622, CHR ''a''),
    (0x1D623, CHR ''b''), (0x1D624, CHR ''c''), (0x1D625, CHR ''d''), (0x1D626, CHR ''e''),
    (0x1D627, CHR ''f''), (0x1D628, CHR ''g''), (0x1D629, CHR ''h''), (0x1D62A, CHR ''i''),
    (0x1D62B, CHR ''j''), (0x1D62C, CHR ''k''), (0x1D62D, CHR ''l''), (0x1D62F, CHR ''n''),
    (0x1D630, CHR ''o''), (0x1D631, CHR ''p''), (0x1D632, CHR ''q''), (0x1D633, CHR ''r''),
    (0x1D634, CHR ''s''), (0x1D635, CHR ''t''), (0x1D636, CHR ''u''), (0x1D637, CHR ''v''),
    (0x1D638, CHR ''w''), (0x1D639, CHR ''x''), (0x1D63A, CHR ''y''), (0x1D63B, CHR ''z''),
    (0x1D63C, CHR ''A''), (0x1D63D, CHR ''B''), (0x1D63E, CHR ''C''), (0x1D63F, CHR ''D''),
    (0x1D640, CHR ''E''), (0x1D641, CHR ''F''), (0x1D642, CHR ''G''), (0x1D643, CHR ''H''),
    (0x1D644, CHR ''l''), (0x1D645, CHR ''J''), (0x1D646, CHR ''K''), (0x1D647, CHR ''L''),
    (0x1D648, CHR ''M''), (0x1D649, CHR ''N''), (0x1D64A, CHR ''O''), (0x1D64B, CHR ''P''),
    (0x1D64C, CHR ''Q''), (0x1D64D, CHR ''R''), (0x1D64E, CHR ''S''), (0x1D64F, CHR ''T''),
    (0x1D650, CHR ''U''), (0x1D651, CHR ''V''), (0x1D652, CHR ''W''), (0x1D653, CHR ''X''),
    (0x1D654, CHR ''Y''), (0x1D655, CHR ''Z''), (0x1D656, CHR ''a''), (0x1D657, CHR ''b''),
    (0x1D658, CHR ''c''), (0x1D659, CHR ''d''), (0x1D65A, CHR ''e''), (0x1D65B, CHR ''f''),
    (0x1D65C, CHR ''g''), (0x1D65D, CHR ''h''), (0x1D65E, CHR ''i''), (0x1D65F, CHR ''j''),
    (0x1D660, CHR ''k''), (0x1D661, CHR ''l''), (0x1D663, CHR ''n''), (0x1D664, CHR ''o''),
    (0x1D665, CHR ''p''), (0x1D666, CHR ''q''), (0x1D667, CHR ''r''), (0x1D668, CHR ''s''),
    (0x1D669, CHR ''t''), (0x1D66A, CHR ''u''), (0x1D66B, CHR ''v''), (0x1D66C, CHR ''w''),
    (0x1D66D, CHR ''x''), (0x1D66E, CHR ''y''), (0x1D66F, CHR ''z''), (0x1D670, CHR ''A''),
    (0x1D671, CHR ''B''), (0x1D672, CHR ''C''), (0x1D673, CHR ''D''), (0x1D674, CHR ''E''),
    (0x1D675, CHR ''F''), (0x1D676, CHR ''G''), (0x1D677, CHR ''H''), (0x1D678, CHR ''l''),
    (0x1D679, CHR ''J''), (0x1D67A, CHR ''K''), (0x1D67B, CHR ''L''), (0x1D67C, CHR ''M''),
    (0x1D67D, CHR ''N''), (0x1D67E, CHR ''O''), (0x1D67F, CHR ''P''), (0x1D680, CHR ''Q''),
    (0x1D681, CHR ''R''), (0x1D682, CHR ''S''), (0x1D683, CHR ''T''), (0x1D684, CHR ''U''),
    (0x1D685, CHR ''V''), (0x1D686, CHR ''W''), (0x1D687, CHR ''X''), (0x1D688, CHR ''Y''),
    (0x1D689, CHR ''Z''), (0x1D68A, CHR ''a''), (0x1D68B, CHR ''b''), (0x1D68C, CHR ''c''),
    (0x1D68D, CHR ''d''), (0x1D68E, CHR ''e''), (0x1D68F, CHR ''f''), (0x1D690, CHR ''g''),
    (0x1D691, CHR ''h''), (0x1D692, CHR ''i''), (0x1D693, CHR ''j''), (0x1D694, CHR ''k''),
    (0x1D695, CHR ''l''), (0x1D697, CHR ''n''), (0x1D698, CHR ''o''), (0x1D699, CHR ''p''),
    (0x1D69A, CHR ''q''), (0x1D69B, CHR ''r''), (0x1D69C, CHR ''s''), (0x1D69D, CHR ''t''),
    (0x1D69E, CHR ''u''), (0x1D69F, CHR ''v''), (0x1D6A0, CHR ''w''), (0x1D6A1, CHR ''x''),
    (0x1D6A2, CHR ''y''), (0x1D6A3, CHR ''z''), (0x1D6A4, CHR ''i''), (0x1D6A5, CHR ''j''),
    (0x1D6A8, CHR ''A''), (0x1D6A9, CHR ''B''), (0x1D6AC, CHR ''E''), (0x1D6AD, CHR ''Z''),
    (0x1D6AE, CHR ''H''), (0x1D6B0, CHR ''l''), (0x1D6B1, CHR ''K''), (0x1D6B3, CHR ''M''),
    (0x1D6B4, CHR ''N''), (0x1D6B6, CHR ''O''), (0x1D6B8, CHR ''P''), (0x1D6BB, CHR ''T''),
    (0x1D6BC, CHR ''Y''), (0x1D6BE, CHR ''X''), (0x1D6C2, CHR ''a''), (0x1D6C4, CHR ''y''),
    (0x1D6CA, CHR ''i''), (0x1D6CE, CHR ''v''), (0x1D6D0, CHR ''o''), (0x1D6D2, CHR ''p''),
    (0x1D6D4, CHR ''o''), (0x1D6D6, CHR ''u''), (0x1D6E0, CHR ''p''), (0x1D6E2, CHR ''A''),
    (0x1D6E3, CHR ''B''), (0x1D6E6, CHR ''E''), (0x1D6E7, CHR ''Z''), (0x1D6E8, CHR ''H''),
    (0x1D6EA, CHR ''l''), (0x1D6EB, CHR ''K''), (0x1D6ED, CHR ''M''), (0x1D6EE, CHR ''N''),
    (0x1D6F0, CHR ''O''), (0x1D6F2, CHR ''P''), (0x1D6F5, CHR ''T''), (0x1D6F6, CHR ''Y''),
    (0x1D6F8, CHR ''X''), (0x1D6FC, CHR ''a''), (0x1D6FE, CHR ''y''), (0x1D704, CHR ''i''),
    (0x1D708, CHR ''v''), (0x1D70A, CHR ''o''), (0x1D70C, CHR ''p''), (0x1D70E, CHR ''o''),
    (0x1D710, CHR ''u''), (0x1D71A, CHR ''p''), (0x1D71C, CHR ''A''), (0x1D71D, CHR ''B''),
    (0x1D720, CHR ''E''), (0x1D721, CHR ''Z''), (0x1D722, CHR ''H''), (0x1D724, CHR ''l''),
    (0x1D725, CHR ''K''), (0x1D727, CHR ''M''), (0x1D728, CHR ''N''), (0x1D72A, CHR ''O''),
    (0x1D72C, CHR ''P''), (0x1D72F, CHR ''T''), (0x1D730, CHR ''Y''), (0x1D732, CHR ''X''),
    (0x1D736, CHR ''a''), (0x1D738, CHR ''y''), (0x1D73E, CHR ''i''), (0x1D742, CHR ''v''),
    (0x1D744, CHR ''o''), (0x1D746, CHR ''p''), (0x1D748, CHR ''o''), (0x1D74A, CHR ''u''),
    (0x1D754, CHR ''p''), (0x1D756, CHR ''A''), (0x1D757, CHR ''B''), (0x1D75A, CHR ''E''),
    (0x1D75B, CHR ''Z''), (0x1D75C, CHR ''H''), (0x1D75E, CHR ''l''), (0x1D75F, CHR ''K''),
    (0x1D761, CHR ''M''), (0x1D762, CHR ''N''), (0x1D764, CHR ''O''), (0x1D766, CHR ''P''),
    (0x1D769, CHR ''T''), (0x1D76A, CHR ''Y''), (0x1D76C, CHR ''X''), (0x1D770, CHR ''a''),
    (0x1D772, CHR ''y''), (0x1D778, CHR ''i''), (0x1D77C, CHR ''v''), (0x1D77E, CHR ''o''),
    (0x1D780, CHR ''p''), (0x1D782, CHR ''o''), (0x1D784, CHR ''u''), (0x1D78E, CHR ''p''),
    (0x1D790, CHR ''A''), (0x1D791, CHR ''B''), (0x1D794, CHR ''E''), (0x1D795, CHR ''Z''),
    (0x1D796, CHR ''H''), (0x1D798, CHR ''l''), (0x1D799, CHR ''K''), (0x1D79B, CHR ''M''),
    (0x1D79C, CHR ''N''), (0x1D79E, CHR ''O''), (0x1D7A0, CHR ''P''), (0x1D7A3, CHR ''T''),
    (0x1D7A4, CHR ''Y''), (0x1D7A6, CHR ''X''), (0x1D7AA, CHR ''a''), (0x1D7AC, CHR ''y''),
    (0x1D7B2, CHR ''i''), (0x1D7B6, CHR ''v''), (0x1D7B8, CHR ''o''), (0x1D7BA, CHR ''p''),
    (0x1D7BC, CHR ''o''), (0x1D7BE, CHR ''u''), (0x1D7C8, CHR ''p''), (0x1D7CA, CHR ''F''),
    (0x1D7CE, CHR ''O''), (0x1D7CF, CHR ''l''), (0x1D7D0, CHR ''2''), (0x1D7D1, CHR ''3''),
    (0x1D7D2, CHR ''4''), (0x1D7D3, CHR ''5''), (0x1D7D4, CHR ''6''), (0x1D7D5, CHR ''7''),
    (0x1D7D6, CHR ''8''), (0x1D7D7, CHR ''9''), (0x1D7D8, CHR ''O''), (0x1D7D9, CHR ''l''),
    (0x1D7DA, CHR ''2''), (0x1D7DB, CHR ''3''), (0x1D7DC, CHR ''4''), (0x1D7DD, CHR ''5''),
    (0x1D7DE, CHR ''6''), (0x1D7DF, CHR ''7''), (0x1D7E0, CHR ''8''), (0x1D7E1, CHR ''9''),
    (0x1D7E2, CHR ''O''), (0x1D7E3, CHR ''l''), (0x1D7E4, CHR ''2''), (0x1D7E5, CHR ''3''),
    (0x1D7E6, CHR ''4''), (0x1D7E7, CHR ''5''), (0x1D7E8, CHR ''6''), (0x1D7E9, CHR ''7''),
    (0x1D7EA, CHR ''8''), (0x1D7EB, CHR ''9''), (0x1D7EC, CHR ''O''), (0x1D7ED, CHR ''l''),
    (0x1D7EE, CHR ''2''), (0x1D7EF, CHR ''3''), (0x1D7F0, CHR ''4''), (0x1D7F1, CHR ''5''),
    (0x1D7F2, CHR ''6''), (0x1D7F3, CHR ''7''), (0x1D7F4, CHR ''8''), (0x1D7F5, CHR ''9''),
    (0x1D7F6, CHR ''O''), (0x1D7F7, CHR ''l''), (0x1D7F8, CHR ''2''), (0x1D7F9, CHR ''3''),
    (0x1D7FA, CHR ''4''), (0x1D7FB, CHR ''5''), (0x1D7FC, CHR ''6''), (0x1D7FD, CHR ''7''),
    (0x1D7FE, CHR ''8''), (0x1D7FF, CHR ''9''), (0x1DF5A, CHR ''a''), (0x1DF6A, CHR ''A''),
    (0x1DF7D, CHR ''w''), (0x1DF81, CHR ''E''), (0x1E140, CHR ''O''), (0x1E141, CHR ''l''),
    (0x1E145, CHR ''V''), (0x1E2F0, CHR ''O''), (0x1E2F2, CHR ''9''), (0x1E8C7, CHR ''l''),
    (0x1E8CB, CHR ''8''), (0x1ED01, CHR ''l''), (0x1EE00, CHR ''l''), (0x1EE24, CHR ''o''),
    (0x1EE80, CHR ''l''), (0x1EE84, CHR ''o''), (0x1F74C, CHR ''C''), (0x1F768, CHR ''T''),
    (0x1FBF0, CHR ''O''), (0x1FBF1, CHR ''l''), (0x1FBF2, CHR ''2''), (0x1FBF3, CHR ''3''),
    (0x1FBF4, CHR ''4''), (0x1FBF5, CHR ''5''), (0x1FBF6, CHR ''6''), (0x1FBF7, CHR ''7''),
    (0x1FBF8, CHR ''8''), (0x1FBF9, CHR ''9'')]"

section \<open>Folding\<close>

definition is_ignorable :: "nat \<Rightarrow> bool" where
  "is_ignorable point \<longleftrightarrow> list_ex (\<lambda>(first, last). first \<le> point \<and> point \<le> last) IGNORABLE"

definition is_compatibility_form :: "nat \<Rightarrow> bool" where
  "is_compatibility_form c \<longleftrightarrow> 0xFF00 \<le> c \<and> c \<le> 0xFFEF \<or> 0x1D400 \<le> c \<and> c \<le> 0x1D7FF"

definition ascii_lookalike :: "nat \<Rightarrow> nat option" where
  "ascii_lookalike c = map_option of_char (map_of (LOOKALIKE_low @ LOOKALIKE_high) c)"

definition fold_lookalike :: "nat \<Rightarrow> nat" where
  "fold_lookalike c =
     (if c < 0x80 then c else case ascii_lookalike c of Some a \<Rightarrow> a | None \<Rightarrow> c)"

definition point_is_ascii_alphabetic :: "nat \<Rightarrow> bool" where
  "point_is_ascii_alphabetic c \<longleftrightarrow> 0x41 \<le> c \<and> c \<le> 0x5A \<or> 0x61 \<le> c \<and> c \<le> 0x7A"

definition visible_points :: "nat list \<Rightarrow> nat list" where
  "visible_points raw =
     map (\<lambda>c. if is_compatibility_form c
              then (case ascii_lookalike c of Some a \<Rightarrow> a | None \<Rightarrow> c) else c)
       (filter (\<lambda>c. \<not> is_ignorable c) raw)"

definition canonical_points :: "(nat list \<Rightarrow> nat list) \<Rightarrow> nat list \<Rightarrow> nat list" where
  "canonical_points lower raw =
     (let visible = visible_points raw;
          lowered = lower visible;
          folded =
            (if list_ex point_is_ascii_alphabetic lowered
             then lower (map fold_lookalike (lower (map fold_lookalike visible)))
             else lowered)
      in join [0x20] (split_whitespace_points [] folded))"

definition canonical_family :: "(nat list \<Rightarrow> nat list) \<Rightarrow> str \<Rightarrow> str" where
  "canonical_family lower raw = utf8_encode (canonical_points lower (utf8_decode raw))"

text \<open>An instance of \<open>lower\<close> for the ASCII letters, which the witnesses use.\<close>

definition lower_ascii :: "nat list \<Rightarrow> nat list" where
  "lower_ascii cs = map (\<lambda>c. if 0x41 \<le> c \<and> c \<le> 0x5A then c + 0x20 else c) cs"

section \<open>Lemmas\<close>

lemma split_points_words:
  "w \<in> set (split_whitespace_points cur cs) \<Longrightarrow> list_all (\<lambda>c. \<not> is_whitespace c) cur \<Longrightarrow>
    w \<noteq> [] \<and> list_all (\<lambda>c. \<not> is_whitespace c) w"
  by (induction cur cs rule: split_whitespace_points.induct) (auto split: if_splits)

lemma split_points_word:
  "list_all (\<lambda>c. \<not> is_whitespace c) w \<Longrightarrow>
    split_whitespace_points cur (w @ cs) = split_whitespace_points (cur @ w) cs"
  by (induction w arbitrary: cur) auto

lemma space_is_whitespace [simp]: "is_whitespace 0x20"
  by (simp add: is_whitespace_def)

lemma split_join:
  "(\<And>w. w \<in> set ws \<Longrightarrow> w \<noteq> [] \<and> list_all (\<lambda>c. \<not> is_whitespace c) w) \<Longrightarrow>
    split_whitespace_points [] (join [0x20] ws) = ws"
proof (induction ws rule: induct_list012)
  case (2 w)
  then show ?case using split_points_word[of w "[]" "[]"] by simp
next
  case (3 v w ws)
  then show ?case using split_points_word[of v "[]" "0x20 # join [0x20] (w # ws)"] by simp
qed simp

lemma words_of_canonical:
  "split_whitespace_points [] (join [0x20] (split_whitespace_points [] cs)) = split_whitespace_points [] cs"
  by (rule split_join) (auto dest: split_points_words)

end
