(* ===== verification/Evidence_Ancestry.thy ===== *)
theory Evidence_Ancestry
  imports Canonical_Family
begin

text \<open>
  \<open>src/evidence_ancestry.rs\<close>: the evidence graph, its validating insertions, the depth-first
  walk to the observed roots of a node, and the bounded search for mutually independent roots.
  A \<open>BTreeMap\<close> is an association list sorted by key, a \<open>BTreeSet\<close> a sorted list without
  duplicates. The walk's explicit stack is a list with its top at the head. Text of an error that
  is not an identifier is kept as written in the source.
\<close>

record ancestry_node =
  id :: str
  source_family :: str
  parents :: "str list"
  derived :: bool

datatype independence_state = ProvenIndependent | KnownDependent | Unknown

datatype independence_basis =
  DistinctAuthenticatedPrimaryOrigins | DistinctDirectSensorObservations | ExplicitUpstreamProvenance

record independence_evidence =
  left_root :: str
  right_root :: str
  basis :: independence_basis
  method_id :: str
  method_version :: u32
  supporting_artifact_ids :: "str list"
  observed_at_unix :: u64

record route_count =
  proven :: nat
  incomplete :: bool

record ancestry_graph =
  nodes :: "(str \<times> ancestry_node) list"
  independence :: "(str \<times> (str \<times> independence_evidence) list) list"

datatype ancestry_error =
    DuplicateNode str
  | MissingNode str
  | Cycle str
  | EmptySourceFamily str
  | DerivedWithoutParent str
  | InvalidIndependenceEvidence str
  | ConflictingIndependenceEvidence str str

definition empty_graph :: ancestry_graph where
  "empty_graph = \<lparr>nodes = [], independence = []\<rparr>"

section \<open>Insertion\<close>

definition canonical_pair :: "str \<Rightarrow> str \<Rightarrow> ancestry_error + (str \<times> str)" where
  "canonical_pair left right =
     (if left = right then Inl (InvalidIndependenceEvidence ''independence requires two distinct roots'')
      else Inr (if left < right then (left, right) else (right, left)))"

definition insert_node ::
  "(nat list \<Rightarrow> nat list) \<Rightarrow> ancestry_graph \<Rightarrow> ancestry_node \<Rightarrow> ancestry_error + ancestry_graph"
where
  "insert_node lower g node0 =
     (let node = node0\<lparr>source_family := canonical_family lower (source_family node0)\<rparr> in
      if source_family node = [] then Inl (EmptySourceFamily (id node))
      else if derived node \<and> parents node = [] then Inl (DerivedWithoutParent (id node))
      else if map_of (nodes g) (id node) \<noteq> None then Inl (DuplicateNode (id node))
      else Inr (g\<lparr>nodes := bmap_insert (id node) node (nodes g)\<rparr>))"

fun check_roots :: "ancestry_graph \<Rightarrow> str list \<Rightarrow> ancestry_error option" where
  "check_roots g [] = None"
| "check_roots g (r # rs) =
     (case map_of (nodes g) r of
        None \<Rightarrow> Some (MissingNode r)
      | Some node \<Rightarrow>
          if derived node \<or> parents node \<noteq> []
          then Some (InvalidIndependenceEvidence (r @ '' is not an observed root''))
          else check_roots g rs)"

definition records_of :: "ancestry_graph \<Rightarrow> str \<Rightarrow> (str \<times> independence_evidence) list" where
  "records_of g left = (case map_of (independence g) left of Some rs \<Rightarrow> rs | None \<Rightarrow> [])"

definition insert_independence_evidence ::
  "ancestry_graph \<Rightarrow> independence_evidence \<Rightarrow> ancestry_error + ancestry_graph"
where
  "insert_independence_evidence g ev =
     (case canonical_pair (left_root ev) (right_root ev) of
        Inl e \<Rightarrow> Inl e
      | Inr (left, right) \<Rightarrow>
          (case check_roots g [left, right] of
             Some e \<Rightarrow> Inl e
           | None \<Rightarrow>
               (let m = trim (method_id ev) in
                if m = [] then Inl (InvalidIndependenceEvidence ''method_id is empty'')
                else if method_version ev = 0
                then Inl (InvalidIndependenceEvidence ''method_version must be greater than zero'')
                else if supporting_artifact_ids ev = []
                  \<or> list_ex (\<lambda>a. trim a = []) (supporting_artifact_ids ev)
                then Inl (InvalidIndependenceEvidence
                  ''supporting_artifact_ids must contain non-empty ids'')
                else
                  (let ev' = ev\<lparr>left_root := left, right_root := right, method_id := m\<rparr>;
                       records = records_of g left;
                       g' = g\<lparr>independence := bmap_insert left records (independence g)\<rparr>
                   in case map_of records right of
                        Some existing \<Rightarrow>
                          if existing = ev' then Inr g'
                          else Inl (ConflictingIndependenceEvidence left right)
                      | None \<Rightarrow>
                          Inr (g\<lparr>independence :=
                            bmap_insert left (bmap_insert right ev' records) (independence g)\<rparr>)))))"

section \<open>Deserialisation\<close>

text \<open>\<open>TryFrom<RawGraph>\<close>: every node and every record goes through the validating insertions.\<close>

datatype load_error =
    NodeKeyMismatch str str
  | PairKeyMismatch str str str str
  | LoadError ancestry_error

fun load_nodes ::
  "(nat list \<Rightarrow> nat list) \<Rightarrow> ancestry_graph \<Rightarrow> (str \<times> ancestry_node) list \<Rightarrow> load_error + ancestry_graph"
where
  "load_nodes lower g [] = Inr g"
| "load_nodes lower g ((key, node) # rest) =
     (if key \<noteq> id node then Inl (NodeKeyMismatch key (id node))
      else (case insert_node lower g node of
              Inl e \<Rightarrow> Inl (LoadError e)
            | Inr g' \<Rightarrow> load_nodes lower g' rest))"

fun load_records ::
  "ancestry_graph \<Rightarrow> str \<Rightarrow> (str \<times> independence_evidence) list \<Rightarrow> load_error + ancestry_graph"
where
  "load_records g left_key [] = Inr g"
| "load_records g left_key ((right_key, ev) # rest) =
     (case canonical_pair (left_root ev) (right_root ev) of
        Inl e \<Rightarrow> Inl (LoadError e)
      | Inr (left, right) \<Rightarrow>
          if left_key \<noteq> left \<or> right_key \<noteq> right
          then Inl (PairKeyMismatch left_key right_key (left_root ev) (right_root ev))
          else (case insert_independence_evidence g ev of
                  Inl e \<Rightarrow> Inl (LoadError e)
                | Inr g' \<Rightarrow> load_records g' left_key rest))"

fun load_independence ::
  "ancestry_graph \<Rightarrow> (str \<times> (str \<times> independence_evidence) list) list \<Rightarrow> load_error + ancestry_graph"
where
  "load_independence g [] = Inr g"
| "load_independence g ((left_key, records) # rest) =
     (case load_records g left_key records of
        Inl e \<Rightarrow> Inl e
      | Inr g' \<Rightarrow> load_independence g' rest)"

definition try_from_raw ::
  "(nat list \<Rightarrow> nat list) \<Rightarrow> ancestry_graph \<Rightarrow> load_error + ancestry_graph"
where
  "try_from_raw lower raw =
     (case load_nodes lower empty_graph (nodes raw) of
        Inl e \<Rightarrow> Inl e
      | Inr g \<Rightarrow> load_independence g (independence raw))"

section \<open>The walk to the roots\<close>

fun push_parents ::
  "(str \<times> ancestry_node) list \<Rightarrow> str list \<Rightarrow> str list \<Rightarrow> str list \<Rightarrow> (str \<times> bool) list
    \<Rightarrow> ancestry_error + (str \<times> bool) list"
where
  "push_parents ns [] visited on_path stack = Inr stack"
| "push_parents ns (parent # ps) visited on_path stack =
     (case map_of ns parent of
        None \<Rightarrow> Inl (MissingNode parent)
      | Some _ \<Rightarrow>
          if List.member on_path parent then Inl (Cycle parent)
          else push_parents ns ps visited on_path
                 (if List.member visited parent then stack else (parent, False) # stack))"

text \<open>The nodes the walk has not entered yet: their number bounds the expansions to come.\<close>

definition unentered :: "(str \<times> ancestry_node) list \<Rightarrow> str list \<Rightarrow> str list \<Rightarrow> str list" where
  "unentered ns visited on_path =
     filter (\<lambda>k. k \<notin> set visited \<and> k \<notin> set on_path) (map fst ns)"

lemma unentered_visit:
  "length (unentered ns (bset_insert current visited) (removeAll current on_path))
    \<le> length (unentered ns visited on_path)"
proof -
  have "unentered ns (bset_insert current visited) (removeAll current on_path)
      = filter (\<lambda>k. k \<noteq> current) (unentered ns visited on_path)"
    by (auto simp: unentered_def intro: filter_cong)
  then show ?thesis by simp
qed

lemma unentered_expand:
  "map_of ns current = Some node \<Longrightarrow> current \<notin> set visited \<Longrightarrow> current \<notin> set on_path \<Longrightarrow>
    length (unentered ns visited (bset_insert current on_path)) < length (unentered ns visited on_path)"
proof -
  assume a: "map_of ns current = Some node" "current \<notin> set visited" "current \<notin> set on_path"
  have "unentered ns visited (bset_insert current on_path)
      = filter (\<lambda>k. k \<noteq> current) (unentered ns visited on_path)"
    by (auto simp: unentered_def intro: filter_cong)
  moreover have "current \<in> set (unentered ns visited on_path)"
    using a by (force simp: unentered_def dest: map_of_SomeD)
  ultimately show ?thesis using length_filter_less[of current _ "\<lambda>k. k \<noteq> current"] by simp
qed


function root_walk ::
  "(str \<times> ancestry_node) list \<Rightarrow> (str \<times> bool) list \<Rightarrow> str list \<Rightarrow> str list \<Rightarrow> str list
    \<Rightarrow> ancestry_error + str list"
where
  "root_walk ns [] roots visited on_path = Inr roots"
| "root_walk ns ((current, expanded) # stack) roots visited on_path =
     (if expanded then
        root_walk ns stack roots (bset_insert current visited) (removeAll current on_path)
      else if List.member visited current then root_walk ns stack roots visited on_path
      else if List.member on_path current then Inl (Cycle current)
      else (case map_of ns current of
              None \<Rightarrow> Inl (MissingNode current)
            | Some node \<Rightarrow>
                (let on_path' = bset_insert current on_path;
                     roots' = (if parents node = [] then bset_insert current roots else roots)
                 in case push_parents ns (parents node) visited on_path' ((current, True) # stack) of
                      Inl e \<Rightarrow> Inl e
                    | Inr stack' \<Rightarrow> root_walk ns stack' roots' visited on_path')))"
  by pat_completeness auto
termination
proof (relation "measures [\<lambda>(ns, stack, roots, visited, on_path). length (unentered ns visited on_path),
    \<lambda>(ns, stack, roots, visited, on_path). length stack]", goal_cases)
  case (2 ns current expanded stack roots visited on_path)
  then show ?case using unentered_visit[of ns current visited on_path] by auto
next
  case (4 ns current expanded stack roots visited on_path node)
  then show ?case using unentered_expand[of ns current node visited on_path] by auto
qed simp_all

end
