(* ===== verification/Ancestry_Walk.thy ===== *)
theory Ancestry_Walk
  imports Evidence_Ancestry
begin

text \<open>
  The walk of \<open>EvidenceAncestryGraph::root_ids\<close> (\<open>src/evidence_ancestry.rs\<close>): \<open>parent_of\<close> is
  the edge relation of the graph, and the invariant of the explicit-stack depth-first search shows
  that the walk answers with exactly the observed roots reachable from a node, or names a missing
  parent or a cycle that is really there.
\<close>

definition parent_of :: "(str \<times> ancestry_node) list \<Rightarrow> str \<Rightarrow> str \<Rightarrow> bool" where
  "parent_of ns x y \<longleftrightarrow> (\<exists>node. map_of ns x = Some node \<and> y \<in> set (parents node))"

abbreviation ancestor :: "(str \<times> ancestry_node) list \<Rightarrow> str \<Rightarrow> str \<Rightarrow> bool" where
  "ancestor ns \<equiv> (parent_of ns)\<^sup>*\<^sup>*"

abbreviation proper_ancestor :: "(str \<times> ancestry_node) list \<Rightarrow> str \<Rightarrow> str \<Rightarrow> bool" where
  "proper_ancestor ns \<equiv> (parent_of ns)\<^sup>+\<^sup>+"

definition observed_root :: "(str \<times> ancestry_node) list \<Rightarrow> str \<Rightarrow> bool" where
  "observed_root ns x \<longleftrightarrow> (\<exists>node. map_of ns x = Some node \<and> parents node = [])"

text \<open>A node whose whole ancestry is in the graph and free of cycles.\<close>

definition sound_ancestry :: "(str \<times> ancestry_node) list \<Rightarrow> str \<Rightarrow> bool" where
  "sound_ancestry ns x \<longleftrightarrow>
     (\<forall>y. ancestor ns x y \<longrightarrow> map_of ns y \<noteq> None \<and> \<not> proper_ancestor ns y y)"

section \<open>Pushing the parents of a node\<close>

lemma push_parents_Inr:
  "push_parents ns ps visited on_path stack = Inr stack' \<Longrightarrow>
    \<exists>new. stack' = new @ stack \<and> (\<forall>e \<in> set new. \<not> snd e) \<and> fst ` set new = set ps - set visited
      \<and> (\<forall>p \<in> set ps. map_of ns p \<noteq> None \<and> p \<notin> set on_path)"
proof (induction ns ps visited on_path stack rule: push_parents.induct)
  case (2 ns p ps visited on_path stack)
  then obtain new where new:
    "stack' = new @ (if List.member visited p then stack else (p, False) # stack)"
    "\<forall>e \<in> set new. \<not> snd e" "fst ` set new = set ps - set visited"
    "\<forall>p \<in> set ps. map_of ns p \<noteq> None \<and> p \<notin> set on_path" "map_of ns p \<noteq> None" "p \<notin> set on_path"
    by (auto split: option.splits if_splits)
  show ?case
  proof (cases "List.member visited p")
    case True
    with new show ?thesis by (intro exI[of _ new]) auto
  next
    case False
    with new show ?thesis by (intro exI[of _ "new @ [(p, False)]"]) auto
  qed
qed simp

lemma push_parents_Inl:
  "push_parents ns ps visited on_path stack = Inl e \<Longrightarrow>
    (\<exists>p \<in> set ps. e = MissingNode p \<and> map_of ns p = None \<or> e = Cycle p \<and> p \<in> set on_path)"
  by (induction ns ps visited on_path stack rule: push_parents.induct)
    (auto split: option.splits if_splits)

section \<open>The invariant\<close>

definition on_stack :: "(str \<times> bool) list \<Rightarrow> str set" where
  "on_stack S = {x. (x, True) \<in> set S}"

definition frames_ok :: "(str \<times> ancestry_node) list \<Rightarrow> str set \<Rightarrow> (str \<times> bool) list \<Rightarrow> bool" where
  "frames_ok ns V S \<longleftrightarrow> (\<forall>A x B. S = A @ (x, True) # B \<longrightarrow>
     map_of ns x \<noteq> None \<and> (\<forall>y. parent_of ns x y \<longrightarrow> y \<in> V \<or> y \<in> fst ` set A) \<and>
     (\<forall>e \<in> set A. proper_ancestor ns x (fst e)) \<and> x \<notin> on_stack B)"

definition visited_ok :: "(str \<times> ancestry_node) list \<Rightarrow> str set \<Rightarrow> bool" where
  "visited_ok ns V \<longleftrightarrow> (\<forall>x \<in> V. map_of ns x \<noteq> None \<and> (\<forall>y. parent_of ns x y \<longrightarrow> y \<in> V)
     \<and> \<not> proper_ancestor ns x x)"

definition walk_inv ::
  "(str \<times> ancestry_node) list \<Rightarrow> str \<Rightarrow> (str \<times> bool) list \<Rightarrow> str list \<Rightarrow> str list \<Rightarrow> str list \<Rightarrow> bool"
where
  "walk_inv ns start S roots visited on_path \<longleftrightarrow>
     set on_path = on_stack S \<and> set visited \<inter> on_stack S = {} \<and>
     visited_ok ns (set visited) \<and> frames_ok ns (set visited) S \<and>
     (\<forall>x \<in> fst ` set S \<union> set visited. ancestor ns start x) \<and>
     start \<in> fst ` set S \<union> set visited \<and> bset_ok roots \<and>
     set roots = {x \<in> set visited \<union> on_stack S. observed_root ns x}"

lemma visited_closed: "ancestor ns x y \<Longrightarrow> visited_ok ns V \<Longrightarrow> x \<in> V \<Longrightarrow> y \<in> V"
  by (induction rule: rtranclp_induct) (auto simp: visited_ok_def)

lemma frames_ok_top: "frames_ok ns V ((x, True) # S) \<Longrightarrow>
    map_of ns x \<noteq> None \<and> (\<forall>y. parent_of ns x y \<longrightarrow> y \<in> V) \<and> x \<notin> on_stack S"
  unfolding frames_ok_def by (metis append_Nil empty_iff empty_set image_empty)

lemma frames_ok_pop:
  assumes "frames_ok ns V ((x, b) # S)" "x \<in> V'" "V \<subseteq> V'"
  shows "frames_ok ns V' S"
  unfolding frames_ok_def
proof (intro allI impI)
  fix A y B
  assume S: "S = A @ (y, True) # B"
  then have "(x, b) # S = ((x, b) # A) @ (y, True) # B" by simp
  with assms(1) have *: "map_of ns y \<noteq> None" "y \<notin> on_stack B"
    "\<forall>z. parent_of ns y z \<longrightarrow> z \<in> V \<or> z \<in> fst ` set ((x, b) # A)"
    "\<forall>e \<in> set ((x, b) # A). proper_ancestor ns y (fst e)"
    unfolding frames_ok_def by blast+
  with assms(2,3) show "map_of ns y \<noteq> None \<and>
      (\<forall>z. parent_of ns y z \<longrightarrow> z \<in> V' \<or> z \<in> fst ` set A) \<and>
      (\<forall>e \<in> set A. proper_ancestor ns y (fst e)) \<and> y \<notin> on_stack B" by auto
qed

lemma frames_ok_push:
  assumes F: "frames_ok ns V ((x, False) # S)" and node: "map_of ns x = Some node"
    and new: "\<forall>e \<in> set new. \<not> snd e" "fst ` set new = set (parents node) - V"
    and x: "x \<notin> on_stack S"
  shows "frames_ok ns V (new @ (x, True) # S)"
  unfolding frames_ok_def
proof (intro allI impI)
  fix A y B
  assume split: "new @ (x, True) # S = A @ (y, True) # B"
  have "\<not> (\<exists>us. new = A @ (y, True) # us)" using new(1) by auto
  with split consider "A = new" "y = x" "B = S"
    | A' where "A = new @ (x, True) # A'" "S = A' @ (y, True) # B"
    by (auto simp: append_eq_append_conv2 append_eq_Cons_conv Cons_eq_append_conv)
  then show "map_of ns y \<noteq> None \<and>
      (\<forall>z. parent_of ns y z \<longrightarrow> z \<in> V \<or> z \<in> fst ` set A) \<and>
      (\<forall>e \<in> set A. proper_ancestor ns y (fst e)) \<and> y \<notin> on_stack B"
  proof cases
    case 1
    have "proper_ancestor ns x (fst e)" if "e \<in> set new" for e
    proof -
      from that new(2) have "fst e \<in> set (parents node)" by (metis DiffD1 image_eqI)
      with node show ?thesis by (auto simp: parent_of_def)
    qed
    with 1 node new(2) x show ?thesis by (auto simp: parent_of_def)
  next
    case 2
    then have "(x, False) # S = ((x, False) # A') @ (y, True) # B" by simp
    with F have *: "map_of ns y \<noteq> None" "y \<notin> on_stack B"
      "\<forall>z. parent_of ns y z \<longrightarrow> z \<in> V \<or> z \<in> fst ` set ((x, False) # A')"
      "\<forall>e \<in> set ((x, False) # A'). proper_ancestor ns y (fst e)"
      unfolding frames_ok_def by blast+
    have "proper_ancestor ns y (fst e)" if "e \<in> set new" for e
    proof -
      from that new(2) have "fst e \<in> set (parents node)" by (metis DiffD1 image_eqI)
      with node have "parent_of ns x (fst e)" by (auto simp: parent_of_def)
      with *(4) show ?thesis by (auto intro: tranclp.trancl_into_trancl)
    qed
    with 2 * show ?thesis by auto
  qed
qed


section \<open>One step\<close>

lemma on_stack_simps [simp]:
  "on_stack [] = {}"
  "on_stack ((x, b) # S) = (if b then insert x (on_stack S) else on_stack S)"
  by (auto simp: on_stack_def)

lemma on_stack_new: "\<forall>e \<in> set new. \<not> snd e \<Longrightarrow> on_stack (new @ S) = on_stack S"
  by (auto simp: on_stack_def)

lemma walk_inv_init:
  "map_of ns start \<noteq> None \<Longrightarrow> walk_inv ns start [(start, False)] [] [] []"
  by (auto simp: walk_inv_def visited_ok_def frames_ok_def Cons_eq_append_conv)

lemma visited_ok_insert:
  assumes "visited_ok ns V" "map_of ns x \<noteq> None" "\<forall>y. parent_of ns x y \<longrightarrow> y \<in> V" "x \<notin> V"
  shows "visited_ok ns (insert x V)"
proof -
  have "\<not> proper_ancestor ns x x"
  proof
    assume "proper_ancestor ns x x"
    then obtain y where "parent_of ns x y" "ancestor ns y x" by (blast dest: tranclpD)
    with assms visited_closed show False by blast
  qed
  with assms show ?thesis by (auto simp: visited_ok_def)
qed

lemma walk_inv_leave:
  assumes "walk_inv ns start ((x, True) # S) roots visited on_path"
  shows "walk_inv ns start S roots (bset_insert x visited) (removeAll x on_path)"
proof -
  from assms have F: "frames_ok ns (set visited) ((x, True) # S)"
    and V: "visited_ok ns (set visited)" "x \<notin> set visited" by (auto simp: walk_inv_def)
  note top = frames_ok_top[OF F]
  have "visited_ok ns (insert x (set visited))" using V top by (intro visited_ok_insert) auto
  moreover have "frames_ok ns (insert x (set visited)) S" using frames_ok_pop[OF F] by blast
  ultimately show ?thesis using assms top by (auto simp: walk_inv_def)
qed

lemma walk_inv_skip:
  assumes "walk_inv ns start ((x, False) # S) roots visited on_path" "x \<in> set visited"
  shows "walk_inv ns start S roots visited on_path"
proof -
  have "frames_ok ns (set visited) S"
    using assms frames_ok_pop[of ns "set visited" x False S "set visited"] by (auto simp: walk_inv_def)
  with assms show ?thesis by (auto simp: walk_inv_def)
qed

lemma walk_inv_enter:
  assumes inv: "walk_inv ns start ((x, False) # S) roots visited on_path"
    and x: "x \<notin> set visited" "x \<notin> set on_path" "map_of ns x = Some node"
    and push: "push_parents ns (parents node) visited (bset_insert x on_path) ((x, True) # S) = Inr S'"
  shows "walk_inv ns start S' (if parents node = [] then bset_insert x roots else roots) visited
    (bset_insert x on_path)"
proof -
  from push_parents_Inr[OF push] obtain new where new: "S' = new @ (x, True) # S"
    "\<forall>e \<in> set new. \<not> snd e" "fst ` set new = set (parents node) - set visited" by blast
  from inv have F: "frames_ok ns (set visited) ((x, False) # S)" "set on_path = on_stack S"
    and reach: "ancestor ns start x" by (auto simp: walk_inv_def)
  have F': "frames_ok ns (set visited) S'"
    unfolding new(1) using F x new by (intro frames_ok_push) auto
  have "ancestor ns start y" if "y \<in> fst ` set new" for y
  proof -
    from that new(3) x(3) have "parent_of ns x y" by (auto simp: parent_of_def)
    with reach show ?thesis by (rule rtranclp.rtrancl_into_rtrancl)
  qed
  then have reached: "\<forall>y \<in> fst ` set S' \<union> set visited. ancestor ns start y"
    using inv unfolding walk_inv_def new(1) by (simp add: image_Un ball_Un)
  have root: "observed_root ns x \<longleftrightarrow> parents node = []" using x(3) by (simp add: observed_root_def)
  have stack: "on_stack S' = insert x (on_stack S)" using new by (simp add: on_stack_new)
  have "start \<in> fst ` set S' \<union> set visited" using inv unfolding walk_inv_def new(1) by auto
  then show ?thesis
    using inv x F' reached root unfolding walk_inv_def stack by (simp add: bset_ok_insert) blast
qed

section \<open>The result\<close>

definition missing_ancestor :: "(str \<times> ancestry_node) list \<Rightarrow> str \<Rightarrow> ancestry_error \<Rightarrow> bool" where
  "missing_ancestor ns start e \<longleftrightarrow>
     (\<exists>p. e = MissingNode p \<and> ancestor ns start p \<and> map_of ns p = None)"

definition cyclic_ancestor :: "(str \<times> ancestry_node) list \<Rightarrow> str \<Rightarrow> ancestry_error \<Rightarrow> bool" where
  "cyclic_ancestor ns start e \<longleftrightarrow>
     (\<exists>c. e = Cycle c \<and> ancestor ns start c \<and> proper_ancestor ns c c)"

fun walk_answer :: "(str \<times> ancestry_node) list \<Rightarrow> str \<Rightarrow> ancestry_error + str list \<Rightarrow> bool" where
  "walk_answer ns start (Inr roots) \<longleftrightarrow> sound_ancestry ns start \<and> bset_ok roots \<and>
     set roots = {r. ancestor ns start r \<and> observed_root ns r}"
| "walk_answer ns start (Inl e) \<longleftrightarrow> missing_ancestor ns start e \<or> cyclic_ancestor ns start e"

lemma walk_inv_done:
  assumes "walk_inv ns start [] roots visited on_path"
  shows "walk_answer ns start (Inr roots)"
proof -
  from assms have V: "visited_ok ns (set visited)" "start \<in> set visited"
    and "\<forall>x \<in> set visited. ancestor ns start x" by (auto simp: walk_inv_def)
  then have "set visited = {x. ancestor ns start x}" using visited_closed by blast
  with assms V show ?thesis by (auto simp: walk_inv_def sound_ancestry_def visited_ok_def)
qed

lemma walk_inv_stack_cycle:
  assumes "walk_inv ns start ((x, False) # S) roots visited on_path" "x \<in> set on_path"
  shows "cyclic_ancestor ns start (Cycle x)"
proof -
  from assms have "(x, True) \<in> set S" by (auto simp: walk_inv_def on_stack_def)
  then obtain A B where "(x, False) # S = ((x, False) # A) @ (x, True) # B"
    by (auto simp: in_set_conv_decomp)
  with assms(1) have "proper_ancestor ns x (fst (x, False))"
    unfolding walk_inv_def frames_ok_def by (meson list.set_intros(1))
  with assms(1) show ?thesis by (auto simp: cyclic_ancestor_def walk_inv_def)
qed

lemma walk_inv_push_error:
  assumes inv: "walk_inv ns start ((x, False) # S) roots visited on_path"
    and x: "map_of ns x = Some node"
    and push: "push_parents ns (parents node) visited (bset_insert x on_path) ((x, True) # S) = Inl e"
  shows "walk_answer ns start (Inl e)"
proof -
  from push_parents_Inl[OF push] obtain p where p: "p \<in> set (parents node)"
    "e = MissingNode p \<and> map_of ns p = None \<or> e = Cycle p \<and> p \<in> insert x (set on_path)" by auto
  from p x have px: "parent_of ns x p" by (auto simp: parent_of_def)
  from inv have reach: "ancestor ns start x" by (auto simp: walk_inv_def)
  then have rp: "ancestor ns start p" using px by (rule rtranclp.rtrancl_into_rtrancl)
  have "proper_ancestor ns p p" if "p \<in> set on_path"
  proof -
    from that inv have "(p, True) \<in> set S" by (auto simp: walk_inv_def on_stack_def)
    then obtain A B where "(x, False) # S = ((x, False) # A) @ (p, True) # B"
      by (auto simp: in_set_conv_decomp)
    with inv have "proper_ancestor ns p (fst (x, False))"
      unfolding walk_inv_def frames_ok_def by (meson list.set_intros(1))
    with px show ?thesis by (auto intro: tranclp.trancl_into_trancl)
  qed
  moreover have "proper_ancestor ns p p" if "p = x" using px that by auto
  ultimately show ?thesis using p rp by (auto simp: missing_ancestor_def cyclic_ancestor_def)
qed

lemma root_walk_answer:
  "walk_inv ns start S roots visited on_path \<Longrightarrow>
    walk_answer ns start (root_walk ns S roots visited on_path)"
proof (induction ns S roots visited on_path rule: root_walk.induct)
  case (1 ns roots visited on_path)
  then show ?case by (simp only: root_walk.simps walk_inv_done)
next
  case (2 ns x expanded S roots visited on_path)
  note root_walk.simps [simp del]
  let ?walk = "root_walk ns ((x, expanded) # S) roots visited on_path"
  consider "expanded" | "\<not> expanded" "x \<in> set visited"
    | "\<not> expanded" "x \<notin> set visited" "x \<in> set on_path"
    | "\<not> expanded" "x \<notin> set visited" "x \<notin> set on_path" "map_of ns x = None"
    | node where "\<not> expanded" "x \<notin> set visited" "x \<notin> set on_path" "map_of ns x = Some node"
    by fastforce
  then show ?case
  proof cases
    case 1
    with "2.IH"(1) walk_inv_leave "2.prems" show ?thesis by (simp add: root_walk.simps(2))
  next
    case 2
    with "2.IH"(2) walk_inv_skip "2.prems" show ?thesis by (simp add: root_walk.simps(2))
  next
    case 3
    with "2.prems" show ?thesis by (simp add: root_walk.simps(2) walk_inv_stack_cycle)
  next
    case 4
    with "2.prems" have "missing_ancestor ns start (MissingNode x)"
      by (auto simp: walk_inv_def missing_ancestor_def)
    with 4 show ?thesis by (simp add: root_walk.simps(2))
  next
    case (5 node)
    show ?thesis
    proof (cases "push_parents ns (parents node) visited (bset_insert x on_path) ((x, True) # S)")
      case (Inl e)
      with 5 walk_inv_push_error[of ns start x S] "2.prems" show ?thesis
        by (simp add: root_walk.simps(2) Let_def)
    next
      case (Inr S')
      with 5 "2.IH"(3) walk_inv_enter[of ns start x S roots] "2.prems" show ?thesis
        by (simp add: root_walk.simps(2) Let_def)
    qed
  qed
qed

end
