(* ===== verification/Independence.thy ===== *)
theory Independence
  imports Ancestry_Walk
begin

text \<open>
  Independence of evidence in \<open>src/evidence_ancestry.rs\<close>: \<open>root_ids\<close>, \<open>root_families\<close>,
  \<open>independence_state\<close>, the bounded search \<open>IndependenceSearch::search_exact\<close> and
  \<open>proven_independent_route_count\<close>. The search carries its \<open>states\<close> counter and
  \<open>exhausted\<close> flag as a state; a successful search also hands back the chosen indices, which
  the source leaves in its buffer. The lemmas show that the search only ever finds mutually proven
  independent roots, and misses none unless its budget ran out.
\<close>

definition root_ids :: "ancestry_graph \<Rightarrow> str \<Rightarrow> ancestry_error + str list" where
  "root_ids g i =
     (case map_of (nodes g) i of
        None \<Rightarrow> Inl (MissingNode i)
      | Some _ \<Rightarrow> root_walk (nodes g) [(i, False)] [] [] [])"

fun families_of :: "(str \<times> ancestry_node) list \<Rightarrow> str list \<Rightarrow> str list \<Rightarrow> str list" where
  "families_of ns acc [] = acc"
| "families_of ns acc (r # rs) =
     (case map_of ns r of
        Some node \<Rightarrow> families_of ns (bset_insert (source_family node) acc) rs
      | None \<Rightarrow> families_of ns acc rs)"

definition root_families :: "ancestry_graph \<Rightarrow> str \<Rightarrow> ancestry_error + str list" where
  "root_families g i =
     (case root_ids g i of Inl e \<Rightarrow> Inl e | Inr rs \<Rightarrow> Inr (families_of (nodes g) [] rs))"

definition independence_state ::
  "ancestry_graph \<Rightarrow> str \<Rightarrow> str \<Rightarrow> ancestry_error + independence_state"
where
  "independence_state g a b =
     (case root_ids g a of
        Inl e \<Rightarrow> Inl e
      | Inr left_roots \<Rightarrow>
          (case root_ids g b of
             Inl e \<Rightarrow> Inl e
           | Inr right_roots \<Rightarrow>
               if \<not> bset_is_disjoint left_roots right_roots then Inr KnownDependent
               else if length left_roots \<noteq> 1 \<or> length right_roots \<noteq> 1 then Inr Unknown
               else (case canonical_pair (hd left_roots) (hd right_roots) of
                       Inl e \<Rightarrow> Inl e
                     | Inr (left, right) \<Rightarrow>
                         Inr (if map_of (records_of g left) right \<noteq> None
                              then ProvenIndependent else Unknown))))"

section \<open>The bounded search\<close>

fun compatible_with ::
  "ancestry_graph \<Rightarrow> str list \<Rightarrow> nat \<Rightarrow> nat list \<Rightarrow> ancestry_error + bool"
where
  "compatible_with g roots index [] = Inr True"
| "compatible_with g roots index (s # ss) =
     (case independence_state g (roots ! s) (roots ! index) of
        Inl e \<Rightarrow> Inl e
      | Inr st \<Rightarrow>
          if st \<noteq> ProvenIndependent then Inr False else compatible_with g roots index ss)"

record search_state =
  states :: nat
  exhausted :: bool
  chosen :: "nat list"

function (sequential) search_exact ::
    "ancestry_graph \<Rightarrow> str list \<Rightarrow> nat \<Rightarrow> nat \<Rightarrow> nat \<Rightarrow> search_state
      \<Rightarrow> ancestry_error + (bool \<times> search_state)"
  and search_loop ::
    "ancestry_graph \<Rightarrow> str list \<Rightarrow> nat \<Rightarrow> nat \<Rightarrow> nat \<Rightarrow> search_state
      \<Rightarrow> ancestry_error + (bool \<times> search_state)"
where
  "search_exact g roots max_states target start st =
     (if length (chosen st) = target then Inr (True, st)
      else if length roots - start < target - length (chosen st) then Inr (False, st)
      else search_loop g roots max_states target start st)"
| "search_loop g roots max_states target index st =
     (if length roots \<le> index then Inr (False, st)
      else if max_states \<le> states st then Inr (False, st\<lparr>exhausted := True\<rparr>)
      else
        (let st = st\<lparr>states := states st + 1\<rparr> in
         case compatible_with g roots index (chosen st) of
           Inl e \<Rightarrow> Inl e
         | Inr False \<Rightarrow> search_loop g roots max_states target (index + 1) st
         | Inr True \<Rightarrow>
             (case search_exact g roots max_states target (index + 1)
                     (st\<lparr>chosen := chosen st @ [index]\<rparr>) of
                Inl e \<Rightarrow> Inl e
              | Inr (True, st') \<Rightarrow> Inr (True, st')
              | Inr (False, st') \<Rightarrow>
                  (let st'' = st'\<lparr>chosen := butlast (chosen st')\<rparr> in
                   if exhausted st'' then Inr (False, st'')
                   else search_loop g roots max_states target (index + 1) st''))))"
  by pat_completeness auto
termination
  by (relation "measure (\<lambda>x. case x of
        Inl (g, roots, m, t, start, st) \<Rightarrow> 2 * (length roots - start) + 1
      | Inr (g, roots, m, t, index, st) \<Rightarrow> 2 * (length roots - index))") auto

declare search_exact.simps [simp del] search_loop.simps [simp del]

fun route_targets ::
  "ancestry_graph \<Rightarrow> str list \<Rightarrow> nat \<Rightarrow> nat \<Rightarrow> nat list \<Rightarrow> nat \<Rightarrow> search_state
    \<Rightarrow> ancestry_error + route_count"
where
  "route_targets g roots max_states required [] best st = Inr \<lparr>proven = best, incomplete = False\<rparr>"
| "route_targets g roots max_states required (target # targets) best st =
     (case search_exact g roots max_states target 0 (st\<lparr>chosen := []\<rparr>) of
        Inl e \<Rightarrow> Inl e
      | Inr (True, st') \<Rightarrow>
          if target \<ge> required then Inr \<lparr>proven = target, incomplete = False\<rparr>
          else route_targets g roots max_states required targets target st'
      | Inr (False, st') \<Rightarrow>
          Inr \<lparr>proven = best, incomplete = exhausted st'\<rparr>)"

fun union_roots :: "ancestry_graph \<Rightarrow> str list \<Rightarrow> str list \<Rightarrow> ancestry_error + str list" where
  "union_roots g acc [] = Inr acc"
| "union_roots g acc (i # is) =
     (case root_ids g i of Inl e \<Rightarrow> Inl e | Inr rs \<Rightarrow> union_roots g (bset_extend acc rs) is)"

definition proven_independent_route_count ::
  "ancestry_graph \<Rightarrow> str list \<Rightarrow> nat \<Rightarrow> nat \<Rightarrow> ancestry_error + route_count"
where
  "proven_independent_route_count g ids required max_search_states =
     (if required = 0 then Inr \<lparr>proven = 0, incomplete = False\<rparr>
      else
        (case union_roots g [] ids of
           Inl e \<Rightarrow> Inl e
         | Inr roots \<Rightarrow>
             if roots = [] then Inr \<lparr>proven = 0, incomplete = False\<rparr>
             else if required = 1 \<or> length roots = 1 then Inr \<lparr>proven = 1, incomplete = False\<rparr>
             else route_targets g roots max_search_states required
                    [2..<min required (length roots) + 1] 1
                    \<lparr>states = 0, exhausted = False, chosen = []\<rparr>))"

fun support_families :: "ancestry_graph \<Rightarrow> str list \<Rightarrow> str list \<Rightarrow> ancestry_error + str list" where
  "support_families g acc [] = Inr acc"
| "support_families g acc (i # is) =
     (case root_families g i of
        Inl e \<Rightarrow> Inl e | Inr fs \<Rightarrow> support_families g (bset_extend acc fs) is)"

definition independent_support_count :: "ancestry_graph \<Rightarrow> str list \<Rightarrow> ancestry_error + nat" where
  "independent_support_count g ids =
     (case support_families g [] ids of Inl e \<Rightarrow> Inl e | Inr fs \<Rightarrow> Inr (length fs))"

definition are_independent :: "ancestry_graph \<Rightarrow> str \<Rightarrow> str \<Rightarrow> ancestry_error + bool" where
  "are_independent g a b =
     (case root_families g a of
        Inl e \<Rightarrow> Inl e
      | Inr fa \<Rightarrow>
          (case root_families g b of
             Inl e \<Rightarrow> Inl e | Inr fb \<Rightarrow> Inr (bset_is_disjoint fa fb)))"


section \<open>Roots\<close>

lemma root_ids_answer:
  "walk_answer (nodes g) i (root_ids g i)"
proof (cases "map_of (nodes g) i")
  case None
  then show ?thesis by (simp add: root_ids_def missing_ancestor_def)
next
  case (Some node)
  then show ?thesis using root_walk_answer[OF walk_inv_init[of "nodes g" i]]
    by (simp add: root_ids_def)
qed

lemma root_ids_Inr:
  "root_ids g i = Inr rs \<Longrightarrow> sound_ancestry (nodes g) i \<and> bset_ok rs \<and>
    set rs = {r. ancestor (nodes g) i r \<and> observed_root (nodes g) r}"
  using root_ids_answer[of g i] by simp

lemma root_ids_total: "sound_ancestry (nodes g) i \<Longrightarrow> \<exists>rs. root_ids g i = Inr rs"
  using root_ids_answer[of g i]
  by (cases "root_ids g i")
    (auto simp: sound_ancestry_def missing_ancestor_def cyclic_ancestor_def)

lemma root_ids_observed: "observed_root (nodes g) r \<Longrightarrow> root_ids g r = Inr [r]"
  by (auto simp: observed_root_def root_ids_def)

text \<open>An explicit record of independence between two roots, in the order they are stored.\<close>

definition recorded :: "ancestry_graph \<Rightarrow> str \<Rightarrow> str \<Rightarrow> bool" where
  "recorded g r s \<longleftrightarrow> map_of (records_of g (min r s)) (max r s) \<noteq> None"

lemma recorded_sym: "recorded g r s = recorded g s r"
  by (simp add: recorded_def min.commute max.commute)

lemma independence_state_roots:
  assumes "observed_root (nodes g) r" "observed_root (nodes g) s" "r \<noteq> s"
  shows "independence_state g r s = Inr (if recorded g r s then ProvenIndependent else Unknown)"
  using assms by (cases "r < s") (auto simp: independence_state_def root_ids_observed
      canonical_pair_def recorded_def min_def max_def)

section \<open>The search finds cliques\<close>

definition clique :: "ancestry_graph \<Rightarrow> str list \<Rightarrow> nat list \<Rightarrow> bool" where
  "clique g roots is \<longleftrightarrow> sorted_wrt (<) is \<and> (\<forall>i \<in> set is. i < length roots) \<and>
     sorted_wrt (\<lambda>s i. independence_state g (roots ! s) (roots ! i) = Inr ProvenIndependent) is"

lemma compatible_True:
  "compatible_with g roots i ss = Inr True \<longleftrightarrow>
    (\<forall>s \<in> set ss. independence_state g (roots ! s) (roots ! i) = Inr ProvenIndependent)"
  by (induction ss) (auto split: sum.splits)

lemma clique_snoc:
  "clique g roots (is @ [i]) \<longleftrightarrow> clique g roots is \<and> i < length roots \<and> (\<forall>s \<in> set is. s < i)
    \<and> compatible_with g roots i is = Inr True"
  by (auto simp: clique_def sorted_wrt_append compatible_True)

lemma clique_prefix: "clique g roots (is @ js) \<Longrightarrow> clique g roots is"
  by (auto simp: clique_def sorted_wrt_append)

lemma clique_length: "clique g roots (is @ js) \<Longrightarrow> \<forall>j \<in> set js. start \<le> j \<Longrightarrow> length js \<le> length roots - start"
proof -
  assume a: "clique g roots (is @ js)" "\<forall>j \<in> set js. start \<le> j"
  then have "distinct js" "set js \<subseteq> {start..<length roots}"
    by (auto simp: clique_def sorted_wrt_append strict_sorted_iff)
  then show ?thesis using card_mono[of "{start..<length roots}" "set js"] distinct_card[of js] by simp
qed

definition search_post ::
  "ancestry_graph \<Rightarrow> str list \<Rightarrow> nat \<Rightarrow> nat \<Rightarrow> nat \<Rightarrow> search_state \<Rightarrow> bool \<Rightarrow> search_state \<Rightarrow> bool"
where
  "search_post g roots m target start st found st' \<longleftrightarrow>
     (states st \<le> m \<longrightarrow> states st' \<le> m) \<and>
     (found \<longrightarrow> clique g roots (chosen st') \<and> length (chosen st') = target) \<and>
     (\<not> found \<longrightarrow> chosen st' = chosen st \<and> (\<not> exhausted st' \<longrightarrow>
        (\<forall>ext. clique g roots (chosen st @ ext) \<and> (\<forall>e \<in> set ext. start \<le> e)
           \<longrightarrow> length (chosen st @ ext) \<noteq> target)))"

lemma search_post_rejected:
  assumes "\<forall>ext'. clique g roots ((cs @ [index]) @ ext') \<and> (\<forall>e \<in> set ext'. index + 1 \<le> e)
      \<longrightarrow> length ((cs @ [index]) @ ext') \<noteq> target"
  shows "\<not> clique g roots (cs @ index # ext) \<or> length (cs @ index # ext) \<noteq> target"
proof (rule disjCI)
  assume len: "\<not> length (cs @ index # ext) \<noteq> target"
  show "\<not> clique g roots (cs @ index # ext)"
  proof
    assume c: "clique g roots (cs @ index # ext)"
    then have "\<forall>e \<in> set ext. index + 1 \<le> e" by (auto simp: clique_def sorted_wrt_append Suc_le_eq)
    with c assms len show False by (metis append.assoc append_Cons append_Nil)
  qed
qed

lemma search_post_next:
  assumes post: "search_post g roots m target (index + 1) st1 found st'"
    and st1: "chosen st1 = chosen st" "states st \<le> m \<Longrightarrow> states st1 \<le> m"
    and skip: "\<And>ext. \<not> clique g roots (chosen st @ index # ext)
      \<or> length (chosen st @ index # ext) \<noteq> target"
    and short: "length (chosen st) < target"
  shows "search_post g roots m target index st found st'"
proof -
  have "length (chosen st @ ext) \<noteq> target"
    if none: "\<forall>ext. clique g roots (chosen st @ ext) \<and> (\<forall>e \<in> set ext. index + 1 \<le> e)
           \<longrightarrow> length (chosen st @ ext) \<noteq> target"
      and ext: "clique g roots (chosen st @ ext)" "\<forall>e \<in> set ext. index \<le> e" for ext
  proof (cases ext)
    case Nil
    with short show ?thesis by simp
  next
    case (Cons e rest)
    show ?thesis
    proof (cases "e = index")
      case True
      with Cons ext skip show ?thesis by blast
    next
      case False
      have "\<forall>e' \<in> set rest. e < e'" using ext(1) Cons by (auto simp: clique_def sorted_wrt_append)
      with False ext(2) Cons have "\<forall>e \<in> set ext. index + 1 \<le> e" by fastforce
      with none ext(1) show ?thesis by blast
    qed
  qed
  with post st1 show ?thesis unfolding search_post_def by auto
qed

lemma search_post_short:
  assumes "length roots - start < target - length (chosen st)"
  shows "search_post g roots m target start st False st"
proof -
  have "length (chosen st @ ext) \<noteq> target"
    if "clique g roots (chosen st @ ext)" "\<forall>e \<in> set ext. start \<le> e" for ext
    using clique_length[OF that] assms by simp
  then show ?thesis unfolding search_post_def by blast
qed

text \<open>The ways one turn of the search loop can end.\<close>

lemma search_loop_cases:
  assumes "search_loop g roots m target index st = Inr r"
  obtains "length roots \<le> index" | "\<not> length roots \<le> index" "m \<le> states st"
    | "\<not> length roots \<le> index" "\<not> m \<le> states st" "compatible_with g roots index (chosen st) = Inr False"
    | b st2 where "\<not> length roots \<le> index" "\<not> m \<le> states st"
        "compatible_with g roots index (chosen st) = Inr True"
        "search_exact g roots m target (index + 1)
           (st\<lparr>states := states st + 1, chosen := chosen st @ [index]\<rparr>) = Inr (b, st2)"
proof (cases "length roots \<le> index \<or> m \<le> states st")
  case False
  note loop = assms[unfolded search_loop.simps[of g roots m target index st]]
  show ?thesis
  proof (cases "compatible_with g roots index (chosen st)")
    case (Inl e)
    with False loop show ?thesis by (simp add: Let_def)
  next
    case (Inr ok)
    show ?thesis
    proof (cases "search_exact g roots m target (index + 1)
        (st\<lparr>states := states st + 1, chosen := chosen st @ [index]\<rparr>)")
      case (Inl e)
      with False loop Inr that(3) show ?thesis by (cases ok) (simp_all add: Let_def)
    next
      case exact: (Inr r2)
      with False Inr that(3,4) show ?thesis by (cases ok; cases r2) auto
    qed
  qed
qed (use that in blast)

lemma search_sound:
  "clique g roots (chosen st) \<Longrightarrow> \<forall>c \<in> set (chosen st). c < start \<Longrightarrow> length (chosen st) \<le> target \<Longrightarrow>
    search_exact g roots m target start st = Inr (found, st') \<Longrightarrow>
    search_post g roots m target start st found st'"
  "clique g roots (chosen st) \<Longrightarrow> \<forall>c \<in> set (chosen st). c < start \<Longrightarrow> length (chosen st) < target \<Longrightarrow>
    search_loop g roots m target start st = Inr (found, st') \<Longrightarrow>
    search_post g roots m target start st found st'"
proof (induction g roots m target start st and g roots m target start st
    arbitrary: found st' and found st' rule: search_exact_search_loop.induct)
  case (1 g roots m target start st)
  note exact = search_exact.simps[of g roots m target start st]
  consider "length (chosen st) = target"
    | "length (chosen st) \<noteq> target" "length roots - start < target - length (chosen st)"
    | "length (chosen st) \<noteq> target" "\<not> length roots - start < target - length (chosen st)" by blast
  then show ?case
  proof cases
    case 1
    with "1.prems" exact show ?thesis by (auto simp: search_post_def)
  next
    case 2
    with "1.prems" exact search_post_short[OF 2(2)] show ?thesis by simp
  next
    case 3
    with "1.prems"(3) have "length (chosen st) < target" by simp
    with 3 "1.IH"[OF 3 "1.prems"(1,2)] "1.prems"(4) exact show ?thesis by simp
  qed
next
  case (2 g roots m target index st)
  let ?st = "st\<lparr>states := states st + 1\<rparr>"
  let ?push = "?st\<lparr>chosen := chosen st @ [index]\<rparr>"
  note loop = search_loop.simps[of g roots m target index st]
  have cl: "\<forall>c \<in> set (chosen st). c < index + 1" using "2.prems"(2) by auto
  from "2.prems"(4) show ?case
  proof (cases rule: search_loop_cases)
    case 1
    with "2.prems"(4) loop have "found = False" "st' = st" by auto
    with search_post_short[of roots index target st] 1 "2.prems"(3) show ?thesis by simp
  next
    case 2
    with "2.prems"(4) loop have "found = False" "st' = st\<lparr>exhausted := True\<rparr>" by auto
    then show ?thesis by (simp add: search_post_def)
  next
    case 3
    with "2.prems"(4) loop have "search_loop g roots m target (index + 1) ?st = Inr (found, st')"
      by (simp add: Let_def)
    with "2.IH"(3)[OF 3(1,2) refl, of False found st'] 3(3) "2.prems"(1-3) cl
    have post: "search_post g roots m target (index + 1) ?st found st'" by simp
    have "\<not> clique g roots (chosen st @ index # ext)" for ext
      using clique_prefix[of g roots "chosen st @ [index]" ext]
        clique_snoc[of g roots "chosen st" index] 3 by auto
    with search_post_next[OF post] 3 "2.prems"(3) show ?thesis by simp
  next
    case (4 b st2)
    note IH = "2.IH"[OF 4(1,2) refl]
    have push: "clique g roots (chosen ?push)" "\<forall>c \<in> set (chosen ?push). c < index + 1"
      "length (chosen ?push) \<le> target"
      using "2.prems"(1,2,3) 4 by (auto simp: clique_snoc)
    have post2: "search_post g roots m target (index + 1) ?push b st2"
      using IH(1)[of True b st2] push 4 by simp
    let ?st3 = "st2\<lparr>chosen := butlast (chosen st2)\<rparr>"
    consider "b" | "\<not> b" "exhausted st2" | "\<not> b" "\<not> exhausted st2" by blast
    then show ?thesis
    proof cases
      case 1
      with 4 "2.prems"(4) loop have "found" "st' = st2" by (simp_all add: Let_def)
      with post2 1 4 show ?thesis by (simp add: search_post_def)
    next
      case 2
      with 4 "2.prems"(4) loop have "found = False" "st' = ?st3" by (simp_all add: Let_def)
      with 2 post2 4 show ?thesis by (simp add: search_post_def)
    next
      case 3
      from post2 3 4 have st3: "chosen ?st3 = chosen st" "states ?st3 \<le> m"
        by (simp_all add: search_post_def)
      from 3 4 "2.prems"(4) loop
      have "search_loop g roots m target (index + 1) ?st3 = Inr (found, st')" by (simp add: Let_def)
      with IH(2)[of True "(b, st2)" b st2 ?st3 found st'] 4 3 "2.prems"(1-3) cl st3
      have post: "search_post g roots m target (index + 1) ?st3 found st'" by simp
      have "\<not> clique g roots (chosen st @ index # ext)
          \<or> length (chosen st @ index # ext) \<noteq> target" for ext
        using post2 3 by (intro search_post_rejected) (simp add: search_post_def)
      with search_post_next[OF post] st3 "2.prems"(3) show ?thesis by simp
    qed
  qed
qed


section \<open>Route counting\<close>

definition observed_list :: "ancestry_graph \<Rightarrow> str list \<Rightarrow> bool" where
  "observed_list g roots \<longleftrightarrow> distinct roots \<and> (\<forall>r \<in> set roots. observed_root (nodes g) r)"

lemma observed_state:
  "observed_list g roots \<Longrightarrow> i < length roots \<Longrightarrow> s < i \<Longrightarrow>
    independence_state g (roots ! s) (roots ! i)
      = Inr (if recorded g (roots ! s) (roots ! i) then ProvenIndependent else Unknown)"
  by (intro independence_state_roots) (auto simp: observed_list_def nth_eq_iff_index_eq)

lemma compatible_total:
  "observed_list g roots \<Longrightarrow> i < length roots \<Longrightarrow> \<forall>s \<in> set ss. s < i \<Longrightarrow>
    \<exists>b. compatible_with g roots i ss = Inr b"
  by (induction ss) (auto simp: observed_state)

lemma search_total:
  "observed_list g roots \<Longrightarrow> \<forall>c \<in> set (chosen st). c < start \<Longrightarrow>
    \<exists>b st'. search_exact g roots m target start st = Inr (b, st') \<and> (\<not> b \<longrightarrow> chosen st' = chosen st)"
  "observed_list g roots \<Longrightarrow> \<forall>c \<in> set (chosen st). c < start \<Longrightarrow>
    \<exists>b st'. search_loop g roots m target start st = Inr (b, st') \<and> (\<not> b \<longrightarrow> chosen st' = chosen st)"
proof (induction g roots m target start st and g roots m target start st
    rule: search_exact_search_loop.induct)
  case (1 g roots m target start st)
  then show ?case by (auto simp: search_exact.simps[of g roots m target start st])
next
  case (2 g roots m target index st)
  show ?case
  proof (cases "length roots \<le> index \<or> m \<le> states st")
    case True
    then show ?thesis by (auto simp: search_loop.simps[of g roots m target index st])
  next
    case False
    let ?st = "st\<lparr>states := states st + 1\<rparr>"
    let ?push = "?st\<lparr>chosen := chosen st @ [index]\<rparr>"
    from False have F: "\<not> length roots \<le> index" "\<not> m \<le> states st" by auto
    have cl: "\<forall>c \<in> set (chosen st). c < index + 1" using "2.prems"(2) by auto
    from compatible_total[of g roots index "chosen st"] F "2.prems" obtain ok
      where ok: "compatible_with g roots index (chosen st) = Inr ok" by auto
    note step = search_loop.simps[of g roots m target index st]
    show ?thesis
    proof (cases ok)
      case no: False
      with "2.IH"(3)[OF F refl, of ok] ok "2.prems" cl
      obtain b st' where "search_loop g roots m target (index + 1) ?st = Inr (b, st')"
        "\<not> b \<longrightarrow> chosen st' = chosen st" by auto
      with F ok no show ?thesis by (auto simp: step Let_def)
    next
      case yes: True
      with "2.IH"(1)[OF F refl, of ok] ok "2.prems" cl
      obtain b st2 where b: "search_exact g roots m target (index + 1) ?push = Inr (b, st2)"
        "\<not> b \<longrightarrow> chosen st2 = chosen st @ [index]" by auto
      let ?st3 = "st2\<lparr>chosen := butlast (chosen st2)\<rparr>"
      show ?thesis
      proof (cases "b \<or> exhausted st2")
        case True
        with b F ok yes show ?thesis by (cases b) (auto simp: step Let_def)
      next
        case again: False
        with "2.IH"(2)[OF F refl, of ok "(b, st2)" b st2 ?st3] ok yes b "2.prems" cl
        obtain b' st' where "search_loop g roots m target (index + 1) ?st3 = Inr (b', st')"
          "\<not> b' \<longrightarrow> chosen st' = chosen st" by auto
        with b F ok yes again show ?thesis by (auto simp: step Let_def)
      qed
    qed
  qed
qed

text \<open>Mutually proven-independent sets of roots, and the index lists the search looks through.\<close>

definition mutually_recorded :: "ancestry_graph \<Rightarrow> str set \<Rightarrow> bool" where
  "mutually_recorded g R \<longleftrightarrow> (\<forall>r \<in> R. \<forall>s \<in> R. r \<noteq> s \<longrightarrow> recorded g r s)"

lemma mutually_recorded_subset: "mutually_recorded g R \<Longrightarrow> S \<subseteq> R \<Longrightarrow> mutually_recorded g S"
  by (auto simp: mutually_recorded_def)

lemma clique_set:
  assumes "observed_list g roots" "clique g roots is"
  shows "\<exists>R \<subseteq> set roots. card R = length is \<and> mutually_recorded g R"
proof (intro exI conjI)
  let ?R = "(!) roots ` set is"
  from assms(2) have srt: "sorted_wrt (<) is" and lt: "\<forall>i \<in> set is. i < length roots"
    and ind: "sorted_wrt (\<lambda>s i. independence_state g (roots ! s) (roots ! i) = Inr ProvenIndependent) is"
    by (auto simp: clique_def)
  from lt show "?R \<subseteq> set roots" by auto
  have "inj_on ((!) roots) (set is)"
    using assms(1) lt by (auto simp: inj_on_def observed_list_def nth_eq_iff_index_eq)
  then show "card ?R = length is"
    using srt by (simp add: card_image distinct_card strict_sorted_iff)
  have "recorded g (roots ! (is ! a)) (roots ! (is ! b))" if "a < b" "b < length is" for a b
    using srt lt ind that observed_state[OF assms(1), of "is ! b" "is ! a"]
    by (auto simp: sorted_wrt_iff_nth_less split: if_splits)
  then have "recorded g (roots ! (is ! a)) (roots ! (is ! b))"
    if "a \<noteq> b" "a < length is" "b < length is" for a b
    using that by (metis recorded_sym linorder_neqE_nat)
  then show "mutually_recorded g ?R"
    by (auto simp: mutually_recorded_def in_set_conv_nth) metis
qed

lemma set_clique:
  assumes "observed_list g roots" "R \<subseteq> set roots" "mutually_recorded g R"
  shows "\<exists>is. clique g roots is \<and> length is = card R"
proof (intro exI conjI)
  let ?is = "filter (\<lambda>i. roots ! i \<in> R) [0..<length roots]"
  have "(!) roots ` set ?is = R" using assms(2) by (auto simp: image_iff) (metis in_set_conv_nth subsetD)
  moreover have "inj_on ((!) roots) (set ?is)"
    using assms(1) by (auto simp: inj_on_def observed_list_def nth_eq_iff_index_eq)
  ultimately show "length ?is = card R"
    by (metis card_image distinct_card distinct_filter distinct_upt)
  have srt: "sorted_wrt (<) ?is" by (simp add: sorted_wrt_filter)
  have "independence_state g (roots ! s) (roots ! i) = Inr ProvenIndependent"
    if "s \<in> set ?is" "i \<in> set ?is" "s < i" for s i
  proof -
    from that assms(1) have "roots ! s \<noteq> roots ! i" by (auto simp: observed_list_def nth_eq_iff_index_eq)
    with that assms(1,3) show ?thesis by (auto simp: observed_state mutually_recorded_def)
  qed
  then have "sorted_wrt (\<lambda>s i. independence_state g (roots ! s) (roots ! i) = Inr ProvenIndependent) ?is"
    by (intro sorted_wrt_mono_rel[OF _ srt]) blast
  with srt show "clique g roots ?is" by (auto simp: clique_def)
qed


text \<open>What a count promises about a set \<open>S\<close> of roots: as many mutually independent roots as it
  says exist, and without the incomplete mark no larger family up to the required size does.\<close>

definition route_count_ok :: "ancestry_graph \<Rightarrow> str set \<Rightarrow> nat \<Rightarrow> route_count \<Rightarrow> bool" where
  "route_count_ok g S required rc \<longleftrightarrow> proven rc \<le> required \<and>
     (\<exists>R \<subseteq> S. card R = proven rc \<and> mutually_recorded g R) \<and>
     (\<not> incomplete rc \<longrightarrow>
       (\<forall>R \<subseteq> S. mutually_recorded g R \<and> card R \<le> required \<longrightarrow> card R \<le> proven rc))"

lemma route_count_ok_0:
  "required = 0 \<or> S = {} \<Longrightarrow> route_count_ok g S required \<lparr>proven = 0, incomplete = False\<rparr>"
  unfolding route_count_ok_def mutually_recorded_def by force

lemma clique_Nil: "clique g roots []"
  by (simp add: clique_def)

lemma no_larger_family:
  assumes obs: "observed_list g roots"
    and none: "\<forall>ext. clique g roots ext \<longrightarrow> length ext \<noteq> target"
    and R: "R \<subseteq> set roots" "mutually_recorded g R"
  shows "card R < target"
proof (rule ccontr)
  assume "\<not> card R < target"
  then obtain S where S: "S \<subseteq> R" "card S = target"
    by (metis not_less obtain_subset_with_card_n)
  with R have "S \<subseteq> set roots" "mutually_recorded g S" by (auto intro: mutually_recorded_subset)
  with set_clique[OF obs] S none show False by metis
qed

lemma route_targets_ok:
  assumes obs: "observed_list g roots" and most: "most = min required (length roots)"
  shows "2 \<le> t \<Longrightarrow> t \<le> most + 1 \<Longrightarrow> \<exists>R \<subseteq> set roots. card R = t - 1 \<and> mutually_recorded g R \<Longrightarrow>
    \<exists>rc. route_targets g roots m required [t..<most + 1] (t - 1) st = Inr rc
      \<and> route_count_ok g (set roots) required rc"
proof (induction "most + 1 - t" arbitrary: t st)
  case 0
  then have "t = most + 1" by simp
  moreover have "card R \<le> length roots" if "R \<subseteq> set roots" for R
    using that card_mono[of "set roots" R] card_length[of roots] by simp
  ultimately show ?case using 0 most by (auto simp: route_count_ok_def)
next
  case (Suc k)
  then have t: "t < most + 1" "[t..<most + 1] = t # [t + 1..<most + 1]" by (auto simp: upt_conv_Cons)
  from search_total(1)[OF obs, of "st\<lparr>chosen := []\<rparr>" 0 m t] obtain b st' where
    s: "search_exact g roots m t 0 (st\<lparr>chosen := []\<rparr>) = Inr (b, st')" by auto
  have post: "search_post g roots m t 0 (st\<lparr>chosen := []\<rparr>) b st'"
    using s by (intro search_sound(1)) (auto simp: clique_Nil)
  show ?case
  proof (cases b)
    case True
    with post clique_set[OF obs, of "chosen st'"] have R: "\<exists>R \<subseteq> set roots. card R = t \<and> mutually_recorded g R"
      by (auto simp: search_post_def)
    show ?thesis
    proof (cases "t \<ge> required")
      case enough: True
      with t most have "t = required" by simp
      with enough R show ?thesis unfolding t(2) using s True by (auto simp: route_count_ok_def)
    next
      case False
      have "\<exists>rc. route_targets g roots m required [t + 1..<most + 1] (t + 1 - 1) st' = Inr rc
          \<and> route_count_ok g (set roots) required rc"
        using Suc.hyps(2) Suc.prems t R by (intro Suc.hyps(1)) auto
      with s True False show ?thesis unfolding t(2) by simp
    qed
  next
    case False
    have "card R \<le> t - 1" if "\<not> exhausted st'" "R \<subseteq> set roots" "mutually_recorded g R" for R
      using no_larger_family[OF obs _ that(2,3), of t] post False that(1)
      by (auto simp: search_post_def)
    with s False Suc.prems t(1) most show ?thesis unfolding t(2) by (auto simp: route_count_ok_def)
  qed
qed

definition supporting_roots :: "ancestry_graph \<Rightarrow> str list \<Rightarrow> str set" where
  "supporting_roots g ids = {r. \<exists>i \<in> set ids. ancestor (nodes g) i r \<and> observed_root (nodes g) r}"

lemma union_roots_Inr:
  "union_roots g acc ids = Inr rs \<Longrightarrow> bset_ok acc \<Longrightarrow>
    bset_ok rs \<and> set rs = set acc \<union> supporting_roots g ids \<and> (\<forall>i \<in> set ids. sound_ancestry (nodes g) i)"
proof (induction g acc ids rule: union_roots.induct)
  case (2 g acc i "is")
  then obtain ri where ri: "root_ids g i = Inr ri" "union_roots g (bset_extend acc ri) is = Inr rs"
    by (auto split: sum.splits)
  with "2.IH"[OF ri] root_ids_Inr[OF ri(1)] "2.prems"(2) show ?case
    by (auto simp: supporting_roots_def bset_ok_extend)
qed (simp add: supporting_roots_def)

lemma union_roots_total:
  "(\<exists>rs. union_roots g acc ids = Inr rs) \<longleftrightarrow> (\<forall>i \<in> set ids. sound_ancestry (nodes g) i)"
proof (induction g acc ids rule: union_roots.induct)
  case (2 g acc i "is")
  show ?case
  proof (cases "root_ids g i")
    case (Inl e)
    then have "\<not> sound_ancestry (nodes g) i" using root_ids_total by fastforce
    with Inl show ?thesis by auto
  next
    case (Inr rs)
    with "2.IH" root_ids_Inr show ?thesis by auto
  qed
qed simp

lemma route_count_total:
  "(\<exists>rc. proven_independent_route_count g ids required m = Inr rc) \<longleftrightarrow>
    required = 0 \<or> (\<forall>i \<in> set ids. sound_ancestry (nodes g) i)"
  "proven_independent_route_count g ids required m = Inr rc \<Longrightarrow>
    route_count_ok g (supporting_roots g ids) required rc"
proof -
  have "\<exists>rc. proven_independent_route_count g ids required m = Inr rc \<and>
      route_count_ok g (supporting_roots g ids) required rc"
    if "required = 0 \<or> (\<exists>rs. union_roots g [] ids = Inr rs)"
  proof (cases "required = 0")
    case True
    then show ?thesis by (simp add: proven_independent_route_count_def route_count_ok_0)
  next
    case False
    with that obtain rs where rs: "union_roots g [] ids = Inr rs" by auto
    from union_roots_Inr[OF rs] have S: "bset_ok rs" "set rs = supporting_roots g ids" by auto
    then have obs: "observed_list g rs" by (auto simp: observed_list_def bset_ok_def supporting_roots_def)
    have one: "\<exists>R \<subseteq> set rs. card R = 1 \<and> mutually_recorded g R" if "rs \<noteq> []"
      using that by (intro exI[of _ "{hd rs}"]) (auto simp: mutually_recorded_def)
    consider "rs = []" | "rs \<noteq> []" "required = 1 \<or> length rs = 1"
      | "rs \<noteq> []" "required \<noteq> 1" "length rs \<noteq> 1" by blast
    then show ?thesis
    proof cases
      case 1
      with False rs S show ?thesis
        by (simp add: proven_independent_route_count_def route_count_ok_0)
    next
      case 2
      then have "card R \<le> 1" if "R \<subseteq> set rs" "card R \<le> required" for R
        using that card_mono[of "set rs" R] card_length[of rs] by auto
      with 2 False rs S one show ?thesis
        by (auto simp: proven_independent_route_count_def route_count_ok_def)
    next
      case 3
      then have "length rs \<noteq> 0" by simp
      with 3 False have two: "2 \<le> required" "2 \<le> length rs" by linarith+
      with route_targets_ok[OF obs refl, where required = required and t = 2 and m = m and st = "\<lparr>states = 0, exhausted = False, chosen = []\<rparr>"]
        3 False rs S one show ?thesis
        by (simp add: proven_independent_route_count_def)
    qed
  qed
  note ex = this
  show "(\<exists>rc. proven_independent_route_count g ids required m = Inr rc) \<longleftrightarrow>
      required = 0 \<or> (\<forall>i \<in> set ids. sound_ancestry (nodes g) i)"
  proof
    assume "\<exists>rc. proven_independent_route_count g ids required m = Inr rc"
    then have "required = 0 \<or> (\<exists>rs. union_roots g [] ids = Inr rs)"
      by (auto simp: proven_independent_route_count_def split: if_splits sum.splits)
    then show "required = 0 \<or> (\<forall>i \<in> set ids. sound_ancestry (nodes g) i)"
      by (simp add: union_roots_total)
  qed (use ex in \<open>auto simp: union_roots_total\<close>)
  show "route_count_ok g (supporting_roots g ids) required rc"
    if rc: "proven_independent_route_count g ids required m = Inr rc"
  proof -
    from rc have "required = 0 \<or> (\<exists>rs. union_roots g [] ids = Inr rs)"
      by (auto simp: proven_independent_route_count_def split: if_splits sum.splits)
    from ex[OF this] rc show ?thesis by simp
  qed
qed

end
