(* ===== verification/Graph_Invariant.thy ===== *)
theory Graph_Invariant
  imports Independence
begin

text \<open>
  The invariant of \<open>EvidenceAncestryGraph\<close> (\<open>src/evidence_ancestry.rs\<close>): what the validating
  insertions and the deserialisation keep of it, and the properties of the graph's queries that
  rest on it.
\<close>

section \<open>The invariant\<close>

definition node_ok :: "str \<Rightarrow> ancestry_node \<Rightarrow> bool" where
  "node_ok k n \<longleftrightarrow> id n = k \<and> source_family n \<noteq> [] \<and> (derived n \<longrightarrow> parents n \<noteq> [])"

definition plain_root :: "(str \<times> ancestry_node) list \<Rightarrow> str \<Rightarrow> bool" where
  "plain_root ns r \<longleftrightarrow> (\<exists>n. map_of ns r = Some n \<and> \<not> derived n \<and> parents n = [])"

definition record_ok :: "(str \<times> ancestry_node) list \<Rightarrow> str \<Rightarrow> str \<Rightarrow> independence_evidence \<Rightarrow> bool" where
  "record_ok ns l r ev \<longleftrightarrow> l < r \<and> left_root ev = l \<and> right_root ev = r \<and>
     plain_root ns l \<and> plain_root ns r \<and> method_id ev \<noteq> [] \<and> method_version ev \<noteq> 0 \<and>
     supporting_artifact_ids ev \<noteq> [] \<and> list_all (\<lambda>a. trim a \<noteq> []) (supporting_artifact_ids ev)"

definition graph_ok :: "ancestry_graph \<Rightarrow> bool" where
  "graph_ok g \<longleftrightarrow> bmap_ok (nodes g) \<and> (\<forall>k n. map_of (nodes g) k = Some n \<longrightarrow> node_ok k n) \<and>
     bmap_ok (independence g) \<and>
     (\<forall>l rs. map_of (independence g) l = Some rs \<longrightarrow>
        bmap_ok rs \<and> (\<forall>r ev. map_of rs r = Some ev \<longrightarrow> record_ok (nodes g) l r ev))"

lemma graph_ok_empty: "graph_ok empty_graph"
  by (simp add: graph_ok_def empty_graph_def)

lemma record_ok_extend:
  "record_ok ns l r ev \<Longrightarrow> map_of ns k = None \<Longrightarrow> record_ok (bmap_insert k n ns) l r ev"
  by (auto simp: record_ok_def plain_root_def bmap.look_put map_of_bmap_insert)

lemma insert_node_ok:
  assumes "graph_ok g" "insert_node lower g node = Inr g'"
  shows "graph_ok g' \<and> map_of (nodes g') = (map_of (nodes g))(id node \<mapsto>
      node\<lparr>source_family := canonical_family lower (source_family node)\<rparr>)
    \<and> map_of (nodes g) (id node) = None \<and> independence g' = independence g"
  using assms record_ok_extend
  by (auto simp: insert_node_def graph_ok_def Let_def node_ok_def map_of_bmap_insert
      bmap_ok_insert split: if_splits)

lemma check_roots_None:
  "check_roots g rs = None \<longleftrightarrow> (\<forall>r \<in> set rs. plain_root (nodes g) r)"
  by (induction g rs rule: check_roots.induct) (auto simp: plain_root_def split: option.splits)

lemma records_of_ok:
  "graph_ok g \<Longrightarrow> bmap_ok (records_of g l) \<and>
    (\<forall>r ev. map_of (records_of g l) r = Some ev \<longrightarrow> record_ok (nodes g) l r ev)"
  by (auto simp: graph_ok_def records_of_def split: option.splits)

lemma canonical_pair_Inr:
  "canonical_pair a b = Inr (l, r) \<longleftrightarrow> a \<noteq> b \<and> l = min a b \<and> r = max a b"
  by (auto simp: canonical_pair_def min_def max_def)

lemma graph_ok_put:
  assumes "graph_ok g" "bmap_ok rs" "\<And>r ev. map_of rs r = Some ev \<Longrightarrow> record_ok (nodes g) l r ev"
  shows "graph_ok (g\<lparr>independence := bmap_insert l rs (independence g)\<rparr>)"
  using assms by (auto simp: graph_ok_def map_of_bmap_insert bmap_ok_insert)

lemma insert_independence_ok:
  assumes ok: "graph_ok g" and ins: "insert_independence_evidence g ev = Inr g'"
  shows "graph_ok g' \<and> nodes g' = nodes g"
proof -
  from ins obtain l r where lr: "canonical_pair (left_root ev) (right_root ev) = Inr (l, r)"
    by (auto simp: insert_independence_evidence_def split: sum.splits)
  let ?ev = "ev\<lparr>left_root := l, right_root := r, method_id := trim (method_id ev)\<rparr>"
  from lr have lt: "l < r" by (auto simp: canonical_pair_Inr min_def max_def)
  from ins lr have chk: "check_roots g [l, r] = None" and m: "trim (method_id ev) \<noteq> []"
    "method_version ev \<noteq> 0" "supporting_artifact_ids ev \<noteq> []"
    "list_all (\<lambda>a. trim a \<noteq> []) (supporting_artifact_ids ev)"
    by (auto simp: insert_independence_evidence_def Let_def list_all_iff list_ex_iff
        split: option.splits if_splits)
  from chk have "plain_root (nodes g) l" "plain_root (nodes g) r" unfolding check_roots_None by auto
  with lt m have rec: "record_ok (nodes g) l r ?ev" by (simp add: record_ok_def)
  note old = records_of_ok[OF ok, of l]
  show ?thesis
  proof (cases "map_of (records_of g l) r")
    case None
    with ins lr chk m have "g' = g\<lparr>independence :=
        bmap_insert l (bmap_insert r ?ev (records_of g l)) (independence g)\<rparr>"
      by (auto simp: insert_independence_evidence_def Let_def list_all_iff list_ex_iff)
    moreover have "graph_ok (g\<lparr>independence :=
        bmap_insert l (bmap_insert r ?ev (records_of g l)) (independence g)\<rparr>)"
      using old rec by (intro graph_ok_put ok) (auto simp: bmap_ok_insert map_of_bmap_insert split: if_splits)
    ultimately show ?thesis by simp
  next
    case (Some existing)
    with ins lr chk m have "g' = g\<lparr>independence := bmap_insert l (records_of g l) (independence g)\<rparr>"
      by (auto simp: insert_independence_evidence_def Let_def list_all_iff list_ex_iff split: if_splits)
    with graph_ok_put[OF ok] old show ?thesis by auto
  qed
qed

section \<open>Deserialisation\<close>

lemma load_nodes_ok: "graph_ok g \<Longrightarrow> load_nodes lower g kns = Inr g' \<Longrightarrow> graph_ok g'"
proof (induction lower g kns rule: load_nodes.induct)
  case (2 lower g key node rest)
  then obtain g1 where g1: "key = id node" "insert_node lower g node = Inr g1"
    "load_nodes lower g1 rest = Inr g'" by (auto split: if_splits sum.splits)
  then show ?case using "2.IH"[of g1] insert_node_ok[OF "2.prems"(1) g1(2)] by blast
qed simp

lemma load_records_ok: "graph_ok g \<Longrightarrow> load_records g l revs = Inr g' \<Longrightarrow> graph_ok g'"
proof (induction g l revs rule: load_records.induct)
  case (2 g l r ev rest)
  from "2.prems"(2) obtain a b g1 where *: "canonical_pair (left_root ev) (right_root ev) = Inr (a, b)"
    "l = a" "r = b" "insert_independence_evidence g ev = Inr g1" "load_records g1 l rest = Inr g'"
    by (auto split: sum.splits if_splits)
  then show ?case using "2.IH"[of "(a, b)" a b g1] insert_independence_ok[OF "2.prems"(1) *(4)] by simp
qed simp

lemma load_independence_ok: "graph_ok g \<Longrightarrow> load_independence g lrs = Inr g' \<Longrightarrow> graph_ok g'"
proof (induction g lrs rule: load_independence.induct)
  case (2 g l rs rest)
  then show ?case by (auto split: sum.splits dest: load_records_ok)
qed simp

lemma try_from_raw_ok:
  assumes "try_from_raw lower raw = Inr g"
  shows "graph_ok g"
proof -
  from assms obtain g1 where "load_nodes lower empty_graph (nodes raw) = Inr g1"
    "load_independence g1 (independence raw) = Inr g"
    by (cases "load_nodes lower empty_graph (nodes raw)") (auto simp: try_from_raw_def)
  then show ?thesis using load_nodes_ok load_independence_ok graph_ok_empty by blast
qed

section \<open>Properties\<close>

text \<open>A graph with two registered roots, one mirror of each and a record between the roots.\<close>

definition demo_node :: "str \<Rightarrow> str list \<Rightarrow> ancestry_node" where
  "demo_node i ps = \<lparr>id = i, source_family = ''Family'', parents = ps, derived = ps \<noteq> []\<rparr>"

definition demo_evidence :: independence_evidence where
  "demo_evidence = \<lparr>left_root = ''registry'', right_root = ''profile'',
     basis = ExplicitUpstreamProvenance, method_id = '' resolve:test '', method_version = 1,
     supporting_artifact_ids = [''sha256:a''], observed_at_unix = 1\<rparr>"

definition demo :: ancestry_graph where
  "demo =
    \<lparr>nodes = [(''mirror'', \<lparr>id = ''mirror'', source_family = ''family'', parents = [''registry''], derived = True\<rparr>),
      (''profile'', \<lparr>id = ''profile'', source_family = ''family'', parents = [], derived = False\<rparr>),
      (''registry'', \<lparr>id = ''registry'', source_family = ''family'', parents = [], derived = False\<rparr>)],
     independence = [(''profile'', [(''registry'', demo_evidence\<lparr>left_root := ''profile'',
       right_root := ''registry'', method_id := ''resolve:test''\<rparr>)])]\<rparr>"

lemma demo_inserts:
  "Option.bind (case insert_node lower_ascii empty_graph (demo_node ''registry'' []) of Inr g \<Rightarrow> Some g | _ \<Rightarrow> None)
    (\<lambda>g. Option.bind (case insert_node lower_ascii g (demo_node ''profile'' []) of Inr g \<Rightarrow> Some g | _ \<Rightarrow> None)
    (\<lambda>g. Option.bind (case insert_node lower_ascii g (demo_node ''mirror'' [''registry'']) of Inr g \<Rightarrow> Some g | _ \<Rightarrow> None)
    (\<lambda>g. case insert_independence_evidence g demo_evidence of Inr g \<Rightarrow> Some g | _ \<Rightarrow> None))) = Some demo"
  by code_simp

lemma demo_loads: "try_from_raw lower_ascii demo = Inr demo"
  by code_simp

lemma demo_ok: "graph_ok demo"
  by (rule try_from_raw_ok[OF demo_loads])

lemma demo_roots:
  "root_ids demo ''mirror'' = Inr [''registry'']" "root_ids demo ''profile'' = Inr [''profile'']"
  "root_ids demo ''registry'' = Inr [''registry'']"
  by code_simp+

lemma demo_sound:
  "sound_ancestry (nodes demo) ''mirror''" "sound_ancestry (nodes demo) ''profile''"
  using demo_roots root_ids_Inr by blast+

text \<open>C11: The walk to the roots is total and exact: when the whole ancestry of a node is in the
  graph and free of cycles it answers with exactly the observed roots reachable from the node,
  sorted and without duplicates; otherwise it fails closed, naming a reachable missing node or a
  reachable node on a cycle.\<close>

theorem root_ids_exact:
  "if sound_ancestry (nodes g) i
   then \<exists>rs. root_ids g i = Inr rs \<and> bset_ok rs \<and>
     set rs = {r. ancestor (nodes g) i r \<and> observed_root (nodes g) r}
   else \<exists>e. root_ids g i = Inl e \<and> (missing_ancestor (nodes g) i e \<or> cyclic_ancestor (nodes g) i e)"
  using root_ids_answer[of g i] root_ids_total[of g i] by (cases "root_ids g i") auto

text \<open>Shared ancestry dominates any assertion of independence, and two nodes are proven
  independent exactly when each resolves to one root and a record names that pair of roots.\<close>

theorem independence_state_exact:
  assumes "sound_ancestry (nodes g) a" "sound_ancestry (nodes g) b"
  shows "independence_state g a b = Inr
    (if \<exists>r. r \<in> supporting_roots g [a] \<and> r \<in> supporting_roots g [b] then KnownDependent
     else if \<exists>r s. supporting_roots g [a] = {r} \<and> supporting_roots g [b] = {s} \<and> recorded g r s
     then ProvenIndependent else Unknown)"
proof -
  from root_ids_total assms obtain ra rb where r: "root_ids g a = Inr ra" "root_ids g b = Inr rb" by blast
  note R = root_ids_Inr[OF r(1)] root_ids_Inr[OF r(2)]
  then have S: "supporting_roots g [a] = set ra" "supporting_roots g [b] = set rb"
    by (auto simp: supporting_roots_def)
  have one: "length xs = 1 \<longleftrightarrow> (\<exists>x. set xs = {x})" if "bset_ok xs" for xs :: "str list"
    using that card_1_singleton_iff[of "set xs"] unfolding bset_ok_def
    by (metis One_nat_def distinct_card)
  show ?thesis
  proof (cases "\<exists>x y. ra = [x] \<and> rb = [y]")
    case True
    then obtain x y where xy: "ra = [x]" "rb = [y]" by blast
    have sets: "(\<exists>r. r \<in> set ra \<and> r \<in> set rb) \<longleftrightarrow> x = y"
      "(\<exists>r s. set ra = {r} \<and> set rb = {s} \<and> recorded g r s) \<longleftrightarrow> recorded g x y"
      by (auto simp: xy)
    show ?thesis unfolding S sets independence_state_def r sum.case xy
      by (cases x y rule: linorder_cases) (simp_all add: canonical_pair_def recorded_def min_def max_def
          less_imp_neq less_imp_neq[symmetric])
  next
    case False
    then have many: "length ra \<noteq> 1 \<or> length rb \<noteq> 1" by (auto simp: length_Suc_conv)
    have "length ra = 1 \<longleftrightarrow> (\<exists>x. set ra = {x})" "length rb = 1 \<longleftrightarrow> (\<exists>x. set rb = {x})"
      using R one by simp_all
    with many have no: "\<not> (\<exists>r s. set ra = {r} \<and> set rb = {s} \<and> recorded g r s)" by metis
    have shared: "bset_is_disjoint ra rb \<longleftrightarrow> \<not> (\<exists>r. r \<in> set ra \<and> r \<in> set rb)" by auto
    from many show ?thesis unfolding S independence_state_def r sum.case shared
      by (simp only: no if_False not_not if_cancel) auto
  qed
qed

theorem independence_state_exact_witness:
  "independence_state demo ''mirror'' ''profile'' = Inr
    (if \<exists>r. r \<in> supporting_roots demo [''mirror''] \<and> r \<in> supporting_roots demo [''profile''] then KnownDependent
     else if \<exists>r s. supporting_roots demo [''mirror''] = {r} \<and> supporting_roots demo [''profile''] = {s}
       \<and> recorded demo r s
     then ProvenIndependent else Unknown)"
  by (rule independence_state_exact) (rule demo_sound)+

text \<open>C4: The route count is total and exact: with sound support it returns a number for which a
  mutually recorded family of that many supporting roots exists and, unless the search budget ran
  out, no larger family up to the required size; with unsound support it fails closed.\<close>

theorem route_count_exact:
  "if required = 0 \<or> (\<forall>i \<in> set ids. sound_ancestry (nodes g) i)
   then \<exists>rc. proven_independent_route_count g ids required budget = Inr rc
     \<and> route_count_ok g (supporting_roots g ids) required rc
   else \<exists>e. proven_independent_route_count g ids required budget = Inl e"
  using route_count_total[of g ids required budget]
  by (cases "proven_independent_route_count g ids required budget") auto

theorem route_count_exact_witness:
  "route_count_ok demo (supporting_roots demo [''mirror'', ''profile'']) 2
     \<lparr>proven = 2, incomplete = False\<rparr>"
proof -
  have "proven_independent_route_count demo [''mirror'', ''profile''] 2 4096
      = Inr \<lparr>proven = 2, incomplete = False\<rparr>" by code_simp
  with route_count_exact[of 2 "[''mirror'', ''profile'']" demo 4096] demo_sound
  show ?thesis by simp
qed

text \<open>Validating insertion of a node or of independence evidence keeps the graph invariant:
  nodes stored under their own id with a non-empty family, derivations with a parent, and records
  only between two distinct stored underived roots, in canonical order, with usable metadata.\<close>

theorem insertions_keep_invariant:
  assumes "graph_ok g"
  shows "(\<forall>g'. insert_node lower g node = Inr g' \<longrightarrow> graph_ok g') \<and>
    (\<forall>g'. insert_independence_evidence g ev = Inr g' \<longrightarrow> graph_ok g' \<and> nodes g' = nodes g)"
  using insert_node_ok[OF assms] insert_independence_ok[OF assms] by blast

theorem insertions_keep_invariant_witness:
  "\<exists>g'. insert_node lower_ascii demo (demo_node ''copy'' [''mirror'']) = Inr g' \<and> graph_ok g'"
proof -
  have "\<not> isl (insert_node lower_ascii demo (demo_node ''copy'' [''mirror'']))" by code_simp
  then obtain g' where "insert_node lower_ascii demo (demo_node ''copy'' [''mirror'']) = Inr g'"
    by (cases "insert_node lower_ascii demo (demo_node ''copy'' [''mirror''])") auto
  then show ?thesis using insertions_keep_invariant[OF demo_ok] by blast
qed

text \<open>C21: A deserialised graph cannot bypass the insertions: whatever raw maps are loaded, a graph
  that comes out satisfies the invariant.\<close>

theorem deserialised_graph_ok:
  assumes "try_from_raw lower raw = Inr g"
  shows "graph_ok g"
  using assms by (rule try_from_raw_ok)

theorem deserialised_graph_ok_witness:
  "\<exists>g. try_from_raw lower_ascii demo = Inr g \<and> graph_ok g"
  using demo_loads deserialised_graph_ok by blast

end
