(* ===== verification/Union_Find.thy ===== *)
theory Union_Find
  imports Prelude "HOL-Library.Monad_Syntax"
begin

text \<open>
  \<open>src/union_find.rs\<close>: the disjoint-set forest behind every clustering step. An index out
  of range panics in the source; the operations return \<^const>\<open>None\<close> there, and \<open>uf_find\<close>
  is \<^const>\<open>None\<close> as well on a forest with a cycle, where the loop of the source would not
  end. \<open>root_of\<close> is the abstract view: the representative an index reaches. The lemmas show
  that \<open>find\<close> ends and keeps every representative, that \<open>union\<close> joins exactly two
  classes, and that \<open>groups\<close> lists the classes in an order fixed by the partition alone.
\<close>

record union_find =
  parent :: "nat list"
  rank :: "u8 list"

definition uf_new :: "nat \<Rightarrow> union_find" where
  "uf_new n = \<lparr>parent = [0..<n], rank = replicate n 0\<rparr>"

partial_function (option) find_root :: "nat list \<Rightarrow> nat \<Rightarrow> (nat \<times> nat list) option" where
  "find_root p index =
     (if index < length p then
        if p ! index \<noteq> index then
          (if p ! index < length p then
             let p' = p[index := p ! (p ! index)] in find_root p' (p' ! index)
           else None)
        else Some (index, p)
      else None)"

definition uf_find :: "union_find \<Rightarrow> nat \<Rightarrow> (nat \<times> union_find) option" where
  "uf_find uf index =
     (case find_root (parent uf) index of
        None \<Rightarrow> None
      | Some (r, p) \<Rightarrow> Some (r, uf\<lparr>parent := p\<rparr>))"

definition link_roots :: "union_find \<Rightarrow> nat \<Rightarrow> nat \<Rightarrow> union_find option" where
  "link_roots uf l r =
     (if l < length (rank uf) \<and> r < length (rank uf) then
        let (left, right) = (if rank uf ! l < rank uf ! r then (r, l) else (l, r));
            uf' = uf\<lparr>parent := (parent uf)[right := left]\<rparr>
        in Some (if rank uf' ! left = rank uf' ! right
                 then uf'\<lparr>rank := (rank uf')[left := u8_saturating_add (rank uf' ! left) 1]\<rparr>
                 else uf')
      else None)"

definition uf_union :: "union_find \<Rightarrow> nat \<Rightarrow> nat \<Rightarrow> (bool \<times> union_find) option" where
  "uf_union uf l r =
     do {
       (left, uf) \<leftarrow> uf_find uf l;
       (right, uf) \<leftarrow> uf_find uf r;
       if left = right then Some (False, uf)
       else do { uf \<leftarrow> link_roots uf left right; Some (True, uf) }
     }"

fun groups_loop ::
  "nat list \<Rightarrow> union_find \<Rightarrow> (nat \<times> nat) list \<Rightarrow> nat list list \<Rightarrow> (nat list list \<times> union_find) option"
where
  "groups_loop [] uf position groups = Some (groups, uf)"
| "groups_loop (index # rest) uf position groups =
     (case uf_find uf index of
        None \<Rightarrow> None
      | Some (rep, uf') \<Rightarrow>
          (case map_of position rep of
             Some a \<Rightarrow>
               groups_loop rest uf' position (groups[a := groups ! a @ [index]])
           | None \<Rightarrow>
               groups_loop rest uf' (bmap_insert rep (length groups) position)
                 (groups @ [[index]])))"

definition uf_groups :: "union_find \<Rightarrow> (nat list list \<times> union_find) option" where
  "uf_groups uf = groups_loop [0..<length (parent uf)] uf [] []"

section \<open>Representatives\<close>

inductive path_to :: "nat list \<Rightarrow> nat \<Rightarrow> nat \<Rightarrow> nat \<Rightarrow> bool" for p where
  at_root: "i < length p \<Longrightarrow> p ! i = i \<Longrightarrow> path_to p 0 i i"
| climb: "i < length p \<Longrightarrow> p ! i \<noteq> i \<Longrightarrow> path_to p n (p ! i) r \<Longrightarrow> path_to p (Suc n) i r"

inductive_cases path_0E: "path_to p 0 i r"
inductive_cases path_SucE: "path_to p (Suc n) i r"
inductive_cases path_toE: "path_to p n i r"

definition root_of :: "nat list \<Rightarrow> nat \<Rightarrow> nat \<Rightarrow> bool" where
  "root_of p i r \<longleftrightarrow> (\<exists>n. path_to p n i r)"

definition uf_ok :: "union_find \<Rightarrow> bool" where
  "uf_ok uf \<longleftrightarrow> length (rank uf) = length (parent uf) \<and>
     (\<forall>i < length (parent uf). \<exists>r. root_of (parent uf) i r)"

definition same_set :: "union_find \<Rightarrow> nat \<Rightarrow> nat \<Rightarrow> bool" where
  "same_set uf i j \<longleftrightarrow> (\<exists>r. root_of (parent uf) i r \<and> root_of (parent uf) j r)"

lemma path_to_unique: "path_to p n i r \<Longrightarrow> path_to p m i s \<Longrightarrow> n = m \<and> r = s"
proof (induction arbitrary: m s rule: path_to.induct)
  case (at_root i)
  from at_root.prems show ?case
    by (cases rule: path_to.cases) (use at_root.hyps in auto)
next
  case (climb i n r)
  from climb.prems show ?case
  proof (cases rule: path_to.cases)
    case at_root
    with climb.hyps show ?thesis by simp
  next
    case (climb k)
    with \<open>path_to p n (p ! i) r\<close> show ?thesis by (blast dest: climb.IH)
  qed
qed

lemma path_to_range: "path_to p n i r \<Longrightarrow> i < length p \<and> r < length p \<and> p ! r = r"
  by (induction rule: path_to.induct) auto

lemma root_of_unique: "root_of p i r \<Longrightarrow> root_of p i s \<Longrightarrow> r = s"
  by (auto simp: root_of_def dest: path_to_unique)

lemma root_of_range: "root_of p i r \<Longrightarrow> i < length p \<and> r < length p \<and> p ! r = r"
  by (auto simp: root_of_def dest: path_to_range)

lemma root_of_self: "root_of p i i \<longleftrightarrow> i < length p \<and> p ! i = i"
  by (auto simp: root_of_def dest: path_to_range intro: path_to.intros)

lemma root_of_root: "i < length p \<Longrightarrow> p ! i = i \<Longrightarrow> root_of p i r \<longleftrightarrow> r = i"
  using root_of_self root_of_unique by blast

lemma root_of_climb: "i < length p \<Longrightarrow> root_of p (p ! i) r \<Longrightarrow> root_of p i r"
  unfolding root_of_def by (metis path_to.climb)

text \<open>An update above an index's own path leaves the path alone.\<close>

lemma path_to_update:
  "path_to p n j r \<Longrightarrow> path_to p m i s \<Longrightarrow> n < m \<Longrightarrow> path_to (p[i := x]) n j r"
proof (induction rule: path_to.induct)
  case (at_root j)
  then have "j \<noteq> i" using path_to_unique path_to.at_root by fastforce
  with at_root show ?case by (auto intro: path_to.at_root)
next
  case (climb j n r)
  have "path_to p (Suc n) j r" using climb.hyps by (rule path_to.climb)
  with climb.prems have "j \<noteq> i" using path_to_unique by blast
  moreover from climb.IH climb.prems have "path_to (p[i := x]) n (p ! j) r" by simp
  ultimately show ?case using climb.hyps path_to.climb[of j "p[i := x]" n r] by simp
qed

text \<open>Path halving keeps every representative.\<close>

lemma halving_path:
  assumes "path_to p n j r" "path_to p (Suc m) i s"
  shows "root_of (p[i := p ! (p ! i)]) j r"
  using assms(1)
proof (induction rule: path_to.induct)
  case (at_root j)
  with assms(2) have "j \<noteq> i" by (auto elim: path_SucE)
  with at_root show ?case by (auto simp: root_of_self)
next
  case (climb j n r)
  let ?p = "p[i := p ! (p ! i)]"
  show ?case
  proof (cases "j = i")
    case False
    with climb show ?thesis by (auto intro: root_of_climb)
  next
    case True
    from assms(2) have pi: "path_to p m (p ! i) s" "i < length p" by (auto elim: path_SucE)
    with climb True have "s = r" using path_to_unique by blast
    have "root_of ?p (p ! (p ! i)) r"
      using pi(1)
    proof (cases rule: path_to.cases)
      case at_root
      with climb True show ?thesis by simp
    next
      case (climb k)
      with pi assms(2) have "path_to ?p k (p ! (p ! i)) s"
        by (intro path_to_update) auto
      with \<open>s = r\<close> show ?thesis by (auto simp: root_of_def)
    qed
    with True pi show ?thesis by (auto intro: root_of_climb)
  qed
qed

lemma halving_next:
  assumes "path_to p (Suc n) i r"
  shows "\<exists>m\<le>n. path_to (p[i := p ! (p ! i)]) m (p ! (p ! i)) r"
proof -
  from assms have q: "path_to p n (p ! i) r" by (auto elim: path_SucE)
  then have "\<exists>m\<le>n. path_to p m (p ! (p ! i)) r"
    by (cases rule: path_to.cases) (use q in \<open>auto intro: Suc_leI le_SucI\<close>)
  with assms show ?thesis by (meson le_imp_less_Suc path_to_update)
qed

definition reps_kept :: "nat list \<Rightarrow> nat list \<Rightarrow> bool" where
  "reps_kept p p' \<longleftrightarrow> length p' = length p \<and> (\<forall>j r. root_of p j r \<longrightarrow> root_of p' j r)"

lemma reps_kept_trans: "reps_kept p q \<Longrightarrow> reps_kept q s \<Longrightarrow> reps_kept p s"
  by (simp add: reps_kept_def)

lemma find_root_finds:
  "path_to p n i r \<Longrightarrow> \<exists>p'. find_root p i = Some (r, p') \<and> reps_kept p p'"
proof (induction n arbitrary: p i rule: less_induct)
  case (less n)
  show ?case
  proof (cases n)
    case 0
    with less.prems show ?thesis
      by (auto simp: find_root.simps[of p i] reps_kept_def elim: path_0E)
  next
    case (Suc k)
    let ?p = "p[i := p ! (p ! i)]"
    from less.prems Suc have i: "i < length p" "p ! i \<noteq> i" "p ! i < length p"
      by (auto elim!: path_SucE dest: path_to_range)
    from halving_next less.prems Suc obtain m where m: "m \<le> k" "path_to ?p m (p ! (p ! i)) r"
      by blast
    with less.IH[of m ?p] Suc obtain p' where p':
      "find_root ?p (p ! (p ! i)) = Some (r, p')" "reps_kept ?p p'"
      by auto
    have "reps_kept p ?p"
      using halving_path less.prems Suc by (auto simp: reps_kept_def root_of_def)
    with p' i show ?thesis
      by (auto simp: find_root.simps[of p i] Let_def intro: reps_kept_trans)
  qed
qed

lemma uf_find_finds:
  assumes "uf_ok uf" "i < length (parent uf)"
  obtains r uf' where "uf_find uf i = Some (r, uf')" "root_of (parent uf) i r"
    "uf_ok uf'" "reps_kept (parent uf) (parent uf')" "rank uf' = rank uf"
proof -
  from assms obtain n r where "path_to (parent uf) n i r"
    by (auto simp: uf_ok_def root_of_def)
  with find_root_finds obtain p' where
    p': "find_root (parent uf) i = Some (r, p')" "reps_kept (parent uf) p'" by blast
  with assms have "uf_ok (uf\<lparr>parent := p'\<rparr>)"
    by (force simp: uf_ok_def reps_kept_def)
  with p' \<open>path_to (parent uf) n i r\<close> show thesis
    by (intro that[of r "uf\<lparr>parent := p'\<rparr>"]) (auto simp: uf_find_def root_of_def)
qed

lemma reps_kept_same:
  assumes "uf_ok uf" "reps_kept (parent uf) (parent uf')"
  shows "root_of (parent uf') j r \<longleftrightarrow> root_of (parent uf) j r"
    and "same_set uf' i j \<longleftrightarrow> same_set uf i j"
proof -
  show *: "root_of (parent uf') j r \<longleftrightarrow> root_of (parent uf) j r" for j r
    by (metis assms reps_kept_def root_of_range root_of_unique uf_ok_def)
  show "same_set uf' i j \<longleftrightarrow> same_set uf i j" by (simp add: same_set_def *)
qed


lemma same_set_range: "same_set uf i j \<Longrightarrow> i < length (parent uf) \<and> j < length (parent uf)"
  by (auto simp: same_set_def dest: root_of_range)

lemma same_set_refl: "uf_ok uf \<Longrightarrow> i < length (parent uf) \<Longrightarrow> same_set uf i i"
  by (auto simp: uf_ok_def same_set_def)

lemma same_set_sym: "same_set uf i j \<Longrightarrow> same_set uf j i"
  by (auto simp: same_set_def)

lemma same_set_trans: "same_set uf i j \<Longrightarrow> same_set uf j k \<Longrightarrow> same_set uf i k"
  by (metis same_set_def root_of_unique)

section \<open>Union\<close>

lemma relink_root:
  assumes "path_to p n j s" "p ! l = l" "p ! r = r" "l \<noteq> r" "l < length p"
  shows "root_of (p[r := l]) j (if s = r then l else s)"
  using assms(1)
proof (induction rule: path_to.induct)
  case (at_root j)
  have "root_of (p[r := l]) l l" using assms by (simp add: root_of_self)
  with at_root assms show ?case
    by (cases "j = r") (auto simp: root_of_self intro: root_of_climb)
next
  case (climb j n s)
  with assms have "j \<noteq> r" by auto
  with climb root_of_climb[of j "p[r := l]"] show ?case by simp
qed

lemma relink_same:
  assumes "uf_ok uf" "root_of (parent uf) a l" "root_of (parent uf) b r" "l \<noteq> r"
    and uf': "parent uf' = (parent uf)[r := l]" "length (rank uf') = length (rank uf)"
  shows "uf_ok uf'"
    and "same_set uf' i j \<longleftrightarrow> same_set uf i j
      \<or> same_set uf i a \<and> same_set uf j b \<or> same_set uf i b \<and> same_set uf j a"
proof -
  have lr: "l < length (parent uf)" "parent uf ! l = l" "parent uf ! r = r"
    using assms root_of_range by blast+
  have fwd: "root_of (parent uf') k (if s = r then l else s)" if "root_of (parent uf) k s" for k s
    using that lr assms relink_root unfolding root_of_def uf' by blast
  have bwd: "\<exists>s. root_of (parent uf) k s \<and> t = (if s = r then l else s)"
    if k: "root_of (parent uf') k t" for k t
  proof -
    from k uf' have "k < length (parent uf)" using root_of_range by fastforce
    with assms obtain s where s: "root_of (parent uf) k s" by (auto simp: uf_ok_def)
    from fwd[OF s] k have "t = (if s = r then l else s)" by (blast dest: root_of_unique)
    with s show ?thesis by blast
  qed
  show "uf_ok uf'"
    using assms fwd unfolding uf_ok_def by (metis length_list_update)
  have rep: "same_set uf k a \<longleftrightarrow> root_of (parent uf) k l" "same_set uf k b \<longleftrightarrow> root_of (parent uf) k r" for k
    using assms root_of_unique unfolding same_set_def by blast+
  show "same_set uf' i j \<longleftrightarrow> same_set uf i j
      \<or> same_set uf i a \<and> same_set uf j b \<or> same_set uf i b \<and> same_set uf j a" (is "?L \<longleftrightarrow> ?R")
  proof
    assume ?L
    then obtain t where "root_of (parent uf') i t" "root_of (parent uf') j t"
      by (auto simp: same_set_def)
    then obtain s s' where "root_of (parent uf) i s" "root_of (parent uf) j s'"
      "(if s = r then l else s) = (if s' = r then l else s')"
      using bwd by metis
    then show ?R unfolding rep by (auto simp: same_set_def split: if_splits)
  next
    assume ?R
    then consider t where "root_of (parent uf) i t" "root_of (parent uf) j t"
      | "root_of (parent uf) i l" "root_of (parent uf) j r"
      | "root_of (parent uf) i r" "root_of (parent uf) j l"
      unfolding rep by (auto simp: same_set_def)
    then show ?L
    proof cases
      case 1
      then show ?thesis using fwd unfolding same_set_def by blast
    next
      case 2
      then show ?thesis using fwd[of i l] fwd[of j r] \<open>l \<noteq> r\<close> by (auto simp: same_set_def)
    next
      case 3
      then show ?thesis using fwd[of i r] fwd[of j l] \<open>l \<noteq> r\<close> by (auto simp: same_set_def)
    qed
  qed
qed

lemma link_roots_parent:
  assumes "length (rank uf) = length (parent uf)" "l < length (parent uf)" "r < length (parent uf)"
  shows "\<exists>uf'. link_roots uf l r = Some uf' \<and> length (rank uf') = length (rank uf) \<and>
    (parent uf' = (parent uf)[r := l] \<or> parent uf' = (parent uf)[l := r])"
  using assms by (simp add: link_roots_def Let_def)

lemma uf_union_lemma:
  assumes "uf_ok uf" "l < length (parent uf)" "r < length (parent uf)"
  obtains joined uf' where "uf_union uf l r = Some (joined, uf')" "uf_ok uf'"
    "length (parent uf') = length (parent uf)" "joined \<longleftrightarrow> \<not> same_set uf l r"
    "\<And>i j. same_set uf' i j \<longleftrightarrow> same_set uf i j
      \<or> same_set uf i l \<and> same_set uf j r \<or> same_set uf i r \<and> same_set uf j l"
proof -
  from uf_find_finds assms(1,2) obtain a uf1 where f1: "uf_find uf l = Some (a, uf1)"
    "root_of (parent uf) l a" "uf_ok uf1" "reps_kept (parent uf) (parent uf1)" by metis
  note k1 = reps_kept_same[OF assms(1) f1(4)]
  have "r < length (parent uf1)" using f1(4) assms(3) by (simp add: reps_kept_def)
  with uf_find_finds f1(3) obtain b uf2 where f2: "uf_find uf1 r = Some (b, uf2)"
    "root_of (parent uf1) r b" "uf_ok uf2" "reps_kept (parent uf1) (parent uf2)" by metis
  note k2 = reps_kept_same[OF f1(3) f2(4)]
  have len: "length (parent uf2) = length (parent uf)"
    using f1(4) f2(4) by (simp add: reps_kept_def)
  have rl: "root_of (parent uf2) l a" "root_of (parent uf2) r b" using f1 f2 k1 k2 by simp_all
  have same: "same_set uf2 i j \<longleftrightarrow> same_set uf i j" for i j
    using k1(2) k2(2) by blast
  have rep: "same_set uf l r \<longleftrightarrow> a = b"
    using f1(2) f2(2) k1(1) root_of_unique unfolding same_set_def by blast
  show thesis
  proof (cases "a = b")
    case True
    have tr: "same_set uf i j" if "same_set uf i l \<and> same_set uf j r \<or> same_set uf i r \<and> same_set uf j l" for i j
    proof -
      from True rep have "same_set uf l r" by simp
      with that show ?thesis using same_set_sym same_set_trans by blast
    qed
    show ?thesis
    proof (rule that)
      show "uf_union uf l r = Some (False, uf2)" using True f1(1) f2(1) by (simp add: uf_union_def)
      show "False \<longleftrightarrow> \<not> same_set uf l r" using rep True by simp
      show "same_set uf2 i j \<longleftrightarrow> same_set uf i j
        \<or> same_set uf i l \<and> same_set uf j r \<or> same_set uf i r \<and> same_set uf j l" for i j
        using tr same by blast
    qed (use f2(3) len in auto)
  next
    case False
    have "a < length (parent uf2)" "b < length (parent uf2)" using rl root_of_range by blast+
    moreover have "length (rank uf2) = length (parent uf2)" using f2(3) by (simp add: uf_ok_def)
    ultimately obtain uf3 where l: "link_roots uf2 a b = Some uf3"
      "length (rank uf3) = length (rank uf2)"
      "parent uf3 = (parent uf2)[b := a] \<or> parent uf3 = (parent uf2)[a := b]"
      using link_roots_parent by blast
    have "uf_ok uf3 \<and> (\<forall>i j. same_set uf3 i j \<longleftrightarrow> same_set uf2 i j
      \<or> same_set uf2 i l \<and> same_set uf2 j r \<or> same_set uf2 i r \<and> same_set uf2 j l)"
      using l(3)
    proof
      assume p: "parent uf3 = (parent uf2)[b := a]"
      show ?thesis
        using relink_same[OF f2(3) rl False p l(2)] by blast
    next
      assume p: "parent uf3 = (parent uf2)[a := b]"
      show ?thesis
        using relink_same[OF f2(3) rl(2,1) False[symmetric] p l(2)] by blast
    qed
    note joined = this
    show ?thesis
    proof (rule that)
      show "uf_union uf l r = Some (True, uf3)"
        using False f1(1) f2(1) l(1) by (simp add: uf_union_def)
      show "length (parent uf3) = length (parent uf)" using l(3) len by auto
      show "True \<longleftrightarrow> \<not> same_set uf l r" using rep False by simp
      show "same_set uf3 i j \<longleftrightarrow> same_set uf i j
        \<or> same_set uf i l \<and> same_set uf j r \<or> same_set uf i r \<and> same_set uf j l" for i j
        using joined unfolding same by blast
    qed (use joined in blast)
  qed
qed

lemma root_of_upt: "root_of [0..<n] i r \<longleftrightarrow> i < n \<and> r = i"
  using root_of_range[of "[0..<n]" i r] root_of_root[of i "[0..<n]" r] by auto

lemma uf_new_ok: "uf_ok (uf_new n)"
  by (simp add: uf_ok_def uf_new_def root_of_upt)

lemma uf_new_same: "same_set (uf_new n) i j \<longleftrightarrow> i = j \<and> i < n"
  by (auto simp: same_set_def uf_new_def root_of_upt)


section \<open>Groups\<close>

text \<open>The abstract view of \<open>groups\<close>: each index goes to the group whose first member it is
  equivalent to, or opens a new group at the end.\<close>

fun place :: "(nat \<Rightarrow> nat \<Rightarrow> bool) \<Rightarrow> nat \<Rightarrow> nat list list \<Rightarrow> nat list list" where
  "place eq i [] = [[i]]"
| "place eq i (g # gs) = (if eq (hd g) i then (g @ [i]) # gs else g # place eq i gs)"

definition classes :: "(nat \<Rightarrow> nat \<Rightarrow> bool) \<Rightarrow> nat \<Rightarrow> nat list list" where
  "classes eq n = fold (place eq) [0..<n] []"

lemma classes_0 [simp]: "classes eq 0 = []"
  by (simp add: classes_def)

lemma classes_Suc: "classes eq (Suc n) = place eq n (classes eq n)"
  by (simp add: classes_def)

lemma place_at:
  "a < length gs \<Longrightarrow> eq (hd (gs ! a)) i \<Longrightarrow> (\<And>b. b < a \<Longrightarrow> \<not> eq (hd (gs ! b)) i) \<Longrightarrow>
    place eq i gs = gs[a := gs ! a @ [i]]"
proof (induction gs arbitrary: a)
  case (Cons g gs)
  show ?case
  proof (cases a)
    case (Suc k)
    with Cons.prems have "\<not> eq (hd g) i" by fastforce
    moreover have "place eq i gs = gs[k := gs ! k @ [i]]"
      using Cons.prems Suc by (intro Cons.IH) fastforce+
    ultimately show ?thesis using Suc by simp
  qed (use Cons.prems in simp)
qed simp

lemma place_new: "(\<And>g. g \<in> set gs \<Longrightarrow> \<not> eq (hd g) i) \<Longrightarrow> place eq i gs = gs @ [[i]]"
  by (induction gs) auto

lemma place_cases:
  obtains g gs1 gs2 where "gs = gs1 @ g # gs2" "eq (hd g) i" "place eq i gs = gs1 @ (g @ [i]) # gs2"
  | "place eq i gs = gs @ [[i]]" "\<And>g. g \<in> set gs \<Longrightarrow> \<not> eq (hd g) i"
proof (induction gs arbitrary: thesis)
  case (Cons g gs)
  show ?case
  proof (cases "eq (hd g) i")
    case True
    then show ?thesis using Cons.prems(1)[of "[]" g gs] by simp
  next
    case False
    show ?thesis
    proof (rule Cons.IH)
      fix h gs1 gs2
      assume "gs = gs1 @ h # gs2" "eq (hd h) i" "place eq i gs = gs1 @ (h @ [i]) # gs2"
      then show thesis using Cons.prems(1)[of "g # gs1" h gs2] False by simp
    next
      assume "place eq i gs = gs @ [[i]]" "\<And>h. h \<in> set gs \<Longrightarrow> \<not> eq (hd h) i"
      then show thesis using Cons.prems(2) False by auto
    qed
  qed
qed simp

text \<open>A list of groups is the partition of \<open>[0..<n]\<close> by \<open>eq\<close>: the members are ascending, the
  groups are ordered by their smallest member, and each index is in exactly one of them.\<close>

definition partition_of :: "(nat \<Rightarrow> nat \<Rightarrow> bool) \<Rightarrow> nat \<Rightarrow> nat list list \<Rightarrow> bool" where
  "partition_of eq n gs \<longleftrightarrow>
     distinct (concat gs) \<and> set (concat gs) = {0..<n} \<and>
     (\<forall>g \<in> set gs. g \<noteq> [] \<and> sorted g) \<and> sorted (map hd gs) \<and>
     (\<forall>g \<in> set gs. \<forall>i \<in> set g. \<forall>h \<in> set gs. \<forall>j \<in> set h. eq i j \<longleftrightarrow> g = h)"

text \<open>The same over the group heads, which one step of \<open>place\<close> keeps easily.\<close>

definition heads_inv :: "(nat \<Rightarrow> nat \<Rightarrow> bool) \<Rightarrow> nat \<Rightarrow> nat list list \<Rightarrow> bool" where
  "heads_inv eq n gs \<longleftrightarrow>
     distinct (concat gs) \<and> set (concat gs) = {0..<n} \<and>
     (\<forall>g \<in> set gs. g \<noteq> [] \<and> sorted g \<and> (\<forall>i \<in> set g. eq (hd g) i)) \<and> sorted (map hd gs) \<and>
     (\<forall>g \<in> set gs. \<forall>h \<in> set gs. eq (hd g) (hd h) \<longrightarrow> hd g = hd h)"

lemma sorted_snoc_max: "sorted (xs :: nat list) \<Longrightarrow> set xs \<subseteq> {0..<n} \<Longrightarrow> sorted (xs @ [n])"
  by (auto simp: sorted_append)

lemma heads_inv_join:
  assumes p: "heads_inv eq n (gs1 @ g # gs2)" and g: "eq (hd g) n"
  shows "heads_inv eq (Suc n) (gs1 @ (g @ [n]) # gs2)"
proof -
  have sub: "set (concat (gs1 @ g # gs2)) = {0..<n}" using p by (simp only: heads_inv_def)
  then have "set g \<subseteq> {0..<n}" by auto
  moreover have "\<forall>h \<in> set (gs1 @ g # gs2). h \<noteq> [] \<and> sorted h" using p by (auto simp only: heads_inv_def)
  ultimately have g0: "hd (g @ [n]) = hd g" "sorted (g @ [n])" using sorted_snoc_max by auto
  have "set (concat (gs1 @ (g @ [n]) # gs2)) = insert n (set (concat (gs1 @ g # gs2)))" by auto
  then have "set (concat (gs1 @ (g @ [n]) # gs2)) = {0..<Suc n}"
    unfolding sub by (simp only: atLeast0_lessThan_Suc)
  moreover have "n \<notin> set (concat (gs1 @ g # gs2))" unfolding sub by simp
  ultimately show ?thesis using p g g0 unfolding heads_inv_def by (simp add: ball_Un)
qed

lemma heads_inv_new:
  assumes p: "heads_inv eq n gs" and new: "\<And>g. g \<in> set gs \<Longrightarrow> \<not> eq (hd g) n"
    and eq: "symp eq" "eq n n"
  shows "heads_inv eq (Suc n) (gs @ [[n]])"
proof -
  from p have "set (map hd gs) \<subseteq> {0..<n}" "sorted (map hd gs)"
    by (fastforce simp: heads_inv_def)+
  then have "sorted (map hd (gs @ [[n]]))" using sorted_snoc_max by simp
  moreover have "\<not> eq n (hd g)" if "g \<in> set gs" for g using new[OF that] eq(1) by (auto dest: sympD)
  ultimately show ?thesis using p eq(2) new
    by (auto simp: heads_inv_def set_eq_iff less_Suc_eq)
qed

lemma classes_heads_inv:
  assumes "symp eq" "\<And>i. i < n \<Longrightarrow> eq i i"
  shows "m \<le> n \<Longrightarrow> heads_inv eq m (classes eq m)"
proof (induction m)
  case 0
  show ?case by (simp add: heads_inv_def)
next
  case (Suc m)
  then have inv: "heads_inv eq m (classes eq m)" and "eq m m" using assms by auto
  then show ?case
    by (cases rule: place_cases[of "classes eq m" eq m])
      (simp_all add: classes_Suc heads_inv_join heads_inv_new assms(1))
qed

lemma heads_inv_partition:
  assumes inv: "heads_inv eq n gs" and eq: "symp eq" "transp eq"
  shows "partition_of eq n gs"
proof -
  have mem: "eq (hd g) i" if "g \<in> set gs" "i \<in> set g" for g i
    using inv that by (auto simp: heads_inv_def)
  have "g = h" if "g \<in> set gs" "h \<in> set gs" "eq (hd g) (hd h)" for g h
  proof -
    from inv that have "hd g = hd h" "g \<noteq> []" "h \<noteq> []" "distinct (concat gs)"
      by (auto simp: heads_inv_def)
    with that(1,2) show ?thesis by (metis disjoint_iff distinct_concat_iff hd_in_set)
  qed
  then have "eq i j \<longleftrightarrow> g = h" if "g \<in> set gs" "i \<in> set g" "h \<in> set gs" "j \<in> set h" for g i h j
    using that mem eq by (meson sympD transpD)
  with inv show ?thesis by (auto simp: heads_inv_def partition_of_def)
qed

lemma classes_partition:
  "symp eq \<Longrightarrow> transp eq \<Longrightarrow> (\<And>i. i < n \<Longrightarrow> eq i i) \<Longrightarrow> partition_of eq n (classes eq n)"
  by (intro heads_inv_partition classes_heads_inv[where n = n]) auto

text \<open>The position map of the source holds exactly the representatives of the group heads.\<close>

definition position_ok :: "nat list \<Rightarrow> (nat \<times> nat) list \<Rightarrow> nat list list \<Rightarrow> bool" where
  "position_ok p position groups \<longleftrightarrow> bmap_ok position \<and> [] \<notin> set groups \<and>
     (\<forall>r a. map_of position r = Some a \<longleftrightarrow> a < length groups \<and> root_of p (hd (groups ! a)) r)"

lemma position_ok_join:
  assumes "position_ok p position groups" "map_of position r = Some a"
  shows "position_ok p position (groups[a := groups ! a @ [i]])"
proof -
  from assms have a: "a < length groups" "groups ! a \<noteq> []" by (auto simp: position_ok_def in_set_conv_nth)
  then have "hd (groups[a := groups ! a @ [i]] ! b) = hd (groups ! b)" if "b < length groups" for b
    using that by (cases "b = a") auto
  moreover have "[] \<notin> set (groups[a := groups ! a @ [i]])"
    using assms(1) set_update_subset_insert[of groups a "groups ! a @ [i]"]
    by (auto simp: position_ok_def)
  ultimately show ?thesis using assms(1) by (auto simp: position_ok_def)
qed

lemma position_ok_new:
  assumes "position_ok p position groups" "map_of position r = None" "root_of p i r"
  shows "position_ok p (bmap_insert r (length groups) position) (groups @ [[i]])"
proof -
  have "root_of p i r' \<longleftrightarrow> r' = r" for r' using assms(3) root_of_unique by blast
  moreover from assms have "\<not> root_of p (hd (groups ! a)) r" if "a < length groups" for a
    using that unfolding position_ok_def by (metis option.distinct(1))
  ultimately show ?thesis using assms
    by (auto simp: position_ok_def bmap.look_put bmap.ok_put nth_append less_Suc_eq)
qed

lemma groups_loop_places:
  "uf_ok uf \<Longrightarrow> set rest \<subseteq> {0..<length (parent uf)} \<Longrightarrow>
    (\<And>r a. root_of (parent uf) r a \<longleftrightarrow> root_of p r a) \<Longrightarrow> position_ok p position groups \<Longrightarrow>
    \<exists>uf'. groups_loop rest uf position groups = Some (fold (place (same_set uf)) rest groups, uf')
      \<and> uf_ok uf' \<and> reps_kept (parent uf) (parent uf')"
proof (induction rest arbitrary: uf position groups)
  case Nil
  then show ?case by (simp add: reps_kept_def)
next
  case (Cons i rest)
  then have "i < length (parent uf)" by simp
  with uf_find_finds Cons.prems(1) obtain r uf1 where f: "uf_find uf i = Some (r, uf1)"
    "root_of (parent uf) i r" "uf_ok uf1" "reps_kept (parent uf) (parent uf1)" by metis
  note kept = reps_kept_same[OF Cons.prems(1) f(4)]
  have eq1: "same_set uf1 = same_set uf" using kept(2) by (intro ext) simp
  have len: "set rest \<subseteq> {0..<length (parent uf1)}" using Cons.prems(2) f(4) by (simp add: reps_kept_def)
  have rp: "root_of (parent uf1) r a \<longleftrightarrow> root_of p r a" for r a using kept(1) Cons.prems(3) by simp
  have ir: "root_of p i r" using f(2) Cons.prems(3) by simp
  have hdr: "same_set uf (hd g) i \<longleftrightarrow> root_of p (hd g) r" for g
    using ir Cons.prems(3) root_of_unique unfolding same_set_def by metis
  show ?case
  proof (cases "map_of position r")
    case None
    then have none: "place (same_set uf) i groups = groups @ [[i]]"
      using Cons.prems(4) hdr by (intro place_new) (fastforce simp: position_ok_def in_set_conv_nth)
    show ?thesis
      using Cons.IH[OF f(3) len rp position_ok_new[OF Cons.prems(4) None ir]] None none f eq1
      by (auto intro: reps_kept_trans)
  next
    case (Some a)
    then have "a < length groups" "root_of p (hd (groups ! a)) r" using Cons.prems(4) by (auto simp: position_ok_def)
    moreover have "\<not> root_of p (hd (groups ! b)) r" if "b < a" for b
    proof
      assume "root_of p (hd (groups ! b)) r"
      with that \<open>a < length groups\<close> Cons.prems(4) have "map_of position r = Some b"
        by (auto simp: position_ok_def)
      with Some that show False by simp
    qed
    ultimately have some: "place (same_set uf) i groups = groups[a := groups ! a @ [i]]"
      using hdr by (intro place_at) auto
    show ?thesis
      using Cons.IH[OF f(3) len rp position_ok_join[OF Cons.prems(4) Some]] Some some f eq1
      by (auto intro: reps_kept_trans)
  qed
qed

lemma uf_groups_classes:
  assumes "uf_ok uf"
  shows "\<exists>uf'. uf_groups uf = Some (classes (same_set uf) (length (parent uf)), uf')
    \<and> uf_ok uf' \<and> reps_kept (parent uf) (parent uf')"
  using groups_loop_places[OF assms, of "[0..<length (parent uf)]" "parent uf" "[]" "[]"]
  by (simp add: uf_groups_def classes_def position_ok_def)

lemma same_set_partition:
  "uf_ok uf \<Longrightarrow> partition_of (same_set uf) (length (parent uf)) (classes (same_set uf) (length (parent uf)))"
  by (intro classes_partition)
    (auto intro: sympI transpI same_set_sym same_set_trans same_set_refl)


section \<open>Sequences of unions\<close>

fun union_all :: "union_find \<Rightarrow> (nat \<times> nat) list \<Rightarrow> union_find option" where
  "union_all uf [] = Some uf"
| "union_all uf ((l, r) # pairs) =
     (case uf_union uf l r of None \<Rightarrow> None | Some (_, uf') \<Rightarrow> union_all uf' pairs)"

text \<open>The equivalence the joined pairs generate.\<close>

definition linked :: "nat \<Rightarrow> (nat \<times> nat) set \<Rightarrow> nat \<Rightarrow> nat \<Rightarrow> bool" where
  "linked n E i j \<longleftrightarrow> i < n \<and> j < n \<and> (i, j) \<in> (E \<union> E\<inverse>)\<^sup>*"

lemma linked_sym: "linked n E i j \<Longrightarrow> linked n E j i"
  by (metis converse_Un converse_converse linked_def rtrancl_converseD sup_commute)

lemma linked_trans: "linked n E i j \<Longrightarrow> linked n E j k \<Longrightarrow> linked n E i k"
  by (auto simp: linked_def)

lemma linked_mono: "E \<subseteq> F \<Longrightarrow> linked n E i j \<Longrightarrow> linked n F i j"
  unfolding linked_def by (meson Un_mono converse_mono rtrancl_mono subsetD)

lemma linked_insertD:
  assumes "(i, j) \<in> (insert (l, r) E \<union> (insert (l, r) E)\<inverse>)\<^sup>*" "i < n"
    and "l < n" "r < n" "E \<subseteq> {0..<n} \<times> {0..<n}"
  shows "j < n \<and> (linked n E i j \<or> linked n E i l \<and> linked n E j r \<or> linked n E i r \<and> linked n E j l)"
  using assms(1)
proof (induction rule: rtrancl_induct)
  case base
  show ?case using assms(2) by (simp add: linked_def)
next
  case (step j k)
  have refl: "linked n E l l" "linked n E r r" using assms by (simp_all add: linked_def)
  from step.hyps(2) consider "(j, k) \<in> E \<union> E\<inverse>" | "j = l" "k = r" | "j = r" "k = l" by auto
  then show ?case
  proof cases
    case 1
    then have "k < n" "linked n E j k" using assms(5) step.IH by (auto simp: linked_def)
    with step.IH show ?thesis by (metis linked_sym linked_trans)
  next
    case 2
    with step.IH refl assms show ?thesis by (metis linked_sym linked_trans)
  next
    case 3
    with step.IH refl assms show ?thesis by (metis linked_sym linked_trans)
  qed
qed

lemma linked_insert:
  assumes "l < n" "r < n" "E \<subseteq> {0..<n} \<times> {0..<n}"
  shows "linked n (insert (l, r) E) i j \<longleftrightarrow>
    linked n E i j \<or> linked n E i l \<and> linked n E j r \<or> linked n E i r \<and> linked n E j l" (is "?L \<longleftrightarrow> ?R")
proof
  assume ?L
  then show ?R using linked_insertD[OF _ _ assms] unfolding linked_def by blast
next
  let ?F = "insert (l, r) E"
  have lr: "linked n ?F l r" using assms by (auto simp: linked_def)
  have up: "linked n E a b \<Longrightarrow> linked n ?F a b" for a b by (rule linked_mono) auto
  assume ?R
  then show ?L by (metis lr up linked_sym linked_trans)
qed

lemma union_all_linked:
  assumes "uf_ok uf" "length (parent uf) = n" "set pairs \<subseteq> {0..<n} \<times> {0..<n}" "E \<subseteq> {0..<n} \<times> {0..<n}"
    and "same_set uf = linked n E"
  shows "\<exists>uf'. union_all uf pairs = Some uf' \<and> uf_ok uf' \<and> length (parent uf') = n \<and>
    same_set uf' = linked n (set pairs \<union> E)"
  using assms
proof (induction pairs arbitrary: uf E)
  case (Cons pr pairs)
  obtain l r where pr: "pr = (l, r)" by force
  with Cons.prems have lr: "l < n" "r < n" by auto
  with uf_union_lemma[OF Cons.prems(1), of l r] Cons.prems(2) obtain b uf1 where u:
    "uf_union uf l r = Some (b, uf1)" "uf_ok uf1" "length (parent uf1) = n"
    "\<And>i j. same_set uf1 i j \<longleftrightarrow> same_set uf i j
      \<or> same_set uf i l \<and> same_set uf j r \<or> same_set uf i r \<and> same_set uf j l" by metis
  have "same_set uf1 = linked n (insert (l, r) E)"
    using linked_insert[OF lr Cons.prems(4)] Cons.prems(5) u(4) by (intro ext) simp
  from Cons.IH[OF u(2,3) _ _ this] Cons.prems lr show ?case by (auto simp: pr u)
qed simp

lemma union_all_new:
  assumes "set pairs \<subseteq> {0..<n} \<times> {0..<n}"
  shows "\<exists>uf. union_all (uf_new n) pairs = Some uf \<and> uf_ok uf \<and> length (parent uf) = n \<and>
    same_set uf = linked n (set pairs)"
proof -
  have "same_set (uf_new n) = linked n {}" by (intro ext) (auto simp: uf_new_same linked_def)
  from union_all_linked[OF uf_new_ok _ assms _ this] show ?thesis by (simp add: uf_new_def)
qed

section \<open>Properties\<close>

text \<open>From a valid forest, \<open>union\<close> of two indices in range always returns; it answers whether
  they were in different sets, and afterwards two indices are together exactly when they were
  before or the two sets of the call connect them. The forest stays valid.\<close>

theorem uf_union_joins:
  assumes "uf_ok uf" "l < length (parent uf)" "r < length (parent uf)"
  shows "\<exists>joined uf'. uf_union uf l r = Some (joined, uf') \<and> uf_ok uf' \<and>
    (joined \<longleftrightarrow> \<not> same_set uf l r) \<and>
    (\<forall>i j. same_set uf' i j \<longleftrightarrow> same_set uf i j
      \<or> same_set uf i l \<and> same_set uf j r \<or> same_set uf i r \<and> same_set uf j l)"
  by (rule uf_union_lemma[OF assms]) (intro exI conjI allI; assumption)

theorem uf_union_joins_witness:
  "\<exists>joined uf'. uf_union (uf_new 3) 0 2 = Some (joined, uf') \<and> uf_ok uf' \<and>
    (joined \<longleftrightarrow> \<not> same_set (uf_new 3) 0 2) \<and>
    (\<forall>i j. same_set uf' i j \<longleftrightarrow> same_set (uf_new 3) i j
      \<or> same_set (uf_new 3) i 0 \<and> same_set (uf_new 3) j 2
      \<or> same_set (uf_new 3) i 2 \<and> same_set (uf_new 3) j 0)"
  by (rule uf_union_joins) (simp_all add: uf_new_ok, simp_all add: uf_new_def)

text \<open>C32: After any sequence of unions, \<open>groups\<close> returns the partition of the indices into the
  classes of the generated equivalence: members ascending, groups by smallest member.\<close>

theorem uf_groups_partition:
  assumes "set pairs \<subseteq> {0..<n} \<times> {0..<n}"
  shows "\<exists>uf groups uf'. union_all (uf_new n) pairs = Some uf \<and>
    uf_groups uf = Some (groups, uf') \<and> partition_of (linked n (set pairs)) n groups"
  using union_all_new[OF assms] uf_groups_classes same_set_partition by metis

theorem uf_groups_partition_witness:
  "\<exists>uf groups uf'. union_all (uf_new 4) [(0, 3), (1, 2)] = Some uf \<and>
    uf_groups uf = Some (groups, uf') \<and> partition_of (linked 4 (set [(0, 3), (1, 2)])) 4 groups"
  by (rule uf_groups_partition) simp

text \<open>The groups depend only on which pairs were joined, not on the order of the unions or the
  side an index was on.\<close>

theorem uf_groups_order_independent:
  assumes "set pairs \<subseteq> {0..<n} \<times> {0..<n}" "set pairs' \<subseteq> {0..<n} \<times> {0..<n}"
    and "set pairs \<union> (set pairs)\<inverse> = set pairs' \<union> (set pairs')\<inverse>"
  shows "map_option fst (Option.bind (union_all (uf_new n) pairs) uf_groups)
    = map_option fst (Option.bind (union_all (uf_new n) pairs') uf_groups)"
proof -
  have "linked n (set pairs) = linked n (set pairs')"
    by (intro ext) (simp add: linked_def assms(3))
  with union_all_new[OF assms(1)] union_all_new[OF assms(2)] obtain uf uf' where
    "union_all (uf_new n) pairs = Some uf" "union_all (uf_new n) pairs' = Some uf'"
    "uf_ok uf" "uf_ok uf'" "length (parent uf) = length (parent uf')" "same_set uf = same_set uf'" by metis
  with uf_groups_classes[of uf] uf_groups_classes[of uf'] show ?thesis by auto
qed

theorem uf_groups_order_independent_witness:
  "map_option fst (Option.bind (union_all (uf_new 4) [(0, 3), (1, 2)]) uf_groups)
    = map_option fst (Option.bind (union_all (uf_new 4) [(2, 1), (3, 0)]) uf_groups)"
  by (rule uf_groups_order_independent) auto

end
