(* ===== verification/Identity.thy ===== *)
theory Identity
  imports Graph_Invariant Union_Find
begin

text \<open>
  \<open>src/identity_resolution.rs\<close> and \<open>src/resolve.rs\<close>: the non-compensatory gate an automatic
  identity merge has to pass, and the clusters the accepted merges generate. A reason that carries
  a number formatted as text in the source carries the number itself here; the text of an unknown
  ancestry is the error, or the support ids that are no observations.
\<close>

datatype unknown_detail = AncestryDetail ancestry_error | NotObservations "str list"

datatype resolution_state = Match | Probable | Possible | NonMatch | Contradicted | Unresolved

record decision =
  left_entity_uid :: str
  right_entity_uid :: str
  state :: resolution_state
  probability :: "f64 option"
  supporting :: "str list"
  contradicting :: "str list"
  temporal_conflict :: bool
  geographic_conflict :: bool
  decided_at_unix :: u64

record auto_merge_policy =
  min_independent_support_families :: nat
  min_match_probability :: f64

text \<open>The double nearest to \<open>0.90\<close> is \<open>8106479329266893 / 2 ^ 53\<close>.\<close>

definition default_policy :: auto_merge_policy where
  "default_policy = \<lparr>min_independent_support_families = 2,
     min_match_probability = Fin (8106479329266893 / 9007199254740992)\<rparr>"

datatype hold_reason =
    InvalidPolicy f64
  | InvalidCandidate
  | ProbabilityMissing
  | ProbabilityInvalid f64
  | ProbabilityBelowThreshold f64 f64
  | NotAMatch resolution_state
  | HasContradictions nat
  | TemporalConflict
  | GeographicConflict
  | UnknownAncestry unknown_detail
  | IncompleteIndependenceProof
  | InsufficientIndependentFamilies nat nat

definition default_independence_search_states :: nat where
  "default_independence_search_states = 4096"

definition ids_valid :: "decision \<Rightarrow> bool" where
  "ids_valid d \<longleftrightarrow> trim (left_entity_uid d) \<noteq> [] \<and> trim (right_entity_uid d) \<noteq> [] \<and>
     left_entity_uid d \<noteq> right_entity_uid d \<and>
     list_all (\<lambda>e. trim e \<noteq> []) (supporting d @ contradicting d)"

definition is_valid :: "decision \<Rightarrow> bool" where
  "is_valid d \<longleftrightarrow> trim (left_entity_uid d) \<noteq> [] \<and> trim (right_entity_uid d) \<noteq> [] \<and>
     left_entity_uid d \<noteq> right_entity_uid d \<and>
     (case probability d of None \<Rightarrow> True | Some p \<Rightarrow> f64_unit_interval p) \<and>
     list_all (\<lambda>e. trim e \<noteq> []) (supporting d @ contradicting d)"

definition independent_support_families :: "decision \<Rightarrow> ancestry_graph \<Rightarrow> nat option" where
  "independent_support_families d g =
     (case independent_support_count g (supporting d) of Inl _ \<Rightarrow> None | Inr n \<Rightarrow> Some n)"

definition proven_independent_support_routes ::
  "decision \<Rightarrow> ancestry_graph \<Rightarrow> nat \<Rightarrow> ancestry_error + route_count"
where
  "proven_independent_support_routes d g required =
     proven_independent_route_count g (supporting d) (max required 1)
       default_independence_search_states"

definition hold_reasons_with_routes ::
  "decision \<Rightarrow> unknown_detail + route_count \<Rightarrow> auto_merge_policy \<Rightarrow> hold_reason list"
where
  "hold_reasons_with_routes d routes policy =
     (let floor = min_match_probability policy;
          floor_ok = f64_unit_interval floor;
          required = max (min_independent_support_families policy) 1
      in (if floor_ok then [] else [InvalidPolicy floor])
       @ (if ids_valid d then [] else [InvalidCandidate])
       @ (case probability d of
            None \<Rightarrow> [ProbabilityMissing]
          | Some p \<Rightarrow>
              if \<not> f64_unit_interval p then [ProbabilityInvalid p]
              else if floor_ok \<and> f64_less p floor then [ProbabilityBelowThreshold p floor]
              else [])
       @ (if state d \<noteq> Match then [NotAMatch (state d)] else [])
       @ (if contradicting d \<noteq> [] then [HasContradictions (length (contradicting d))] else [])
       @ (if temporal_conflict d then [TemporalConflict] else [])
       @ (if geographic_conflict d then [GeographicConflict] else [])
       @ (case routes of
            Inl detail \<Rightarrow> [UnknownAncestry detail]
          | Inr result \<Rightarrow>
              (if incomplete result then [IncompleteIndependenceProof] else [])
              @ (if proven result < required
                 then [InsufficientIndependentFamilies (proven result) required] else [])))"

definition hold_reasons :: "decision \<Rightarrow> ancestry_graph \<Rightarrow> auto_merge_policy \<Rightarrow> hold_reason list" where
  "hold_reasons d g policy =
     hold_reasons_with_routes d
       (map_sum AncestryDetail (\<lambda>rc. rc)
         (proven_independent_support_routes d g (max (min_independent_support_families policy) 1)))
       policy"

definition hold_reasons_given ::
  "decision \<Rightarrow> unknown_detail + nat \<Rightarrow> auto_merge_policy \<Rightarrow> hold_reason list"
where
  "hold_reasons_given d families policy =
     hold_reasons_with_routes d
       (map_sum (\<lambda>e. e) (\<lambda>found. \<lparr>proven = (if found > 0 then 1 else 0), incomplete = False\<rparr>) families)
       policy"

definition allows_automatic_merge :: "decision \<Rightarrow> ancestry_graph \<Rightarrow> auto_merge_policy \<Rightarrow> bool" where
  "allows_automatic_merge d g policy \<longleftrightarrow> hold_reasons d g policy = []"

section \<open>Clusters\<close>

record resolution_cluster =
  members :: "str list"
  decision_count :: nat

fun dedup :: "'a list \<Rightarrow> 'a list" where
  "dedup (x # y # xs) = (if x = y then dedup (y # xs) else x # dedup (y # xs))"
| "dedup xs = xs"

definition decision_ids :: "decision list \<Rightarrow> str list" where
  "decision_ids ds = dedup (sort (concat (map (\<lambda>d. [left_entity_uid d, right_entity_uid d]) ds)))"

fun index_of :: "'a list \<Rightarrow> 'a \<Rightarrow> nat" where
  "index_of [] x = 0"
| "index_of (y # ys) x = (if x = y then 0 else index_of ys x + 1)"

text \<open>The loop over the decisions: the forest and the indices of the left sides that joined.\<close>

fun apply_decisions ::
  "ancestry_graph \<Rightarrow> auto_merge_policy \<Rightarrow> str list \<Rightarrow> decision list \<Rightarrow> union_find \<Rightarrow> nat list
    \<Rightarrow> (union_find \<times> nat list) option"
where
  "apply_decisions g policy ids [] uf applied = Some (uf, applied)"
| "apply_decisions g policy ids (d # ds) uf applied =
     (if left_entity_uid d \<noteq> right_entity_uid d \<and> allows_automatic_merge d g policy then
        (let left = index_of ids (left_entity_uid d);
             right = index_of ids (right_entity_uid d)
         in case uf_union uf left right of
              None \<Rightarrow> None
            | Some (joined, uf') \<Rightarrow>
                apply_decisions g policy ids ds uf' (if joined then applied @ [left] else applied))
      else apply_decisions g policy ids ds uf applied)"

fun count_roots ::
  "union_find \<Rightarrow> nat list \<Rightarrow> (nat \<times> nat) list \<Rightarrow> (union_find \<times> (nat \<times> nat) list) option"
where
  "count_roots uf [] counts = Some (uf, counts)"
| "count_roots uf (left # rest) counts =
     (case uf_find uf left of
        None \<Rightarrow> None
      | Some (r, uf') \<Rightarrow>
          count_roots uf' rest
            (bmap_insert r ((case map_of counts r of Some c \<Rightarrow> c | None \<Rightarrow> 0) + 1) counts))"

fun render_groups ::
  "str list \<Rightarrow> (nat \<times> nat) list \<Rightarrow> union_find \<Rightarrow> nat list list \<Rightarrow> resolution_cluster list option"
where
  "render_groups ids counts uf [] = Some []"
| "render_groups ids counts uf (grp # rest) =
     (case grp of
        [] \<Rightarrow> None
      | first # _ \<Rightarrow>
          (case uf_find uf first of
             None \<Rightarrow> None
           | Some (r, uf') \<Rightarrow>
               (case render_groups ids counts uf' rest of
                  None \<Rightarrow> None
                | Some clusters \<Rightarrow>
                    Some (\<lparr>members = map ((!) ids) grp,
                           decision_count = (case map_of counts r of Some c \<Rightarrow> c | None \<Rightarrow> 0)\<rparr>
                          # clusters))))"

definition automatic_clusters ::
  "decision list \<Rightarrow> ancestry_graph \<Rightarrow> auto_merge_policy \<Rightarrow> resolution_cluster list option"
where
  "automatic_clusters ds g policy =
     (let ids = decision_ids ds in
      case apply_decisions g policy ids ds (uf_new (length ids)) [] of
        None \<Rightarrow> None
      | Some (uf, applied) \<Rightarrow>
          (case count_roots uf applied [] of
             None \<Rightarrow> None
           | Some (uf, counts) \<Rightarrow>
               (case uf_groups uf of
                  None \<Rightarrow> None
                | Some (groups, uf) \<Rightarrow> render_groups ids counts uf groups)))"


section \<open>The gate\<close>

lemma no_reasons_iff:
  "hold_reasons_with_routes d routes policy = [] \<longleftrightarrow>
     f64_unit_interval (min_match_probability policy) \<and> ids_valid d \<and>
     (\<exists>p. probability d = Some p \<and> f64_unit_interval p \<and>
       \<not> f64_less p (min_match_probability policy)) \<and>
     state d = Match \<and> contradicting d = [] \<and> \<not> temporal_conflict d \<and> \<not> geographic_conflict d \<and>
     (\<exists>rc. routes = Inr rc \<and> \<not> incomplete rc \<and>
       max (min_independent_support_families policy) 1 \<le> proven rc)"
  by (cases routes; cases "probability d") (auto simp: hold_reasons_with_routes_def Let_def not_less less_max_iff_disj)

text \<open>What an automatic merge needs, in the terms of the evidence graph.\<close>

definition merge_justified :: "decision \<Rightarrow> ancestry_graph \<Rightarrow> auto_merge_policy \<Rightarrow> bool" where
  "merge_justified d g policy \<longleftrightarrow>
     (\<exists>f p. min_match_probability policy = Fin f \<and> probability d = Some (Fin p) \<and>
        0 \<le> f \<and> f \<le> p \<and> p \<le> 1) \<and>
     state d = Match \<and> contradicting d = [] \<and> \<not> temporal_conflict d \<and> \<not> geographic_conflict d \<and>
     left_entity_uid d \<noteq> right_entity_uid d \<and>
     (\<forall>i \<in> set (supporting d). sound_ancestry (nodes g) i) \<and>
     (\<exists>R \<subseteq> supporting_roots g (supporting d).
        card R = max (min_independent_support_families policy) 1 \<and> mutually_recorded g R)"

lemma probability_gate:
  "f64_unit_interval fl \<Longrightarrow> f64_unit_interval p \<Longrightarrow> \<not> f64_less p fl \<Longrightarrow>
    \<exists>f q. fl = Fin f \<and> p = Fin q \<and> 0 \<le> f \<and> f \<le> q \<and> q \<le> 1"
  by (auto dest!: f64_unit_intervalD)

lemma allows_justified:
  assumes "allows_automatic_merge d g policy"
  shows "merge_justified d g policy"
proof -
  let ?req = "max (min_independent_support_families policy) 1"
  from assms have gate: "f64_unit_interval (min_match_probability policy)" "ids_valid d"
    "state d = Match" "contradicting d = []" "\<not> temporal_conflict d" "\<not> geographic_conflict d"
    by (simp_all add: allows_automatic_merge_def hold_reasons_def no_reasons_iff)
  from assms obtain p rc where p: "probability d = Some p" "f64_unit_interval p"
    "\<not> f64_less p (min_match_probability policy)"
    and rc: "proven_independent_route_count g (supporting d) ?req default_independence_search_states = Inr rc"
    "?req \<le> proven rc"
    by (cases "proven_independent_support_routes d g ?req")
      (auto simp: allows_automatic_merge_def hold_reasons_def no_reasons_iff
        proven_independent_support_routes_def)
  from route_count_total(2)[OF rc(1)] rc(2) have "\<exists>R \<subseteq> supporting_roots g (supporting d).
      card R = ?req \<and> mutually_recorded g R"
    unfolding route_count_ok_def by (metis le_antisym)
  moreover have "\<forall>i \<in> set (supporting d). sound_ancestry (nodes g) i"
    using route_count_total(1)[of g "supporting d" ?req default_independence_search_states] rc(1) by auto
  ultimately show ?thesis
    using gate p probability_gate[OF gate(1) p(2,3)] by (auto simp: merge_justified_def ids_valid_def)
qed

lemma justified_only_budget:
  assumes "merge_justified d g policy" "ids_valid d"
  shows "set (hold_reasons d g policy) \<subseteq> {IncompleteIndependenceProof} \<union>
    range (\<lambda>n. InsufficientIndependentFamilies n (max (min_independent_support_families policy) 1)) \<and>
    (IncompleteIndependenceProof \<notin> set (hold_reasons d g policy) \<longrightarrow> allows_automatic_merge d g policy)"
proof -
  let ?req = "max (min_independent_support_families policy) 1"
  let ?m = default_independence_search_states
  from assms(1) obtain f p where fp: "min_match_probability policy = Fin f" "probability d = Some (Fin p)"
    "0 \<le> f" "f \<le> p" "p \<le> 1" and S: "state d = Match" "contradicting d = []"
    "\<not> temporal_conflict d" "\<not> geographic_conflict d" "\<forall>i \<in> set (supporting d). sound_ancestry (nodes g) i"
    by (auto simp: merge_justified_def)
  from route_count_total(1)[of g "supporting d" ?req ?m] S(5) obtain rc where
    rc: "proven_independent_route_count g (supporting d) ?req ?m = Inr rc" by auto
  note ok = route_count_total(2)[OF rc]
  from assms(1) ok have enough: "incomplete rc \<or> ?req \<le> proven rc"
    unfolding merge_justified_def route_count_ok_def by (metis order_refl)
  have "hold_reasons d g policy = (if incomplete rc then [IncompleteIndependenceProof] else [])
      @ (if proven rc < ?req then [InsufficientIndependentFamilies (proven rc) ?req] else [])"
    using fp S(1-4) assms(2) rc
    by (simp add: hold_reasons_def hold_reasons_with_routes_def proven_independent_support_routes_def Let_def)
  then show ?thesis using enough by (auto simp: allows_automatic_merge_def less_max_iff_disj)
qed

lemma given_never_allows:
  "2 \<le> min_independent_support_families policy \<Longrightarrow> hold_reasons_given d families policy \<noteq> []"
  by (cases families) (auto simp: hold_reasons_given_def no_reasons_iff)

end
