(* ===== verification/Clusters.thy ===== *)
theory Clusters
  imports Identity
begin

text \<open>
  What \<open>automatic_clusters\<close> (\<open>src/resolve.rs\<close>) guarantees: it always returns, its clusters
  partition the entity uids by the chains of merges the gate allows, and the decision count of a
  cluster is its size less one, however many redundant decisions connect it.
\<close>

section \<open>The sorted uids\<close>

lemma dedup_sorted:
  "sorted xs \<Longrightarrow> sorted (dedup xs) \<and> distinct (dedup xs) \<and> set (dedup xs) = set xs"
proof (induction xs rule: dedup.induct)
  case (1 x y xs)
  have sorted: "sorted (y # xs)" "x \<le> y" "\<forall>z \<in> set xs. y \<le> z" using 1(3) by simp_all
  show ?case
  proof (cases "x = y")
    case True
    with 1(1) sorted(1) show ?thesis by simp
  next
    case False
    note IH = 1(2)[OF False sorted(1)]
    have "x \<notin> set (y # xs)" using False sorted(2,3) by auto
    then have "x \<notin> set (dedup (y # xs))" using IH by blast
    moreover have "\<forall>z \<in> set (dedup (y # xs)). x \<le> z" using IH sorted(2,3) by fastforce
    moreover have "set (dedup (x # y # xs)) = insert x (set (y # xs))" using False IH by simp
    ultimately show ?thesis using False IH by simp
  qed
qed auto

lemma decision_ids_props:
  "distinct (decision_ids ds)" "sorted (decision_ids ds)"
  "set (decision_ids ds) = left_entity_uid ` set ds \<union> right_entity_uid ` set ds"
  using dedup_sorted[OF sorted_sort, of "concat (map (\<lambda>d. [left_entity_uid d, right_entity_uid d]) ds)"]
  by (auto simp: decision_ids_def)

lemma index_of_nth: "x \<in> set xs \<Longrightarrow> index_of xs x < length xs \<and> xs ! index_of xs x = x"
  by (induction xs) auto

section \<open>Spanning counts\<close>

text \<open>The joins applied inside the set of \<open>i\<close> are one fewer than its members.\<close>

definition set_of :: "union_find \<Rightarrow> nat \<Rightarrow> nat set" where
  "set_of uf i = {j. same_set uf i j}"

definition joins_in :: "union_find \<Rightarrow> nat list \<Rightarrow> nat \<Rightarrow> nat" where
  "joins_in uf applied i = length (filter (same_set uf i) applied)"

definition spanning :: "union_find \<Rightarrow> nat list \<Rightarrow> bool" where
  "spanning uf applied \<longleftrightarrow> set applied \<subseteq> {0..<length (parent uf)} \<and>
     (\<forall>i < length (parent uf). joins_in uf applied i + 1 = card (set_of uf i))"

lemma set_of_finite: "finite (set_of uf i)"
  by (rule finite_subset[of _ "{0..<length (parent uf)}"]) (auto simp: set_of_def dest: same_set_range)

lemma filter_disj_length:
  "(\<And>x. x \<in> set xs \<Longrightarrow> \<not> (P x \<and> Q x)) \<Longrightarrow>
    length (filter (\<lambda>x. P x \<or> Q x) xs) = length (filter P xs) + length (filter Q xs)"
  by (induction xs) auto

lemma spanning_new: "spanning (uf_new n) []"
  by (auto simp: spanning_def joins_in_def set_of_def uf_new_same) (simp_all add: uf_new_def)

lemma spanning_join:
  assumes ok: "uf_ok uf" and sp: "spanning uf applied" and n: "length (parent uf') = length (parent uf)"
    and lr: "l < length (parent uf)" "r < length (parent uf)" "\<not> same_set uf l r"
    and same: "\<And>i j. same_set uf' i j \<longleftrightarrow> same_set uf i j
      \<or> same_set uf i l \<and> same_set uf j r \<or> same_set uf i r \<and> same_set uf j l"
  shows "spanning uf' (applied @ [l])"
proof -
  have disj: "\<not> (same_set uf l j \<and> same_set uf r j)" for j
    using lr(3) same_set_sym same_set_trans by blast
  have ll: "same_set uf l l" using same_set_refl ok lr by blast
  have "joins_in uf' (applied @ [l]) i + 1 = card (set_of uf' i)" if i: "i < length (parent uf)" for i
  proof (cases "same_set uf i l \<or> same_set uf i r")
    case False
    then have eq: "same_set uf' i = same_set uf i" using same by (intro ext) blast
    have "\<not> same_set uf i l" using False by simp
    with sp i show ?thesis by (simp add: spanning_def joins_in_def set_of_def eq)
  next
    case True
    have eq: "same_set uf' i = (\<lambda>j. same_set uf l j \<or> same_set uf r j)"
      using True same same_set_sym same_set_trans by (intro ext) blast
    have "set_of uf' i = set_of uf l \<union> set_of uf r" by (auto simp: set_of_def eq)
    then have "card (set_of uf' i) = card (set_of uf l) + card (set_of uf r)"
      using disj by (simp only:, intro card_Un_disjoint set_of_finite) (auto simp: set_of_def)
    moreover have "joins_in uf' (applied @ [l]) i = joins_in uf applied l + joins_in uf applied r + 1"
      using ll disj by (simp add: joins_in_def eq filter_disj_length)
    moreover have "joins_in uf applied l + 1 = card (set_of uf l)"
      "joins_in uf applied r + 1 = card (set_of uf r)"
      using sp lr by (simp_all only: spanning_def)
    ultimately show ?thesis by linarith
  qed
  moreover have "set (applied @ [l]) \<subseteq> {0..<length (parent uf')}"
    using sp lr n by (auto simp: spanning_def)
  ultimately show ?thesis by (simp add: spanning_def n)
qed

section \<open>The decision loop\<close>

definition accepted :: "ancestry_graph \<Rightarrow> auto_merge_policy \<Rightarrow> decision list \<Rightarrow> decision list" where
  "accepted g policy ds =
     filter (\<lambda>d. left_entity_uid d \<noteq> right_entity_uid d \<and> allows_automatic_merge d g policy) ds"

definition index_pairs :: "str list \<Rightarrow> decision list \<Rightarrow> (nat \<times> nat) list" where
  "index_pairs ids ds = map (\<lambda>d. (index_of ids (left_entity_uid d), index_of ids (right_entity_uid d))) ds"

text \<open>The loop over joins that are already decided, which both cluster functions run.\<close>

fun apply_joins :: "str list \<Rightarrow> decision list \<Rightarrow> union_find \<Rightarrow> nat list \<Rightarrow> (union_find \<times> nat list) option" where
  "apply_joins ids [] uf applied = Some (uf, applied)"
| "apply_joins ids (d # ds) uf applied =
     (case uf_union uf (index_of ids (left_entity_uid d)) (index_of ids (right_entity_uid d)) of
        None \<Rightarrow> None
      | Some (joined, uf') \<Rightarrow>
          apply_joins ids ds uf' (if joined then applied @ [index_of ids (left_entity_uid d)] else applied))"

lemma apply_decisions_joins:
  "apply_decisions g policy ids ds uf applied = apply_joins ids (accepted g policy ds) uf applied"
  by (induction ds arbitrary: uf applied) (auto simp: accepted_def Let_def split: option.split)

lemma apply_joins_ok:
  assumes "uf_ok uf" "length (parent uf) = length ids" "spanning uf applied"
    and "\<And>d. d \<in> set ds \<Longrightarrow> left_entity_uid d \<in> set ids \<and> right_entity_uid d \<in> set ids"
    and "E \<subseteq> {0..<length ids} \<times> {0..<length ids}" "same_set uf = linked (length ids) E"
  shows "\<exists>uf' applied'. apply_joins ids ds uf applied = Some (uf', applied') \<and>
    uf_ok uf' \<and> length (parent uf') = length ids \<and> spanning uf' applied' \<and>
    same_set uf' = linked (length ids) (set (index_pairs ids ds) \<union> E)"
  using assms
proof (induction ds arbitrary: uf applied E)
  case Nil
  then show ?case by (simp add: index_pairs_def)
next
  case (Cons d ds)
  let ?l = "index_of ids (left_entity_uid d)" and ?r = "index_of ids (right_entity_uid d)"
  have lr: "?l < length ids" "?r < length ids" 
    using Cons.prems(4)[of d] index_of_nth[of "left_entity_uid d" ids]
      index_of_nth[of "right_entity_uid d" ids] by auto
  have rest: "\<And>d. d \<in> set ds \<Longrightarrow> left_entity_uid d \<in> set ids \<and> right_entity_uid d \<in> set ids"
    using Cons.prems(4) by simp
  have range: "?l < length (parent uf)" "?r < length (parent uf)" using lr Cons.prems(2) by simp_all
  obtain joined uf1 where
    u: "uf_union uf ?l ?r = Some (joined, uf1)" "uf_ok uf1" "length (parent uf1) = length (parent uf)"
      "joined \<longleftrightarrow> \<not> same_set uf ?l ?r"
      "\<And>i j. same_set uf1 i j \<longleftrightarrow> same_set uf i j
        \<or> same_set uf i ?l \<and> same_set uf j ?r \<or> same_set uf i ?r \<and> same_set uf j ?l"
    by (rule uf_union_lemma[OF Cons.prems(1) range]) (rule that; assumption)
  have sp: "spanning uf1 (if joined then applied @ [?l] else applied)"
  proof (cases joined)
    case True
    then have "\<not> same_set uf ?l ?r" using u(4) by simp
    from spanning_join[OF Cons.prems(1,3) u(3) range this u(5)] True show ?thesis by simp
  next
    case False
    then have "same_set uf ?l ?r" using u(4) by simp
    then have "same_set uf1 i j \<longleftrightarrow> same_set uf i j" for i j
      unfolding u(5) using same_set_sym same_set_trans by blast
    then have "same_set uf1 = same_set uf" by (intro ext)
    with Cons.prems(3) False u(3) show ?thesis by (simp add: spanning_def joins_in_def set_of_def)
  qed
  have same: "same_set uf1 = linked (length ids) (insert (?l, ?r) E)"
    using linked_insert[OF lr Cons.prems(5)] Cons.prems(6) u(5) by (intro ext) simp
  have E: "insert (?l, ?r) E \<subseteq> {0..<length ids} \<times> {0..<length ids}" using lr Cons.prems(5) by auto
  have len: "length (parent uf1) = length ids" using u(3) Cons.prems(2) by simp
  from Cons.IH[OF u(2) len sp rest E same] u(1) show ?case by (simp add: index_pairs_def)
qed

section \<open>Counting and rendering\<close>

lemma count_roots_ok:
  assumes "uf_ok uf" "set xs \<subseteq> {0..<length (parent uf)}" "bmap_ok counts"
    and "\<And>i r. root_of (parent uf) i r \<longleftrightarrow> root_of p i r"
    and "\<And>r. (case map_of counts r of Some c \<Rightarrow> c | None \<Rightarrow> 0) = length (filter (\<lambda>i. root_of p i r) ys)"
  shows "\<exists>uf' counts'. count_roots uf xs counts = Some (uf', counts') \<and> uf_ok uf' \<and>
    reps_kept (parent uf) (parent uf') \<and>
    (\<forall>r. (case map_of counts' r of Some c \<Rightarrow> c | None \<Rightarrow> 0)
      = length (filter (\<lambda>i. root_of p i r) (ys @ xs)))"
  using assms
proof (induction xs arbitrary: uf counts ys)
  case Nil
  then show ?case by (simp add: reps_kept_def)
next
  case (Cons x xs)
  then have "x < length (parent uf)" by simp
  with uf_find_finds Cons.prems(1) obtain r uf1 where f: "uf_find uf x = Some (r, uf1)"
    "root_of (parent uf) x r" "uf_ok uf1" "reps_kept (parent uf) (parent uf1)" by metis
  let ?counts = "bmap_insert r ((case map_of counts r of Some c \<Rightarrow> c | None \<Rightarrow> 0) + 1) counts"
  have len: "set xs \<subseteq> {0..<length (parent uf1)}" using Cons.prems(2) f(4) by (simp add: reps_kept_def)
  have kept: "root_of (parent uf1) i s \<longleftrightarrow> root_of p i s" for i s
    using reps_kept_same(1)[OF Cons.prems(1) f(4)] Cons.prems(4) by simp
  have x: "root_of p x s \<longleftrightarrow> s = r" for s using f(2) Cons.prems(4) root_of_unique by blast
  have cnt: "(case map_of ?counts s of Some c \<Rightarrow> c | None \<Rightarrow> 0)
      = length (filter (\<lambda>i. root_of p i s) (ys @ [x]))" for s
    using Cons.prems(5)[of s] by (auto simp: map_of_bmap_insert x)
  from Cons.IH[OF f(3) len bmap.ok_put[OF Cons.prems(3)] kept cnt] f(1,4) show ?case
    by (auto intro: reps_kept_trans)
qed

lemma render_groups_ok:
  assumes "uf_ok uf" "\<And>i r. root_of (parent uf) i r \<longleftrightarrow> root_of p i r"
    and "\<And>grp. grp \<in> set grps \<Longrightarrow> grp \<noteq> [] \<and> hd grp < length (parent uf)"
  shows "\<exists>cs. render_groups ids counts uf grps = Some cs \<and> map members cs = map (map ((!) ids)) grps \<and>
    (\<forall>k < length cs. \<exists>r. root_of p (hd (grps ! k)) r \<and>
      decision_count (cs ! k) = (case map_of counts r of Some c \<Rightarrow> c | None \<Rightarrow> 0))"
  using assms
proof (induction grps arbitrary: uf)
  case (Cons grp grps)
  then obtain i more where grp: "grp = i # more" "i < length (parent uf)" by (cases grp) force+
  with uf_find_finds Cons.prems(1) obtain r uf1 where f: "uf_find uf i = Some (r, uf1)"
    "root_of (parent uf) i r" "uf_ok uf1" "reps_kept (parent uf) (parent uf1)" by metis
  have kept: "root_of (parent uf1) i s \<longleftrightarrow> root_of p i s" for i s
    using reps_kept_same(1)[OF Cons.prems(1) f(4)] Cons.prems(2) by simp
  have rest: "grp \<in> set grps \<Longrightarrow> grp \<noteq> [] \<and> hd grp < length (parent uf1)" for grp
    using Cons.prems(3) f(4) by (simp add: reps_kept_def)
  from Cons.IH[OF f(3) kept rest] obtain cs where cs:
    "render_groups ids counts uf1 grps = Some cs" "map members cs = map (map ((!) ids)) grps"
    "\<forall>k < length cs. \<exists>r. root_of p (hd (grps ! k)) r \<and>
      decision_count (cs ! k) = (case map_of counts r of Some c \<Rightarrow> c | None \<Rightarrow> 0)" by blast
  let ?c = "\<lparr>members = map ((!) ids) grp,
    decision_count = (case map_of counts r of Some c \<Rightarrow> c | None \<Rightarrow> 0)\<rparr>"
  have "root_of p i r" using f(2) Cons.prems(2) by simp
  then have "\<forall>k < length (?c # cs). \<exists>r. root_of p (hd ((grp # grps) ! k)) r \<and>
      decision_count ((?c # cs) ! k) = (case map_of counts r of Some c \<Rightarrow> c | None \<Rightarrow> 0)"
    using cs(3) by (auto simp: grp(1) nth_Cons split: nat.split)
  with f(1) cs(1,2) show ?case by (intro exI[of _ "?c # cs"]) (simp add: grp(1))
qed simp

section \<open>The clusters of the accepted merges\<close>

text \<open>Two uids belong together when a chain of accepted merges leads from one to the other.\<close>

definition merge_edges :: "decision list \<Rightarrow> (str \<times> str) set" where
  "merge_edges js = (\<lambda>d. (left_entity_uid d, right_entity_uid d)) ` set js"

definition merged :: "decision list \<Rightarrow> str \<Rightarrow> str \<Rightarrow> bool" where
  "merged js x y \<longleftrightarrow> (x, y) \<in> (merge_edges js \<union> (merge_edges js)\<inverse>)\<^sup>*"

lemma rtrancl_map_in:
  assumes "(i, j) \<in> E\<^sup>*" "\<And>a b. (a, b) \<in> E \<Longrightarrow> (f a, f b) \<in> F"
  shows "(f i, f j) \<in> F\<^sup>*"
  using assms(1) by induction (auto intro: assms(2) rtrancl_into_rtrancl)

lemma linked_merged:
  assumes ids: "distinct ids" "left_entity_uid ` set js \<union> right_entity_uid ` set js \<subseteq> set ids"
    and ij: "i < length ids" "j < length ids"
  shows "linked (length ids) (set (index_pairs ids js)) i j \<longleftrightarrow> merged js (ids ! i) (ids ! j)"
proof -
  let ?I = "set (index_pairs ids js)" and ?M = "merge_edges js"
  have index: "index_of ids (ids ! k) = k" if "k < length ids" for k
    using that ids(1) index_of_nth[of "ids ! k" ids] nth_eq_iff_index_eq by fastforce
  have uid: "ids ! index_of ids x = x" if "x \<in> set ids" for x using that index_of_nth by fast
  have sub: "d \<in> set js \<Longrightarrow> left_entity_uid d \<in> set ids \<and> right_entity_uid d \<in> set ids" for d
    using ids(2) by auto
  have "(i, j) \<in> (?I \<union> ?I\<inverse>)\<^sup>* \<Longrightarrow> (ids ! i, ids ! j) \<in> (?M \<union> ?M\<inverse>)\<^sup>*"
    by (erule rtrancl_map_in) (use sub in \<open>auto simp: index_pairs_def merge_edges_def uid image_iff\<close>)
  moreover have "(ids ! i, ids ! j) \<in> (?M \<union> ?M\<inverse>)\<^sup>* \<Longrightarrow>
      (index_of ids (ids ! i), index_of ids (ids ! j)) \<in> (?I \<union> ?I\<inverse>)\<^sup>*"
    by (erule rtrancl_map_in) (auto simp: index_pairs_def merge_edges_def image_iff)
  ultimately show ?thesis using ij by (auto simp: linked_def merged_def index)
qed

text \<open>What the clusters of some joins promise of some uids.\<close>

definition clusters_exact :: "decision list \<Rightarrow> str set \<Rightarrow> resolution_cluster list \<Rightarrow> bool" where
  "clusters_exact js uids cs \<longleftrightarrow>
     distinct (concat (map members cs)) \<and>
     set (concat (map members cs)) = uids \<and>
     (\<forall>c \<in> set cs. members c \<noteq> [] \<and> sorted (members c) \<and> decision_count c + 1 = length (members c)) \<and>
     sorted (map (\<lambda>c. hd (members c)) cs) \<and>
     (\<forall>c \<in> set cs. \<forall>x \<in> set (members c). \<forall>c' \<in> set cs. \<forall>y \<in> set (members c').
        merged js x y \<longleftrightarrow> members c = members c')"

lemma map_nth_sorted:
  "sorted ids \<Longrightarrow> sorted ks \<Longrightarrow> set ks \<subseteq> {0..<length ids} \<Longrightarrow> sorted (map ((!) ids) ks)"
  by (induction ks) (auto intro!: sorted_nth_mono)

lemma map_nth_distinct:
  "distinct ids \<Longrightarrow> distinct ks \<Longrightarrow> set ks \<subseteq> {0..<length ids} \<Longrightarrow> distinct (map ((!) ids) ks)"
  by (induction ks) (auto simp: nth_eq_iff_index_eq subset_iff)

lemma group_size:
  assumes "uf_ok uf" "partition_of (same_set uf) (length (parent uf)) gs" "grp \<in> set gs" "i \<in> set grp"
  shows "set grp = set_of uf i"
proof -
  have range: "set (concat gs) = {0..<length (parent uf)}" and
    cls: "\<forall>h \<in> set gs. \<forall>j \<in> set h. same_set uf i j \<longleftrightarrow> grp = h"
    using assms by (auto simp: partition_of_def)
  have fwd: "j \<in> set grp" if j: "same_set uf i j" for j
  proof -
    have "j \<in> set (concat gs)" using same_set_range[OF j] range by simp
    then obtain h where h: "h \<in> set gs" "j \<in> set h" by auto
    with cls j have "grp = h" by blast
    with h show ?thesis by simp
  qed
  have bwd: "same_set uf i j" if "j \<in> set grp" for j using cls assms(3) that by blast
  show ?thesis using fwd bwd by (auto simp: set_of_def)
qed

lemma partition_head:
  assumes "partition_of eq n gs" "grp \<in> set gs"
  shows "grp \<noteq> [] \<and> hd grp < n"
proof -
  have "grp \<noteq> []" "set grp \<subseteq> {0..<n}" using assms by (auto simp: partition_of_def)
  then show ?thesis using hd_in_set[of grp] atLeastLessThan_iff by blast
qed

lemma cluster_counts:
  assumes ok: "uf_ok uf" and sp: "spanning uf applied" and pt: "partition_of (same_set uf) (length (parent uf)) gs"
    and grp: "grp \<in> set gs" and r: "root_of (parent uf) (hd grp) r"
  shows "length (filter (\<lambda>i. root_of (parent uf) i r) applied) + 1 = length grp"
proof -
  from pt grp have hd: "hd grp \<in> set grp" "distinct grp"
    by (auto simp: partition_of_def distinct_concat_iff)
  have range: "hd grp < length (parent uf)" using partition_head[OF pt grp] by simp
  have "root_of (parent uf) i r \<longleftrightarrow> same_set uf (hd grp) i" for i
    using r root_of_unique by (auto simp: same_set_def)
  then have "length (filter (\<lambda>i. root_of (parent uf) i r) applied) = joins_in uf applied (hd grp)"
    by (simp add: joins_in_def)
  moreover have "joins_in uf applied (hd grp) + 1 = card (set_of uf (hd grp))"
    using sp range by (simp only: spanning_def)
  ultimately show ?thesis
    using group_size[OF ok pt grp hd(1)] distinct_card[OF hd(2)] by simp
qed

text \<open>The rest of both cluster functions: join, count, group and render.\<close>

definition joins_to_clusters :: "str list \<Rightarrow> decision list \<Rightarrow> resolution_cluster list option" where
  "joins_to_clusters ids js =
     (case apply_joins ids js (uf_new (length ids)) [] of
        None \<Rightarrow> None
      | Some (uf, applied) \<Rightarrow>
          (case count_roots uf applied [] of
             None \<Rightarrow> None
           | Some (uf, counts) \<Rightarrow>
               (case uf_groups uf of
                  None \<Rightarrow> None
                | Some (groups, uf) \<Rightarrow> render_groups ids counts uf groups)))"

lemma automatic_clusters_joins:
  "automatic_clusters ds g policy = joins_to_clusters (decision_ids ds) (accepted g policy ds)"
  by (simp add: automatic_clusters_def joins_to_clusters_def apply_decisions_joins Let_def)

lemma joins_to_clusters_groups:
  assumes js: "left_entity_uid ` set js \<union> right_entity_uid ` set js \<subseteq> set ids"
  obtains uf gs cs where "joins_to_clusters ids js = Some cs" "uf_ok uf"
    "same_set uf = linked (length ids) (set (index_pairs ids js))"
    "partition_of (same_set uf) (length ids) gs"
    "map members cs = map (map ((!) ids)) gs"
    "\<forall>k < length cs. decision_count (cs ! k) + 1 = length (gs ! k)"
proof -
  let ?ids = ids and ?n = "length ids"
  have new: "same_set (uf_new ?n) = linked ?n {}" "length (parent (uf_new ?n)) = ?n"
    by (intro ext, auto simp: uf_new_same linked_def) (simp add: uf_new_def)
  have sub: "left_entity_uid d \<in> set ids \<and> right_entity_uid d \<in> set ids" if "d \<in> set js" for d
    using that js by blast
  from apply_joins_ok[OF uf_new_ok new(2) spanning_new sub _ new(1), of js]
  obtain uf1 applied where u1: "apply_joins ?ids js (uf_new ?n) [] = Some (uf1, applied)"
    "uf_ok uf1" "length (parent uf1) = ?n" "spanning uf1 applied"
    "same_set uf1 = linked ?n (set (index_pairs ?ids js))" by force
  have range: "set applied \<subseteq> {0..<length (parent uf1)}" using u1(4) by (simp add: spanning_def)
  have "\<exists>uf2 counts. count_roots uf1 applied [] = Some (uf2, counts) \<and> uf_ok uf2 \<and>
      reps_kept (parent uf1) (parent uf2) \<and>
      (\<forall>r. (case map_of counts r of Some c \<Rightarrow> c | None \<Rightarrow> 0)
        = length (filter (\<lambda>i. root_of (parent uf1) i r) ([] @ applied)))"
    by (rule count_roots_ok[OF u1(2) range]) simp_all
  then obtain uf2 counts where u2: "count_roots uf1 applied [] = Some (uf2, counts)" "uf_ok uf2"
    "reps_kept (parent uf1) (parent uf2)"
    "\<And>r. (case map_of counts r of Some c \<Rightarrow> c | None \<Rightarrow> 0)
        = length (filter (\<lambda>i. root_of (parent uf1) i r) applied)" by auto
  note kept2 = reps_kept_same[OF u1(2) u2(3)]
  have same2: "same_set uf2 = same_set uf1" using kept2(2) by (intro ext) simp
  have len2: "length (parent uf2) = ?n" using u2(3) u1(3) by (simp add: reps_kept_def)
  let ?gs = "classes (same_set uf1) ?n"
  from uf_groups_classes[OF u2(2)] same2 len2 obtain uf3 where u3: "uf_groups uf2 = Some (?gs, uf3)"
    "uf_ok uf3" "reps_kept (parent uf2) (parent uf3)" by auto
  have kept3: "root_of (parent uf3) i r \<longleftrightarrow> root_of (parent uf1) i r" for i r
    using reps_kept_same(1)[OF u2(2) u3(3)] kept2(1) by simp
  have part: "partition_of (same_set uf1) ?n ?gs"
    using same_set_partition[OF u1(2)] u1(3) by simp
  then have heads: "grp \<noteq> [] \<and> hd grp < length (parent uf3)" if "grp \<in> set ?gs" for grp
    using partition_head[OF part that] u3(3) len2 by (simp add: reps_kept_def)
  from render_groups_ok[OF u3(2) kept3 heads, of ?gs ?ids counts] obtain cs where
    cs: "render_groups ?ids counts uf3 ?gs = Some cs" "map members cs = map (map ((!) ?ids)) ?gs"
    "\<forall>k < length cs. \<exists>r. root_of (parent uf1) (hd (?gs ! k)) r \<and>
      decision_count (cs ! k) = (case map_of counts r of Some c \<Rightarrow> c | None \<Rightarrow> 0)" by blast
  have len: "length cs = length ?gs" using cs(2) by (metis length_map)
  have "decision_count (cs ! k) + 1 = length (?gs ! k)" if k: "k < length cs" for k
  proof -
    from cs(3) k obtain r where r: "root_of (parent uf1) (hd (?gs ! k)) r"
      "decision_count (cs ! k) = (case map_of counts r of Some c \<Rightarrow> c | None \<Rightarrow> 0)" by blast
    have mem: "?gs ! k \<in> set ?gs" using k len by simp
    have "partition_of (same_set uf1) (length (parent uf1)) ?gs" using part u1(3) by simp
    from cluster_counts[OF u1(2,4) this mem r(1)] r(2) u2(4) show ?thesis by simp
  qed
  with u1 u2 u3 cs part show thesis
    by (intro that[of cs uf1 ?gs]) (simp_all add: joins_to_clusters_def)
qed

lemma joins_to_clusters_exact:
  assumes sorted: "sorted ids" and distinct: "distinct ids"
    and sets: "left_entity_uid ` set js \<union> right_entity_uid ` set js \<subseteq> set ids"
  shows "\<exists>cs. joins_to_clusters ids js = Some cs \<and> clusters_exact js (set ids) cs"
proof -
  let ?ids = ids and ?n = "length ids"
  from joins_to_clusters_groups[OF sets] obtain uf gs cs where
    A: "joins_to_clusters ids js = Some cs"
      "same_set uf = linked ?n (set (index_pairs ?ids js))"
      "partition_of (same_set uf) ?n gs" "map members cs = map (map ((!) ?ids)) gs"
      "\<forall>k < length cs. decision_count (cs ! k) + 1 = length (gs ! k)" by metis
  note part = A(3)[unfolded partition_of_def]
  have concat: "concat (map members cs) = map ((!) ?ids) (concat gs)" by (simp add: A(4) map_concat)
  have nth: "grp \<in> set gs \<Longrightarrow> set grp \<subseteq> {0..<?n}" for grp using part by auto
  have len: "length cs = length gs" using A(4) by (metis length_map)
  have mem: "k < length cs \<Longrightarrow> members (cs ! k) = map ((!) ?ids) (gs ! k) \<and> gs ! k \<in> set gs" for k
    using A(4) len by (metis nth_map nth_mem)
  have "members c \<noteq> [] \<and> sorted (members c) \<and> decision_count c + 1 = length (members c)"
    if c: "c \<in> set cs" for c
  proof -
    from c obtain k where k: "k < length cs" "c = cs ! k" by (auto simp: in_set_conv_nth)
    have "gs ! k \<noteq> [] \<and> sorted (gs ! k)" using part mem[OF k(1)] by blast
    then show ?thesis
      using map_nth_sorted[OF sorted _ nth] mem[OF k(1)] A(5) k by auto
  qed
  moreover have "sorted (map (\<lambda>c. hd (members c)) cs)"
  proof -
    have "map (\<lambda>c. hd (members c)) cs = map hd (map members cs)" by simp
    also have "\<dots> = map ((!) ?ids) (map hd gs)" using part by (auto simp: A(4) hd_map)
    finally have heads: "map (\<lambda>c. hd (members c)) cs = map ((!) ?ids) (map hd gs)" .
    have "set (map hd gs) \<subseteq> {0..<?n}" using partition_head[OF A(3)] by fastforce
    then show ?thesis unfolding heads using part by (intro map_nth_sorted[OF sorted]) simp_all
  qed
  moreover have "merged js x y \<longleftrightarrow> members c = members c'"
    if c: "c \<in> set cs" "c' \<in> set cs" "x \<in> set (members c)" "y \<in> set (members c')" for c c' x y
  proof -
    from c(1,2) obtain k l where kl: "k < length cs" "c = cs ! k" "l < length cs" "c' = cs ! l"
      by (auto simp: in_set_conv_nth)
    from c(3,4) mem kl obtain i j where ij: "i \<in> set (gs ! k)" "j \<in> set (gs ! l)" "x = ?ids ! i" "y = ?ids ! j"
      by auto
    have lt: "i < ?n" "j < ?n" using ij(1,2) mem kl nth by fastforce+
    have k: "gs ! k \<in> set gs" and l: "gs ! l \<in> set gs" using mem kl by blast+
    have cls: "same_set uf i j \<longleftrightarrow> gs ! k = gs ! l" using part k l ij(1,2) by blast
    have "merged js x y \<longleftrightarrow> gs ! k = gs ! l"
      using linked_merged[OF distinct sets lt] cls unfolding A(2) ij(3,4) by simp
    also have "\<dots> \<longleftrightarrow> members c = members c'"
    proof
      assume "members c = members c'"
      then have "x \<in> set (members c')" using c(3) by simp
      then obtain j' where j': "j' \<in> set (gs ! l)" "x = ?ids ! j'" using mem kl by auto
      then have "j' < ?n" using mem kl nth by fastforce
      then have "i = j'" using lt ij(3) j'(2) distinct by (simp add: nth_eq_iff_index_eq)
      with j'(1) ij(1) mem kl part linked_sym show "gs ! k = gs ! l" by metis
    qed (use mem kl in simp)
    finally show ?thesis .
  qed
  moreover have "distinct (concat (map members cs))"
    unfolding concat using part by (intro map_nth_distinct distinct) auto
  moreover have "set (concat (map members cs)) = set ids"
    using part nth_image[of ?n ?ids] unfolding concat set_map by simp
  ultimately show ?thesis unfolding clusters_exact_def using A(1) by blast
qed

section \<open>Properties\<close>

text \<open>C1: A decision may merge automatically exactly when its ids are usable, it is justified by the
  evidence graph - a match above the floor, no contradiction or conflict, every supporting record
  of sound ancestry, and as many mutually recorded-independent roots as the policy asks for - and
  the bounded search for those roots completed.\<close>

theorem automatic_merge_gate:
  "allows_automatic_merge d g policy \<longleftrightarrow>
     ids_valid d \<and> merge_justified d g policy \<and>
     IncompleteIndependenceProof \<notin> set (hold_reasons d g policy)"
proof
  assume a: "allows_automatic_merge d g policy"
  then have none: "hold_reasons d g policy = []" by (simp add: allows_automatic_merge_def)
  then have "ids_valid d" by (simp add: hold_reasons_def no_reasons_iff)
  with a none allows_justified show "ids_valid d \<and> merge_justified d g policy \<and>
      IncompleteIndependenceProof \<notin> set (hold_reasons d g policy)" by simp
qed (use justified_only_budget in blast)

text \<open>Counts of source families alone, without the graph, never open the gate of a policy that
  asks for two independent routes: the hold reasons are never empty.\<close>

theorem family_counts_never_merge:
  assumes "2 \<le> min_independent_support_families policy"
  shows "hold_reasons_given d families policy \<noteq> []"
  using assms by (rule given_never_allows)

theorem family_counts_never_merge_witness:
  "hold_reasons_given
     \<lparr>left_entity_uid = ''a'', right_entity_uid = ''b'', state = Match, probability = Some (Fin 1),
      supporting = [''e''], contradicting = [], temporal_conflict = False,
      geographic_conflict = False, decided_at_unix = 0\<rparr> (Inr 7) default_policy \<noteq> []"
  by (rule family_counts_never_merge) (simp add: default_policy_def)

text \<open>C6: \<open>automatic_clusters\<close> always returns. Its clusters partition the uids of the decisions by the
  chains of accepted merges, each sorted and ordered by its first member, and the decision count of
  a cluster is its size less one: redundant and refused decisions are never counted.\<close>

theorem automatic_clusters_exact:
  "\<exists>cs. automatic_clusters ds g policy = Some cs \<and>
     clusters_exact (accepted g policy ds) (left_entity_uid ` set ds \<union> right_entity_uid ` set ds) cs"
proof -
  have "left_entity_uid ` set (accepted g policy ds) \<union> right_entity_uid ` set (accepted g policy ds)
      \<subseteq> set (decision_ids ds)"
    by (auto simp: accepted_def decision_ids_props(3))
  from joins_to_clusters_exact[OF decision_ids_props(2,1) this] show ?thesis
    by (simp add: automatic_clusters_joins decision_ids_props(3))
qed

end
