(* ===== verification/Evidence.thy ===== *)
theory Evidence
  imports Canonical_Family
begin

text \<open>
  The evidence record of \<open>src/entity.rs\<close>: its attributes, several values of one key joined by
  \<open>"; "\<close>, and the merge of two records of one observation. The lemmas show that a merge keeps every
  value of either record whole and every observation's provenance, and changes nothing the second
  time. \<open>recorded_at_unix\<close> comes from the clock, so \<open>provenance_new\<close> takes it as an argument;
  whether a text is a JSON document is decided by \<open>serde_json\<close> and is an argument as well.
\<close>

datatype verification_method =
  EmailLinked | PlatformVerified | ActivityProof | SelfDisclosed | LinkedProfile | Unverified

record evidence_provenance =
  source :: str
  source_family :: str
  scan_id :: "str option"
  recorded_at_unix :: u64

record evidence =
  provenance :: evidence_provenance
  summary :: str
  attributes :: "(str \<times> str) list"
  verification :: "verification_method option"
  is_inferred :: bool
  ancestry_node :: "str option"
  merged_provenance :: "evidence_provenance list"

definition canonical_provenance_family :: "(nat list \<Rightarrow> nat list) \<Rightarrow> str \<Rightarrow> str" where
  "canonical_provenance_family lower raw = canonical_family lower raw"

definition provenance_new :: "(nat list \<Rightarrow> nat list) \<Rightarrow> u64 \<Rightarrow> str \<Rightarrow> evidence_provenance" where
  "provenance_new lower now src =
     \<lparr>source = src, source_family = canonical_provenance_family lower src, scan_id = None,
      recorded_at_unix = now\<rparr>"

definition provenance_for_scan :: "(nat list \<Rightarrow> nat list) \<Rightarrow> u64 \<Rightarrow> str \<Rightarrow> str \<Rightarrow> evidence_provenance" where
  "provenance_for_scan lower now src scan = (provenance_new lower now src)\<lparr>scan_id := Some scan\<rparr>"

definition corroboration_key :: "(nat list \<Rightarrow> nat list) \<Rightarrow> evidence_provenance \<Rightarrow> str" where
  "corroboration_key lower p =
     (if source_family p = [] then source p else canonical_provenance_family lower (source p))"

definition evidence_new :: "evidence_provenance \<Rightarrow> str \<Rightarrow> evidence" where
  "evidence_new p text =
     \<lparr>provenance = p, summary = text, attributes = [], verification = None, is_inferred = False,
      ancestry_node = None, merged_provenance = []\<rparr>"

section \<open>Attribute values\<close>

definition VALUE_SEPARATOR :: str where
  "VALUE_SEPARATOR = ''; ''"

definition holds_whole :: "str \<Rightarrow> str \<Rightarrow> bool" where
  "holds_whole held v \<longleftrightarrow>
     held = v
     \<or> (case strip_prefix v held of Some rest \<Rightarrow> starts_with VALUE_SEPARATOR rest | None \<Rightarrow> False)
     \<or> (case strip_suffix v held of Some rest \<Rightarrow> ends_with VALUE_SEPARATOR rest | None \<Rightarrow> False)
     \<or> contains (VALUE_SEPARATOR @ v @ VALUE_SEPARATOR) held"

definition with_attr :: "str \<Rightarrow> str \<Rightarrow> evidence \<Rightarrow> evidence" where
  "with_attr key v e =
     (case map_of (attributes e) key of
        Some existing \<Rightarrow>
          if \<not> holds_whole existing v
          then e\<lparr>attributes := bmap_insert key (existing @ VALUE_SEPARATOR @ v) (attributes e)\<rparr>
          else e
      | None \<Rightarrow> e\<lparr>attributes := bmap_insert key v (attributes e)\<rparr>)"

fun with_optional_attrs :: "(str \<times> str option) list \<Rightarrow> evidence \<Rightarrow> evidence" where
  "with_optional_attrs [] e = e"
| "with_optional_attrs ((key, v) # rest) e =
     with_optional_attrs rest
       (case map_option trim v of
          Some t \<Rightarrow> if t \<noteq> [] then with_attr key t e else e
        | None \<Rightarrow> e)"

text \<open>\<open>value.split("; ")\<close>\<close>

fun split_separator :: "str \<Rightarrow> str list" where
  "split_separator (c # d # s) =
     (if c = CHR '';'' \<and> d = CHR '' '' then [] # split_separator s
      else (case split_separator (d # s) of w # ws \<Rightarrow> (c # w) # ws | [] \<Rightarrow> [[c]]))"
| "split_separator s = [s]"

definition attr_values :: "evidence \<Rightarrow> str \<Rightarrow> str list" where
  "attr_values e key =
     (case map_of (attributes e) key of
        None \<Rightarrow> []
      | Some v \<Rightarrow> filter (\<lambda>t. t \<noteq> []) (map trim (split_separator v)))"

definition SEED_EVIDENCE_ROLE :: str where
  "SEED_EVIDENCE_ROLE = ''seed_not_external_verification''"

definition is_operator_seed :: "evidence \<Rightarrow> bool" where
  "is_operator_seed e \<longleftrightarrow>
     source (provenance e) = ''operator_input'' \<or> source (provenance e) = ''seed''
     \<or> list_ex (\<lambda>v. v = SEED_EVIDENCE_ROLE) (attr_values e ''evidence_role'')"

definition with_verification :: "verification_method \<Rightarrow> evidence \<Rightarrow> evidence" where
  "with_verification v e = e\<lparr>verification := Some v\<rparr>"

definition inferred :: "evidence \<Rightarrow> evidence" where
  "inferred e = e\<lparr>is_inferred := True\<rparr>"

definition with_ancestry :: "str \<Rightarrow> evidence \<Rightarrow> evidence" where
  "with_ancestry node e = e\<lparr>ancestry_node := Some node\<rparr>"

section \<open>Merging two records of one observation\<close>

definition same_evidence_identity :: "(str \<Rightarrow> bool) \<Rightarrow> evidence \<Rightarrow> evidence \<Rightarrow> bool" where
  "same_evidence_identity is_json_document left right =
     (if source (provenance left) \<noteq> source (provenance right) \<or> summary left \<noteq> summary right then False
      else \<not> list_ex (\<lambda>(key, previous).
        (case map_of (attributes right) key of
           None \<Rightarrow> False
         | Some incoming \<Rightarrow>
             previous \<noteq> incoming \<and>
             (starts_with ''raw_'' key \<or> is_json_document previous \<or> is_json_document incoming)))
        (attributes left))"

text \<open>\<open>rmatch_indices\<close>: the separator does not overlap itself, so its matches from the right are its
  occurrences in descending order.\<close>

definition rmatch_separator :: "str \<Rightarrow> nat list" where
  "rmatch_separator s =
     filter (\<lambda>k. starts_with VALUE_SEPARATOR (drop k s)) (rev [0..<length s])"

definition fold_value :: "str \<Rightarrow> str \<Rightarrow> str" where
  "fold_value held incoming =
     (if holds_whole held incoming then held
      else if holds_whole incoming held then incoming
      else
        (let rest =
           (case List.find (\<lambda>k. case strip_suffix (take k incoming) held of
                     Some before \<Rightarrow> ends_with VALUE_SEPARATOR before | None \<Rightarrow> False)
                   (rmatch_separator incoming) of
              Some k \<Rightarrow> drop (k + length VALUE_SEPARATOR) incoming
            | None \<Rightarrow> incoming)
         in held @ VALUE_SEPARATOR @ rest))"

definition keep_observation :: "evidence_provenance \<Rightarrow> evidence \<Rightarrow> evidence" where
  "keep_observation p e =
     (if p \<noteq> provenance e \<and> \<not> List.member (merged_provenance e) p
      then e\<lparr>merged_provenance := merged_provenance e @ [p]\<rparr> else e)"

definition keep_observations ::
  "evidence \<Rightarrow> evidence_provenance \<Rightarrow> evidence_provenance list \<Rightarrow> evidence"
where
  "keep_observations existing incoming earlier = fold keep_observation (incoming # earlier) existing"

fun merge_attributes :: "(str \<times> str) list \<Rightarrow> (str \<times> str) list \<Rightarrow> (str \<times> str) list" where
  "merge_attributes [] attrs = attrs"
| "merge_attributes ((key, v) # rest) attrs =
     merge_attributes rest
       (case map_of attrs key of
          Some held \<Rightarrow> bmap_insert key (fold_value held v) attrs
        | None \<Rightarrow> bmap_insert key v attrs)"

definition merge_evidence :: "evidence \<Rightarrow> evidence \<Rightarrow> evidence" where
  "merge_evidence existing incoming =
     keep_observations
       (existing\<lparr>attributes := merge_attributes (attributes incoming) (attributes existing),
          verification := (if verification existing = None then verification incoming
                           else verification existing),
          is_inferred := is_inferred existing \<or> is_inferred incoming,
          ancestry_node := (if ancestry_node existing = None then ancestry_node incoming
                            else ancestry_node existing)\<rparr>)
       (provenance incoming) (merged_provenance incoming)"

section \<open>Values are kept whole\<close>

lemma ends_with_iff: "ends_with p s \<longleftrightarrow> (\<exists>r. s = r @ p)"
  unfolding ends_with_def starts_with_iff by (metis rev_append rev_rev_ident)

lemma strip_suffix_Some: "strip_suffix p s = Some r \<longleftrightarrow> s = r @ p"
proof -
  have "strip_suffix p s = Some r \<longleftrightarrow> (\<exists>t. strip_prefix (rev p) (rev s) = Some t \<and> r = rev t)"
    by (auto simp: strip_suffix_def)
  also have "\<dots> \<longleftrightarrow> s = r @ p"
    unfolding strip_prefix_Some by (metis rev_append rev_rev_ident)
  finally show ?thesis .
qed

text \<open>A value is held whole when it is all of the text or a run bounded by separators.\<close>

lemma holds_whole_iff:
  "holds_whole held v \<longleftrightarrow>
     (\<exists>a b. held = a @ v @ b \<and> (a = [] \<or> ends_with VALUE_SEPARATOR a)
       \<and> (b = [] \<or> starts_with VALUE_SEPARATOR b))" (is "_ \<longleftrightarrow> ?R")
proof
  have prefix: "(case strip_prefix v held of Some rest \<Rightarrow> starts_with VALUE_SEPARATOR rest | None \<Rightarrow> False)
      \<longleftrightarrow> (\<exists>b. held = v @ b \<and> starts_with VALUE_SEPARATOR b)"
    by (auto simp: strip_prefix_Some split: option.split) (metis option.distinct(1) strip_prefix_Some)
  have suffix: "(case strip_suffix v held of Some rest \<Rightarrow> ends_with VALUE_SEPARATOR rest | None \<Rightarrow> False)
      \<longleftrightarrow> (\<exists>a. held = a @ v \<and> ends_with VALUE_SEPARATOR a)"
    by (auto simp: strip_suffix_Some split: option.split) (metis option.distinct(1) strip_suffix_Some)
  assume "holds_whole held v"
  then consider "held = v" | b where "held = v @ b" "starts_with VALUE_SEPARATOR b"
    | a where "held = a @ v" "ends_with VALUE_SEPARATOR a"
    | a b where "held = a @ (VALUE_SEPARATOR @ v @ VALUE_SEPARATOR) @ b"
    unfolding holds_whole_def prefix suffix contains_iff by blast
  then show ?R
  proof cases
    case (4 a b)
    then have "held = (a @ VALUE_SEPARATOR) @ v @ (VALUE_SEPARATOR @ b)" by simp
    moreover have "ends_with VALUE_SEPARATOR (a @ VALUE_SEPARATOR)" "starts_with VALUE_SEPARATOR (VALUE_SEPARATOR @ b)"
      by (auto simp: ends_with_iff starts_with_iff)
    ultimately show ?thesis by blast
  qed (metis append_Nil append_Nil2)+
next
  have prefix: "held = v @ b \<Longrightarrow> starts_with VALUE_SEPARATOR b \<Longrightarrow> holds_whole held v" for b
    using strip_prefix_Some[of v held b] by (simp add: holds_whole_def)
  have suffix: "held = a @ v \<Longrightarrow> ends_with VALUE_SEPARATOR a \<Longrightarrow> holds_whole held v" for a
    using strip_suffix_Some[of v held a] by (simp add: holds_whole_def)
  assume ?R
  then obtain a b where ab: "held = a @ v @ b" "a = [] \<or> ends_with VALUE_SEPARATOR a"
    "b = [] \<or> starts_with VALUE_SEPARATOR b" by blast
  show "holds_whole held v"
  proof (cases "a = [] \<or> b = []")
    case True
    then show ?thesis
      using ab prefix suffix by (cases "a = []"; cases "b = []") (auto simp: holds_whole_def)
  next
    case False
    with ab obtain c d where "a = c @ VALUE_SEPARATOR" "b = VALUE_SEPARATOR @ d"
      by (auto simp: ends_with_iff starts_with_iff)
    with ab(1) have "held = c @ (VALUE_SEPARATOR @ v @ VALUE_SEPARATOR) @ d" by simp
    then show ?thesis unfolding holds_whole_def contains_iff by blast
  qed
qed

lemma holds_whole_refl [simp]: "holds_whole v v"
  by (simp add: holds_whole_def)

lemma ends_with_append: "ends_with p b \<Longrightarrow> ends_with p (a @ b)"
  by (auto simp: ends_with_iff)

lemma starts_with_append: "starts_with p a \<Longrightarrow> starts_with p (a @ b)"
  by (auto simp: starts_with_iff)

lemma holds_whole_trans:
  assumes "holds_whole u v" "holds_whole v w"
  shows "holds_whole u w"
proof -
  from assms[unfolded holds_whole_iff] obtain a b c d where
    u: "u = a @ v @ b" "a = [] \<or> ends_with VALUE_SEPARATOR a" "b = [] \<or> starts_with VALUE_SEPARATOR b"
    and v: "v = c @ w @ d" "c = [] \<or> ends_with VALUE_SEPARATOR c" "d = [] \<or> starts_with VALUE_SEPARATOR d"
    by blast
  have "u = (a @ c) @ w @ (d @ b)" using u(1) v(1) by simp
  moreover have "a @ c = [] \<or> ends_with VALUE_SEPARATOR (a @ c)"
    using u(2) v(2) ends_with_append[of VALUE_SEPARATOR c a] by (cases "c = []") auto
  moreover have "d @ b = [] \<or> starts_with VALUE_SEPARATOR (d @ b)"
    using u(3) v(3) starts_with_append[of VALUE_SEPARATOR d b] by (cases "d = []") auto
  ultimately show ?thesis unfolding holds_whole_iff by blast
qed

lemma holds_whole_join: "holds_whole (a @ VALUE_SEPARATOR @ v) a" "holds_whole (a @ VALUE_SEPARATOR @ v) v"
proof -
  show "holds_whole (a @ VALUE_SEPARATOR @ v) a"
    unfolding holds_whole_iff by (rule exI[of _ "[]"], rule exI[of _ "VALUE_SEPARATOR @ v"]) (auto simp: starts_with_iff)
  show "holds_whole (a @ VALUE_SEPARATOR @ v) v"
    unfolding holds_whole_iff by (rule exI[of _ "a @ VALUE_SEPARATOR"], rule exI[of _ "[]"]) (auto simp: ends_with_iff)
qed

lemma fold_value_keeps: "holds_whole (fold_value held incoming) held \<and> holds_whole (fold_value held incoming) incoming"
proof -
  let ?cut = "\<lambda>k. case strip_suffix (take k incoming) held of
    Some before \<Rightarrow> ends_with VALUE_SEPARATOR before | None \<Rightarrow> False"
  consider "holds_whole held incoming" | "\<not> holds_whole held incoming" "holds_whole incoming held"
    | "\<not> holds_whole held incoming" "\<not> holds_whole incoming held" by blast
  then show ?thesis
  proof cases
    case 3
    show ?thesis
    proof (cases "List.find ?cut (rmatch_separator incoming)")
      case None
      with 3 show ?thesis using holds_whole_join by (simp add: fold_value_def)
    next
      case (Some k)
      then have k: "k \<in> set (rmatch_separator incoming)" "?cut k"
        by (auto simp: find_Some_iff in_set_conv_nth)
      from k(1) obtain r where r: "drop k incoming = VALUE_SEPARATOR @ r"
        by (auto simp: rmatch_separator_def starts_with_iff)
      then have r': "drop (k + length VALUE_SEPARATOR) incoming = r"
        by (metis add.commute append_eq_conv_conj drop_drop)
      have incoming: "incoming = take k incoming @ VALUE_SEPARATOR @ r" using r by (metis append_take_drop_id)
      from k(2) obtain before where b: "held = before @ take k incoming" "ends_with VALUE_SEPARATOR before"
        by (auto simp: strip_suffix_Some split: option.splits)
      have fold: "fold_value held incoming = held @ VALUE_SEPARATOR @ r"
        using 3 Some r' by (simp add: fold_value_def)
      have "held @ VALUE_SEPARATOR @ r = before @ incoming @ []"
        using b(1) incoming by (metis append.assoc append_Nil2)
      with b(2) have "holds_whole (held @ VALUE_SEPARATOR @ r) incoming"
        unfolding holds_whole_iff by blast
      with fold show ?thesis using holds_whole_join by simp
    qed
  qed (simp_all add: fold_value_def)
qed

lemma fold_value_idem: "fold_value (fold_value held incoming) incoming = fold_value held incoming"
  using fold_value_keeps[of held incoming] by (simp add: fold_value_def[of "fold_value held incoming"])

section \<open>Merged records\<close>

text \<open>\<open>later\<close> holds whatever value \<open>attrs\<close> has under each key.\<close>

definition attrs_held :: "(str \<times> str) list \<Rightarrow> (str \<times> str) list \<Rightarrow> bool" where
  "attrs_held attrs later \<longleftrightarrow>
     (\<forall>key v. map_of attrs key = Some v \<longrightarrow> (\<exists>w. map_of later key = Some w \<and> holds_whole w v))"

lemma attrs_held_refl: "attrs_held attrs attrs"
  by (simp add: attrs_held_def)

lemma attrs_held_trans: "attrs_held a b \<Longrightarrow> attrs_held b c \<Longrightarrow> attrs_held a c"
  unfolding attrs_held_def by (metis holds_whole_trans)

lemma attrs_held_put:
  "(\<And>old. map_of attrs key = Some old \<Longrightarrow> holds_whole v old) \<Longrightarrow> attrs_held attrs (bmap_insert key v attrs)"
  by (auto simp: attrs_held_def map_of_bmap_insert)

lemma merge_attributes_held: "attrs_held attrs (merge_attributes new attrs)"
proof (induction new attrs rule: merge_attributes.induct)
  case (2 key v rest attrs)
  let ?attrs = "case map_of attrs key of Some held \<Rightarrow> bmap_insert key (fold_value held v) attrs
    | None \<Rightarrow> bmap_insert key v attrs"
  have "attrs_held attrs ?attrs"
    using fold_value_keeps by (auto split: option.split intro: attrs_held_put)
  with 2 show ?case by (simp add: attrs_held_trans)
qed (simp add: attrs_held_refl)

lemma merge_attributes_new:
  "\<forall>(key, v) \<in> set new. \<exists>w. map_of (merge_attributes new attrs) key = Some w \<and> holds_whole w v"
proof (induction new attrs rule: merge_attributes.induct)
  case (2 key v rest attrs)
  let ?attrs = "case map_of attrs key of Some held \<Rightarrow> bmap_insert key (fold_value held v) attrs
    | None \<Rightarrow> bmap_insert key v attrs"
  have "\<exists>w. map_of ?attrs key = Some w \<and> holds_whole w v"
    using fold_value_keeps by (auto split: option.split)
  with merge_attributes_held[of ?attrs rest]
  have "\<exists>w. map_of (merge_attributes rest ?attrs) key = Some w \<and> holds_whole w v"
    unfolding attrs_held_def by (meson holds_whole_trans)
  with 2 show ?case by auto
qed simp

text \<open>A record that already holds every value is left as it is.\<close>

lemma bmap_insert_same: "bmap_ok m \<Longrightarrow> map_of m k = Some v \<Longrightarrow> bmap_insert k v m = m"
  by (induction m) (force simp: bmap_ok_def bset_ok_def split: if_splits dest: map_of_SomeD)+

lemma merge_attributes_kept:
  "bmap_ok attrs \<Longrightarrow> \<forall>(key, v) \<in> set new. \<exists>w. map_of attrs key = Some w \<and> holds_whole w v \<Longrightarrow>
    merge_attributes new attrs = attrs"
proof (induction new)
  case (Cons kv new)
  obtain key v where kv: "kv = (key, v)" by force
  with Cons.prems obtain w where w: "map_of attrs key = Some w" "holds_whole w v" by auto
  then have "fold_value w v = w" by (simp add: fold_value_def)
  with Cons w kv show ?case by (simp add: bmap_insert_same)
qed simp

lemma merge_attributes_ok: "bmap_ok attrs \<Longrightarrow> bmap_ok (merge_attributes new attrs)"
  by (induction new attrs rule: merge_attributes.induct) (auto simp: bmap_ok_insert split: option.splits)

section \<open>Observations\<close>

definition observations :: "evidence \<Rightarrow> evidence_provenance set" where
  "observations e = insert (provenance e) (set (merged_provenance e))"

lemma keep_observation_fields [simp]:
  "attributes (keep_observation p e) = attributes e"
  "verification (keep_observation p e) = verification e"
  "is_inferred (keep_observation p e) = is_inferred e"
  "ancestry_node (keep_observation p e) = ancestry_node e"
  "observations (keep_observation p e) = insert p (observations e)"
  by (auto simp: keep_observation_def observations_def)

lemma keep_observation_known: "p \<in> observations e \<Longrightarrow> keep_observation p e = e"
  by (auto simp: keep_observation_def observations_def)

lemma keep_all_fields:
  "attributes (fold keep_observation ps e) = attributes e"
  "verification (fold keep_observation ps e) = verification e"
  "is_inferred (fold keep_observation ps e) = is_inferred e"
  "ancestry_node (fold keep_observation ps e) = ancestry_node e"
  "observations (fold keep_observation ps e) = observations e \<union> set ps"
  by (induction ps arbitrary: e) auto

lemma keep_all_known: "set ps \<subseteq> observations e \<Longrightarrow> fold keep_observation ps e = e"
  by (induction ps) (auto simp: keep_observation_known)

lemma merge_evidence_fields:
  "attributes (merge_evidence e i) = merge_attributes (attributes i) (attributes e)"
  "verification (merge_evidence e i) = (if verification e = None then verification i else verification e)"
  "is_inferred (merge_evidence e i) \<longleftrightarrow> is_inferred e \<or> is_inferred i"
  "ancestry_node (merge_evidence e i) = (if ancestry_node e = None then ancestry_node i else ancestry_node e)"
  "observations (merge_evidence e i) = observations e \<union> observations i"
  by (simp_all add: merge_evidence_def keep_observations_def keep_all_fields del: fold_simps)
    (simp add: observations_def)

section \<open>Properties\<close>

text \<open>Folding a value into a held one loses nothing: the result holds both whole, and folding the
  same value in again changes nothing.\<close>

theorem fold_value_lossless:
  "holds_whole (fold_value held incoming) held \<and> holds_whole (fold_value held incoming) incoming \<and>
   fold_value (fold_value held incoming) incoming = fold_value held incoming"
  using fold_value_keeps fold_value_idem by blast

text \<open>C34: Merging two records of one observation keeps every attribute value of both whole and the
  provenance of every observation either carried, and merging the same record again changes nothing.\<close>

theorem merge_evidence_lossless:
  assumes "bmap_ok (attributes existing)" "bmap_ok (attributes incoming)"
  shows "attrs_held (attributes existing) (attributes (merge_evidence existing incoming)) \<and>
    attrs_held (attributes incoming) (attributes (merge_evidence existing incoming)) \<and>
    observations (merge_evidence existing incoming) = observations existing \<union> observations incoming \<and>
    merge_evidence (merge_evidence existing incoming) incoming = merge_evidence existing incoming"
proof -
  let ?m = "merge_evidence existing incoming"
  note new = merge_attributes_new[of "attributes incoming" "attributes existing"]
  have held: "attrs_held (attributes incoming) (attributes ?m)"
    using new unfolding merge_evidence_fields attrs_held_def by (auto dest: map_of_SomeD)
  have same: "merge_attributes (attributes incoming) (attributes ?m) = attributes ?m"
    using new merge_attributes_ok[OF assms(1)] unfolding merge_evidence_fields
    by (intro merge_attributes_kept) auto
  let ?again = "?m\<lparr>attributes := attributes ?m,
      verification := (if verification ?m = None then verification incoming else verification ?m),
      is_inferred := is_inferred ?m \<or> is_inferred incoming,
      ancestry_node := (if ancestry_node ?m = None then ancestry_node incoming else ancestry_node ?m)\<rparr>"
  have again: "?again = ?m"
    by (rule evidence.equality) (auto simp: merge_evidence_fields(2-4))
  have "set (provenance incoming # merged_provenance incoming) \<subseteq> observations ?m"
    unfolding merge_evidence_fields by (auto simp: observations_def)
  then have "merge_evidence ?m incoming = ?m"
    unfolding merge_evidence_def[of ?m] keep_observations_def same again by (rule keep_all_known)
  with held merge_attributes_held[of "attributes existing" "attributes incoming"] show ?thesis
    by (simp add: merge_evidence_fields)
qed

theorem merge_evidence_lossless_witness:
  "let a = with_attr ''breach'' ''Adobe'' (evidence_new (provenance_new lower_ascii 1 ''hibp'') ''r'');
       b = with_attr ''breach'' ''LinkedIn'' (evidence_new (provenance_new lower_ascii 2 ''hibp'') ''r'')
   in attrs_held (attributes a) (attributes (merge_evidence a b)) \<and>
     attrs_held (attributes b) (attributes (merge_evidence a b)) \<and>
     observations (merge_evidence a b) = observations a \<union> observations b \<and>
     merge_evidence (merge_evidence a b) b = merge_evidence a b"
  unfolding Let_def
  by (rule merge_evidence_lossless)
    (simp_all add: with_attr_def evidence_new_def bmap_ok_def bset_ok_def)

end
