(* ===== verification/Classify.thy ===== *)
theory Classify
  imports Rust_Str
begin

text \<open>
  \<open>src/classify.rs\<close>: the fetch outcome classifier. A challenge page is a wall, never a result;
  429 beats a vendor string; JSON that merely quotes a vendor path is not a wall.
\<close>

datatype fetch_outcome =
    Parsed
  | RateLimited u16 str
  | Blocked u16 str
  | Failed str

fun is_wall :: "fetch_outcome \<Rightarrow> bool" where
  "is_wall (Blocked _ _) = True"
| "is_wall _ = False"

fun is_throttle :: "fetch_outcome \<Rightarrow> bool" where
  "is_throttle (RateLimited _ _) = True"
| "is_throttle _ = False"

fun is_result :: "fetch_outcome \<Rightarrow> bool" where
  "is_result Parsed = True"
| "is_result _ = False"

definition OPENERS :: "str list" where
  "OPENERS = [''<!doctype html'', ''<html'', ''<head'', ''<body'']"

definition INTERSTITIAL :: "str list" where
  "INTERSTITIAL =
    [''challenges.cloudflare.com'',
     ''/cdn-cgi/challenge-platform/h/'',
     ''cf-chl-'',
     ''/sorry/index'',
     ''captcha-delivery.com'',
     ''px-captcha'',
     ''showcaptcha'',
     ''anomaly-modal'',
     ''httpservice/retry'',
     ''radware captcha'']"

definition SENSOR :: "str list" where
  "SENSOR =
    [''/recaptcha/api'',
     ''g-recaptcha'',
     ''grecaptcha'',
     ''hcaptcha.com'',
     ''h-captcha'',
     ''datadome'',
     ''perimeterx'',
     ''_pxhd'',
     ''funcaptcha'',
     ''arkoselabs'',
     ''smartcaptcha'',
     ''perfdrive.com'',
     ''shieldsquare'']"

definition PHRASES :: "str list list" where
  "PHRASES =
    [[''just a moment'', ''cloudflare''],
     [''attention required'', ''cloudflare''],
     [''checking your browser'', ''cloudflare''],
     [''unusual traffic'', ''network''],
     [''before you continue'', ''consent''],
     [''request unsuccessful'', ''incapsula''],
     [''are not a robot''],
     [''verify you are human''],
     [''sending automated queries''],
     [''enable javascript and cookies to continue''],
     [''access to this page has been denied''],
     [''your request has been blocked'', ''reference number''],
     [''blocked by network security''],
     [''enable javascript to view the page content'', ''support id''],
     [''the requested url was rejected'', ''support id'']]"

definition trim_start :: "str \<Rightarrow> str" where
  "trim_start s = utf8_encode (dropWhile is_whitespace (utf8_decode s))"

definition looks_like_document :: "str \<Rightarrow> bool" where
  "looks_like_document body =
     (let head = trim_start body in
      list_ex (\<lambda>opener. length opener \<le> length head \<and>
        eq_ignore_ascii_case (take (length opener) head) opener) OPENERS)"

definition phrase_present :: "str \<Rightarrow> bool" where
  "phrase_present lower = list_ex (\<lambda>ps. list_all (\<lambda>t. contains t lower) ps) PHRASES"

definition challenge_signature_present :: "str \<Rightarrow> bool" where
  "challenge_signature_present body =
     (let lower = to_ascii_lowercase body in
      list_ex (\<lambda>n. contains n lower) INTERSTITIAL
      \<or> list_ex (\<lambda>n. contains n lower) SENSOR
      \<or> phrase_present lower)"

definition is_json_body :: "str \<Rightarrow> bool" where
  "is_json_body body =
     (let t = trim_start body in starts_with ''{'' t \<or> starts_with ''['' t)"

definition is_challenge :: "str \<Rightarrow> bool" where
  "is_challenge body \<longleftrightarrow>
     (\<not> is_json_body body \<or> looks_like_document body) \<and> challenge_signature_present body"

definition CHALLENGE_MAX_BYTES :: nat where
  "CHALLENGE_MAX_BYTES = 32 * 1024"

definition is_served_challenge :: "str \<Rightarrow> bool" where
  "is_served_challenge body =
     (if length body > CHALLENGE_MAX_BYTES \<or> (is_json_body body \<and> \<not> looks_like_document body)
      then False
      else
        (let lower = to_ascii_lowercase body in
         list_ex (\<lambda>n. contains n lower) INTERSTITIAL \<or> phrase_present lower))"

definition is_challenge_at :: "u16 \<Rightarrow> str \<Rightarrow> bool" where
  "is_challenge_at status body =
     (if 200 \<le> status \<and> status < 300 then is_served_challenge body else is_challenge body)"

definition SAVED_CHALLENGE_MAX_BYTES :: nat where
  "SAVED_CHALLENGE_MAX_BYTES = CHALLENGE_MAX_BYTES"

definition is_saved_challenge :: "str \<Rightarrow> bool" where
  "is_saved_challenge body \<longleftrightarrow>
     length body \<le> SAVED_CHALLENGE_MAX_BYTES \<and> looks_like_document body \<and>
     challenge_signature_present body"

text \<open>\<open>char_indices().nth(180)\<close> ends the snippet before the 181st character.\<close>

definition snippet :: "str \<Rightarrow> str" where
  "snippet body = utf8_encode (take 180 (utf8_decode (trim body)))"

definition classify_response :: "u16 \<Rightarrow> str \<Rightarrow> fetch_outcome" where
  "classify_response status body =
     (if status = 429 then RateLimited status (snippet body)
      else if is_challenge_at status body then Blocked status (snippet body)
      else if \<not> (200 \<le> status \<and> status < 300) then
        Failed (''HTTP '' @ show_nat (unat status) @ '': '' @ snippet body)
      else Parsed)"

section \<open>Lower case does not matter\<close>

definition lower_point :: "nat \<Rightarrow> nat" where
  "lower_point c = (if 0x41 \<le> c \<and> c \<le> 0x5A then c + 32 else c)"

lemma of_char_ascii_lower: "of_char (ascii_lower c) = lower_point (of_char c)"
  by (auto simp: ascii_lower_def is_ascii_uppercase_def lower_point_def less_eq_char_def)

lemma ascii_lower_idem [simp]: "ascii_lower (ascii_lower c) = ascii_lower c"
proof -
  have "(of_char (ascii_lower (ascii_lower c)) :: nat) = of_char (ascii_lower c)"
    by (simp add: of_char_ascii_lower lower_point_def)
  then show ?thesis by simp
qed

lemma to_ascii_lowercase_idem [simp]: "to_ascii_lowercase (to_ascii_lowercase s) = to_ascii_lowercase s"
  by (simp add: to_ascii_lowercase_def)

lemma ascii_lower_high: "0x80 \<le> n \<Longrightarrow> n < 256 \<Longrightarrow> ascii_lower (byte n) = byte n"
proof -
  assume n: "0x80 \<le> n" "n < 256"
  then have "(of_char (ascii_lower (byte n)) :: nat) = of_char (byte n)"
    by (simp add: of_char_ascii_lower of_char_byte lower_point_def)
  then show ?thesis by simp
qed

lemma ascii_lower_byte: "n < 0x80 \<Longrightarrow> ascii_lower (byte n) = byte (lower_point n)"
proof -
  assume "n < 0x80"
  then have "(of_char (ascii_lower (byte n)) :: nat) = of_char (byte (lower_point n))"
    by (simp add: of_char_ascii_lower of_char_byte lower_point_def)
  then show ?thesis by simp
qed

lemma lower_encode_char:
  "c < 0x110000 \<Longrightarrow> to_ascii_lowercase (utf8_encode_char c) = utf8_encode_char (lower_point c)"
  by (cases "c < 0x80")
    (auto simp: to_ascii_lowercase_def ascii_lower_byte ascii_lower_high lower_point_def)

lemma lower_encode:
  "list_all (\<lambda>c. c < 0x110000) cs \<Longrightarrow>
    to_ascii_lowercase (utf8_encode cs) = utf8_encode (map lower_point cs)"
proof (induction cs)
  case (Cons c cs)
  then have "to_ascii_lowercase (utf8_encode_char c) = utf8_encode_char (lower_point c)"
    by (intro lower_encode_char) simp
  with Cons show ?case
    by (simp add: utf8_encode_def to_ascii_lowercase_def del: utf8_encode_char.simps)
qed (simp add: utf8_encode_def to_ascii_lowercase_def)

lemma whitespace_lower: "is_whitespace (lower_point c) = is_whitespace c"
  by (auto simp: is_whitespace_def lower_point_def)

lemma dropWhile_lower:
  "dropWhile is_whitespace (map lower_point cs) = map lower_point (dropWhile is_whitespace cs)"
  by (induction cs) (auto simp: whitespace_lower)

text \<open>The bytes of a Rust string: those of some code points.\<close>

definition valid_str :: "str \<Rightarrow> bool" where
  "valid_str s \<longleftrightarrow> (\<exists>cs. s = utf8_encode cs \<and> list_all (\<lambda>c. c < 0x110000) cs)"

lemma valid_lower:
  assumes "list_all (\<lambda>c. c < 0x110000) cs"
  shows "list_all (\<lambda>c. c < 0x110000) (map lower_point cs)"
  using assms by (auto simp: list_all_iff lower_point_def)

lemma decode_lower:
  assumes "list_all (\<lambda>c. c < 0x110000) cs"
  shows "utf8_decode (to_ascii_lowercase (utf8_encode cs)) = map lower_point cs"
  unfolding lower_encode[OF assms] using valid_lower[OF assms]
  by (intro utf8_roundtrip) (simp only: list_all_iff)

lemma trim_start_lower:
  assumes "valid_str s"
  shows "trim_start (to_ascii_lowercase s) = to_ascii_lowercase (trim_start s)"
proof -
  from assms obtain cs where cs: "s = utf8_encode cs" "list_all (\<lambda>c. c < 0x110000) cs"
    by (auto simp: valid_str_def)
  have "list_all (\<lambda>c. c < 0x110000) (dropWhile is_whitespace cs)"
    using cs(2) by (auto simp: list_all_iff dest: set_dropWhileD)
  from lower_encode[OF this] show ?thesis
    using cs(2) by (simp add: trim_start_def cs(1) decode_lower dropWhile_lower)
      (simp add: utf8_roundtrip list_all_iff)
qed

lemma eq_ignore_lower: "eq_ignore_ascii_case (take n (to_ascii_lowercase s)) t = eq_ignore_ascii_case (take n s) t"
  by (simp add: eq_ignore_ascii_case_def to_ascii_lowercase_def take_map comp_def)

lemma looks_like_document_lower:
  "valid_str s \<Longrightarrow> looks_like_document (to_ascii_lowercase s) = looks_like_document s"
  by (simp add: looks_like_document_def Let_def trim_start_lower eq_ignore_lower)
    (simp add: to_ascii_lowercase_def)

lemma lower_eq:
  assumes "of_char d \<notin> {0x41..0x5A} \<union> {0x61..0x7A :: nat}"
  shows "ascii_lower c = d \<longleftrightarrow> c = d"
proof -
  have "ascii_lower c = d \<longleftrightarrow> lower_point (of_char c) = (of_char d :: nat)"
    by (simp add: of_char_ascii_lower[symmetric])
  also have "\<dots> \<longleftrightarrow> (of_char c :: nat) = of_char d" using assms by (auto simp: lower_point_def)
  finally show ?thesis by simp
qed

lemma lower_eq_bracket: "ascii_lower c = CHR ''{'' \<longleftrightarrow> c = CHR ''{''" "ascii_lower c = CHR ''['' \<longleftrightarrow> c = CHR ''[''"
  by (rule lower_eq, simp)+

lemma starts_with_char: "starts_with [c] s \<longleftrightarrow> s \<noteq> [] \<and> hd s = c"
  by (cases s) (auto simp: starts_with_def)

lemma is_json_body_lower: "valid_str s \<Longrightarrow> is_json_body (to_ascii_lowercase s) = is_json_body s"
  unfolding is_json_body_def Let_def starts_with_char
  by (simp only: trim_start_lower, cases "trim_start s = []") (simp_all add: to_ascii_lowercase_def hd_map lower_eq_bracket)

lemma signature_lower:
  "challenge_signature_present (to_ascii_lowercase s) = challenge_signature_present s"
  by (simp add: challenge_signature_present_def)

lemma length_lower [simp]: "length (to_ascii_lowercase s) = length s"
  by (simp add: to_ascii_lowercase_def)

lemma is_challenge_at_lower:
  "valid_str s \<Longrightarrow> is_challenge_at status (to_ascii_lowercase s) = is_challenge_at status s"
  by (simp add: is_challenge_at_def is_served_challenge_def is_challenge_def is_json_body_lower
      looks_like_document_lower signature_lower)

section \<open>Documents and JSON\<close>

lemma document_head:
  assumes "looks_like_document s"
  shows "trim_start s \<noteq> [] \<and> hd (trim_start s) = CHR ''<''"
proof -
  have open_tag: "\<forall>opener \<in> set OPENERS. \<exists>t. opener = CHR ''<'' # t" by (simp add: OPENERS_def)
  from assms obtain opener where o: "opener \<in> set OPENERS" "length opener \<le> length (trim_start s)"
    "map ascii_lower (take (length opener) (trim_start s)) = map ascii_lower opener"
    by (auto simp: looks_like_document_def list_ex_iff eq_ignore_ascii_case_def to_ascii_lowercase_def Let_def)
  with open_tag obtain t where t: "opener = CHR ''<'' # t" by blast
  with o obtain c r where c: "trim_start s = c # r" by (cases "trim_start s") auto
  with o t have "ascii_lower c = ascii_lower CHR ''<''" by simp
  then have "ascii_lower c = CHR ''<''" using lower_eq[of "CHR ''<''" "CHR ''<''"] by simp
  with lower_eq[of "CHR ''<''" c] c show ?thesis by simp
qed

lemma json_not_document: "is_json_body s \<Longrightarrow> \<not> looks_like_document s"
  using document_head[of s] by (auto simp: is_json_body_def starts_with_char)

lemma served_is_challenge: "is_served_challenge s \<Longrightarrow> is_challenge s"
  by (auto simp: is_served_challenge_def is_challenge_def challenge_signature_present_def Let_def
      split: if_splits)

section \<open>Properties\<close>

text \<open>A JSON document that quotes a vendor path or a challenge phrase is never a wall, at any
  status.\<close>

theorem json_is_never_a_wall: "\<not> (is_json_body body \<and> is_wall (classify_response status body))"
  using json_not_document[of body]
  by (auto simp: classify_response_def is_challenge_at_def is_challenge_def is_served_challenge_def)

text \<open>The test a successful response has to pass is the stricter one: what is a wall when served
  with some status is a wall with every refusal status but 429, which is a throttle whatever the
  body says.\<close>

theorem wall_survives_refusal:
  assumes "is_wall (classify_response status body)" "\<not> (200 \<le> status' \<and> status' < 300)"
  shows "if status' = 429 then is_throttle (classify_response status' body)
    else is_wall (classify_response status' body)"
  using assms served_is_challenge[of body]
  by (auto simp: classify_response_def is_challenge_at_def split: if_splits)

theorem wall_survives_refusal_witness:
  "if (403::u16) = 429 then is_throttle (classify_response 403 ''<html>cf-chl-x'')
    else is_wall (classify_response 403 ''<html>cf-chl-x'')"
  by (rule wall_survives_refusal[of 200]) code_simp+

text \<open>Whether a response is a challenge does not depend on the letter case of its body.\<close>

theorem challenge_ignores_case:
  assumes "valid_str body" "valid_str body'" "to_ascii_lowercase body = to_ascii_lowercase body'"
  shows "is_challenge_at status body = is_challenge_at status body'"
  using is_challenge_at_lower[OF assms(1), of status] is_challenge_at_lower[OF assms(2), of status] assms(3)
  by simp

theorem challenge_ignores_case_witness:
  "is_challenge_at 200 (utf8_encode (map of_char ''<HTML>Just A Moment Cloudflare''))
    = is_challenge_at 200 (utf8_encode (map of_char ''<html>just a moment cloudflare''))"
proof (rule challenge_ignores_case)
  show "valid_str (utf8_encode (map of_char ''<HTML>Just A Moment Cloudflare''))"
    "valid_str (utf8_encode (map of_char ''<html>just a moment cloudflare''))"
    unfolding valid_str_def by (rule exI, rule conjI[OF refl], simp)+
qed code_simp

end
