(* ===== verification/Errors.thy ===== *)
theory Errors
  imports Rust_Str
begin

text \<open>
  \<open>src/error.rs\<close>: the library error, a refusal or a broken local contract, and its display text.
\<close>

datatype error =
    MissingField str
  | TerminateRefused str
  | Invalid str
  | InvalidValue str
  | MissingCredential str
  | Store str
  | Network str

fun error_to_string :: "error \<Rightarrow> str" where
  "error_to_string (MissingField s) = ''missing field: '' @ s"
| "error_to_string (TerminateRefused s) = ''terminate refused: '' @ s"
| "error_to_string (Invalid s) = ''invalid input: '' @ s"
| "error_to_string (InvalidValue s) = ''invalid input: '' @ s"
| "error_to_string (MissingCredential s) = ''missing credential: '' @ s"
| "error_to_string (Store s) = ''store: '' @ s"
| "error_to_string (Network s) = ''network: '' @ s"

definition error_invalid :: "str \<Rightarrow> error" where "error_invalid reason = Invalid reason"
definition error_invalid_value :: "str \<Rightarrow> error" where "error_invalid_value reason = InvalidValue reason"
definition error_missing_credential :: "str \<Rightarrow> error" where
  "error_missing_credential reason = MissingCredential reason"

end
