(* ===== verification/Textnorm.thy ===== *)
theory Textnorm
  imports Classify Errors
begin

text \<open>
  \<open>src/textnorm.rs\<close>, the parts that do not need the Unicode letter tables: escaping for HTML and
  for line-oriented records, decoding of character references, the bounds a query has to meet, and
  the AS number parser. The functions that walk the characters of a text work on its code points;
  every character of a reference is ASCII, so a count of bytes there is a count of code points.
\<close>

definition pts :: "string \<Rightarrow> nat list" where
  "pts s = map of_char s"

section \<open>HTML escaping\<close>

definition escape_html_point :: "nat \<Rightarrow> nat list" where
  "escape_html_point c =
     (if c = 38 then pts ''&amp;''
      else if c = 60 then pts ''&lt;''
      else if c = 62 then pts ''&gt;''
      else if c = 34 then pts ''&quot;''
      else if c = 39 then pts ''&#39;''
      else [c])"

definition escape_html :: "str \<Rightarrow> str" where
  "escape_html raw = utf8_encode (concat (map escape_html_point (utf8_decode raw)))"

section \<open>Bounds\<close>

definition is_control :: "nat \<Rightarrow> bool" where
  "is_control c \<longleftrightarrow> c < 0x20 \<or> 0x7F \<le> c \<and> c \<le> 0x9F"

definition is_bounded_text :: "str \<Rightarrow> nat \<Rightarrow> bool" where
  "is_bounded_text value max_len \<longleftrightarrow>
     trim value \<noteq> [] \<and> length value \<le> max_len \<and> \<not> list_ex is_control (utf8_decode value)"

definition within_query_bound :: "str \<Rightarrow> nat \<Rightarrow> str \<Rightarrow> error + unit" where
  "within_query_bound text max_bytes noun =
     (if length text > max_bytes then
        Inl (error_invalid_value
          (''the '' @ noun @ '' is longer than '' @ show_nat max_bytes @ '' bytes''))
      else if list_ex is_control (utf8_decode text) then
        Inl (error_invalid_value (''the '' @ noun @ '' holds a control character''))
      else Inr ())"

definition bounded_query :: "str \<Rightarrow> nat \<Rightarrow> str \<Rightarrow> error + str" where
  "bounded_query raw max_bytes noun =
     (let query = trim raw in
      if query = [] then Inl (error_invalid_value (''the '' @ noun @ '' is empty''))
      else (case within_query_bound query max_bytes noun of
              Inl e \<Rightarrow> Inl e
            | Inr _ \<Rightarrow> Inr query))"

section \<open>Control characters\<close>

definition is_escaped :: "nat \<Rightarrow> bool" where
  "is_escaped c \<longleftrightarrow> is_control c \<or> c = 0x2028 \<or> c = 0x2029
     \<or> 0x202A \<le> c \<and> c \<le> 0x202E \<or> 0x2066 \<le> c \<and> c \<le> 0x2069"

definition hex_point :: "nat \<Rightarrow> nat" where
  "hex_point d = (if d < 10 then 48 + d else 87 + d)"

fun hex_points :: "nat \<Rightarrow> nat list" where
  "hex_points n = (if n < 16 then [hex_point n] else hex_points (n div 16) @ [hex_point (n mod 16)])"

declare hex_points.simps [simp del]

text \<open>\<open>char::escape_default\<close>\<close>

definition escape_default :: "nat \<Rightarrow> nat list" where
  "escape_default c =
     (if c = 9 then [92, 116]
      else if c = 13 then [92, 114]
      else if c = 10 then [92, 110]
      else if c = 39 \<or> c = 34 \<or> c = 92 then [92, c]
      else if 0x20 \<le> c \<and> c \<le> 0x7E then [c]
      else [92, 117, 123] @ hex_points c @ [125])"

definition escape_points :: "(nat \<Rightarrow> bool) \<Rightarrow> nat list \<Rightarrow> nat list" where
  "escape_points escaped cs = concat (map (\<lambda>c. if escaped c then escape_default c else [c]) cs)"

definition escape_where :: "str \<Rightarrow> (nat \<Rightarrow> bool) \<Rightarrow> str" where
  "escape_where s escaped =
     utf8_encode (escape_points escaped (utf8_decode s))"

definition escape_controls :: "str \<Rightarrow> str" where
  "escape_controls s = escape_where s is_escaped"

text \<open>\<open>s.replace(['\r', '\n', '\t'], " ")\<close>\<close>

definition spaced :: "str \<Rightarrow> str" where
  "spaced s = utf8_encode (map (\<lambda>c. if c = 13 \<or> c = 10 \<or> c = 9 then 32 else c) (utf8_decode s))"

definition one_line :: "str \<Rightarrow> str" where
  "one_line s = escape_controls (spaced s)"

definition escape_controls_keep_lines :: "str \<Rightarrow> str" where
  "escape_controls_keep_lines s = escape_where s (\<lambda>c. c \<noteq> 10 \<and> c \<noteq> 9 \<and> is_escaped c)"

text \<open>\<open>\uXXXX\<close>, at least four digits.\<close>

definition hex4 :: "nat \<Rightarrow> nat list" where
  "hex4 c = (let h = hex_points c in replicate (4 - length h) 48 @ h)"

definition escape_unsafe_text :: "str \<Rightarrow> str" where
  "escape_unsafe_text json =
     utf8_encode (concat (map (\<lambda>c. if 0x7F \<le> c \<and> is_escaped c then [92, 117] @ hex4 c else [c])
       (utf8_decode json)))"

section \<open>Character references\<close>

datatype ref_syntax = Html | Xml

definition alnum_or_plus :: "nat \<Rightarrow> bool" where
  "alnum_or_plus b \<longleftrightarrow> 48 \<le> b \<and> b \<le> 57 \<or> 97 \<le> b \<and> b \<le> 122 \<or> 65 \<le> b \<and> b \<le> 90 \<or> b = 43"

fun reference_end :: "nat list \<Rightarrow> nat option" where
  "reference_end [] = None"
| "reference_end (b # s) =
     (if b = 59 then Some 0
      else if alnum_or_plus b then map_option Suc (reference_end s)
      else None)"

definition is_digit_point :: "bool \<Rightarrow> nat \<Rightarrow> bool" where
  "is_digit_point hex b \<longleftrightarrow>
     48 \<le> b \<and> b \<le> 57 \<or> hex \<and> (97 \<le> b \<and> b \<le> 102 \<or> 65 \<le> b \<and> b \<le> 70)"

definition point_digit :: "nat \<Rightarrow> nat" where
  "point_digit b = (if b \<le> 57 then b - 48 else if b \<le> 70 then b - 55 else b - 87)"

fun radix_value :: "bool \<Rightarrow> nat \<Rightarrow> nat list \<Rightarrow> nat option" where
  "radix_value hex acc [] = Some acc"
| "radix_value hex acc (b # s) =
     (if is_digit_point hex b then
        (let v = acc * (if hex then 16 else 10) + point_digit b
         in if v < 2 ^ 32 then radix_value hex v s else None)
      else None)"

text \<open>\<open>u32::from_str_radix\<close>: a leading plus sign, then at least one digit.\<close>

definition u32_from_str_radix :: "bool \<Rightarrow> nat list \<Rightarrow> nat option" where
  "u32_from_str_radix hex s =
     (let t = (case s of c # r \<Rightarrow> if c = 43 then r else s | [] \<Rightarrow> [])
      in if t = [] then None else radix_value hex 0 t)"

definition char_from_u32 :: "nat \<Rightarrow> nat option" where
  "char_from_u32 n = (if 0xD800 \<le> n \<and> n \<le> 0xDFFF \<or> 0x10FFFF < n then None else Some n)"

definition WINDOWS_1252 :: "nat list" where
  "WINDOWS_1252 =
    [0x20AC, 0x81, 0x201A, 0x0192, 0x201E, 0x2026, 0x2020, 0x2021, 0x02C6, 0x2030, 0x0160,
     0x2039, 0x0152, 0x8D, 0x017D, 0x8F, 0x90, 0x2018, 0x2019, 0x201C, 0x201D, 0x2022, 0x2013,
     0x2014, 0x02DC, 0x2122, 0x0161, 0x203A, 0x0153, 0x9D, 0x017E, 0x0178]"

definition html_numeric_char :: "nat \<Rightarrow> nat option" where
  "html_numeric_char n =
     (if n = 0 then Some 0xFFFD
      else if 0x80 \<le> n \<and> n \<le> 0x9F then Some (WINDOWS_1252 ! (n - 0x80))
      else char_from_u32 n)"

definition is_xml_char :: "nat \<Rightarrow> bool" where
  "is_xml_char c \<longleftrightarrow> c = 9 \<or> c = 10 \<or> c = 13 \<or> 0x20 \<le> c \<and> c \<le> 0xD7FF
     \<or> 0xE000 \<le> c \<and> c \<le> 0xFFFD \<or> 0x10000 \<le> c \<and> c \<le> 0x10FFFF"

definition decode_numeric :: "nat list \<Rightarrow> ref_syntax \<Rightarrow> (nat \<times> nat) option" where
  "decode_numeric rest syn =
     (let html = (syn = Html);
          after_hash = drop 2 rest;
          (hex, digits) = (case after_hash of
             c # r \<Rightarrow> if c = 120 \<or> html \<and> c = 88 then (True, r) else (False, after_hash)
           | [] \<Rightarrow> (False, after_hash))
      in case reference_end digits of
           None \<Rightarrow> None
         | Some e \<Rightarrow>
             (let raw = take e digits in
              if raw = [] then None
              else if \<not> html \<and> \<not> list_all (is_digit_point hex) raw then None
              else
                (case u32_from_str_radix hex raw of
                   None \<Rightarrow> None
                 | Some n \<Rightarrow>
                     (case (if html then html_numeric_char n else char_from_u32 n) of
                        None \<Rightarrow> None
                      | Some ch \<Rightarrow>
                          if \<not> html \<and> \<not> is_xml_char ch then None
                          else Some (ch, 2 + (if hex then 1 else 0) + length raw + 1)))))"

definition decode_one_reference :: "nat list \<Rightarrow> ref_syntax \<Rightarrow> (nat \<times> nat) option" where
  "decode_one_reference rest syn =
     (if starts_with (pts ''&#'') rest then decode_numeric rest syn
      else
        (let after_amp = drop 1 rest in
         case reference_end after_amp of
           None \<Rightarrow> None
         | Some e \<Rightarrow>
             (let name = take e after_amp;
                  ch = (if name = pts ''amp'' then Some 38
                        else if name = pts ''lt'' then Some 60
                        else if name = pts ''gt'' then Some 62
                        else if name = pts ''quot'' then Some 34
                        else if name = pts ''apos'' then Some 39
                        else if name = pts ''nbsp'' \<and> syn = Html then Some 32
                        else None)
              in map_option (\<lambda>c. (c, 1 + length name + 1)) ch)))"

fun decode_points :: "ref_syntax \<Rightarrow> nat list \<Rightarrow> nat list" where
  "decode_points syn [] = []"
| "decode_points syn (c # s) =
     (case (if c = 38 then decode_one_reference (c # s) syn else None) of
        Some (ch, consumed) \<Rightarrow> ch # decode_points syn (drop (consumed - 1) s)
      | None \<Rightarrow> c # decode_points syn s)"

definition decode_references :: "str \<Rightarrow> ref_syntax \<Rightarrow> str" where
  "decode_references s syn = utf8_encode (decode_points syn (utf8_decode s))"

definition decode_html_entities :: "str \<Rightarrow> str" where
  "decode_html_entities s = decode_references s Html"

definition decode_xml_references :: "str \<Rightarrow> str" where
  "decode_xml_references s = decode_references s Xml"

section \<open>Digits\<close>

definition nonblank :: "str option \<Rightarrow> str option" where
  "nonblank value = (case map_option trim value of Some t \<Rightarrow> if t = [] then None else Some t | None \<Rightarrow> None)"

definition ascii_digits :: "str \<Rightarrow> str" where
  "ascii_digits s = filter is_ascii_digit s"

definition ascii_digits_and_plus :: "str \<Rightarrow> str" where
  "ascii_digits_and_plus s = filter (\<lambda>c. is_ascii_digit c \<or> c = CHR ''+'') s"

text \<open>\<open>get(..2)\<close> is absent when a character straddles the cut; a prefix that is \<open>AS\<close> in some
  letter case has no such character.\<close>

definition parse_asn :: "str \<Rightarrow> nat option" where
  "parse_asn s =
     (let trimmed = trim s;
          digits = (if 2 \<le> length trimmed \<and> eq_ignore_ascii_case (take 2 trimmed) ''AS''
                    then trim (drop 2 trimmed) else trimmed)
      in if digits = [] \<or> \<not> list_all is_ascii_digit digits then None
         else parse_unsigned (2 ^ 64 - 1) digits)"

section \<open>Escaping\<close>

lemma valid_utf8: "valid_str s \<Longrightarrow> list_all (\<lambda>c. c < 0x110000) (utf8_decode s) \<and> utf8_encode (utf8_decode s) = s"
  by (auto simp: valid_str_def list_all_iff utf8_roundtrip)

lemma decode_named:
  "decode_points syn (pts ''&amp;'' @ s) = 38 # decode_points syn s"
  "decode_points syn (pts ''&lt;'' @ s) = 60 # decode_points syn s"
  "decode_points syn (pts ''&gt;'' @ s) = 62 # decode_points syn s"
  "decode_points syn (pts ''&quot;'' @ s) = 34 # decode_points syn s"
  by (simp_all add: pts_def decode_one_reference_def starts_with_def alnum_or_plus_def Let_def)

lemma decode_apos: "decode_points syn (pts ''&#39;'' @ s) = 39 # decode_points syn s"
  by (cases syn)
    (simp_all add: pts_def decode_one_reference_def decode_numeric_def starts_with_def alnum_or_plus_def
      Let_def is_digit_point_def u32_from_str_radix_def point_digit_def html_numeric_char_def
      char_from_u32_def is_xml_char_def)

lemma decode_escape_points: "decode_points syn (concat (map escape_html_point cs)) = cs"
proof (induction cs)
  case (Cons c cs)
  show ?case
  proof (cases "c \<in> {38, 60, 62, 34, 39}")
    case True
    with Cons show ?thesis by (auto simp: escape_html_point_def decode_named decode_apos)
  next
    case False
    with Cons show ?thesis by (simp add: escape_html_point_def)
  qed
qed simp

lemma escape_html_valid:
  "list_all (\<lambda>c. c < 0x110000) cs \<Longrightarrow> list_all (\<lambda>c. c < 0x110000) (concat (map escape_html_point cs))"
  by (induction cs) (auto simp: escape_html_point_def pts_def)

lemma hex_point_plain: "d < 16 \<Longrightarrow> \<not> is_escaped (hex_point d) \<and> hex_point d < 0x80"
  by (auto simp: is_escaped_def is_control_def hex_point_def)

lemma hex_points_plain: "list_all (\<lambda>c. \<not> is_escaped c \<and> c < 0x80) (hex_points n)"
proof (induction n rule: hex_points.induct)
  case (1 n)
  then show ?case
    using hex_point_plain[of n] hex_point_plain[of "n mod 16"]
    by (subst hex_points.simps) auto
qed

lemma escape_default_plain: "list_all (\<lambda>c. \<not> is_escaped c \<and> c < 0x80) (escape_default c)"
  using hex_points_plain[of c]
  by (auto simp: escape_default_def) (auto simp: is_escaped_def is_control_def)

lemma escape_points_Cons:
  "escape_points P (c # cs) = (if P c then escape_default c else [c]) @ escape_points P cs"
  by (simp add: escape_points_def)

lemma escape_points_valid:
  "list_all (\<lambda>c. c < 0x110000) cs \<Longrightarrow> list_all (\<lambda>c. c < 0x110000) (escape_points P cs)"
proof (induction cs)
  case (Cons c cs)
  have "list_all (\<lambda>c. c < 0x110000) (escape_default c)"
    using escape_default_plain[of c] by (rule list.pred_mono_strong) simp
  with Cons show ?case by (simp add: escape_points_Cons)
qed (simp add: escape_points_def)

lemma escape_points_clean: "list_all (\<lambda>c. \<not> is_escaped c) (escape_points is_escaped cs)"
proof (induction cs)
  case (Cons c cs)
  have "list_all (\<lambda>c. \<not> is_escaped c) (escape_default c)"
    using escape_default_plain[of c] by (rule list.pred_mono_strong) simp
  with Cons show ?case by (simp add: escape_points_Cons)
qed (simp add: escape_points_def)

lemma escape_points_id: "list_all (\<lambda>c. \<not> P c) cs \<Longrightarrow> escape_points P cs = cs"
  by (induction cs) (simp_all add: escape_points_Cons, simp add: escape_points_def)

lemma roundtrip: "list_all (\<lambda>c. c < 0x110000) cs \<Longrightarrow> utf8_decode (utf8_encode cs) = cs"
  by (rule utf8_roundtrip) (simp only: list_all_iff)

lemma decode_escape_where:
  "valid_str s \<Longrightarrow> utf8_decode (escape_where s P) = escape_points P (utf8_decode s)"
  unfolding escape_where_def using valid_utf8[of s] by (intro roundtrip escape_points_valid) simp

lemma escape_where_valid: "valid_str s \<Longrightarrow> valid_str (escape_where s P)"
  unfolding escape_where_def valid_str_def[of "utf8_encode _"]
  using valid_utf8[of s]
  by (intro exI[of _ "escape_points P (utf8_decode s)"]) (simp add: escape_points_valid)

lemma escape_controls_clean:
  "valid_str s \<Longrightarrow> list_all (\<lambda>c. \<not> is_escaped c) (utf8_decode (escape_controls s))"
  by (simp add: escape_controls_def decode_escape_where escape_points_clean)

lemma escape_controls_id:
  "valid_str s \<Longrightarrow> list_all (\<lambda>c. \<not> is_escaped c) (utf8_decode s) \<Longrightarrow> escape_controls s = s"
  using valid_utf8[of s] by (simp add: escape_controls_def escape_where_def escape_points_id)

section \<open>Properties\<close>

text \<open>Decoding inverts escaping: whatever text is escaped for HTML, the HTML decoder and the XML
  decoder both give it back.\<close>

theorem html_escape_roundtrip:
  assumes "valid_str s"
  shows "decode_html_entities (escape_html s) = s \<and> decode_xml_references (escape_html s) = s"
proof -
  note v = valid_utf8[OF assms]
  have "utf8_decode (escape_html s) = concat (map escape_html_point (utf8_decode s))"
    unfolding escape_html_def using v by (intro roundtrip escape_html_valid) simp
  with v show ?thesis
    by (simp add: decode_html_entities_def decode_xml_references_def decode_references_def decode_escape_points)
qed

theorem html_escape_roundtrip_witness:
  "decode_html_entities (escape_html (utf8_encode [60, 0x201C, 38, 39, 0x1F600]))
     = utf8_encode [60, 0x201C, 38, 39, 0x1F600] \<and>
   decode_xml_references (escape_html (utf8_encode [60, 0x201C, 38, 39, 0x1F600]))
     = utf8_encode [60, 0x201C, 38, 39, 0x1F600]"
  by (rule html_escape_roundtrip) (auto simp: valid_str_def intro!: exI[of _ "[60, 0x201C, 38, 39, 0x1F600]"])

text \<open>Escaped text is safe to print: it has no control, line-separator or bidirectional-control
  character, stays valid text, and escaping it again changes nothing.\<close>

theorem escape_controls_safe:
  assumes "valid_str s"
  shows "list_all (\<lambda>c. \<not> is_escaped c) (utf8_decode (escape_controls s)) \<and>
    valid_str (escape_controls s) \<and> escape_controls (escape_controls s) = escape_controls s"
  using escape_controls_clean[OF assms] escape_where_valid[OF assms] escape_controls_id
  by (simp add: escape_controls_def)

theorem escape_controls_safe_witness:
  "list_all (\<lambda>c. \<not> is_escaped c) (utf8_decode (escape_controls (utf8_encode [0x1B, 97, 10, 0x202E]))) \<and>
    valid_str (escape_controls (utf8_encode [0x1B, 97, 10, 0x202E])) \<and>
    escape_controls (escape_controls (utf8_encode [0x1B, 97, 10, 0x202E]))
      = escape_controls (utf8_encode [0x1B, 97, 10, 0x202E])"
  by (rule escape_controls_safe) (auto simp: valid_str_def intro!: exI[of _ "[0x1B, 97, 10, 0x202E]"])

end
