(* ===== verification/Lineage.thy ===== *)
theory Lineage
  imports Clusters Evidence Textnorm
begin

text \<open>
  \<open>src/lineage.rs\<close> and \<open>clusters_from_lineage\<close> of \<open>src/resolve.rs\<close>: the upstream a response
  names, the evidence graph built from it, the assessment of the candidate merges, and the clusters
  of a saved resolution, which are recomputed rather than believed. Lower-casing is the argument
  \<open>lower\<close>, as in \<open>canonical_family\<close>.
\<close>

datatype upstream_kind = Dataset | Registry

definition LINEAGE_FIELDS :: "(str \<times> upstream_kind) list" where
  "LINEAGE_FIELDS =
    [(''dbname'', Dataset), (''breach'', Dataset), (''source_db'', Dataset),
     (''database_name'', Dataset), (''dataset'', Dataset), (''registry'', Registry)]"

definition VERIFIED_REGISTRY_SOURCES :: "str list" where
  "VERIFIED_REGISTRY_SOURCES = [''abn_lookup'']"

definition ROOT_PREFIX :: str where
  "ROOT_PREFIX = ''lineage:''"

datatype lineage =
    Upstream upstream_kind str str str
  | Unattributed
  | Ambiguous str "str list"

definition is_verified_registry_source :: "(nat list \<Rightarrow> nat list) \<Rightarrow> str \<Rightarrow> bool" where
  "is_verified_registry_source lower collector \<longleftrightarrow>
     list_all (\<lambda>c. (of_char c :: nat) < 128) collector \<and>
     List.member VERIFIED_REGISTRY_SOURCES (canonical_provenance_family lower collector)"

fun kind_is_admissible :: "(nat list \<Rightarrow> nat list) \<Rightarrow> upstream_kind \<Rightarrow> evidence \<Rightarrow> bool" where
  "kind_is_admissible lower Dataset e = True"
| "kind_is_admissible lower Registry e = is_verified_registry_source lower (source (provenance e))"

fun lineage_from :: "(nat list \<Rightarrow> nat list) \<Rightarrow> evidence \<Rightarrow> (str \<times> upstream_kind) list \<Rightarrow> lineage" where
  "lineage_from lower e [] = Unattributed"
| "lineage_from lower e ((field, kind) # rest) =
     (if \<not> kind_is_admissible lower kind e then lineage_from lower e rest
      else
        (let vs = attr_values e field in
         if vs = [] then lineage_from lower e rest
         else
           (let families = bset_extend [] (map (canonical_family lower) vs) in
            if length families > 1 then Ambiguous field vs
            else
              (case families of
                 family # _ \<Rightarrow>
                   if family \<noteq> [] then Upstream kind field (join ''; '' vs) family
                   else lineage_from lower e rest
               | [] \<Rightarrow> lineage_from lower e rest))))"

definition lineage_of :: "(nat list \<Rightarrow> nat list) \<Rightarrow> evidence \<Rightarrow> lineage" where
  "lineage_of lower e = lineage_from lower e LINEAGE_FIELDS"

fun family :: "lineage \<Rightarrow> str option" where
  "family (Upstream _ _ _ fam) = Some fam"
| "family Unattributed = None"
| "family (Ambiguous _ _) = None"

record observation =
  obs_id :: str
  obs_evidence :: evidence

record observed_lineage =
  ol_observation :: observation
  ol_lineage :: lineage

datatype merge_outcome = AutoMerge | Held "hold_reason list"

record candidate_outcome =
  co_decision :: decision
  independent_families :: "str list"
  unattributed_support :: "str list"
  outcome :: merge_outcome

record resolution =
  res_policy :: auto_merge_policy
  res_observations :: "observed_lineage list"
  res_candidates :: "candidate_outcome list"

datatype lineage_error =
    LineageInvalidPolicy f64
  | EmptyObservationId nat
  | ReservedObservationId str
  | DuplicateObservation str
  | LineageAncestry ancestry_error

section \<open>Resolution\<close>

fun check_ids :: "nat \<Rightarrow> observation list \<Rightarrow> str list \<Rightarrow> lineage_error + str list" where
  "check_ids index [] seen = Inr seen"
| "check_ids index (ob # rest) seen =
     (let i = obs_id ob in
      if trim i = [] then Inl (EmptyObservationId index)
      else if starts_with ROOT_PREFIX i then Inl (ReservedObservationId i)
      else if List.member seen i then Inl (DuplicateObservation i)
      else check_ids (index + 1) rest (bset_insert i seen))"

fun build_graph ::
  "(nat list \<Rightarrow> nat list) \<Rightarrow> observed_lineage list \<Rightarrow> ancestry_graph \<Rightarrow> str list \<Rightarrow> str list
    \<Rightarrow> lineage_error + (ancestry_graph \<times> str list)"
where
  "build_graph lower [] g roots unattributed = Inr (g, unattributed)"
| "build_graph lower (item # rest) g roots unattributed =
     (let i = obs_id (ol_observation item) in
      case family (ol_lineage item) of
        None \<Rightarrow> build_graph lower rest g roots (bset_insert i unattributed)
      | Some fam \<Rightarrow>
          (let root = ROOT_PREFIX @ fam in
           case (if List.member roots root then Inr g
                 else insert_node lower g
                   \<lparr>id = root, source_family = fam, parents = [], derived = False\<rparr>) of
             Inl e \<Rightarrow> Inl (LineageAncestry e)
           | Inr g1 \<Rightarrow>
               (case insert_node lower g1
                  \<lparr>id = i,
                   source_family =
                     ''relay '' @ source (provenance (obs_evidence (ol_observation item))),
                   parents = [root], derived = True\<rparr> of
                  Inl e \<Rightarrow> Inl (LineageAncestry e)
                | Inr g2 \<Rightarrow> build_graph lower rest g2 (bset_insert root roots) unattributed)))"

record assessment =
  as_unknown :: "str list"
  as_unattributed :: "str list"
  as_families :: "str list"
  as_error :: "ancestry_error option"

fun assess_support ::
  "ancestry_graph \<Rightarrow> str list \<Rightarrow> str list \<Rightarrow> str list \<Rightarrow> assessment \<Rightarrow> assessment"
where
  "assess_support g ids unattributed [] a = a"
| "assess_support g ids unattributed (i # is) a =
     assess_support g ids unattributed is
       (if \<not> List.member ids i then a\<lparr>as_unknown := as_unknown a @ [i]\<rparr>
        else if List.member unattributed i then a\<lparr>as_unattributed := as_unattributed a @ [i]\<rparr>
        else
          (case root_families g i of
             Inr roots \<Rightarrow> a\<lparr>as_families := bset_extend (as_families a) roots\<rparr>
           | Inl e \<Rightarrow> a\<lparr>as_error := (case as_error a of None \<Rightarrow> Some e | Some e0 \<Rightarrow> Some e0)\<rparr>))"

definition assess ::
  "decision \<Rightarrow> ancestry_graph \<Rightarrow> str list \<Rightarrow> str list \<Rightarrow> auto_merge_policy \<Rightarrow> candidate_outcome"
where
  "assess d g ids unattributed policy =
     (let a = assess_support g ids unattributed (supporting d)
                \<lparr>as_unknown = [], as_unattributed = [], as_families = [], as_error = None\<rparr>;
          fully_attributed = (as_unknown a = [] \<and> as_error a = None \<and> as_unattributed a = []);
          count = (if as_unknown a \<noteq> [] then Inl (NotObservations (as_unknown a))
                   else (case as_error a of
                           Some e \<Rightarrow> Inl (AncestryDetail e)
                         | None \<Rightarrow> Inr (length (as_families a))));
          reasons = (if fully_attributed then hold_reasons d g policy
                     else hold_reasons_given d count policy)
      in \<lparr>co_decision = d, independent_families = as_families a,
          unattributed_support = as_unattributed a,
          outcome = (if reasons = [] then AutoMerge else Held reasons)\<rparr>)"

definition resolve_with_lineage ::
  "(nat list \<Rightarrow> nat list) \<Rightarrow> observation list \<Rightarrow> decision list \<Rightarrow> auto_merge_policy
    \<Rightarrow> lineage_error + resolution"
where
  "resolve_with_lineage lower obs candidates policy =
     (let floor = min_match_probability policy in
      if \<not> f64_unit_interval floor then Inl (LineageInvalidPolicy floor)
      else
        (case check_ids 0 obs [] of
           Inl e \<Rightarrow> Inl e
         | Inr seen \<Rightarrow>
             (let observed = map (\<lambda>ob. \<lparr>ol_observation = ob,
                                        ol_lineage = lineage_of lower (obs_evidence ob)\<rparr>) obs
              in case build_graph lower observed empty_graph [] [] of
                   Inl e \<Rightarrow> Inl e
                 | Inr (g, unattributed) \<Rightarrow>
                     Inr \<lparr>res_policy = policy, res_observations = observed,
                          res_candidates = map (\<lambda>d. assess d g seen unattributed policy) candidates\<rparr>)))"

section \<open>Rows\<close>

fun upstream_kind_label :: "upstream_kind \<Rightarrow> str" where
  "upstream_kind_label Dataset = ''dataset''"
| "upstream_kind_label Registry = ''registry''"

definition tab :: str where "tab = [CHR 0x09]"

definition lineage_tsv_line :: "observed_lineage \<Rightarrow> str" where
  "lineage_tsv_line item =
     (let i = escape_controls (obs_id (ol_observation item)) in
      case ol_lineage item of
        Upstream kind _ _ fam \<Rightarrow> i @ tab @ upstream_kind_label kind @ tab @ escape_controls fam
      | Unattributed \<Rightarrow> i @ tab @ ''unattributed''
      | Ambiguous field vs \<Rightarrow>
          i @ tab @ ''ambiguous'' @ tab @ escape_controls field @ tab @ escape_controls (join '';'' vs))"

section \<open>Clusters of a saved resolution\<close>

text \<open>The candidates whose saved flag says merge and whose recomputed outcome agrees.\<close>

fun approved :: "candidate_outcome list \<Rightarrow> candidate_outcome list option \<Rightarrow> decision list" where
  "approved [] checked = []"
| "approved (c # cs) checked =
     (let now = (case checked of Some (k # _) \<Rightarrow> outcome k = AutoMerge | _ \<Rightarrow> False);
          later = map_option tl checked
      in if outcome c \<noteq> AutoMerge \<or> \<not> now then approved cs later
         else co_decision c # approved cs later)"

definition clusters_from_lineage ::
  "(nat list \<Rightarrow> nat list) \<Rightarrow> resolution \<Rightarrow> resolution_cluster list option"
where
  "clusters_from_lineage lower r =
     (let ids = decision_ids (map co_decision (res_candidates r));
          adjudicated = (case resolve_with_lineage lower (map ol_observation (res_observations r))
                           (map co_decision (res_candidates r)) (res_policy r) of
                           Inr result \<Rightarrow> Some (res_candidates result)
                         | Inl _ \<Rightarrow> None)
      in map_option (sort_key members)
           (joins_to_clusters ids (approved (res_candidates r) adjudicated)))"

end
