(* ===== verification/Lineage_Correct.thy ===== *)
theory Lineage_Correct
  imports Lineage
begin

text \<open>
  What \<open>src/lineage.rs\<close> and \<open>clusters_from_lineage\<close> guarantee: the input comes back whole and in
  order, an upstream names one family, the lineage graph alone never proves two independent routes,
  and the clusters of a saved resolution rest on recomputed decisions only.
\<close>

section \<open>Lineage of one record\<close>

lemma bset_extend_single:
  assumes "bset_ok (bset_extend [] xs)" "length (bset_extend [] xs) \<le> 1" "bset_extend [] xs = y # ys"
  shows "\<forall>x \<in> set xs. x = y"
proof -
  have "set (bset_extend [] xs) = set xs" by simp
  moreover have "bset_extend [] xs = [y]" using assms(2,3) by simp
  ultimately show ?thesis by auto
qed

text \<open>What an upstream says of the record: one admissible field, all of whose values are one family.\<close>

definition upstream_of :: "(nat list \<Rightarrow> nat list) \<Rightarrow> evidence \<Rightarrow> upstream_kind \<Rightarrow> str \<Rightarrow> str \<Rightarrow> bool" where
  "upstream_of lower e kind field fam \<longleftrightarrow>
     (field, kind) \<in> set LINEAGE_FIELDS \<and> kind_is_admissible lower kind e \<and> fam \<noteq> [] \<and>
     attr_values e field \<noteq> [] \<and> (\<forall>v \<in> set (attr_values e field). canonical_family lower v = fam)"

lemma lineage_from_step:
  assumes "lineage_from lower e ((field', kind') # rest) = Upstream kind field v fam"
  shows "lineage_from lower e rest = Upstream kind field v fam \<or>
    field = field' \<and> kind = kind' \<and> kind_is_admissible lower kind e \<and> fam \<noteq> [] \<and>
    attr_values e field \<noteq> [] \<and> (\<forall>v \<in> set (attr_values e field). canonical_family lower v = fam)"
proof -
  let ?vs = "attr_values e field'"
  let ?fs = "bset_extend [] (map (canonical_family lower) ?vs)"
  show ?thesis
  proof (cases "kind_is_admissible lower kind' e \<and> ?vs \<noteq> [] \<and> length ?fs \<le> 1 \<and> ?fs \<noteq> [] \<and> hd ?fs \<noteq> []")
    case True
    then obtain f fs where f: "?fs = f # fs" by (cases ?fs) auto
    have "\<forall>v \<in> set (map (canonical_family lower) ?vs). v = f"
      using bset_extend_single[OF bset_ok_extend[OF bset_ok_Nil] _ f] True by blast
    with True f assms show ?thesis by (auto simp: Let_def)
  next
    case False
    with assms show ?thesis by (auto simp: Let_def split: if_splits list.splits)
  qed
qed

lemma lineage_from_upstream:
  "lineage_from lower e fks = Upstream kind field v fam \<Longrightarrow>
    (field, kind) \<in> set fks \<and> kind_is_admissible lower kind e \<and> fam \<noteq> [] \<and>
    attr_values e field \<noteq> [] \<and> (\<forall>v \<in> set (attr_values e field). canonical_family lower v = fam)"
proof (induction fks)
  case (Cons fk fks)
  obtain field' kind' where fk: "fk = (field', kind')" by force
  from lineage_from_step[OF Cons.prems[unfolded fk]] Cons.IH show ?case by (auto simp: fk)
qed simp

section \<open>The lineage graph\<close>

lemma insert_node_independence:
  "insert_node lower g node = Inr g' \<Longrightarrow> independence g' = independence g"
  by (auto simp: insert_node_def Let_def split: if_splits)

lemma build_graph_independence:
  "build_graph lower items g roots ua = Inr (g', ua') \<Longrightarrow> independence g' = independence g"
proof (induction lower items g roots ua rule: build_graph.induct)
  case (2 lower item rest g roots ua)
  then show ?case
    by (auto simp: Let_def split: option.splits sum.splits if_splits dest!: insert_node_independence)
qed simp

lemma no_records: "independence g = [] \<Longrightarrow> \<not> recorded g r s"
  by (simp add: recorded_def records_of_def)

lemma unrecorded_single:
  assumes "independence g = []" "mutually_recorded g R"
  shows "card R \<le> 1"
proof (cases "finite R")
  case True
  have "\<forall>r \<in> R. \<forall>s \<in> R. r = s" using assms no_records unfolding mutually_recorded_def by blast
  with True show ?thesis by (simp add: card_le_Suc0_iff_eq)
qed simp

lemma unrecorded_never_merges:
  assumes "independence g = []" "2 \<le> min_independent_support_families policy"
  shows "hold_reasons d g policy \<noteq> []"
proof
  assume "hold_reasons d g policy = []"
  then have "merge_justified d g policy" by (intro allows_justified) (simp add: allows_automatic_merge_def)
  then obtain R where "card R = max (min_independent_support_families policy) 1" "mutually_recorded g R"
    by (auto simp: merge_justified_def)
  with unrecorded_single[OF assms(1)] assms(2) show False by fastforce
qed

lemma assess_never_merges:
  assumes "independence g = []" "2 \<le> min_independent_support_families policy"
  shows "outcome (assess d g ids ua policy) \<noteq> AutoMerge"
  using unrecorded_never_merges[OF assms, of d] given_never_allows[OF assms(2), of d]
  by (simp add: assess_def Let_def)

lemma resolve_InrE:
  assumes "resolve_with_lineage lower obs cands policy = Inr r"
  obtains seen g ua where "f64_unit_interval (min_match_probability policy)" "check_ids 0 obs [] = Inr seen"
    "build_graph lower (res_observations r) empty_graph [] [] = Inr (g, ua)"
    "res_policy r = policy" "res_candidates r = map (\<lambda>d. assess d g seen ua policy) cands"
    "res_observations r = map (\<lambda>ob. \<lparr>ol_observation = ob, ol_lineage = lineage_of lower (obs_evidence ob)\<rparr>) obs"
  using assms by (auto simp: resolve_with_lineage_def Let_def split: if_splits sum.splits)

lemma assess_decision [simp]: "co_decision (assess d g ids ua policy) = d"
  by (simp add: assess_def Let_def)

section \<open>Observation ids\<close>

definition id_usable :: "observation \<Rightarrow> bool" where
  "id_usable ob \<longleftrightarrow> trim (obs_id ob) \<noteq> [] \<and> \<not> starts_with ROOT_PREFIX (obs_id ob)"

lemma check_ids_iff:
  "(\<exists>seen'. check_ids n obs seen = Inr seen') \<longleftrightarrow>
     list_all id_usable obs \<and> distinct (map obs_id obs) \<and> obs_id ` set obs \<inter> set seen = {}"
  by (induction n obs seen rule: check_ids.induct) (auto simp: id_usable_def Let_def)

lemma resolve_accepts_ids:
  assumes "resolve_with_lineage lower obs cands policy = Inr r"
  shows "list_all id_usable obs \<and> distinct (map obs_id obs)"
proof -
  obtain seen where "check_ids 0 obs [] = Inr seen" by (rule resolve_InrE[OF assms])
  then show ?thesis using check_ids_iff[of 0 obs "[]"] by blast
qed

section \<open>Approved decisions\<close>

text \<open>The candidates of a saved resolution that both the saved flag and the recomputation merge.\<close>

definition rejudged :: "(nat list \<Rightarrow> nat list) \<Rightarrow> resolution \<Rightarrow> decision list" where
  "rejudged lower r =
     (case resolve_with_lineage lower (map ol_observation (res_observations r))
             (map co_decision (res_candidates r)) (res_policy r) of
        Inl _ \<Rightarrow> []
      | Inr now \<Rightarrow> map (\<lambda>(c, k). co_decision c)
          (filter (\<lambda>(c, k). outcome c = AutoMerge \<and> outcome k = AutoMerge)
             (zip (res_candidates r) (res_candidates now))))"

lemma approved_None: "approved cs None = []"
  by (induction cs) simp_all

lemma approved_Some:
  "approved cs (Some ks) = map (\<lambda>(c, k). co_decision c)
     (filter (\<lambda>(c, k). outcome c = AutoMerge \<and> outcome k = AutoMerge) (zip cs ks))"
proof (induction cs arbitrary: ks)
  case (Cons c cs)
  then show ?case by (cases ks) (simp_all add: Let_def Cons.IH[of "[]", simplified])
qed simp

lemma clusters_from_lineage_joins:
  "clusters_from_lineage lower r = map_option (sort_key members)
     (joins_to_clusters (decision_ids (map co_decision (res_candidates r))) (rejudged lower r))"
  by (simp add: clusters_from_lineage_def rejudged_def approved_None approved_Some Let_def split: sum.split)

lemma rejudged_sub: "set (rejudged lower r) \<subseteq> set (map co_decision (res_candidates r))"
  by (auto simp: rejudged_def split: sum.splits dest: set_zip_leftD)

lemma rejudged_none:
  assumes "2 \<le> min_independent_support_families (res_policy r)"
  shows "rejudged lower r = []"
proof (cases "resolve_with_lineage lower (map ol_observation (res_observations r))
    (map co_decision (res_candidates r)) (res_policy r)")
  case (Inr now)
  from Inr obtain seen g ua where g: "build_graph lower (res_observations now) empty_graph [] [] = Inr (g, ua)"
    and now: "res_candidates now
      = map (\<lambda>d. assess d g seen ua (res_policy r)) (map co_decision (res_candidates r))"
    by (rule resolve_InrE) (rule that; assumption)
  have "independence g = []" using build_graph_independence[OF g] by (simp add: empty_graph_def)
  note none = assess_never_merges[OF this assms]
  have "outcome k \<noteq> AutoMerge" if "(c, k) \<in> set (zip (res_candidates r) (res_candidates now))" for c k
    using set_zip_rightD[OF that] none unfolding now by auto
  then show ?thesis using Inr by (auto simp: rejudged_def filter_empty_conv)
qed (simp add: rejudged_def)

section \<open>Sorting of clusters\<close>

lemma heads_sort:
  "distinct (concat ms) \<Longrightarrow> [] \<notin> set ms \<Longrightarrow> sorted (map hd ms) \<Longrightarrow> sorted (ms :: 'a::linorder list list)"
proof (induction ms)
  case (Cons m ms)
  have "m \<le> m'" if m': "m' \<in> set ms" for m'
  proof -
    obtain x xs y ys where xy: "m = x # xs" "m' = y # ys"
      using Cons.prems(2) m' by (cases m; cases m') auto
    have "x \<le> y" using Cons.prems(3) m' xy by auto
    moreover have "x \<noteq> y" using Cons.prems(1) m' xy by auto
    ultimately show ?thesis using xy by simp
  qed
  with Cons show ?case by auto
qed simp

lemma sort_key_id: "sorted (map f xs) \<Longrightarrow> sort_key f xs = xs"
  by (induction xs) (simp_all add: insort_is_Cons)

lemma clusters_sorted:
  assumes "clusters_exact js uids cs"
  shows "sort_key members cs = cs"
proof (rule sort_key_id, rule heads_sort)
  show "[] \<notin> set (map members cs)" "distinct (concat (map members cs))"
    using assms by (auto simp: clusters_exact_def)
  have "sorted (map (\<lambda>c. hd (members c)) cs)" using assms by (simp add: clusters_exact_def)
  then show "sorted (map hd (map members cs))" by (simp add: comp_def)
qed

lemma clusters_from_lineage_ok:
  "\<exists>cs. clusters_from_lineage lower r = Some cs \<and>
     clusters_exact (rejudged lower r)
       (left_entity_uid ` co_decision ` set (res_candidates r) \<union>
        right_entity_uid ` co_decision ` set (res_candidates r)) cs"
proof -
  let ?ds = "map co_decision (res_candidates r)"
  have "left_entity_uid ` set (rejudged lower r) \<union> right_entity_uid ` set (rejudged lower r)
      \<subseteq> set (decision_ids ?ds)"
    using rejudged_sub[of lower r] by (auto simp: decision_ids_props(3))
  from joins_to_clusters_exact[OF decision_ids_props(2,1) this] obtain cs where
    cs: "joins_to_clusters (decision_ids ?ds) (rejudged lower r) = Some cs"
      "clusters_exact (rejudged lower r) (set (decision_ids ?ds)) cs" by blast
  have uids: "set (decision_ids ?ds) = left_entity_uid ` co_decision ` set (res_candidates r) \<union>
        right_entity_uid ` co_decision ` set (res_candidates r)"
    by (simp add: decision_ids_props(3))
  show ?thesis
    using cs(2) unfolding uids by (simp add: clusters_from_lineage_joins cs(1) clusters_sorted[OF cs(2)])
qed

lemma one_member: "(\<And>x y. x \<in> set xs \<Longrightarrow> y \<in> set xs \<Longrightarrow> x = y) \<Longrightarrow> distinct xs \<Longrightarrow> xs \<noteq> [] \<Longrightarrow> length xs = 1"
proof (cases xs)
  case (Cons x ys)
  assume same: "\<And>x y. x \<in> set xs \<Longrightarrow> y \<in> set xs \<Longrightarrow> x = y" and "distinct xs"
  then have "y \<notin> set ys" for y using Cons by (metis distinct.simps(2) list.set_intros)
  then show ?thesis using Cons by (cases ys) auto
qed simp

lemma no_joins_single:
  assumes "clusters_exact [] uids cs" "c \<in> set cs"
  shows "length (members c) = 1"
proof -
  have "x = y" if "x \<in> set (members c)" "y \<in> set (members c)" for x y
    using assms that unfolding clusters_exact_def by (auto simp: merged_def merge_edges_def)
  moreover have "distinct (members c)" "members c \<noteq> []"
    using assms by (auto simp: clusters_exact_def distinct_concat_iff)
  ultimately show ?thesis by (rule one_member)
qed

section \<open>Properties\<close>

text \<open>Lineage alone never proves two independent routes. Under a policy that asks for at least two
  (the default does) every candidate of a resolution is held, whatever its observations are: the
  lineage graph holds no independence record, so distinct families never count as independent
  routes. \<open>docs/LINEAGE.md\<close> says that a dump plus a verified registry merges automatically; the
  code holds it.\<close>

theorem lineage_never_proves_two:
  assumes "resolve_with_lineage lower obs cands policy = Inr r"
    and "2 \<le> min_independent_support_families policy"
  shows "list_all (\<lambda>c. outcome c \<noteq> AutoMerge) (res_candidates r)"
proof -
  from assms(1) obtain seen g ua where g: "build_graph lower (res_observations r) empty_graph [] [] = Inr (g, ua)"
    and cands: "res_candidates r = map (\<lambda>d. assess d g seen ua policy) cands"
    by (rule resolve_InrE) (rule that; assumption)
  have "independence g = []" using build_graph_independence[OF g] by (simp add: empty_graph_def)
  from assess_never_merges[OF this assms(2)] show ?thesis by (simp add: cands list_all_iff)
qed

text \<open>A dump relayed by one collector and a record of the verified registry, both in support.\<close>

definition dump_and_registry :: "observation list" where
  "dump_and_registry =
     [\<lparr>obs_id = ''d'', obs_evidence = with_attr ''breach'' ''Adobe''
        (evidence_new (provenance_new lower_ascii 0 ''hibp'') ''row'')\<rparr>,
      \<lparr>obs_id = ''r'', obs_evidence = with_attr ''registry'' ''ABR''
        (evidence_new (provenance_new lower_ascii 0 ''abn_lookup'') ''row'')\<rparr>]"

definition dump_registry_match :: decision where
  "dump_registry_match =
     \<lparr>left_entity_uid = ''a'', right_entity_uid = ''b'', state = Match, probability = Some (Fin 1),
      supporting = [''d'', ''r''], contradicting = [], temporal_conflict = False,
      geographic_conflict = False, decided_at_unix = 0\<rparr>"

lemma dump_and_registry_families:
  "map (\<lambda>ob. family (lineage_of lower_ascii (obs_evidence ob))) dump_and_registry = [Some ''adobe'', Some ''abr'']"
  by code_simp

lemma case_Inr_ex: "(case s of Inr r \<Rightarrow> P r | Inl _ \<Rightarrow> False) \<Longrightarrow> \<exists>r. s = Inr r \<and> P r"
  by (cases s) auto

lemma dump_and_registry_resolves:
  "\<exists>r. resolve_with_lineage lower_ascii dump_and_registry [dump_registry_match] default_policy = Inr r \<and>
     map independent_families (res_candidates r) = [[''abr'', ''adobe'']]"
proof -
  have "(case resolve_with_lineage lower_ascii dump_and_registry [dump_registry_match] default_policy of
      Inr r \<Rightarrow> map independent_families (res_candidates r) = [[''abr'', ''adobe'']] | Inl _ \<Rightarrow> False)"
    by code_simp
  then show ?thesis by (rule case_Inr_ex)
qed

theorem lineage_never_proves_two_witness:
  "\<exists>r. resolve_with_lineage lower_ascii dump_and_registry [dump_registry_match] default_policy = Inr r \<and>
     map independent_families (res_candidates r) = [[''abr'', ''adobe'']] \<and>
     list_all (\<lambda>c. outcome c \<noteq> AutoMerge) (res_candidates r)"
proof -
  obtain r where r: "resolve_with_lineage lower_ascii dump_and_registry [dump_registry_match] default_policy = Inr r"
    "map independent_families (res_candidates r) = [[''abr'', ''adobe'']]"
    by (rule exE[OF dump_and_registry_resolves]) (elim conjE, rule that)
  have "2 \<le> min_independent_support_families default_policy" by (simp add: default_policy_def)
  from lineage_never_proves_two[OF r(1) this] r show ?thesis by (intro exI[of _ r] conjI)
qed

text \<open>A resolution drops and rewrites nothing: it hands back the policy, every observation and every
  candidate in input order, and its observation ids were usable and distinct.\<close>

theorem resolve_keeps_input:
  assumes "resolve_with_lineage lower obs cands policy = Inr r"
  shows "res_policy r = policy \<and> map ol_observation (res_observations r) = obs \<and>
     map co_decision (res_candidates r) = cands \<and> f64_unit_interval (min_match_probability policy) \<and>
     list_all (\<lambda>ob. trim (obs_id ob) \<noteq> [] \<and> \<not> starts_with ROOT_PREFIX (obs_id ob)) obs \<and>
     distinct (map obs_id obs)"
proof -
  from assms obtain seen g ua where r: "f64_unit_interval (min_match_probability policy)" "res_policy r = policy"
    "res_candidates r = map (\<lambda>d. assess d g seen ua policy) cands"
    "res_observations r = map (\<lambda>ob. \<lparr>ol_observation = ob, ol_lineage = lineage_of lower (obs_evidence ob)\<rparr>) obs"
    by (rule resolve_InrE) (rule that; assumption)
  have "map ol_observation (res_observations r) = obs" "map co_decision (res_candidates r) = cands"
    unfolding r(3,4) by (simp_all add: comp_def)
  with r(1,2) resolve_accepts_ids[OF assms] show ?thesis by (simp add: id_usable_def[abs_def])
qed

theorem resolve_keeps_input_witness:
  "\<exists>r. resolve_with_lineage lower_ascii dump_and_registry [dump_registry_match] default_policy = Inr r \<and>
     map co_decision (res_candidates r) = [dump_registry_match] \<and>
     map ol_observation (res_observations r) = dump_and_registry \<and> distinct (map obs_id dump_and_registry)"
proof -
  obtain r where r: "resolve_with_lineage lower_ascii dump_and_registry [dump_registry_match] default_policy = Inr r"
    by (rule exE[OF dump_and_registry_resolves]) (elim conjE, rule that)
  from resolve_keeps_input[OF r] show ?thesis by (intro exI[of _ r] conjI r) simp_all
qed

text \<open>An upstream is one admissible lineage field of the response, all of whose values name one
  non-empty family, and that family is what the record counts as. The collector never becomes a
  family, and a registry field counts only from a verified registry source.\<close>

theorem lineage_names_one_family:
  assumes "lineage_of lower e = Upstream kind field v fam"
  shows "(field, kind) \<in> set LINEAGE_FIELDS \<and> fam \<noteq> [] \<and> attr_values e field \<noteq> [] \<and>
     list_all (\<lambda>w. canonical_family lower w = fam) (attr_values e field) \<and>
     (kind = Dataset \<or> is_verified_registry_source lower (source (provenance e)))"
  using lineage_from_upstream[OF assms[unfolded lineage_of_def]]
  by (cases kind) (simp_all add: list_all_iff)

theorem lineage_names_one_family_witness:
  "\<exists>v. lineage_of lower_ascii (obs_evidence (dump_and_registry ! 1)) = Upstream Registry ''registry'' v ''abr'' \<and>
     is_verified_registry_source lower_ascii (source (provenance (obs_evidence (dump_and_registry ! 1))))"
proof -
  have l: "lineage_of lower_ascii (obs_evidence (dump_and_registry ! 1)) = Upstream Registry ''registry'' ''ABR'' ''abr''"
    by code_simp
  from lineage_names_one_family[OF l] l show ?thesis by auto
qed

text \<open>C22: The clusters of a saved resolution rest on recomputed decisions: \<open>clusters_from_lineage\<close>
  always returns the exact clusters of the decisions that both the saved flag and the recomputation
  merge, so an edited file cannot add a merge.\<close>

theorem saved_clusters_exact:
  "\<exists>cs. clusters_from_lineage lower r = Some cs \<and>
     clusters_exact (rejudged lower r)
       (left_entity_uid ` co_decision ` set (res_candidates r) \<union>
        right_entity_uid ` co_decision ` set (res_candidates r)) cs"
  by (rule clusters_from_lineage_ok)

text \<open>Whatever a saved resolution claims, under its policy of two or more families no two uids of
  it are clustered together.\<close>

theorem saved_resolution_never_clusters:
  assumes "2 \<le> min_independent_support_families (res_policy r)"
    and "clusters_from_lineage lower r = Some cs"
  shows "list_all (\<lambda>c. length (members c) = 1) cs"
  using clusters_from_lineage_ok[of lower r] no_joins_single assms(2)
  unfolding rejudged_none[OF assms(1)] list_all_iff by auto

theorem saved_resolution_never_clusters_witness:
  "\<exists>cs. clusters_from_lineage lower_ascii
      \<lparr>res_policy = default_policy, res_observations = [],
       res_candidates = [\<lparr>co_decision = dump_registry_match, independent_families = [],
         unattributed_support = [], outcome = AutoMerge\<rparr>]\<rparr> = Some cs \<and>
    list_all (\<lambda>c. length (members c) = 1) cs"
  (is "\<exists>cs. clusters_from_lineage _ ?r = Some cs \<and> _")
proof -
  obtain cs where "clusters_from_lineage lower_ascii ?r = Some cs" using clusters_from_lineage_ok by blast
  moreover have "2 \<le> min_independent_support_families (res_policy ?r)" by (simp add: default_policy_def)
  ultimately show ?thesis using saved_resolution_never_clusters by blast
qed

end
