(* ===== verification/Bounded_Store.thy ===== *)
theory Bounded_Store
  imports Prelude "HOL-Library.Product_Lexorder"
begin

text \<open>
  What the bounded tables of \<open>src/circuit.rs\<close> share: the saturating operations on machine words,
  \<open>Iterator::min_by_key\<close>, the eviction of the least ranked entry of a hash table, and the
  interface \<open>bounded_store\<close>: a store whose every operation keeps its occupancy within its
  capacity. A \<open>HashMap\<close> is an association list with distinct keys, in the order the table
  happens to iterate; nothing proved here depends on that order.
\<close>

section \<open>Saturating words\<close>

definition sat_add :: "'a::len word \<Rightarrow> 'a word \<Rightarrow> 'a word" where
  "sat_add x y = (if unat x + unat y < 2 ^ LENGTH('a) then x + y else - 1)"

definition sat_sub :: "'a::len word \<Rightarrow> 'a word \<Rightarrow> 'a word" where
  "sat_sub x y = (if y \<le> x then x - y else 0)"

definition sat_mul :: "'a::len word \<Rightarrow> 'a word \<Rightarrow> 'a word" where
  "sat_mul x y = (if unat x * unat y < 2 ^ LENGTH('a) then x * y else - 1)"

lemma unat_minus_1: "unat (- 1 :: 'a::len word) = 2 ^ LENGTH('a) - 1"
  by (simp add: unsigned_minus_1_eq_mask mask_eq_exp_minus_1)

lemma unat_sat_add: "unat (sat_add x y :: 'a::len word) = min (unat x + unat y) (2 ^ LENGTH('a) - 1)"
  by (auto simp: sat_add_def unat_minus_1 unat_word_ariths min_def)

lemma unat_sat_mul: "unat (sat_mul x y :: 'a::len word) = min (unat x * unat y) (2 ^ LENGTH('a) - 1)"
proof (cases "unat x * unat y < 2 ^ LENGTH('a)")
  case True
  then have "unat (x * y) = unat x * unat y" by (simp add: unat_word_ariths)
  with True show ?thesis by (simp add: sat_mul_def)
next
  case False
  then have "min (unat x * unat y) (2 ^ LENGTH('a) - 1) = 2 ^ LENGTH('a) - 1" by linarith
  with False show ?thesis by (simp only: sat_mul_def if_False unat_minus_1)
qed

lemma unat_sat_sub: "unat (sat_sub x y) = unat x - unat y"
  by (auto simp: sat_sub_def unat_sub word_le_nat_alt)

lemma sat_add_ge: "x \<le> sat_add x y"
  unfolding word_le_nat_alt unat_sat_add using unsigned_less[of x, where ?'a = nat]
  by linarith

lemma sat_add_mono: "x \<le> y \<Longrightarrow> sat_add x z \<le> sat_add y z"
  unfolding word_le_nat_alt unat_sat_add by auto

section \<open>The least ranked entry\<close>

text \<open>The first element with the least key, as \<open>min_by_key\<close> returns it.\<close>

fun min_by_key :: "('a \<Rightarrow> 'k::linorder) \<Rightarrow> 'a list \<Rightarrow> 'a option" where
  "min_by_key key [] = None"
| "min_by_key key (x # xs) =
     (case min_by_key key xs of
        None \<Rightarrow> Some x
      | Some y \<Rightarrow> Some (if key x \<le> key y then x else y))"

lemma min_by_key_None [simp]: "min_by_key key xs = None \<longleftrightarrow> xs = []"
  by (cases xs) (auto split: option.splits)

lemma min_by_key_Some:
  "min_by_key key xs = Some x \<Longrightarrow> x \<in> set xs \<and> (\<forall>y \<in> set xs. key x \<le> key y)"
proof (induction xs arbitrary: x)
  case (Cons a xs)
  then show ?case
    by (cases "min_by_key key xs") (fastforce split: if_splits)+
qed simp

text \<open>With distinct keys the answer does not depend on the order of the elements.\<close>

lemma min_by_key_unique:
  assumes "x \<in> set xs" "\<And>y. y \<in> set xs \<Longrightarrow> y \<noteq> x \<Longrightarrow> key x < key y"
  shows "min_by_key key xs = Some x"
proof -
  from assms(1) obtain z where z: "min_by_key key xs = Some z"
    by (metis empty_iff empty_set min_by_key_None option.exhaust)
  with min_by_key_Some[OF z] assms have "z = x" by force
  with z show ?thesis by simp
qed

definition alist_remove :: "'a \<Rightarrow> ('a \<times> 'v) list \<Rightarrow> ('a \<times> 'v) list" where
  "alist_remove k m = filter (\<lambda>p. fst p \<noteq> k) m"

definition evict_least :: "('v \<Rightarrow> 'k::linorder) \<Rightarrow> ('a \<times> 'v) list \<Rightarrow> ('a \<times> 'v) list" where
  "evict_least rank m =
     (case min_by_key (\<lambda>p. rank (snd p)) m of
        None \<Rightarrow> m
      | Some p \<Rightarrow> alist_remove (fst p) m)"

lemma alist_remove_absent: "k \<notin> fst ` set m \<Longrightarrow> alist_remove k m = m"
  by (auto simp: alist_remove_def intro: filter_True)

lemma set_alist_remove: "set (alist_remove k m) = {p \<in> set m. fst p \<noteq> k}"
  by (auto simp: alist_remove_def)

lemma alist_remove_distinct: "distinct (map fst m) \<Longrightarrow> distinct (map fst (alist_remove k m))"
  by (simp add: alist_remove_def distinct_map_filter)

lemma length_alist_remove:
  "distinct (map fst m) \<Longrightarrow> k \<in> fst ` set m \<Longrightarrow> length (alist_remove k m) + 1 = length m"
proof (induction m)
  case (Cons p m)
  show ?case
  proof (cases "fst p = k")
    case True
    with Cons.prems have "k \<notin> fst ` set m" by auto
    from alist_remove_absent[OF this] True show ?thesis by (simp add: alist_remove_def)
  next
    case False
    with Cons show ?thesis by (simp add: alist_remove_def)
  qed
qed simp

text \<open>The evicted key: an entry of least rank, and every other key keeps its value.\<close>

lemma evict_least_victim:
  assumes "m \<noteq> []"
  obtains p where "p \<in> set m" "\<forall>q \<in> set m. rank (snd p) \<le> rank (snd q)"
    "evict_least rank m = alist_remove (fst p) m"
proof -
  from assms obtain p where "min_by_key (\<lambda>p. rank (snd p)) m = Some p"
    by (metis min_by_key_None option.exhaust)
  with min_by_key_Some[OF this] show thesis by (intro that[of p]) (auto simp: evict_least_def)
qed

lemma evict_least_props:
  assumes "distinct (map fst m)" "m \<noteq> []"
  shows "distinct (map fst (evict_least rank m))" "length (evict_least rank m) + 1 = length m"
    "set (evict_least rank m) \<subseteq> set m"
proof -
  from evict_least_victim[OF assms(2)] obtain p where p: "p \<in> set m"
    "evict_least rank m = alist_remove (fst p) m" by metis
  then show "distinct (map fst (evict_least rank m))" "set (evict_least rank m) \<subseteq> set m"
    using alist_remove_distinct[OF assms(1)] by (auto simp: set_alist_remove)
  show "length (evict_least rank m) + 1 = length m"
    unfolding p(2) using p(1) by (intro length_alist_remove assms(1)) simp
qed

section \<open>Stores of bounded occupancy\<close>

locale bounded_store =
  fixes ok :: "'s \<Rightarrow> bool"
    and step :: "'op \<Rightarrow> 's \<Rightarrow> 's"
    and occupancy :: "'s \<Rightarrow> nat"
    and capacity :: nat
  assumes ok_step: "ok s \<Longrightarrow> occupancy s \<le> capacity \<Longrightarrow> ok (step op s)"
    and occupancy_step: "ok s \<Longrightarrow> occupancy s \<le> capacity \<Longrightarrow> occupancy (step op s) \<le> capacity"
begin

lemma run_bounded:
  "ok s \<Longrightarrow> occupancy s \<le> capacity \<Longrightarrow>
    ok (fold step ops s) \<and> occupancy (fold step ops s) \<le> capacity"
  by (induction ops arbitrary: s) (auto simp: ok_step occupancy_step)

end

end
