(* ===== verification/Circuit.thy ===== *)
theory Circuit
  imports Bounded_Store Rust_Str
begin

text \<open>
  \<open>src/circuit.rs\<close>: retry pacing, the circuit breaker each host has, the bounded table of
  breakers and the bounded response cache. A breaker is a state machine over the outcomes its
  host reported; the table and the cache are association lists stamped with the count of uses. They
  stand for hash maps, which have no order: eviction goes by the stamps alone, and that an entry moves
  to the front when it is used is of the representation only.
  The process-wide statics (the jitter counter, the breaker table) are state passed explicitly,
  and the mutex around them makes each operation one step.
\<close>

unbundle bit_operations_syntax

section \<open>Backoff\<close>

record backoff_policy =
  max_attempts :: u32
  initial_backoff_ms :: u64
  max_backoff_ms :: u64
  jitter :: bool

definition should_retry :: "backoff_policy \<Rightarrow> u32 \<Rightarrow> bool" where
  "should_retry p attempt \<longleftrightarrow> attempt < sat_sub (max_attempts p) 1"

definition base_delay_ms :: "backoff_policy \<Rightarrow> u32 \<Rightarrow> u64" where
  "base_delay_ms p attempt =
     (let shift = (if attempt > 31 then 31 else attempt);
          scaled = sat_mul (initial_backoff_ms p) (push_bit (unat shift) 1)
      in if scaled > max_backoff_ms p then max_backoff_ms p else scaled)"

text \<open>The shared counter goes in and comes out; \<open>fetch_add\<close> answers the value before.\<close>

definition pseudo_random_u64 :: "u64 \<Rightarrow> u64 \<Rightarrow> u64 \<times> u64" where
  "pseudo_random_u64 counter seed =
     (let value = counter XOR seed
      in (word_rotl 17 (value * 0xbf58476d1ce4e5b9) XOR 0x94d049bb133111eb,
          counter + 0x9e3779b97f4a7c15))"

definition delay :: "backoff_policy \<Rightarrow> u64 \<Rightarrow> u32 \<Rightarrow> u64 \<times> u64" where
  "delay p counter attempt =
     (let base = base_delay_ms p attempt
      in if \<not> jitter p \<or> base = 0 then (base, counter)
         else
           (let spread = base div 4;
                (random, counter') = pseudo_random_u64 counter (ucast attempt);
                window = sat_add (sat_mul spread 2) 1
            in (sat_add (sat_sub base spread) (random mod window), counter')))"

section \<open>The breaker of one host\<close>

definition failure_threshold :: u32 where "failure_threshold = 5"
definition cooldown_secs :: u64 where "cooldown_secs = 60"

datatype breaker_state = Closed | Open | HalfOpen

record breaker =
  state :: breaker_state
  consecutive_failures :: u32
  retry_at :: u64

definition breaker_new :: breaker where
  "breaker_new = \<lparr>state = Closed, consecutive_failures = 0, retry_at = 0\<rparr>"

definition enter_half_open :: "u64 \<Rightarrow> breaker \<Rightarrow> breaker" where
  "enter_half_open now b = b\<lparr>state := HalfOpen, retry_at := sat_add now cooldown_secs\<rparr>"

definition allow :: "u64 \<Rightarrow> breaker \<Rightarrow> bool \<times> breaker" where
  "allow now b =
     (case state b of
        Closed \<Rightarrow> (True, b)
      | _ \<Rightarrow> if now \<ge> retry_at b then (True, enter_half_open now b) else (False, b))"

definition on_success :: "breaker \<Rightarrow> breaker" where
  "on_success b = b\<lparr>state := Closed, consecutive_failures := 0, retry_at := 0\<rparr>"

definition open_from :: "u64 \<Rightarrow> breaker \<Rightarrow> breaker" where
  "open_from now b = b\<lparr>state := Open, retry_at := sat_add now cooldown_secs\<rparr>"

definition on_failure :: "u64 \<Rightarrow> breaker \<Rightarrow> breaker" where
  "on_failure now b =
     (let b' = b\<lparr>consecutive_failures := sat_add (consecutive_failures b) 1\<rparr>
      in if state b' = HalfOpen \<or> consecutive_failures b' \<ge> failure_threshold
         then open_from now b' else b')"

definition on_rate_limited :: "u64 \<Rightarrow> u64 \<Rightarrow> breaker \<Rightarrow> breaker" where
  "on_rate_limited now retry_after_secs b =
     b\<lparr>state := Open, consecutive_failures := sat_add (consecutive_failures b) 1,
       retry_at := sat_add now (max retry_after_secs 1)\<rparr>"

section \<open>The bounded table of breakers\<close>

definition max_breaker_hosts :: nat where "max_breaker_hosts = 2048"

record breaker_registry =
  hosts :: "(str \<times> breaker \<times> u64) list"
  used :: u64

definition registry_empty :: breaker_registry where
  "registry_empty = \<lparr>hosts = [], used = 0\<rparr>"

text \<open>The eviction order: closed breakers before active ones, then the least recently used.\<close>

definition breaker_rank :: "breaker \<times> u64 \<Rightarrow> bool \<times> u64" where
  "breaker_rank = (\<lambda>(b, tick). (state b \<noteq> Closed, tick))"

text \<open>\<open>entry\<close> hands out the host's breaker; \<open>f\<close> is what its caller does with it.\<close>

definition with_entry :: "(breaker \<Rightarrow> 'r \<times> breaker) \<Rightarrow> str \<Rightarrow> breaker_registry \<Rightarrow> 'r \<times> breaker_registry" where
  "with_entry f host reg =
     (let kept = (if length (hosts reg) \<ge> max_breaker_hosts \<and> map_of (hosts reg) host = None
                  then evict_least breaker_rank (hosts reg) else hosts reg);
          tick = used reg + 1;
          b = (case map_of kept host of Some (b, _) \<Rightarrow> b | None \<Rightarrow> breaker_new);
          (r, b') = f b
      in (r, \<lparr>hosts = (host, (b', tick)) # alist_remove host kept, used = tick\<rparr>))"

definition allow_host :: "str \<Rightarrow> u64 \<Rightarrow> breaker_registry \<Rightarrow> bool \<times> breaker_registry" where
  "allow_host host now = with_entry (allow now) host"

definition record_success :: "str \<Rightarrow> breaker_registry \<Rightarrow> breaker_registry" where
  "record_success host reg = snd (with_entry (\<lambda>b. ((), on_success b)) host reg)"

definition record_failure :: "str \<Rightarrow> u64 \<Rightarrow> breaker_registry \<Rightarrow> breaker_registry" where
  "record_failure host now reg = snd (with_entry (\<lambda>b. ((), on_failure now b)) host reg)"

definition record_rate_limited :: "str \<Rightarrow> u64 \<Rightarrow> u64 \<Rightarrow> breaker_registry \<Rightarrow> breaker_registry" where
  "record_rate_limited host now secs reg =
     snd (with_entry (\<lambda>b. ((), on_rate_limited now secs b)) host reg)"

definition host_state :: "str \<Rightarrow> breaker_registry \<Rightarrow> breaker_state option" where
  "host_state host reg = map_option (\<lambda>(b, _). state b) (map_of (hosts reg) host)"

section \<open>The host of a URL\<close>

definition host_of :: "str \<Rightarrow> str option" where
  "host_of url =
     (case split_once_str ''://'' url of
        None \<Rightarrow> None
      | Some (_, rest) \<Rightarrow>
          (let authority = until_any ''/?#'' rest in
           if authority = [] then None
           else
             (let authority = last (split_on CHR ''@'' authority);
                  host = (if starts_with ''['' authority
                          then (case split_once CHR '']'' authority of
                                  None \<Rightarrow> None
                                | Some (a, _) \<Rightarrow> Some (a @ '']''))
                          else (let name = until_any '':'' authority
                                in Some (case strip_suffix ''.'' name of Some n \<Rightarrow> n | None \<Rightarrow> name)))
              in case host of
                   None \<Rightarrow> None
                 | Some h \<Rightarrow> if h = [] then None else Some (to_ascii_lowercase h))))"

section \<open>The response cache\<close>

record 'v entry =
  entry_used :: u64
  entry_value :: 'v

record 'v shelf =
  entries :: "(str \<times> 'v entry) list"
  uses :: u64

definition shelf_empty :: "'v shelf" where
  "shelf_empty = \<lparr>entries = [], uses = 0\<rparr>"

definition evict_least_recently_used :: "(str \<times> 'v entry) list \<Rightarrow> (str \<times> 'v entry) list" where
  "evict_least_recently_used = evict_least entry_used"

definition cache_get :: "str \<Rightarrow> 'v shelf \<Rightarrow> 'v option \<times> 'v shelf" where
  "cache_get key sh =
     (let u = uses sh + 1 in
      case map_of (entries sh) key of
        None \<Rightarrow> (None, sh\<lparr>uses := u\<rparr>)
      | Some e \<Rightarrow>
          (Some (entry_value e),
           \<lparr>entries = (key, e\<lparr>entry_used := u\<rparr>) # alist_remove key (entries sh), uses = u\<rparr>))"

definition cache_put :: "nat \<Rightarrow> str \<Rightarrow> 'v \<Rightarrow> 'v shelf \<Rightarrow> 'v shelf" where
  "cache_put cap key value sh =
     (if cap = 0 then sh
      else
        (let kept = (if map_of (entries sh) key = None \<and> length (entries sh) \<ge> cap
                     then evict_least_recently_used (entries sh) else entries sh);
             u = uses sh + 1
         in \<lparr>entries = (key, \<lparr>entry_used = u, entry_value = value\<rparr>) # alist_remove key kept,
             uses = u\<rparr>))"

definition cache_len :: "'v shelf \<Rightarrow> nat" where "cache_len sh = length (entries sh)"
definition cache_is_empty :: "'v shelf \<Rightarrow> bool" where "cache_is_empty sh \<longleftrightarrow> cache_len sh = 0"
definition cache_clear :: "'v shelf \<Rightarrow> 'v shelf" where "cache_clear sh = sh\<lparr>entries := []\<rparr>"

end
