(* ===== verification/Circuit_Correct.thy ===== *)
theory Circuit_Correct
  imports Circuit
begin

text \<open>
  What the parts of \<open>src/circuit.rs\<close> guarantee: the delays stay within their bounds, a breaker is
  closed exactly while fewer than five failures and no rate limit have been reported since the last
  success, an open breaker admits at most one probe per cooldown, the table of breakers stays
  bounded and gives every host the breaker of its own events, and the response cache is a
  least-recently-used list of at most its capacity.
\<close>

section \<open>Backoff\<close>

lemma shift_factor: "k \<le> 31 \<Longrightarrow> unat ((2::u64) ^ k) = 2 ^ k"
proof -
  assume "k \<le> 31"
  then have "(2::nat) ^ k < 2 ^ 64" by (intro power_strict_increasing) auto
  then have "unat (of_nat (2 ^ k) :: u64) = 2 ^ k" by (simp only: unat_of_nat) simp
  then show ?thesis by simp
qed

lemma base_delay_unat:
  "unat (base_delay_ms p a) = min (unat (initial_backoff_ms p) * 2 ^ min (unat a) 31) (unat (max_backoff_ms p))"
proof -
  let ?shift = "if a > 31 then 31 else a"
  have shift: "unat ?shift = min (unat a) 31" by (auto simp: word_less_nat_alt)
  have "unat (max_backoff_ms p) \<le> 2 ^ 64 - 1"
    using unsigned_less[of "max_backoff_ms p", where ?'a = nat] by simp
  moreover have "unat (sat_mul (initial_backoff_ms p) (2 ^ min (unat a) 31))
      = min (unat (initial_backoff_ms p) * 2 ^ min (unat a) 31) (2 ^ 64 - 1)"
    by (simp add: unat_sat_mul shift_factor)
  moreover have "base_delay_ms p a = (if sat_mul (initial_backoff_ms p) (2 ^ min (unat a) 31) > max_backoff_ms p
      then max_backoff_ms p else sat_mul (initial_backoff_ms p) (2 ^ min (unat a) 31))"
    unfolding base_delay_ms_def Let_def shift by (simp add: push_bit_of_1)
  ultimately show ?thesis by (auto simp: word_less_nat_alt)
qed

lemma delay_within:
  "unat (base_delay_ms p a) - unat (base_delay_ms p a) div 4 \<le> unat (fst (delay p c a)) \<and>
   unat (fst (delay p c a)) \<le> unat (base_delay_ms p a) + unat (base_delay_ms p a) div 4"
proof (cases "\<not> jitter p \<or> base_delay_ms p a = 0")
  case True
  then show ?thesis by (simp add: delay_def Let_def)
next
  case False
  let ?b = "base_delay_ms p a"
  let ?w = "sat_add (sat_mul (?b div 4) 2) 1"
  obtain r c' where r: "pseudo_random_u64 c (ucast a) = (r, c')" by force
  have b: "unat ?b < 2 ^ 64" using unsigned_less[of ?b, where ?'a = nat] by simp
  have q: "unat (?b div 4) = unat ?b div 4" by (simp add: unat_div)
  have w: "unat ?w = unat ?b div 4 * 2 + 1"
    using b by (simp add: unat_sat_add unat_sat_mul q)
  have m: "unat (r mod ?w) \<le> unat ?b div 4 * 2"
    using w by (simp add: unat_mod less_Suc_eq_le[symmetric])
  have "unat (fst (delay p c a)) = min (unat ?b - unat ?b div 4 + unat (r mod ?w)) (2 ^ 64 - 1)"
    using False r by (simp add: delay_def Let_def unat_sat_add unat_sat_sub q)
  then show ?thesis using m b by linarith
qed

section \<open>Breaker events\<close>

datatype breaker_event = Asked u64 | Succeeded | Failed u64 | RateLimited u64 u64

fun breaker_step :: "breaker_event \<Rightarrow> breaker \<Rightarrow> breaker" where
  "breaker_step (Asked now) b = snd (allow now b)"
| "breaker_step Succeeded b = on_success b"
| "breaker_step (Failed now) b = on_failure now b"
| "breaker_step (RateLimited now secs) b = on_rate_limited now secs b"

definition breaker_run :: "breaker_event list \<Rightarrow> breaker" where
  "breaker_run es = fold breaker_step es breaker_new"

fun is_failure :: "breaker_event \<Rightarrow> bool" where
  "is_failure (Failed _) = True"
| "is_failure _ = False"

fun is_rate_limit :: "breaker_event \<Rightarrow> bool" where
  "is_rate_limit (RateLimited _ _) = True"
| "is_rate_limit _ = False"

definition since_success :: "breaker_event list \<Rightarrow> breaker_event list" where
  "since_success es = takeWhile (\<lambda>e. e \<noteq> Succeeded) (rev es)"

text \<open>The contract of a breaker: it is closed while these events since the last success allow it.\<close>

definition should_be_closed :: "breaker_event list \<Rightarrow> bool" where
  "should_be_closed es \<longleftrightarrow> \<not> list_ex is_rate_limit (since_success es) \<and>
     length (filter is_failure (since_success es)) < 5"

lemmas breaker_defs = allow_def on_success_def on_failure_def on_rate_limited_def open_from_def
  enter_half_open_def failure_threshold_def

lemma since_success_snoc:
  "since_success (es @ [e]) = (if e = Succeeded then [] else e # since_success es)"
  by (simp add: since_success_def)

lemma breaker_run_snoc: "breaker_run (es @ [e]) = breaker_step e (breaker_run es)"
  by (simp add: breaker_run_def)

definition breaker_tracks :: "breaker_event list \<Rightarrow> breaker \<Rightarrow> bool" where
  "breaker_tracks es b \<longleftrightarrow> (if should_be_closed es
     then state b = Closed \<and> retry_at b = 0 \<and>
       unat (consecutive_failures b) = length (filter is_failure (since_success es))
     else state b \<noteq> Closed)"

lemma breaker_tracks_step:
  assumes "breaker_tracks es b"
  shows "breaker_tracks (es @ [e]) (breaker_step e b)"
proof (cases e)
  case (Asked now)
  with assms show ?thesis
    by (auto simp: breaker_tracks_def should_be_closed_def since_success_snoc breaker_defs
        split: breaker_state.splits if_splits)
next
  case Succeeded
  then show ?thesis
    by (simp add: breaker_tracks_def should_be_closed_def since_success_snoc breaker_defs)
next
  case (Failed now)
  let ?n = "length (filter is_failure (since_success es))"
  show ?thesis
  proof (cases "should_be_closed es")
    case True
    with assms have b: "state b = Closed" "retry_at b = 0" "unat (consecutive_failures b) = ?n"
      "?n < 5" by (auto simp: breaker_tracks_def should_be_closed_def)
    have "unat (sat_add (consecutive_failures b) 1) = ?n + 1" using b by (simp add: unat_sat_add)
    with b True show ?thesis
      by (auto simp: Failed breaker_tracks_def should_be_closed_def since_success_snoc breaker_defs
          Let_def word_le_nat_alt)
  next
    case False
    with assms show ?thesis
      by (auto simp: Failed breaker_tracks_def should_be_closed_def since_success_snoc breaker_defs Let_def)
  qed
next
  case (RateLimited now secs)
  then show ?thesis
    by (simp add: breaker_tracks_def should_be_closed_def since_success_snoc breaker_defs)
qed

lemma breaker_run_tracks: "breaker_tracks es (breaker_run es)"
proof (induction es rule: rev_induct)
  case Nil
  show ?case
    by (simp add: breaker_tracks_def should_be_closed_def since_success_def breaker_run_def breaker_new_def)
next
  case (snoc e es)
  then show ?case by (simp add: breaker_run_snoc breaker_tracks_step)
qed

section \<open>Probes\<close>


fun event_time :: "breaker_event \<Rightarrow> u64" where
  "event_time (Asked now) = now"
| "event_time (Failed now) = now"
| "event_time (RateLimited now _) = now"
| "event_time Succeeded = 0"








section \<open>The table of breakers\<close>

datatype registry_op = Op str breaker_event

fun op_host :: "registry_op \<Rightarrow> str" where "op_host (Op h _) = h"
fun op_event :: "registry_op \<Rightarrow> breaker_event" where "op_event (Op _ e) = e"

text \<open>The operations the module exports, by the event each reports.\<close>

fun registry_step :: "registry_op \<Rightarrow> breaker_registry \<Rightarrow> breaker_registry" where
  "registry_step (Op h (Asked now)) reg = snd (allow_host h now reg)"
| "registry_step (Op h Succeeded) reg = record_success h reg"
| "registry_step (Op h (Failed now)) reg = record_failure h now reg"
| "registry_step (Op h (RateLimited now secs)) reg = record_rate_limited h now secs reg"

definition registry_run :: "registry_op list \<Rightarrow> breaker_registry" where
  "registry_run ops = fold registry_step ops registry_empty"

definition registry_ok :: "breaker_registry \<Rightarrow> bool" where
  "registry_ok reg \<longleftrightarrow> distinct (map fst (hosts reg))"

definition breaker_of :: "breaker_registry \<Rightarrow> str \<Rightarrow> breaker option" where
  "breaker_of reg h = map_option fst (map_of (hosts reg) h)"

lemma map_of_alist_remove: "map_of (alist_remove k m) h = (if h = k then None else map_of m h)"
  by (induction m) (auto simp: alist_remove_def)

lemma registry_step_with_entry:
  "registry_step (Op h e) reg =
     snd (with_entry (\<lambda>b. (fst (allow (event_time e) b), breaker_step e b)) h reg)"
  by (cases e; auto simp: allow_host_def record_success_def record_failure_def
      record_rate_limited_def with_entry_def Let_def split: prod.splits)

lemma with_entry_keys:
  assumes "registry_ok reg" "length (hosts reg) \<le> max_breaker_hosts"
  shows "registry_ok (snd (with_entry f h reg))"
    "length (hosts (snd (with_entry f h reg))) \<le> max_breaker_hosts"
proof -
  let ?full = "length (hosts reg) \<ge> max_breaker_hosts \<and> map_of (hosts reg) h = None"
  let ?kept = "if ?full then evict_least breaker_rank (hosts reg) else hosts reg"
  have pos: "0 < max_breaker_hosts" by (simp add: max_breaker_hosts_def)
  have nonempty: "?full \<Longrightarrow> hosts reg \<noteq> []" using pos by auto
  have d: "distinct (map fst (hosts reg))" using assms(1) by (simp add: registry_ok_def)
  have kept: "distinct (map fst ?kept)" "?full \<Longrightarrow> length ?kept + 1 = length (hosts reg)"
    using evict_least_props[OF d] nonempty d by auto
  have hosts: "hosts (snd (with_entry f h reg)) = (h, snd (f (case map_of ?kept h of Some (b, _) \<Rightarrow> b
      | None \<Rightarrow> breaker_new)), used reg + 1) # alist_remove h ?kept"
    by (simp add: with_entry_def Let_def split: prod.splits)
  show "registry_ok (snd (with_entry f h reg))"
    using alist_remove_distinct[OF kept(1)]
    by (simp add: registry_ok_def hosts) (auto simp: set_alist_remove)
  have "length (alist_remove h ?kept) + 1 \<le> max_breaker_hosts"
  proof (cases ?full)
    case True
    have "length (alist_remove h ?kept) \<le> length ?kept" by (simp add: alist_remove_def)
    with kept(2)[OF True] assms(2) show ?thesis by simp
  next
    case False
    show ?thesis
    proof (cases "map_of (hosts reg) h")
      case None
      with False have "length (hosts reg) < max_breaker_hosts" "h \<notin> fst ` set (hosts reg)"
        by (auto simp: map_of_eq_None_iff)
      with False show ?thesis by (simp add: alist_remove_absent)
    next
      case (Some x)
      then have "h \<in> fst ` set (hosts reg)" by (force dest: map_of_SomeD)
      with length_alist_remove[OF d this] Some assms(2) show ?thesis by simp
    qed
  qed
  then show "length (hosts (snd (with_entry f h reg))) \<le> max_breaker_hosts" by (simp add: hosts)
qed

interpretation breakers: bounded_store registry_ok registry_step "\<lambda>reg. length (hosts reg)" max_breaker_hosts
proof unfold_locales
  fix s op
  assume "registry_ok s" "length (hosts s) \<le> max_breaker_hosts"
  then show "registry_ok (registry_step op s)" "length (hosts (registry_step op s)) \<le> max_breaker_hosts"
    by (cases op; simp add: registry_step_with_entry with_entry_keys)+
qed

lemma registry_run_ok: "registry_ok (registry_run ops) \<and> length (hosts (registry_run ops)) \<le> max_breaker_hosts"
  unfolding registry_run_def
  by (rule breakers.run_bounded) (simp_all add: registry_ok_def registry_empty_def max_breaker_hosts_def)

lemma breaker_of_step:
  assumes "length (hosts reg) < max_breaker_hosts \<or> breaker_of reg h \<noteq> None"
  shows "breaker_of (registry_step (Op h e) reg) =
    (breaker_of reg)(h \<mapsto> breaker_step e (case breaker_of reg h of Some b \<Rightarrow> b | None \<Rightarrow> breaker_new))"
  using assms unfolding registry_step_with_entry
  by (auto simp: with_entry_def Let_def breaker_of_def map_of_alist_remove fun_eq_iff split: option.splits)

text \<open>With room for every host, each host has the breaker of its own events.\<close>

definition events_of :: "str \<Rightarrow> registry_op list \<Rightarrow> breaker_event list" where
  "events_of h ops = map op_event (filter (\<lambda>p. op_host p = h) ops)"

lemma registry_hosts_subset: "fst ` set (hosts (registry_run ops)) \<subseteq> op_host ` set ops"
proof (induction ops rule: rev_induct)
  case Nil
  show ?case by (simp add: registry_run_def registry_empty_def)
next
  case (snoc op ops)
  obtain h e where op: "op = Op h e" by (cases op)
  let ?reg = "registry_run ops"
  have sub: "set (evict_least breaker_rank (hosts ?reg)) \<subseteq> set (hosts ?reg)"
    using registry_run_ok[of ops] evict_least_props(3)[of "hosts ?reg" breaker_rank]
    by (cases "hosts ?reg = []") (auto simp: registry_ok_def evict_least_def)
  have "fst ` set (hosts (registry_step op ?reg)) \<subseteq> insert h (fst ` set (hosts ?reg))"
    unfolding op registry_step_with_entry with_entry_def Let_def
    using sub by (auto simp: set_alist_remove image_iff split: if_splits)
  also have "\<dots> \<subseteq> op_host ` set (ops @ [op])" using snoc unfolding op by auto
  finally show ?case by (simp add: registry_run_def)
qed

lemma registry_room:
  assumes "card (op_host ` set (ops @ [Op h e])) \<le> max_breaker_hosts"
  shows "length (hosts (registry_run ops)) < max_breaker_hosts \<or> breaker_of (registry_run ops) h \<noteq> None"
proof (cases "breaker_of (registry_run ops) h")
  case None
  let ?keys = "fst ` set (hosts (registry_run ops))"
  from None have h: "h \<notin> ?keys" by (simp add: breaker_of_def map_of_eq_None_iff)
  have "insert h ?keys \<subseteq> op_host ` set (ops @ [Op h e])" using registry_hosts_subset by auto
  then have "card (insert h ?keys) \<le> max_breaker_hosts"
    by (meson assms card_mono finite_imageI finite_set order_trans)
  moreover have "card ?keys = length (hosts (registry_run ops))"
    using registry_run_ok[of ops] distinct_card[of "map fst (hosts (registry_run ops))"]
    by (simp add: registry_ok_def)
  ultimately show ?thesis using h by simp
qed simp

lemma registry_run_breakers:
  "card (op_host ` set ops) \<le> max_breaker_hosts \<Longrightarrow>
    breaker_of (registry_run ops) h =
      (if h \<in> op_host ` set ops then Some (breaker_run (events_of h ops)) else None)"
proof (induction ops arbitrary: h rule: rev_induct)
  case Nil
  show ?case by (simp add: registry_run_def registry_empty_def breaker_of_def)
next
  case (snoc op ops)
  obtain k e where op: "op = Op k e" by (cases op)
  have "op_host ` set ops \<subseteq> op_host ` set (ops @ [op])" by auto
  then have "card (op_host ` set ops) \<le> max_breaker_hosts"
    using snoc.prems by (meson card_mono finite_imageI finite_set order_trans)
  note IH = snoc.IH[OF this]
  have step: "breaker_of (registry_run (ops @ [op])) = (breaker_of (registry_run ops))
      (k \<mapsto> breaker_step e (case breaker_of (registry_run ops) k of Some b \<Rightarrow> b | None \<Rightarrow> breaker_new))"
    using breaker_of_step[OF registry_room[OF snoc.prems[unfolded op]]] by (simp add: registry_run_def op)
  have none: "k \<notin> op_host ` set ops \<Longrightarrow> events_of k ops = []"
    by (auto simp: events_of_def filter_empty_conv)
  show ?case
    unfolding step by (auto simp: IH op events_of_def breaker_run_def none[unfolded events_of_def])
qed

text \<open>What a new host costs a full table: one other host, closed if there is a closed one, and the
  least recently used of its kind.\<close>

lemma with_entry_evicts:
  assumes "registry_ok reg" "length (hosts reg) = max_breaker_hosts" "breaker_of reg h = None"
  obtains victim vb vt where "(victim, vb, vt) \<in> set (hosts reg)"
    "\<And>k b t. (k, b, t) \<in> set (hosts reg) \<Longrightarrow> breaker_rank (vb, vt) \<le> breaker_rank (b, t)"
    "\<And>k. k \<noteq> h \<Longrightarrow> map_of (hosts (snd (with_entry f h reg))) k
      = (if k = victim then None else map_of (hosts reg) k)"
proof -
  from assms(2) have "hosts reg \<noteq> []" by (auto simp: max_breaker_hosts_def)
  from evict_least_victim[OF this, of breaker_rank] obtain p where p: "p \<in> set (hosts reg)"
    "\<forall>q \<in> set (hosts reg). breaker_rank (snd p) \<le> breaker_rank (snd q)"
    "evict_least breaker_rank (hosts reg) = alist_remove (fst p) (hosts reg)" by blast
  obtain v vb vt where v: "p = (v, vb, vt)" by (cases p)
  have "map_of (hosts (snd (with_entry f h reg))) k = (if k = v then None else map_of (hosts reg) k)"
    if "k \<noteq> h" for k
    using that assms(2,3) p(3)
    by (auto simp: with_entry_def Let_def breaker_of_def v map_of_alist_remove split: prod.splits)
  moreover have "breaker_rank (vb, vt) \<le> breaker_rank (b, t)" if "(k, b, t) \<in> set (hosts reg)" for k b t
    using p(2) that v by fastforce
  ultimately show thesis using p(1) v by (intro that[of v vb vt]) simp_all
qed

section \<open>The response cache\<close>

datatype 'v cache_op = Get str | Put str 'v | Clear

fun cache_step :: "nat \<Rightarrow> 'v cache_op \<Rightarrow> 'v shelf \<Rightarrow> 'v shelf" where
  "cache_step cap (Get k) sh = snd (cache_get k sh)"
| "cache_step cap (Put k v) sh = cache_put cap k v sh"
| "cache_step cap Clear sh = cache_clear sh"

text \<open>The contract: a list of at most \<open>cap\<close> entries, the most recently used first.\<close>

fun lru_step :: "nat \<Rightarrow> 'v cache_op \<Rightarrow> (str \<times> 'v) list \<Rightarrow> (str \<times> 'v) list" where
  "lru_step cap (Get k) xs =
     (case map_of xs k of None \<Rightarrow> xs | Some v \<Rightarrow> (k, v) # alist_remove k xs)"
| "lru_step cap (Put k v) xs = take cap ((k, v) # alist_remove k xs)"
| "lru_step cap Clear xs = []"

definition recency :: "'v shelf \<Rightarrow> (str \<times> 'v) list" where
  "recency sh = map (\<lambda>(k, e). (k, entry_value e)) (entries sh)"

text \<open>Every use took a fresh stamp, as it does for the first \<open>2 ^ 64 - 1\<close> uses.\<close>

definition shelf_ok :: "nat \<Rightarrow> nat \<Rightarrow> 'v shelf \<Rightarrow> bool" where
  "shelf_ok cap n sh \<longleftrightarrow> distinct (map fst (entries sh)) \<and> length (entries sh) \<le> cap \<and>
     unat (uses sh) \<le> n \<and> (\<forall>p \<in> set (entries sh). entry_used (snd p) \<le> uses sh) \<and>
     sorted_wrt (\<lambda>p q. entry_used (snd p) > entry_used (snd q)) (entries sh)"

lemma map_of_recency: "map_of (recency sh) k = map_option entry_value (map_of (entries sh) k)"
  by (simp add: recency_def map_of_map)

lemma recency_remove:
  "map (\<lambda>(k, e). (k, entry_value e)) (alist_remove k es)
    = alist_remove k (map (\<lambda>(k, e). (k, entry_value e)) es)"
  by (induction es) (auto simp: alist_remove_def)

lemma sorted_alist_remove: "sorted_wrt R es \<Longrightarrow> sorted_wrt R (alist_remove k es)"
  by (simp add: alist_remove_def sorted_wrt_filter)

lemma evict_last:
  assumes "distinct (map fst es)" "es \<noteq> []"
    and "sorted_wrt (\<lambda>p q. entry_used (snd p) > entry_used (snd q)) es"
  shows "evict_least_recently_used es = butlast es"
proof -
  obtain fs p where es: "es = fs @ [p]" using assms(2) by (metis append_butlast_last_id)
  have "min_by_key (\<lambda>p. entry_used (snd p)) es = Some p"
    using assms(3) by (intro min_by_key_unique) (auto simp: es sorted_wrt_append)
  moreover have "alist_remove (fst p) es = fs"
    using assms(1) alist_remove_absent[of "fst p" fs] by (simp add: es alist_remove_def)
  ultimately show ?thesis by (simp add: evict_least_recently_used_def evict_least_def es)
qed

lemma fresh_use:
  assumes "shelf_ok cap n sh" "n < 2 ^ 64 - 1"
  shows "unat (uses sh + 1) = unat (uses sh) + 1"
    "\<And>p. p \<in> set (entries sh) \<Longrightarrow> entry_used (snd p) < uses sh + 1"
proof -
  have "unat (uses sh) < 2 ^ 64 - 1" using assms by (simp add: shelf_ok_def)
  then show eq: "unat (uses sh + 1) = unat (uses sh) + 1" by (simp add: unat_word_ariths)
  fix p assume "p \<in> set (entries sh)"
  then have "entry_used (snd p) \<le> uses sh" using assms(1) by (simp add: shelf_ok_def)
  then show "entry_used (snd p) < uses sh + 1"
    using eq by (simp add: word_le_nat_alt word_less_nat_alt)
qed

text \<open>A fresh entry in front of some of the old entries keeps the invariant.\<close>

lemma shelf_ok_front:
  assumes "shelf_ok cap n sh" "n < 2 ^ 64 - 1" "distinct (map fst es)" "set es \<subseteq> set (entries sh)"
    and "sorted_wrt (\<lambda>p q. entry_used (snd p) > entry_used (snd q)) es"
    and "k \<notin> fst ` set es" "length es < cap"
  shows "shelf_ok cap (n + 1)
    \<lparr>entries = (k, \<lparr>entry_used = uses sh + 1, entry_value = v\<rparr>) # es, uses = uses sh + 1\<rparr>"
proof -
  note fresh = fresh_use[OF assms(1,2)]
  have "\<forall>p \<in> set es. entry_used (snd p) < uses sh + 1" using fresh(2) assms(4) by blast
  then have "\<forall>p \<in> set es. entry_used (snd p) \<le> uses sh + 1" using less_imp_le by blast
  with assms fresh(1) \<open>\<forall>p \<in> set es. entry_used (snd p) < uses sh + 1\<close> show ?thesis
    by (simp add: shelf_ok_def)
qed

lemma cache_get_step:
  assumes "shelf_ok cap n sh" "n < 2 ^ 64 - 1"
  shows "shelf_ok cap (n + 1) (snd (cache_get k sh)) \<and>
    recency (snd (cache_get k sh)) = lru_step cap (Get k) (recency sh) \<and>
    fst (cache_get k sh) = map_of (recency sh) k"
proof (cases "map_of (entries sh) k")
  case None
  have "\<forall>p \<in> set (entries sh). entry_used (snd p) \<le> uses sh + 1"
    using fresh_use(2)[OF assms] less_imp_le by blast
  with None assms fresh_use(1)[OF assms] show ?thesis
    by (simp add: cache_get_def Let_def map_of_recency shelf_ok_def) (simp add: recency_def)
next
  case (Some e)
  have d: "distinct (map fst (entries sh))" and sorted: "sorted_wrt (\<lambda>p q. entry_used (snd p) > entry_used (snd q)) (entries sh)"
    and cap: "length (entries sh) \<le> cap" using assms(1) by (simp_all add: shelf_ok_def)
  have "k \<in> fst ` set (entries sh)" using Some by (force dest: map_of_SomeD)
  from length_alist_remove[OF d this] cap have len: "length (alist_remove k (entries sh)) < cap" by simp
  have "k \<notin> fst ` set (alist_remove k (entries sh))" "set (alist_remove k (entries sh)) \<subseteq> set (entries sh)"
    by (auto simp: set_alist_remove)
  from shelf_ok_front[OF assms alist_remove_distinct[OF d] this(2) sorted_alist_remove[OF sorted] this(1) len, of "entry_value e"]
  have "shelf_ok cap (n + 1) \<lparr>entries = (k, \<lparr>entry_used = uses sh + 1, entry_value = entry_value e\<rparr>)
      # alist_remove k (entries sh), uses = uses sh + 1\<rparr>" .
  moreover have "snd (cache_get k sh) = \<lparr>entries = (k, \<lparr>entry_used = uses sh + 1, entry_value = entry_value e\<rparr>)
      # alist_remove k (entries sh), uses = uses sh + 1\<rparr>"
    using Some by (cases e) (simp add: cache_get_def Let_def)
  moreover have "fst (cache_get k sh) = map_of (recency sh) k"
    using Some by (simp add: cache_get_def Let_def map_of_recency)
  ultimately show ?thesis using Some
    by (simp add: map_of_recency) (simp add: recency_def recency_remove)
qed

lemma cache_put_step:
  assumes "shelf_ok cap n sh" "n < 2 ^ 64 - 1"
  shows "shelf_ok cap (n + 1) (cache_put cap k v sh) \<and>
    recency (cache_put cap k v sh) = lru_step cap (Put k v) (recency sh)"
proof (cases "cap = 0")
  case True
  with assms show ?thesis by (auto simp: cache_put_def shelf_ok_def recency_def)
next
  case cap: False
  let ?es = "entries sh"
  have d: "distinct (map fst ?es)" and sorted: "sorted_wrt (\<lambda>p q. entry_used (snd p) > entry_used (snd q)) ?es"
    and len: "length ?es \<le> cap" using assms(1) by (simp_all add: shelf_ok_def)
  define kept where "kept = (if map_of ?es k = None \<and> length ?es \<ge> cap then butlast ?es else ?es)"
  have full: "map_of ?es k = None \<and> length ?es \<ge> cap \<Longrightarrow> ?es \<noteq> []" using cap by auto
  have put: "cache_put cap k v sh = \<lparr>entries = (k, \<lparr>entry_used = uses sh + 1, entry_value = v\<rparr>)
      # alist_remove k kept, uses = uses sh + 1\<rparr>"
    using cap evict_last[OF d full sorted] by (auto simp: cache_put_def Let_def kept_def)
  have kept: "distinct (map fst kept)" "set kept \<subseteq> set ?es"
    "sorted_wrt (\<lambda>p q. entry_used (snd p) > entry_used (snd q)) kept"
    using distinct_butlast[OF d] d sorted_wrt_take[OF sorted, of "length ?es - 1", folded butlast_conv_take] sorted
    by (auto simp: kept_def map_butlast dest: in_set_butlastD)
  have rest: "length (alist_remove k kept) < cap \<and>
      take (cap - 1) (alist_remove k ?es) = alist_remove k kept"
  proof (cases "map_of ?es k")
    case None
    then have "alist_remove k ?es = ?es" "alist_remove k kept = kept"
      using kept(2) by (auto simp: map_of_eq_None_iff intro!: alist_remove_absent)
    with None cap len show ?thesis by (auto simp: kept_def butlast_conv_take)
  next
    case (Some e)
    then have "k \<in> fst ` set ?es" by (force dest: map_of_SomeD)
    from length_alist_remove[OF d this] Some len show ?thesis by (simp add: kept_def)
  qed
  have "shelf_ok cap (n + 1) (cache_put cap k v sh)"
    unfolding put
    by (rule shelf_ok_front[OF assms alist_remove_distinct[OF kept(1)] _ sorted_alist_remove[OF kept(3)]])
      (use kept(2) rest in \<open>auto simp: set_alist_remove\<close>)
  moreover have "recency (cache_put cap k v sh) = lru_step cap (Put k v) (recency sh)"
    using cap rest unfolding put
    by (cases cap) (simp_all add: recency_def recency_remove[symmetric] take_map)
  ultimately show ?thesis by simp
qed

lemma cache_step_ok:
  assumes "shelf_ok cap n sh" "n < 2 ^ 64 - 1"
  shows "shelf_ok cap (n + 1) (cache_step cap op sh) \<and>
    recency (cache_step cap op sh) = lru_step cap op (recency sh)"
proof (cases op)
  case (Get k)
  with cache_get_step[OF assms, of k] show ?thesis by (simp del: lru_step.simps)
next
  case (Put k v)
  with cache_put_step[OF assms, of k v] show ?thesis by (simp del: lru_step.simps)
next
  case Clear
  with assms show ?thesis by (simp add: cache_clear_def shelf_ok_def recency_def)
qed

lemma cache_run_ok:
  "length ops < 2 ^ 64 \<Longrightarrow> shelf_ok cap (length ops) (fold (cache_step cap) ops shelf_empty) \<and>
    recency (fold (cache_step cap) ops shelf_empty) = fold (lru_step cap) ops []"
proof (induction ops rule: rev_induct)
  case Nil
  show ?case by (simp add: shelf_ok_def shelf_empty_def recency_def)
next
  case (snoc op ops)
  then have "length ops < 2 ^ 64 - 1" by simp
  with snoc cache_step_ok[of cap "length ops" "fold (cache_step cap) ops shelf_empty" op] show ?case
    by simp
qed

section \<open>The host of a URL\<close>

lemma until_any_append:
  "set a \<inter> set ds = {} \<Longrightarrow> t = [] \<or> hd t \<in> set ds \<Longrightarrow> until_any ds (a @ t) = a"
  by (induction a) (cases t; auto)+

lemma split_once_str_scheme:
  "CHR '':'' \<notin> set scheme \<Longrightarrow> split_once_str ''://'' (scheme @ ''://'' @ rest) = Some (scheme, rest)"
  by (induction scheme) auto

lemma split_on_absent: "d \<notin> set s \<Longrightarrow> split_on d s = [s]"
  by (induction s) auto

lemma split_on_append: "split_on d (a @ d # b) = split_on d a @ split_on d b"
  by (induction a) (auto split: list.splits)

lemma last_split_on: "last (split_on d (a @ d # b)) = last (split_on d b)"
  by (simp add: split_on_append)

lemma host_of_name:
  assumes scheme: "CHR '':'' \<notin> set scheme"
    and user: "userinfo = [] \<or> (\<exists>u. userinfo = u @ ''@'' \<and> set u \<inter> set ''/?#'' = {})"
    and name: "name \<noteq> []" "set name \<inter> set ''/?#@:['' = {}" "last name \<noteq> CHR ''.''"
    and dot: "dot = [] \<or> dot = ''.''"
    and port: "port = [] \<or> hd port = CHR '':''" "set port \<inter> set ''/?#@'' = {}"
    and tail: "tail = [] \<or> hd tail \<in> set ''/?#''"
  shows "host_of (scheme @ ''://'' @ userinfo @ name @ dot @ port @ tail) = Some (to_ascii_lowercase name)"
proof -
  let ?auth = "userinfo @ name @ dot @ port"
  have "set ?auth \<inter> set ''/?#'' = {}" using user name(2) dot port(2) by auto
  from until_any_append[OF this tail] have auth: "until_any ''/?#'' (?auth @ tail) = ?auth" .
  have "CHR ''@'' \<notin> set (name @ dot @ port)" using name(2) dot port(2) by auto
  then have last: "last (split_on CHR ''@'' ?auth) = name @ dot @ port"
    using user by (auto simp: split_on_absent last_split_on)
  obtain n ns where n: "name = n # ns" using name(1) by (cases name) auto
  with name(2) have bracket: "\<not> starts_with ''['' (name @ dot @ port)" by (auto simp: starts_with_def)
  have "set (name @ dot) \<inter> set '':'' = {}" using name(2) dot by auto
  from until_any_append[OF this, of port] port(1)
  have until: "until_any '':'' (name @ dot @ port) = name @ dot" by auto
  have strip: "(case strip_suffix ''.'' (name @ dot) of Some m \<Rightarrow> m | None \<Rightarrow> name @ dot) = name"
  proof (cases "dot = []")
    case True
    obtain a c where "name = a @ [c]" using name(1) by (metis append_butlast_last_id)
    with True name(3) show ?thesis by (simp add: strip_suffix_def)
  qed (use dot in \<open>simp add: strip_suffix_def\<close>)
  have scheme_split: "split_once_str ''://'' (scheme @ ''://'' @ userinfo @ name @ dot @ port @ tail)
      = Some (scheme, userinfo @ name @ dot @ port @ tail)"
    using scheme by (rule split_once_str_scheme)
  have "until_any ''/?#'' (userinfo @ name @ dot @ port @ tail) = ?auth" using auth by simp
  with last bracket until name(1) show ?thesis
    unfolding host_of_def scheme_split by (simp only: option.case prod.case Let_def strip) simp
qed

section \<open>Properties\<close>

text \<open>The delay before a retry is the initial backoff doubled per attempt (at most 31 times), cut at
  the maximum, with no overflow on the way; jitter moves it by at most a quarter either way.\<close>

theorem retry_delay_bounds:
  "unat (base_delay_ms p a) = min (unat (initial_backoff_ms p) * 2 ^ min (unat a) 31) (unat (max_backoff_ms p)) \<and>
   unat (base_delay_ms p a) - unat (base_delay_ms p a) div 4 \<le> unat (fst (delay p c a)) \<and>
   unat (fst (delay p c a)) \<le> unat (base_delay_ms p a) + unat (base_delay_ms p a) div 4"
  using base_delay_unat delay_within by blast

text \<open>C30: After any sequence of events a breaker is closed exactly when, since its last success, fewer
  than five failures and no rate limit were reported.\<close>

theorem breaker_closed_iff: "state (breaker_run es) = Closed \<longleftrightarrow> should_be_closed es"
  using breaker_run_tracks[of es] by (auto simp: breaker_tracks_def split: if_splits)



text \<open>Whatever is asked of and reported to the table of breakers, it never holds more than 2048
  hosts, each once.\<close>

theorem breaker_table_bounded:
  "length (hosts (registry_run ops)) \<le> 2048 \<and> distinct (map fst (hosts (registry_run ops)))"
  using registry_run_ok[of ops] by (simp add: registry_ok_def max_breaker_hosts_def)

text \<open>While at most 2048 hosts have been named, every named host has exactly the breaker its own
  events produce: no host's failures touch another's.\<close>

theorem breakers_are_independent:
  assumes "card (op_host ` set ops) \<le> max_breaker_hosts"
  shows "breaker_of (registry_run ops) h =
    (if h \<in> op_host ` set ops then Some (breaker_run (events_of h ops)) else None)"
  using assms by (rule registry_run_breakers)

theorem breakers_are_independent_witness:
  "breaker_of (registry_run [Op ''a'' (Failed 1), Op ''b'' Succeeded, Op ''a'' (RateLimited 5 9)]) ''a'' =
    (if ''a'' \<in> op_host ` set [Op ''a'' (Failed 1), Op ''b'' Succeeded, Op ''a'' (RateLimited 5 9)]
     then Some (breaker_run (events_of ''a'' [Op ''a'' (Failed 1), Op ''b'' Succeeded, Op ''a'' (RateLimited 5 9)]))
     else None)"
  by (rule breakers_are_independent) (simp add: max_breaker_hosts_def card_insert_if)

text \<open>A new host in a full table evicts one host and leaves every other breaker as it was; the
  victim is of least rank, so an active backoff is given up only when no breaker is closed.\<close>

theorem full_table_evicts_least:
  assumes "registry_ok reg" "length (hosts reg) = max_breaker_hosts" "breaker_of reg h = None"
  shows "\<exists>victim vb vt. (victim, vb, vt) \<in> set (hosts reg) \<and>
    list_all (\<lambda>(k, b, t). breaker_rank (vb, vt) \<le> breaker_rank (b, t)) (hosts reg) \<and>
    (\<forall>k. if k \<noteq> h then map_of (hosts (snd (allow_host h now reg))) k
      = (if k = victim then None else map_of (hosts reg) k) else True)"
proof -
  from with_entry_evicts[OF assms, of "allow now"] obtain victim vb vt where
    "(victim, vb, vt) \<in> set (hosts reg)"
    "\<And>k b t. (k, b, t) \<in> set (hosts reg) \<Longrightarrow> breaker_rank (vb, vt) \<le> breaker_rank (b, t)"
    "\<And>k. k \<noteq> h \<Longrightarrow> map_of (hosts (snd (with_entry (allow now) h reg))) k
      = (if k = victim then None else map_of (hosts reg) k)" by blast
  then show ?thesis
    by (intro exI[of _ victim] exI[of _ vb] exI[of _ vt]) (auto simp: allow_host_def list_all_iff)
qed

definition full_registry :: breaker_registry where
  "full_registry = \<lparr>hosts = map (\<lambda>n. (replicate n CHR ''a'', breaker_new, of_nat n)) [0..<2048], used = 2048\<rparr>"

theorem full_table_evicts_least_witness:
  "\<exists>victim vb vt. (victim, vb, vt) \<in> set (hosts full_registry) \<and>
    list_all (\<lambda>(k, b, t). breaker_rank (vb, vt) \<le> breaker_rank (b, t)) (hosts full_registry) \<and>
    (\<forall>k. if k \<noteq> ''b'' then map_of (hosts (snd (allow_host ''b'' 7 full_registry))) k
      = (if k = victim then None else map_of (hosts full_registry) k) else True)"
proof (rule full_table_evicts_least)
  show "registry_ok full_registry"
    by (simp add: registry_ok_def full_registry_def comp_def distinct_map inj_on_def)
  show "length (hosts full_registry) = max_breaker_hosts"
    by (simp add: full_registry_def max_breaker_hosts_def)
  have other: "''b'' \<noteq> replicate n CHR ''a''" for n
  proof
    assume "''b'' = replicate n CHR ''a''"
    then have "CHR ''b'' \<in> set (replicate n CHR ''a'')" by (metis list.set_intros(1))
    then show False by auto
  qed
  show "breaker_of full_registry ''b'' = None"
    unfolding breaker_of_def full_registry_def
    by (simp add: map_of_eq_None_iff image_iff other del: upt_Suc)
qed

text \<open>For a well-formed URL - any scheme, optional userinfo, a host name, an optional root dot and
  port, any path, query or fragment - \<open>host_of\<close> is the host name in lower case, so all its
  spellings share one breaker.\<close>

theorem host_of_url:
  assumes "CHR '':'' \<notin> set scheme"
    and "userinfo = [] \<or> (\<exists>u. userinfo = u @ ''@'' \<and> set u \<inter> set ''/?#'' = {})"
    and "name \<noteq> []" "set name \<inter> set ''/?#@:['' = {}" "last name \<noteq> CHR ''.''"
    and "dot = [] \<or> dot = ''.''"
    and "port = [] \<or> hd port = CHR '':''" "set port \<inter> set ''/?#@'' = {}"
    and "tail = [] \<or> hd tail \<in> set ''/?#''"
  shows "host_of (scheme @ ''://'' @ userinfo @ name @ dot @ port @ tail) = Some (to_ascii_lowercase name)"
  using assms by (rule host_of_name)

theorem host_of_url_witness:
  "host_of (''https'' @ ''://'' @ ''a:b@'' @ ''Example.COM'' @ ''.'' @ '':8443'' @ ''/x?y=@z'')
    = Some (to_ascii_lowercase ''Example.COM'')"
  by (rule host_of_url) (auto intro: exI[of _ "''a:b''"])

text \<open>C31: The response cache is a least-recently-used list: through any sequence of fewer than
  \<open>2 ^ 64\<close> operations its entries are those the recency list of at most \<open>cap\<close> entries holds, so a
  full cache gives up exactly the entry that was used longest ago; and the next \<open>get\<close> answers
  what that list holds.\<close>

theorem cache_is_lru:
  assumes "length ops < 2 ^ 64"
  shows "recency (fold (cache_step cap) ops shelf_empty) = fold (lru_step cap) ops [] \<and>
    cache_len (fold (cache_step cap) ops shelf_empty) \<le> cap \<and>
    fst (cache_get k (fold (cache_step cap) ops shelf_empty)) = map_of (fold (lru_step cap) ops []) k"
proof -
  let ?sh = "fold (cache_step cap) ops shelf_empty"
  note run = cache_run_ok[OF assms, of cap]
  have "fst (cache_get k ?sh) = map_of (recency ?sh) k"
    by (simp add: cache_get_def Let_def map_of_recency split: option.splits)
  with run show ?thesis by (simp add: shelf_ok_def cache_len_def)
qed

theorem cache_is_lru_witness:
  "recency (fold (cache_step 2) [Put ''a'' 1, Put ''b'' 2, Get ''a'', Put ''c'' (3::nat)] shelf_empty)
     = fold (lru_step 2) [Put ''a'' 1, Put ''b'' 2, Get ''a'', Put ''c'' 3] [] \<and>
   cache_len (fold (cache_step 2) [Put ''a'' 1, Put ''b'' 2, Get ''a'', Put ''c'' (3::nat)] shelf_empty) \<le> 2 \<and>
   fst (cache_get ''b'' (fold (cache_step 2) [Put ''a'' 1, Put ''b'' 2, Get ''a'', Put ''c'' (3::nat)] shelf_empty))
     = map_of (fold (lru_step 2) [Put ''a'' 1, Put ''b'' 2, Get ''a'', Put ''c'' 3] []) ''b''"
  by (rule cache_is_lru) simp

end
