(* ===== verification/Source_Outcome.thy ===== *)
theory Source_Outcome
  imports Classify Errors
begin

text \<open>
  \<open>src/source_outcome.rs\<close>: the typed outcome of one provider execution, the joined answer of a
  source asked through several endpoints, how far a lookup's sources got, and the classification
  of an HTTP response. HTTP success, zero rows and a verified absence are different values here.
\<close>

definition AUTH_FAILURE_PHRASES :: "str list" where
  "AUTH_FAILURE_PHRASES =
    [''api key not found'',
     ''invalid api key'',
     ''invalid authorization'',
     ''invalid credentials'',
     ''authentication failed'',
     ''authentication_failed'',
     ''no user found for the api key'',
     ''api key format'',
     ''missing api key'',
     ''invalid token'',
     ''forbidden'']"

definition looks_like_auth_failure_text :: "str \<Rightarrow> bool" where
  "looks_like_auth_failure_text body =
     (let lower = to_ascii_lowercase body
      in list_ex (\<lambda>phrase. contains phrase lower) AUTH_FAILURE_PHRASES)"

datatype outcome_kind =
    Success
  | ValidZero
  | AuthRequired
  | NotConfigured
  | AuthRejected
  | EntitlementDenied
  | QuotaExhausted
  | RateLimited
  | BotWaf
  | DnsFailure
  | ConnectFailure
  | TlsFailure
  | TtfbTimeout
  | BodyTimeout
  | Upstream4xx
  | Upstream5xx
  | RedirectChanged
  | ProtocolDrift
  | InteractionDrift
  | SchemaDrift
  | ParserDrift
  | SemanticDrift
  | ZeroYieldAnomaly
  | ConfirmedDead
  | RefusedBeforeSending
  | Inconclusive

fun kind_as_str :: "outcome_kind \<Rightarrow> str" where
  "kind_as_str Success = ''success''"
| "kind_as_str ValidZero = ''valid_zero''"
| "kind_as_str AuthRequired = ''auth_required''"
| "kind_as_str NotConfigured = ''not_configured''"
| "kind_as_str AuthRejected = ''auth_rejected''"
| "kind_as_str EntitlementDenied = ''entitlement_denied''"
| "kind_as_str QuotaExhausted = ''quota_exhausted''"
| "kind_as_str RateLimited = ''rate_limited''"
| "kind_as_str BotWaf = ''bot_waf''"
| "kind_as_str DnsFailure = ''dns_failure''"
| "kind_as_str ConnectFailure = ''connect_failure''"
| "kind_as_str TlsFailure = ''tls_failure''"
| "kind_as_str TtfbTimeout = ''ttfb_timeout''"
| "kind_as_str BodyTimeout = ''body_timeout''"
| "kind_as_str Upstream4xx = ''upstream4xx''"
| "kind_as_str Upstream5xx = ''upstream5xx''"
| "kind_as_str RedirectChanged = ''redirect_changed''"
| "kind_as_str ProtocolDrift = ''protocol_drift''"
| "kind_as_str InteractionDrift = ''interaction_drift''"
| "kind_as_str SchemaDrift = ''schema_drift''"
| "kind_as_str ParserDrift = ''parser_drift''"
| "kind_as_str SemanticDrift = ''semantic_drift''"
| "kind_as_str ZeroYieldAnomaly = ''zero_yield_anomaly''"
| "kind_as_str ConfirmedDead = ''confirmed_dead''"
| "kind_as_str RefusedBeforeSending = ''refused_before_sending''"
| "kind_as_str Inconclusive = ''inconclusive''"

fun kind_is_accepted :: "outcome_kind \<Rightarrow> bool" where
  "kind_is_accepted Success = True"
| "kind_is_accepted ValidZero = True"
| "kind_is_accepted _ = False"

fun is_not_configured :: "outcome_kind \<Rightarrow> bool" where
  "is_not_configured NotConfigured = True"
| "is_not_configured _ = False"

fun is_refused_before_sending :: "outcome_kind \<Rightarrow> bool" where
  "is_refused_before_sending RefusedBeforeSending = True"
| "is_refused_before_sending _ = False"

fun is_transport_failure :: "outcome_kind \<Rightarrow> bool" where
  "is_transport_failure DnsFailure = True"
| "is_transport_failure ConnectFailure = True"
| "is_transport_failure TlsFailure = True"
| "is_transport_failure TtfbTimeout = True"
| "is_transport_failure BodyTimeout = True"
| "is_transport_failure _ = False"

section \<open>Several endpoints\<close>

datatype endpoint_answer = EFound nat | EAbsent | EUnvouched | EFailed outcome_kind

datatype joined =
    JFound nat
  | JAbsent
  | JUnanswered nat outcome_kind
  | JInconclusive

fun found_count :: "endpoint_answer \<Rightarrow> nat" where
  "found_count (EFound count) = count"
| "found_count _ = 0"

text \<open>The single pass over the answers: first failure, first non-refusal, failure count.\<close>

record failure_scan =
  first_failure :: "(nat \<times> outcome_kind) option"
  first_non_refusal :: "(nat \<times> outcome_kind) option"
  failure_count :: nat

fun scan_failures :: "nat \<Rightarrow> endpoint_answer list \<Rightarrow> failure_scan \<Rightarrow> failure_scan" where
  "scan_failures index [] st = st"
| "scan_failures index (answer # rest) st =
     scan_failures (index + 1) rest
       (case answer of
          EFailed kind \<Rightarrow>
            st\<lparr>failure_count := failure_count st + 1,
               first_failure := (if first_failure st = None then Some (index, kind) else first_failure st),
               first_non_refusal :=
                 (if kind \<noteq> RefusedBeforeSending \<and> first_non_refusal st = None
                  then Some (index, kind) else first_non_refusal st)\<rparr>
        | _ \<Rightarrow> st)"

definition joined_of :: "endpoint_answer list \<Rightarrow> joined" where
  "joined_of answers =
     (let found = foldl (\<lambda>total answer. saturating_add total (found_count answer)) 0 answers in
      if found > 0 then JFound found
      else if answers \<noteq> [] \<and> list_all (\<lambda>answer. answer = EAbsent) answers then JAbsent
      else
        (let scan = scan_failures 0 answers
               \<lparr>first_failure = None, first_non_refusal = None, failure_count = 0\<rparr>
         in case (case first_non_refusal scan of Some f \<Rightarrow> Some f | None \<Rightarrow> first_failure scan) of
              Some (index, kind) \<Rightarrow>
                if failure_count scan = length answers then JUnanswered index kind else JInconclusive
            | None \<Rightarrow> JInconclusive))"

section \<open>One observed execution\<close>

record execution_outcome =
  source_module :: str
  kind :: outcome_kind
  observed_at_unix :: u64
  http_status :: "u16 option"
  found :: "nat option"
  retry_after_secs :: "u64 option"
  detail :: "str option"

definition NO_KEY_DETAIL :: str where
  "NO_KEY_DETAIL = ''no operator key configured; no request made''"

definition outcome_new :: "str \<Rightarrow> outcome_kind \<Rightarrow> u64 \<Rightarrow> nat \<Rightarrow> execution_outcome" where
  "outcome_new m k at_unix n =
     \<lparr>source_module = m, kind = k, observed_at_unix = at_unix, http_status = None, found = Some n,
      retry_after_secs = None, detail = None\<rparr>"

definition is_accepted :: "execution_outcome \<Rightarrow> bool" where
  "is_accepted o1 =
     (case (kind o1, found o1) of
        (Success, Some 0) \<Rightarrow> False
      | (ValidZero, Some (Suc _)) \<Rightarrow> False
      | (k, _) \<Rightarrow> kind_is_accepted k)"

definition success :: "str \<Rightarrow> u64 \<Rightarrow> nat \<Rightarrow> execution_outcome" where
  "success m at_unix n = outcome_new m (if n = 0 then Inconclusive else Success) at_unix n"

definition valid_zero :: "str \<Rightarrow> u64 \<Rightarrow> execution_outcome" where
  "valid_zero m at_unix = outcome_new m ValidZero at_unix 0"

definition observed ::
  "str \<Rightarrow> u64 \<Rightarrow> outcome_kind \<Rightarrow> u16 option \<Rightarrow> nat option \<Rightarrow> str \<Rightarrow> execution_outcome"
where
  "observed m at_unix k status n d =
     \<lparr>source_module = m, kind = k, observed_at_unix = at_unix, http_status = status, found = n,
      retry_after_secs = None, detail = Some d\<rparr>"

definition failed :: "str \<Rightarrow> u64 \<Rightarrow> outcome_kind \<Rightarrow> u16 option \<Rightarrow> str \<Rightarrow> execution_outcome" where
  "failed m at_unix k status d = observed m at_unix k status None d"

definition not_configured :: "str \<Rightarrow> u64 \<Rightarrow> execution_outcome" where
  "not_configured m at_unix = failed m at_unix NotConfigured None NO_KEY_DETAIL"

definition inconclusive :: "str \<Rightarrow> u64 \<Rightarrow> str \<Rightarrow> execution_outcome" where
  "inconclusive m at_unix d = failed m at_unix Inconclusive None d"

definition with_http_status :: "u16 \<Rightarrow> execution_outcome \<Rightarrow> execution_outcome" where
  "with_http_status status o1 = o1\<lparr>http_status := Some status\<rparr>"

definition with_detail :: "str \<Rightarrow> execution_outcome \<Rightarrow> execution_outcome" where
  "with_detail d o1 = o1\<lparr>detail := Some d\<rparr>"

definition with_retry_after :: "u64 \<Rightarrow> execution_outcome \<Rightarrow> execution_outcome" where
  "with_retry_after seconds o1 = o1\<lparr>retry_after_secs := Some seconds\<rparr>"

definition refused_before_sending :: "str \<Rightarrow> u64 \<Rightarrow> str \<Rightarrow> execution_outcome" where
  "refused_before_sending m at_unix d = failed m at_unix RefusedBeforeSending None d"

definition of_leg_error :: "str \<Rightarrow> u64 \<Rightarrow> error \<Rightarrow> execution_outcome" where
  "of_leg_error m at_unix e =
     (case e of
        Network reason \<Rightarrow> refused_before_sending m at_unix reason
      | other \<Rightarrow> inconclusive m at_unix (error_to_string other))"

definition joined_outcome :: "str \<Rightarrow> u64 \<Rightarrow> endpoint_answer list \<Rightarrow> str \<Rightarrow> execution_outcome" where
  "joined_outcome m at_unix answers d =
     (case joined_of answers of
        JFound n \<Rightarrow> with_detail d (success m at_unix n)
      | JAbsent \<Rightarrow> with_detail d (valid_zero m at_unix)
      | JUnanswered _ k \<Rightarrow> failed m at_unix k None d
      | JInconclusive \<Rightarrow> inconclusive m at_unix d)"

definition reason :: "execution_outcome \<Rightarrow> str" where
  "reason o1 =
     (let d = (case detail o1 of Some d \<Rightarrow> d | None \<Rightarrow> kind_as_str (kind o1));
          repeats = (case strip_prefix (source_module o1) d of
                       Some rest \<Rightarrow> starts_with '': '' rest | None \<Rightarrow> False)
      in if repeats then d else source_module o1 @ '': '' @ d)"

section \<open>How far a lookup got\<close>

datatype source_reach = Answered | Refused str | NoResponse str | FailedReach "str option"

datatype 'r source_run = Printed str 'r | RunNetwork str | RunFailed str

definition first_reason :: "(outcome_kind \<Rightarrow> bool) \<Rightarrow> execution_outcome list \<Rightarrow> str option" where
  "first_reason pick os = map_option reason (List.find (\<lambda>o1. pick (kind o1)) os)"

definition reach_of :: "execution_outcome list \<Rightarrow> source_reach" where
  "reach_of os =
     (if list_ex is_accepted os then Answered
      else
        (case first_reason is_refused_before_sending os of
           Some why \<Rightarrow> Refused why
         | None \<Rightarrow>
             (case first_reason is_transport_failure os of
                Some why \<Rightarrow> NoResponse why
              | None \<Rightarrow>
                  FailedReach
                    (case first_reason (\<lambda>k. \<not> is_not_configured k) os of
                       Some why \<Rightarrow> Some why
                     | None \<Rightarrow> (case os of [] \<Rightarrow> None | o1 # _ \<Rightarrow> Some (reason o1))))))"

fun stopped :: "str \<Rightarrow> source_reach \<Rightarrow> 'r source_run option" where
  "stopped lead (Refused why) = Some (RunNetwork why)"
| "stopped lead (NoResponse why) = Some (RunFailed (lead @ '': '' @ why))"
| "stopped lead Answered = None"
| "stopped lead (FailedReach _) = None"

fun unanswered :: "str \<Rightarrow> source_reach \<Rightarrow> 'r source_run option" where
  "unanswered lead (FailedReach (Some why)) = Some (RunFailed (lead @ '': '' @ why))"
| "unanswered lead (FailedReach None) = Some (RunFailed lead)"
| "unanswered lead other = stopped lead other"

definition partial_page_note :: "nat \<Rightarrow> u64 option \<Rightarrow> bool \<Rightarrow> str option" where
  "partial_page_note records reported has_more =
     (let more_than_read = (case reported of Some t \<Rightarrow> t > of_nat records | None \<Rightarrow> False) in
      if \<not> (has_more \<or> more_than_read) then None
      else
        (let t = (case reported of None \<Rightarrow> ''an unreported number'' | Some t \<Rightarrow> show_nat (unat t))
         in Some (''partial: read the first '' @ show_nat records @ '' of '' @ t
              @ '' matching records; absence of a breach here is not evidence of absence'')))"

section \<open>What to do next\<close>

datatype health_action =
    Accept
  | Retry
  | Backoff
  | RequireCredential
  | Quarantine
  | RequireContractVerification
  | Investigate

fun action_as_str :: "health_action \<Rightarrow> str" where
  "action_as_str Accept = ''accept''"
| "action_as_str Retry = ''retry''"
| "action_as_str Backoff = ''backoff''"
| "action_as_str RequireCredential = ''require_credential''"
| "action_as_str Quarantine = ''quarantine''"
| "action_as_str RequireContractVerification = ''require_contract_verification''"
| "action_as_str Investigate = ''investigate''"

fun recommended_action :: "outcome_kind \<Rightarrow> health_action" where
  "recommended_action Success = Accept"
| "recommended_action ValidZero = Accept"
| "recommended_action AuthRequired = RequireCredential"
| "recommended_action NotConfigured = RequireCredential"
| "recommended_action AuthRejected = RequireCredential"
| "recommended_action QuotaExhausted = Backoff"
| "recommended_action RateLimited = Backoff"
| "recommended_action BotWaf = Backoff"
| "recommended_action DnsFailure = Retry"
| "recommended_action ConnectFailure = Retry"
| "recommended_action TtfbTimeout = Retry"
| "recommended_action BodyTimeout = Retry"
| "recommended_action Upstream5xx = Retry"
| "recommended_action Inconclusive = Retry"
| "recommended_action EntitlementDenied = Investigate"
| "recommended_action TlsFailure = Investigate"
| "recommended_action Upstream4xx = Investigate"
| "recommended_action RefusedBeforeSending = Investigate"
| "recommended_action RedirectChanged = RequireContractVerification"
| "recommended_action ProtocolDrift = RequireContractVerification"
| "recommended_action InteractionDrift = RequireContractVerification"
| "recommended_action SchemaDrift = RequireContractVerification"
| "recommended_action ParserDrift = RequireContractVerification"
| "recommended_action SemanticDrift = RequireContractVerification"
| "recommended_action ZeroYieldAnomaly = Quarantine"
| "recommended_action ConfirmedDead = Quarantine"

definition classify_http_status :: "u16 \<Rightarrow> outcome_kind" where
  "classify_http_status status =
     (if status = 401 then AuthRequired
      else if status = 408 then TtfbTimeout
      else if status = 429 then RateLimited
      else if 300 \<le> status \<and> status \<le> 399 then RedirectChanged
      else if 400 \<le> status \<and> status \<le> 499 then Upstream4xx
      else if 500 \<le> status \<and> status \<le> 599 then Upstream5xx
      else if 200 \<le> status \<and> status \<le> 299 then Inconclusive
      else ProtocolDrift)"

definition classify_fetch :: "u16 \<Rightarrow> str \<Rightarrow> outcome_kind" where
  "classify_fetch status body =
     (if status = 429 then RateLimited
      else if is_challenge_at status body then BotWaf
      else classify_http_status status)"

section \<open>The joined answer\<close>

text \<open>What the joined answer of some endpoints says, in terms of what each said.\<close>

definition joined_spec :: "endpoint_answer list \<Rightarrow> joined \<Rightarrow> bool" where
  "joined_spec answers j \<longleftrightarrow>
     (case j of
        JFound n \<Rightarrow> 0 < n \<and> n = min (sum_list (map found_count answers)) usize_max
      | JAbsent \<Rightarrow> answers \<noteq> [] \<and> (\<forall>a \<in> set answers. a = EAbsent)
      | JUnanswered i k \<Rightarrow>
          i < length answers \<and> answers ! i = EFailed k \<and> (\<forall>a \<in> set answers. \<exists>k. a = EFailed k) \<and>
          (\<forall>j < i. answers ! j = EFailed RefusedBeforeSending) \<and>
          (k = RefusedBeforeSending \<longrightarrow> i = 0 \<and> (\<forall>a \<in> set answers. a = EFailed RefusedBeforeSending))
      | JInconclusive \<Rightarrow>
          sum_list (map found_count answers) = 0 \<and>
          (answers = [] \<or> (\<exists>a \<in> set answers. a \<noteq> EAbsent) \<and> (\<exists>a \<in> set answers. \<forall>k. a \<noteq> EFailed k)))"

lemma foldl_saturating:
  "foldl (\<lambda>total answer. saturating_add total (found_count answer)) (min t usize_max) answers
    = min (t + sum_list (map found_count answers)) usize_max"
proof (induction answers arbitrary: t)
  case (Cons a answers)
  have "saturating_add (min t usize_max) (found_count a) = min (t + found_count a) usize_max"
    by (auto simp: saturating_add_def)
  with Cons[of "t + found_count a"] show ?case by (simp add: add.assoc)
qed simp

text \<open>The scan of a list that continues earlier answers, in terms of the whole list.\<close>

definition scanned :: "endpoint_answer list \<Rightarrow> failure_scan \<Rightarrow> bool" where
  "scanned xs st \<longleftrightarrow>
     failure_count st = length (filter (\<lambda>a. \<exists>k. a = EFailed k) xs) \<and>
     (case first_failure st of
        None \<Rightarrow> \<forall>a \<in> set xs. \<forall>k. a \<noteq> EFailed k
      | Some (i, k) \<Rightarrow> i < length xs \<and> xs ! i = EFailed k \<and> (\<forall>j < i. \<forall>k. xs ! j \<noteq> EFailed k)) \<and>
     (case first_non_refusal st of
        None \<Rightarrow> \<forall>a \<in> set xs. \<forall>k. a = EFailed k \<longrightarrow> k = RefusedBeforeSending
      | Some (i, k) \<Rightarrow> i < length xs \<and> xs ! i = EFailed k \<and> k \<noteq> RefusedBeforeSending \<and>
          (\<forall>j < i. \<forall>k. xs ! j = EFailed k \<longrightarrow> k = RefusedBeforeSending))"

lemma scanned_other:
  assumes "scanned xs st" "\<forall>k. a \<noteq> EFailed k"
  shows "scanned (xs @ [a]) st"
  using assms by (auto simp: scanned_def nth_append split: option.splits)

lemma scanned_failed:
  assumes "scanned xs st"
  shows "scanned (xs @ [EFailed k])
    (st\<lparr>failure_count := failure_count st + 1,
        first_failure := (if first_failure st = None then Some (length xs, k) else first_failure st),
        first_non_refusal :=
          (if k \<noteq> RefusedBeforeSending \<and> first_non_refusal st = None
           then Some (length xs, k) else first_non_refusal st)\<rparr>)"
  using assms by (auto simp: scanned_def nth_append split: option.splits if_splits) (metis nth_mem)

lemma scan_failures_scanned:
  "scanned xs st \<Longrightarrow> scanned (xs @ ys) (scan_failures (length xs) ys st)"
proof (induction ys arbitrary: xs st)
  case (Cons a ys)
  show ?case
  proof (cases "\<exists>k. a = EFailed k")
    case True
    then obtain k where k: "a = EFailed k" by blast
    from Cons.IH[OF scanned_failed[OF Cons.prems, of k]] show ?thesis by (simp add: k)
  next
    case False
    with Cons.IH[of "xs @ [a]" st] scanned_other[OF Cons.prems, of a] show ?thesis
      by (cases a) simp_all
  qed
qed simp

lemma filter_length_all: "length (filter P xs) = length xs \<longleftrightarrow> (\<forall>x \<in> set xs. P x)"
  by (metis filter_True length_filter_less nat_less_le)

lemma joined_of_meets_spec: "joined_spec answers (joined_of answers)"
proof -
  let ?found = "foldl (\<lambda>total answer. saturating_add total (found_count answer)) 0 answers"
  let ?scan = "scan_failures 0 answers \<lparr>first_failure = None, first_non_refusal = None, failure_count = 0\<rparr>"
  have total_found: "?found = min (sum_list (map found_count answers)) usize_max"
    using foldl_saturating[of 0 answers] by simp
  have zero: "?found = 0 \<longleftrightarrow> sum_list (map found_count answers) = 0"
  proof -
    have "0 < usize_max" by (simp add: usize_max_def)
    then show ?thesis unfolding total_found by linarith
  qed
  have scan: "scanned answers ?scan"
    using scan_failures_scanned[of "[]" _ answers] by (simp add: scanned_def)
  consider "?found > 0" | "?found = 0" "answers \<noteq> []" "\<forall>a \<in> set answers. a = EAbsent"
    | "?found = 0" "answers = [] \<or> (\<exists>a \<in> set answers. a \<noteq> EAbsent)" by blast
  then show ?thesis
  proof cases
    case 1
    then show ?thesis by (simp add: joined_of_def joined_spec_def Let_def total_found)
  next
    case 2
    then show ?thesis by (simp add: joined_of_def joined_spec_def Let_def list_all_iff)
  next
    case 3
    then have branch: "joined_of answers =
        (case (case first_non_refusal ?scan of Some f \<Rightarrow> Some f | None \<Rightarrow> first_failure ?scan) of
           Some (index, k) \<Rightarrow> if failure_count ?scan = length answers then JUnanswered index k else JInconclusive
         | None \<Rightarrow> JInconclusive)"
      by (auto simp: joined_of_def Let_def list_all_iff)
    have count: "failure_count ?scan = length answers \<longleftrightarrow> (\<forall>a \<in> set answers. \<exists>k. a = EFailed k)"
      using scan by (simp add: scanned_def filter_length_all)
    have inconclusive: "joined_spec answers JInconclusive" if "\<not> (\<forall>a \<in> set answers. \<exists>k. a = EFailed k) \<or> answers = []"
      using that 3 zero by (auto simp: joined_spec_def)
    show ?thesis
    proof (cases "first_non_refusal ?scan")
      case None
      show ?thesis
      proof (cases "first_failure ?scan")
        case none: None
        with scan have "\<forall>a \<in> set answers. \<forall>k. a \<noteq> EFailed k" by (simp add: scanned_def)
        then have "\<not> (\<forall>a \<in> set answers. \<exists>k. a = EFailed k) \<or> answers = []" by (cases answers) auto
        with inconclusive branch None none show ?thesis by simp
      next
        case (Some f)
        obtain i k where f: "f = (i, k)" by force
        show ?thesis
        proof (cases "\<forall>a \<in> set answers. \<exists>k. a = EFailed k")
          case True
          have f_at: "i < length answers" "answers ! i = EFailed k" "\<forall>j < i. \<forall>k. answers ! j \<noteq> EFailed k"
            using scan Some f by (simp_all add: scanned_def)
          have all: "\<forall>a \<in> set answers. a = EFailed RefusedBeforeSending"
            using scan None True by (auto simp: scanned_def)
          have "i = 0"
          proof (rule ccontr)
            assume "i \<noteq> 0"
            then have "0 < i" "answers ! 0 \<in> set answers" using f_at(1) nth_mem[of 0 answers] by linarith+
            with f_at(3) True show False by blast
          qed
          with f_at all True have "joined_spec answers (JUnanswered i k)" by (auto simp: joined_spec_def)
          with branch None Some f count True show ?thesis by simp
        next
          case False
          with inconclusive branch None Some f count show ?thesis by simp
        qed
      qed
    next
      case (Some f)
      obtain i k where f: "f = (i, k)" by force
      show ?thesis
      proof (cases "\<forall>a \<in> set answers. \<exists>k. a = EFailed k")
        case True
        have f_at: "i < length answers" "answers ! i = EFailed k" "k \<noteq> RefusedBeforeSending"
          "\<forall>j < i. \<forall>k. answers ! j = EFailed k \<longrightarrow> k = RefusedBeforeSending"
          using scan Some f by (simp_all add: scanned_def)
        have "answers ! j = EFailed RefusedBeforeSending" if "j < i" for j
        proof -
          have "answers ! j \<in> set answers" using that f_at(1) by simp
          with True that f_at(4) show ?thesis by fastforce
        qed
        with f_at True have "joined_spec answers (JUnanswered i k)" by (simp add: joined_spec_def)
        with branch Some f count True show ?thesis by simp
      next
        case False
        with inconclusive branch Some f count show ?thesis by simp
      qed
    qed
  qed
qed

section \<open>Acceptance and reach\<close>

fun trustworthy :: "endpoint_answer \<Rightarrow> bool" where
  "trustworthy (EFailed k) = (\<not> kind_is_accepted k)"
| "trustworthy _ = True"

lemma is_accepted_simps:
  "is_accepted (with_detail d (success m t n)) \<longleftrightarrow> 0 < n"
  "is_accepted (with_detail d (valid_zero m t))"
  "is_accepted (failed m t k st d) \<longleftrightarrow> kind_is_accepted k"
  "is_accepted (inconclusive m t d) \<longleftrightarrow> False"
  by (auto simp: is_accepted_def with_detail_def success_def valid_zero_def outcome_new_def failed_def
      observed_def inconclusive_def split: outcome_kind.splits nat.splits)

lemma joined_outcome_accepted:
  assumes "list_all trustworthy answers"
  shows "is_accepted (joined_outcome m t answers d) \<longleftrightarrow>
    0 < sum_list (map found_count answers) \<or> answers \<noteq> [] \<and> list_all (\<lambda>a. a = EAbsent) answers"
proof -
  note spec = joined_of_meets_spec[of answers]
  have none: "0 < sum_list (map found_count answers) \<Longrightarrow> \<not> list_all (\<lambda>a. a = EAbsent) answers"
  proof (rule notI)
    assume "0 < sum_list (map found_count answers)" "list_all (\<lambda>a. a = EAbsent) answers"
    then have "\<forall>a \<in> set answers. found_count a = 0" by (auto simp: list_all_iff)
    then have "sum_list (map found_count answers) = 0" by simp
    with \<open>0 < sum_list (map found_count answers)\<close> show False by simp
  qed
  show ?thesis
  proof (cases "joined_of answers")
    case (JFound n)
    with spec show ?thesis by (auto simp: joined_outcome_def is_accepted_simps joined_spec_def)
  next
    case JAbsent
    with spec show ?thesis by (auto simp: joined_outcome_def is_accepted_simps joined_spec_def list_all_iff)
  next
    case (JUnanswered i k)
    with spec have all: "i < length answers" "answers ! i = EFailed k" "\<forall>a \<in> set answers. \<exists>k. a = EFailed k"
      by (simp_all add: joined_spec_def)
    have "trustworthy (answers ! i)" using assms all(1) by (simp add: list_all_length)
    moreover have "\<forall>a \<in> set answers. found_count a = 0" using all(3) by auto
    moreover have "\<not> list_all (\<lambda>a. a = EAbsent) answers" using all by (auto simp: list_all_length)
    ultimately show ?thesis using JUnanswered all(2)
      by (simp add: joined_outcome_def is_accepted_simps)
  next
    case JInconclusive
    with spec show ?thesis by (auto simp: joined_outcome_def is_accepted_simps joined_spec_def list_all_iff)
  qed
qed

lemma first_reason_Some: "first_reason pick os \<noteq> None \<longleftrightarrow> list_ex (\<lambda>o1. pick (kind o1)) os"
  by (auto simp: first_reason_def list_ex_iff find_None_iff)

lemma unanswered_None_iff: "unanswered lead (reach_of os) = None \<longleftrightarrow> list_ex is_accepted os"
  by (cases os) (simp_all add: reach_of_def split: option.split)

lemma stopped_iff:
  "stopped lead (reach_of os) \<noteq> None \<longleftrightarrow> \<not> list_ex is_accepted os \<and>
     list_ex (\<lambda>o1. is_refused_before_sending (kind o1) \<or> is_transport_failure (kind o1)) os"
proof -
  have "list_ex (\<lambda>o1. is_refused_before_sending (kind o1) \<or> is_transport_failure (kind o1)) os
    \<longleftrightarrow> first_reason is_refused_before_sending os \<noteq> None \<or> first_reason is_transport_failure os \<noteq> None"
    unfolding first_reason_Some list_ex_iff by blast
  then show ?thesis by (auto simp: reach_of_def split: option.splits)
qed

section \<open>Labels\<close>

definition all_kinds :: "outcome_kind list" where
  "all_kinds = [Success, ValidZero, AuthRequired, NotConfigured, AuthRejected, EntitlementDenied,
     QuotaExhausted, RateLimited, BotWaf, DnsFailure, ConnectFailure, TlsFailure, TtfbTimeout,
     BodyTimeout, Upstream4xx, Upstream5xx, RedirectChanged, ProtocolDrift, InteractionDrift,
     SchemaDrift, ParserDrift, SemanticDrift, ZeroYieldAnomaly, ConfirmedDead,
     RefusedBeforeSending, Inconclusive]"

lemma all_kinds_complete: "k \<in> set all_kinds"
  by (cases k) (simp_all add: all_kinds_def)

lemma kind_labels_distinct: "distinct (map kind_as_str all_kinds)"
  by code_simp

lemma kind_as_str_inj: "kind_as_str k = kind_as_str k' \<longleftrightarrow> k = k'"
  using kind_labels_distinct all_kinds_complete[of k] all_kinds_complete[of k']
  by (auto simp: distinct_map inj_on_def)

section \<open>Reasons\<close>

lemma reason_prefix: "starts_with (source_module o1 @ '': '') (reason o1)"
  unfolding reason_def starts_with_iff Let_def
  by (auto simp: strip_prefix_Some starts_with_iff split: option.splits)

lemma reason_kept:
  "strip_prefix (source_module o1) d = Some r \<Longrightarrow> starts_with '': '' r \<Longrightarrow> reason (with_detail d o1) = d"
  by (simp add: reason_def with_detail_def)

lemma reason_idem: "reason (with_detail (reason o1) o1) = reason o1"
proof -
  from reason_prefix[of o1] obtain r where r: "reason o1 = source_module o1 @ '': '' @ r"
    by (auto simp: starts_with_iff)
  have "strip_prefix (source_module o1) (reason o1) = Some ('': '' @ r)"
    by (simp add: strip_prefix_Some r)
  then show ?thesis by (rule reason_kept) (auto simp: starts_with_iff)
qed

section \<open>Properties\<close>

text \<open>Joining what several endpoints said never overstates it: a find counts every find, saturating;
  absence is claimed only when every endpoint said so; no answer at all is the first failure that
  is not a refusal, and a refusal only when every endpoint was refused; everything else is
  inconclusive.\<close>

theorem joined_of_exact: "joined_spec answers (joined_of answers)"
  by (rule joined_of_meets_spec)

text \<open>The row of a source asked through several endpoints is accepted as evidence exactly when some
  endpoint found the subject or every one of them vouched for its absence.\<close>

theorem joined_outcome_accepted_iff:
  assumes "list_all trustworthy answers"
  shows "is_accepted (joined_outcome m t answers d) \<longleftrightarrow>
    0 < sum_list (map found_count answers) \<or> answers \<noteq> [] \<and> list_all (\<lambda>a. a = EAbsent) answers"
  using assms by (rule joined_outcome_accepted)

theorem joined_outcome_accepted_iff_witness:
  "is_accepted (joined_outcome ''dnsbl'' 0 [EAbsent, EUnvouched, EFailed DnsFailure] ''d'') \<longleftrightarrow>
    0 < sum_list (map found_count [EAbsent, EUnvouched, EFailed DnsFailure]) \<or>
    [EAbsent, EUnvouched, EFailed DnsFailure] \<noteq> [] \<and>
    list_all (\<lambda>a. a = EAbsent) [EAbsent, EUnvouched, EFailed DnsFailure]"
  by (rule joined_outcome_accepted_iff) simp

text \<open>A lookup is failed exactly when it has no accepted row, and stopped early exactly when it has
  none and some source was refused before sending or did not respond: neither failures beside an
  answer nor answers that are mere errors change the verdict.\<close>

theorem reach_verdicts:
  "(unanswered lead (reach_of os) = None \<longleftrightarrow> list_ex is_accepted os) \<and>
   (stopped lead (reach_of os) \<noteq> None \<longleftrightarrow> \<not> list_ex is_accepted os \<and>
     list_ex (\<lambda>o1. is_refused_before_sending (kind o1) \<or> is_transport_failure (kind o1)) os)"
  using unanswered_None_iff[of lead os] stopped_iff[of lead os] by blast

text \<open>The reason of a row always names its module once: it starts with the module and a colon, and
  taking the reason as the detail changes nothing.\<close>

theorem reason_names_module:
  "starts_with (source_module o1 @ '': '') (reason o1) \<and> reason (with_detail (reason o1) o1) = reason o1"
  using reason_prefix reason_idem by blast

text \<open>An HTTP response alone is never evidence: no status and body classify as an accepted outcome
  or as a rejected credential; and the typed classification agrees with the wall and throttle
  verdicts of the fetch classifier.\<close>

theorem classify_fetch_fail_closed:
  "\<not> kind_is_accepted (classify_fetch status body) \<and> classify_fetch status body \<noteq> AuthRejected \<and>
   (classify_fetch status body = BotWaf \<longleftrightarrow> is_wall (classify_response status body)) \<and>
   (classify_fetch status body = RateLimited \<longleftrightarrow> is_throttle (classify_response status body))"
  by (auto simp: classify_fetch_def classify_response_def classify_http_status_def)

text \<open>The outcome kinds have distinct wire labels, and the recommended action accepts exactly the
  kinds that are evidence.\<close>

theorem labels_and_actions:
  "(kind_as_str k = kind_as_str k' \<longleftrightarrow> k = k') \<and>
   (recommended_action k = Accept \<longleftrightarrow> kind_is_accepted k)"
proof
  show "recommended_action k = Accept \<longleftrightarrow> kind_is_accepted k" by (cases k) simp_all
qed (rule kind_as_str_inj)

end
