(* ===== verification/Rate_Limit.thy ===== *)
theory Rate_Limit
  imports Prelude
begin

text \<open>
  \<open>src/rate_limit.rs\<close>: the sliding-window request budget of a keyed provider. Instants and durations
  are nanoseconds as \<open>nat\<close>. The mutex makes one pass of the loop, one \<open>block_for\<close> and one
  \<open>set_limit\<close> a step each. A pass reads the clock under the mutex, so the instants of the passes never
  go back in the order of the lock; \<open>block_for\<close> reads it before it takes the mutex, so its instant may
  be any. The limiter is shared by the whole process: what other threads do between the steps is the
  order of the events of a run, and what they do while a caller sleeps is an argument of its loop.
\<close>

section \<open>State and operations\<close>

record rate_limiter =
  limit :: u32
  window :: nat
  sent :: "nat list"
  blocked_until :: "nat option"

definition secs :: "nat \<Rightarrow> nat" where
  "secs s = s * 1000000000"

definition DURATION_MAX :: nat where
  "DURATION_MAX = secs (2 ^ 64 - 1) + 999999999"

definition limiter_new :: "u32 \<Rightarrow> nat \<Rightarrow> rate_limiter" where
  "limiter_new n w = \<lparr>limit = n, window = w, sent = [], blocked_until = None\<rparr>"

definition per_minute :: "u32 \<Rightarrow> rate_limiter" where
  "per_minute n = limiter_new n (secs 60)"

definition set_limit :: "u32 \<Rightarrow> rate_limiter \<Rightarrow> rate_limiter" where
  "set_limit n l = l\<lparr>limit := n\<rparr>"

definition MAX_RETRY_AFTER_SECS :: nat where
  "MAX_RETRY_AFTER_SECS = 3600"

definition block_until :: "nat \<Rightarrow> nat \<Rightarrow> nat" where
  "block_until now d = now + min d (secs MAX_RETRY_AFTER_SECS)"

definition block_for :: "nat \<Rightarrow> nat \<Rightarrow> rate_limiter \<Rightarrow> rate_limiter" where
  "block_for now d l =
     (let until = block_until now d in
      if (case blocked_until l of None \<Rightarrow> True | Some b \<Rightarrow> b < until)
      then l\<lparr>blocked_until := Some until\<rparr> else l)"

datatype verdict = Granted | Sleep nat | Refused nat

fun drop_expired :: "nat \<Rightarrow> nat \<Rightarrow> nat list \<Rightarrow> nat list" where
  "drop_expired w now [] = []"
| "drop_expired w now (t # ts) = (if now - t \<ge> w then drop_expired w now ts else t # ts)"

text \<open>The arm of the loop that no server block holds.\<close>

definition budget :: "nat \<Rightarrow> rate_limiter \<Rightarrow> verdict \<times> rate_limiter" where
  "budget now l0 =
     (let l = l0\<lparr>blocked_until := None\<rparr> in
      if limit l = 0 then (Granted, l)
      else
        (let l1 = l\<lparr>sent := drop_expired (window l) now (sent l)\<rparr> in
         if length (sent l1) < unat (limit l1) then (Granted, l1\<lparr>sent := sent l1 @ [now]\<rparr>)
         else
           (case sent l1 of
              [] \<Rightarrow> (Granted, l1)
            | oldest # _ \<Rightarrow> (Sleep (oldest + window l1 - now), l1))))"

text \<open>One pass of the loop of \<open>acquire_within\<close> at the instant \<open>now\<close>.\<close>

definition attempt :: "nat \<Rightarrow> nat \<Rightarrow> rate_limiter \<Rightarrow> verdict \<times> rate_limiter" where
  "attempt max_wait now l =
     (case blocked_until l of
        Some until \<Rightarrow>
          if until > now
          then (if until - now > max_wait then Refused (until - now) else Sleep (until - now), l)
          else budget now l
      | None \<Rightarrow> budget now l)"

section \<open>Runs\<close>

text \<open>What any threads do to the limiter, in the order in which they hold its mutex. Only the instants of
  the passes are in that order.\<close>

datatype rl_event = Attempt nat nat | Block nat nat | Set_Limit u32

fun event_time :: "rl_event \<Rightarrow> nat list" where
  "event_time (Attempt now _) = [now]"
| "event_time (Block _ _) = []"
| "event_time (Set_Limit _) = []"

fun rl_step :: "rl_event \<Rightarrow> rate_limiter \<Rightarrow> nat list \<times> rate_limiter" where
  "rl_step (Attempt now max_wait) l =
     (let (v, l') = attempt max_wait now l in (if v = Granted then [now] else [], l'))"
| "rl_step (Block now d) l = ([], block_for now d l)"
| "rl_step (Set_Limit n) l = ([], set_limit n l)"

fun rl_run :: "rl_event list \<Rightarrow> rate_limiter \<Rightarrow> nat list \<times> rate_limiter" where
  "rl_run [] l = ([], l)"
| "rl_run (e # es) l =
     (let (gs, l1) = rl_step e l; (gs', l2) = rl_run es l1 in (gs @ gs', l2))"

fun limit_ok :: "nat \<Rightarrow> rl_event \<Rightarrow> bool" where
  "limit_ok L (Set_Limit n) = (0 < unat n \<and> unat n \<le> L)"
| "limit_ok L _ = True"

section \<open>The loop of one caller\<close>

text \<open>The whole loop: the \<open>k\<close>-th sleep takes what was asked plus \<open>late k\<close>, and \<open>others k\<close> is what the
  other threads do to the limiter meanwhile. The answer holds the result, the instant it was given and
  the limiter.\<close>

partial_function (option) acquire_within ::
  "(nat \<Rightarrow> nat) \<Rightarrow> (nat \<Rightarrow> rl_event list) \<Rightarrow> nat \<Rightarrow> nat \<Rightarrow> nat \<Rightarrow> rate_limiter
    \<Rightarrow> ((nat + unit) \<times> nat \<times> rate_limiter) option"
where
  "acquire_within late others max_wait k now l =
     (case attempt max_wait now l of
        (Granted, l') \<Rightarrow> Some (Inr (), now, l')
      | (Refused remaining, l') \<Rightarrow> Some (Inl remaining, now, l')
      | (Sleep d, l') \<Rightarrow> acquire_within late others max_wait (Suc k) (now + d + late k) (snd (rl_run (others k) l')))"

definition acquire ::
  "(nat \<Rightarrow> nat) \<Rightarrow> (nat \<Rightarrow> rl_event list) \<Rightarrow> nat \<Rightarrow> rate_limiter \<Rightarrow> ((nat + unit) \<times> nat \<times> rate_limiter) option"
where
  "acquire late others now l = acquire_within late others DURATION_MAX 0 now l"

section \<open>The window\<close>

lemma drop_expired_split:
  "\<exists>ds. ts = ds @ drop_expired w now ts \<and> (\<forall>d \<in> set ds. d \<le> now \<longrightarrow> d + w \<le> now)"
proof (induction ts)
  case (Cons t ts)
  then obtain ds where "ts = ds @ drop_expired w now ts" "\<forall>d \<in> set ds. d \<le> now \<longrightarrow> d + w \<le> now" by blast
  then show ?case by (cases "now - t \<ge> w") (auto intro!: exI[of _ "t # ds"])
qed simp

text \<open>\<open>h\<close> is every grant so far: the dropped ones have left the window, and a grant is at least a
  window after the one \<open>L\<close> places earlier.\<close>

definition paced :: "nat \<Rightarrow> nat \<Rightarrow> nat list \<Rightarrow> bool" where
  "paced L w h \<longleftrightarrow> (\<forall>i. i + L < length h \<longrightarrow> h ! i + w \<le> h ! (i + L))"

definition rl_inv :: "nat \<Rightarrow> nat \<Rightarrow> nat \<Rightarrow> nat list \<Rightarrow> rate_limiter \<Rightarrow> bool" where
  "rl_inv L w now h l \<longleftrightarrow>
     window l = w \<and> 0 < unat (limit l) \<and> unat (limit l) \<le> L \<and> paced L w h \<and> sorted h \<and>
     (\<forall>t \<in> set h. t \<le> now) \<and> (\<exists>ds. h = ds @ sent l \<and> (\<forall>d \<in> set ds. d + w \<le> now))"

lemma paced_snoc:
  assumes "paced L w (ds @ ts)" "\<forall>d \<in> set ds. d + w \<le> now" "length ts < L"
  shows "paced L w (ds @ ts @ [now])"
  unfolding paced_def
proof (intro allI impI)
  fix i assume i: "i + L < length (ds @ ts @ [now])"
  show "(ds @ ts @ [now]) ! i + w \<le> (ds @ ts @ [now]) ! (i + L)"
  proof (cases "i + L < length (ds @ ts)")
    case True
    then show ?thesis using assms(1) unfolding paced_def
      by (metis append_assoc nth_append add_lessD1)
  next
    case False
    then have "i + L = length (ds @ ts)" using i by simp
    moreover from this have "i < length ds" using assms(3) by simp
    ultimately show ?thesis using assms(2) by (simp add: nth_append)
  qed
qed

lemma rl_inv_later: "rl_inv L w now h l \<Longrightarrow> now \<le> now' \<Longrightarrow> rl_inv L w now' h l"
  unfolding rl_inv_def by (elim conjE exE, intro conjI exI) (auto intro: order_trans)

lemma rl_inv_cong:
  "rl_inv L w now h l \<Longrightarrow> window l' = window l \<Longrightarrow> limit l' = limit l \<Longrightarrow> sent l' = sent l
    \<Longrightarrow> rl_inv L w now h l'"
  by (simp add: rl_inv_def)

lemma budget_inv:
  assumes inv: "rl_inv L w now h l" and b: "budget now l = (v, l')"
  shows "rl_inv L w now (h @ (if v = Granted then [now] else [])) l'"
proof -
  from inv obtain ds where ds: "h = ds @ sent l" "\<forall>d \<in> set ds. d + w \<le> now"
    and I: "window l = w" "0 < unat (limit l)" "unat (limit l) \<le> L" "paced L w h" "sorted h" "\<forall>t \<in> set h. t \<le> now"
    by (auto simp: rl_inv_def)
  obtain es where es: "sent l = es @ drop_expired w now (sent l)" "\<forall>d \<in> set es. d \<le> now \<longrightarrow> d + w \<le> now"
    using drop_expired_split by blast
  define ts where "ts = drop_expired w now (sent l)"
  have h: "h = (ds @ es) @ ts" using ds(1) es(1) by (simp add: ts_def)
  have old: "\<forall>d \<in> set (ds @ es). d + w \<le> now" using ds(2) es(2) I(6) h by auto
  have l0: "limit l \<noteq> 0" using I(2) by auto
  show ?thesis
  proof (cases "length ts < unat (limit l)")
    case True
    then have r: "v = Granted" "l' = l\<lparr>blocked_until := None, sent := ts @ [now]\<rparr>"
      using b l0 by (auto simp: budget_def Let_def I(1) ts_def)
    have "paced L w ((ds @ es) @ ts @ [now])"
      by (rule paced_snoc[OF _ old]) (use I(3,4) h True in auto)
    moreover have "sorted (h @ [now])" using I(5,6) by (simp add: sorted_append)
    ultimately show ?thesis using I old r h by (auto simp: rl_inv_def)
  next
    case False
    then have "ts \<noteq> []" using I(2) by auto
    with False have r: "v \<noteq> Granted" "l' = l\<lparr>blocked_until := None, sent := ts\<rparr>"
      using b l0 by (auto simp: budget_def Let_def I(1) ts_def split: list.splits)
    then show ?thesis using I old h by (auto simp: rl_inv_def)
  qed
qed

lemma rl_step_inv:
  assumes "rl_inv L w now h l" "limit_ok L e" "rl_step e l = (gs, l')" "\<forall>t \<in> set (event_time e). now \<le> t"
  shows "\<exists>now'. rl_inv L w now' (h @ gs) l' \<and> (now' = now \<or> now' \<in> set (event_time e))"
proof (cases e)
  case (Attempt t mw)
  have inv: "rl_inv L w t h l" using rl_inv_later[OF assms(1)] assms(4) Attempt by simp
  obtain v where v: "attempt mw t l = (v, l')" "gs = (if v = Granted then [t] else [])"
    using assms(3) Attempt by (auto split: prod.splits)
  have "rl_inv L w t (h @ gs) l'"
  proof (cases "budget t l = (v, l')")
    case True
    then show ?thesis using budget_inv[OF inv True] v(2) by simp
  next
    case False
    then have "v \<noteq> Granted" "l' = l" using v(1) by (auto simp: attempt_def split: option.splits if_splits)
    then show ?thesis using inv v(2) by simp
  qed
  then show ?thesis using Attempt by auto
next
  case (Block t d)
  then have "gs = []" "l' = block_for t d l" using assms(3) by auto
  moreover have "rl_inv L w now h (block_for t d l)"
    by (rule rl_inv_cong[OF assms(1)]) (auto simp: block_for_def Let_def)
  ultimately show ?thesis by auto
next
  case (Set_Limit n)
  then have "gs = []" "l' = set_limit n l" using assms(3) by auto
  then show ?thesis using assms(1,2) Set_Limit by (auto simp: set_limit_def rl_inv_def)
qed

lemma rl_run_inv:
  "rl_inv L w now h l \<Longrightarrow> list_all (limit_ok L) es \<Longrightarrow> sorted (now # concat (map event_time es)) \<Longrightarrow>
    rl_run es l = (gs, l') \<Longrightarrow> \<exists>now'. rl_inv L w now' (h @ gs) l'"
proof (induction es arbitrary: now h l gs)
  case (Cons e es)
  obtain g l1 gs' where s: "rl_step e l = (g, l1)" "rl_run es l1 = (gs', l')" "gs = g @ gs'"
    using Cons.prems(4) by (auto split: prod.splits)
  have later: "\<forall>t \<in> set (event_time e). now \<le> t" using Cons.prems(3) by auto
  from rl_step_inv[OF Cons.prems(1) _ s(1) later] Cons.prems(2) obtain now1 where
    n1: "rl_inv L w now1 (h @ g) l1" "now1 = now \<or> now1 \<in> set (event_time e)" by auto
  have "sorted (now1 # concat (map event_time es))"
    using n1(2) Cons.prems(3) by (cases e) auto
  from Cons.IH[OF n1(1) _ this s(2)] Cons.prems(2) s(3) show ?case by simp
qed auto

lemma rl_inv_new: "0 < unat n \<Longrightarrow> unat n \<le> L \<Longrightarrow> rl_inv L w 0 [] (limiter_new n w)"
  by (simp add: rl_inv_def limiter_new_def paced_def)

lemma paced_window:
  assumes "paced L w gs" "sorted gs"
  shows "length (filter (\<lambda>g. t \<le> g \<and> g < t + w) gs) \<le> L"
proof (rule ccontr)
  let ?S = "{i. i < length gs \<and> t \<le> gs ! i \<and> gs ! i < t + w}"
  assume "\<not> length (filter (\<lambda>g. t \<le> g \<and> g < t + w) gs) \<le> L"
  then have big: "L < card ?S" by (simp add: length_filter_conv_card)
  have fin: "finite ?S" by simp
  have ne: "?S \<noteq> {}" using big by (intro notI) simp
  define i j where "i = Min ?S" and "j = Max ?S"
  have i: "i \<in> ?S" and j: "j \<in> ?S" unfolding i_def j_def by (rule Min_in[OF fin ne], rule Max_in[OF fin ne])
  have "?S \<subseteq> {i..j}" using fin by (auto simp: i_def j_def)
  then have "card ?S \<le> Suc j - i" using card_mono[of "{i..j}" ?S] by simp
  then have far: "i + L \<le> j" using big by simp
  then have "gs ! i + w \<le> gs ! (i + L)" using assms(1) j by (auto simp: paced_def)
  also have "\<dots> \<le> gs ! j" using sorted_nth_mono[OF assms(2) far] j by simp
  finally show False using i j by simp
qed

section \<open>Server blocks\<close>

definition holds_until :: "nat \<Rightarrow> nat \<Rightarrow> rate_limiter \<Rightarrow> bool" where
  "holds_until u now l \<longleftrightarrow> u \<le> now \<or> (\<exists>b. blocked_until l = Some b \<and> u \<le> b)"

lemma rl_step_holds:
  assumes "holds_until u now l" "rl_step e l = (gs, l')" "\<forall>t \<in> set (event_time e). now \<le> t"
  shows "(\<forall>g \<in> set gs. u \<le> g) \<and> (\<forall>t \<in> set (now # event_time e). now \<le> t \<longrightarrow>
    (event_time e = [] \<or> t \<in> set (event_time e)) \<longrightarrow> holds_until u t l')"
  using assms
  by (cases e) (auto simp: holds_until_def attempt_def budget_def block_for_def set_limit_def Let_def
      split: prod.splits option.splits if_splits list.splits)

lemma rl_run_holds:
  "holds_until u now l \<Longrightarrow> sorted (now # concat (map event_time es)) \<Longrightarrow> rl_run es l = (gs, l') \<Longrightarrow>
    \<forall>g \<in> set gs. u \<le> g"
proof (induction es arbitrary: now l gs)
  case (Cons e es)
  obtain g l1 gs' where s: "rl_step e l = (g, l1)" "rl_run es l1 = (gs', l')" "gs = g @ gs'"
    using Cons.prems(3) by (auto split: prod.splits)
  have later: "\<forall>t \<in> set (event_time e). now \<le> t" using Cons.prems(2) by auto
  note st = rl_step_holds[OF Cons.prems(1) s(1) later]
  obtain now1 where n1: "holds_until u now1 l1" "sorted (now1 # concat (map event_time es))"
  proof (cases "event_time e")
    case Nil
    then show thesis using st Cons.prems(2) by (intro that[of now]) auto
  next
    case (Cons t ts)
    then have "ts = []" by (cases e) auto
    then show thesis using st Cons.prems(2) local.Cons by (intro that[of t]) auto
  qed
  from Cons.IH[OF n1 s(2)] st s(3) show ?case by auto
qed simp

lemma rl_run_append:
  "rl_run (es @ fs) l = (let (g, l1) = rl_run es l; (g', l2) = rl_run fs l1 in (g @ g', l2))"
  by (induction es arbitrary: l) (auto simp: Let_def split: prod.splits)

lemma block_holds: "holds_until (block_until now d) 0 (block_for now d l)"
  by (auto simp: holds_until_def block_for_def Let_def split: option.splits)

section \<open>The loop returns\<close>

definition held :: "rate_limiter \<Rightarrow> nat \<Rightarrow> nat" where
  "held l now = (case blocked_until l of None \<Rightarrow> 0 | Some u \<Rightarrow> u - now)"

lemma attempt_held: "attempt mw now l =
    (if held l now = 0 then budget now l
     else if held l now > mw then (Refused (held l now), l) else (Sleep (held l now), l))"
  by (auto simp: attempt_def held_def split: option.splits)

lemma budget_not_refused: "fst (budget now l) \<noteq> Refused r"
  by (auto simp: budget_def Let_def split: list.splits)

lemma drop_expired_head: "drop_expired w now ts = s # ss \<Longrightarrow> now - s < w"
  by (induction ts) (auto split: if_splits)

lemma length_drop_expired: "length (drop_expired w now ts) \<le> length ts"
  by (induction ts) auto

lemma set_drop_expired: "set (drop_expired w now ts) \<subseteq> set ts"
  by (induction ts) auto

lemma budget_sleep:
  assumes "budget now l = (Sleep d, l')"
  obtains s ss where "l' = l\<lparr>blocked_until := None, sent := s # ss\<rparr>"
    "drop_expired (window l) now (sent l) = s # ss" "now + d = s + window l" "s \<in> set (sent l)"
proof -
  obtain s ss where r: "drop_expired (window l) now (sent l) = s # ss"
    "l' = l\<lparr>blocked_until := None, sent := s # ss\<rparr>" "d = s + window l - now"
    using assms by (auto simp: budget_def Let_def split: if_splits list.splits)
  moreover from r(1) have "s \<in> set (sent l)" using set_drop_expired[of "window l" now "sent l"] by auto
  ultimately show thesis using drop_expired_head[OF r(1)] by (intro that) auto
qed

lemma budget_granted:
  "budget now l = (Granted, l') \<Longrightarrow> held l now = 0 \<Longrightarrow>
    acquire_within late others mw k now l = Some (Inr (), now, l')"
  by (subst acquire_within.simps) (simp add: attempt_held)

lemma loop_unblocked:
  "\<forall>j\<ge>k. others j = [] \<Longrightarrow> held l now = 0 \<Longrightarrow> length (drop_expired (window l) now (sent l)) \<le> n \<Longrightarrow>
    \<exists>t l'. acquire_within late others mw k now l = Some (Inr (), t, l') \<and> now \<le> t \<and>
      ((\<forall>i. late i = 0) \<and> (\<forall>s \<in> set (sent l). s \<le> m) \<longrightarrow> t \<le> max now (m + window l))"
proof (induction n arbitrary: k now l)
  case 0
  obtain v l' where b: "budget now l = (v, l')" by fastforce
  have "v = Granted"
  proof (cases v)
    case (Sleep d)
    with b 0 show ?thesis by (auto elim: budget_sleep)
  next
    case (Refused r)
    with b budget_not_refused[of now l r] show ?thesis by simp
  qed simp
  with budget_granted[of now l l' late others mw k] b 0(2) show ?case by auto
next
  case (Suc n)
  obtain v l' where b: "budget now l = (v, l')" by fastforce
  show ?case
  proof (cases v)
    case Granted
    with budget_granted[of now l l' late others mw k] b Suc.prems(2) show ?thesis by auto
  next
    case (Sleep d)
    from budget_sleep[OF b[unfolded Sleep]] obtain s ss where
      s: "l' = l\<lparr>blocked_until := None, sent := s # ss\<rparr>" "drop_expired (window l) now (sent l) = s # ss"
        "now + d = s + window l" "s \<in> set (sent l)" by blast
    let ?now = "now + d + late k"
    have "drop_expired (window l) ?now (s # ss) = drop_expired (window l) ?now ss" using s(3) by simp
    then have "length (drop_expired (window l') ?now (sent l')) \<le> n"
      using length_drop_expired[of "window l" ?now ss] s(1,2) Suc.prems(3) by simp
    moreover have "held l' ?now = 0" by (simp add: held_def s(1))
    ultimately obtain t l'' where t: "acquire_within late others mw (Suc k) ?now l' = Some (Inr (), t, l'')" "?now \<le> t"
      "(\<forall>i. late i = 0) \<and> (\<forall>s \<in> set (sent l'). s \<le> m) \<longrightarrow> t \<le> max ?now (m + window l')"
      using Suc.IH[of "Suc k"] Suc.prems(1) by (metis Suc_leD)
    have "acquire_within late others mw k now l = Some (Inr (), t, l'')"
      using t(1) b Sleep Suc.prems(1,2) by (subst acquire_within.simps) (simp add: attempt_held)
    moreover have "set (sent l') \<subseteq> set (sent l)"
      using set_drop_expired[of "window l" now "sent l"] s(1,2) by simp
    then have "t \<le> max now (m + window l)" if "(\<forall>i. late i = 0) \<and> (\<forall>s \<in> set (sent l). s \<le> m)"
      using that t(3) s by fastforce
    ultimately show ?thesis using t(2) by auto
  next
    case (Refused r)
    with b budget_not_refused[of now l r] show ?thesis by simp
  qed
qed

lemma acquire_within_ok:
  assumes "\<forall>j\<ge>k. others j = []" "held l now \<le> mw"
  shows "\<exists>t l'. acquire_within late others mw k now l = Some (Inr (), t, l') \<and> now \<le> t \<and>
    ((\<forall>i. late i = 0) \<and> (\<forall>s \<in> set (sent l). s \<le> now) \<longrightarrow> t \<le> now + held l now + window l)"
proof (cases "held l now = 0")
  case True
  from loop_unblocked[OF assms(1) True order_refl, of late mw now] show ?thesis using True by auto
next
  case False
  let ?now = "now + held l now + late k"
  have "acquire_within late others mw k now l = acquire_within late others mw (Suc k) ?now l"
    using False assms by (subst acquire_within.simps) (simp add: attempt_held)
  moreover have "held l ?now = 0" by (auto simp: held_def split: option.splits)
  note loop_unblocked[OF _ this order_refl, of "Suc k" others late mw now]
  ultimately show ?thesis using assms(1) by (auto; fastforce)
qed

lemma acquire_within_refused:
  "held l now > mw \<Longrightarrow> acquire_within late others mw k now l = Some (Inl (held l now), now, l)"
  by (subst acquire_within.simps) (simp add: attempt_held)

section \<open>Other threads\<close>

fun is_block :: "rl_event \<Rightarrow> bool" where
  "is_block (Block _ _) = True"
| "is_block _ = False"

lemma run_keeps_block:
  "list_all (\<lambda>e. \<not> is_block e) es \<Longrightarrow> blocked_until (snd (rl_run es l)) = None
    \<or> blocked_until (snd (rl_run es l)) = blocked_until l"
proof (induction es arbitrary: l)
  case (Cons e es)
  have "blocked_until (snd (rl_step e l)) = None \<or> blocked_until (snd (rl_step e l)) = blocked_until l"
    using Cons.prems by (cases e) (auto simp: attempt_def budget_def set_limit_def Let_def
        split: prod.splits option.splits if_splits list.splits)
  then show ?case using Cons.IH[of "snd (rl_step e l)"] Cons.prems by (auto simp: Let_def split: prod.splits)
qed simp

text \<open>After a sleep that was taken, no block that was there before still holds.\<close>

lemma held_after_sleep:
  assumes "attempt mw now l = (Sleep d, l')" "list_all (\<lambda>e. \<not> is_block e) es"
  shows "held (snd (rl_run es l')) (now + d + late) = 0"
proof -
  have "blocked_until l' = None \<or> blocked_until l' = blocked_until l \<and> d = held l now"
    using assms(1) by (auto simp: attempt_held budget_def Let_def split: if_splits list.splits)
  moreover have "blocked_until (snd (rl_run es l')) = None \<or> blocked_until (snd (rl_run es l')) = blocked_until l'"
    by (rule run_keeps_block[OF assms(2)])
  ultimately show ?thesis by (auto simp: held_def split: option.splits)
qed

definition answer_ok :: "nat \<Rightarrow> nat \<Rightarrow> (nat + unit) \<times> nat \<times> rate_limiter \<Rightarrow> bool" where
  "answer_ok mw now a =
     (case a of (r, t, l') \<Rightarrow>
        now \<le> t \<and> (case r of Inl remaining \<Rightarrow> mw < remaining \<and> held l' t = remaining | Inr _ \<Rightarrow> True))"

lemma interfered_returns:
  assumes "\<forall>j\<ge>K. others j = []"
  shows "\<exists>a. acquire_within late others mw k now l = Some a \<and> answer_ok mw now a
    \<and> (held l now \<le> mw \<and> (\<forall>j. list_all (\<lambda>e. \<not> is_block e) (others j)) \<longrightarrow> fst a = Inr ())"
proof (induction "K - k" arbitrary: k now l)
  case 0
  then have idle: "\<forall>j\<ge>k. others j = []" using assms by simp
  show ?case
  proof (cases "held l now \<le> mw")
    case True
    from acquire_within_ok[OF idle True, of late] show ?thesis by (fastforce simp: answer_ok_def)
  next
    case False
    then show ?thesis using acquire_within_refused[of mw l now late others k] by (simp add: answer_ok_def)
  qed
next
  case (Suc n)
  obtain v l' where v: "attempt mw now l = (v, l')" by fastforce
  show ?case
  proof (cases v)
    case Granted
    then show ?thesis using v by (subst acquire_within.simps) (simp add: answer_ok_def)
  next
    case (Refused r)
    then have "r = held l now" "l' = l" "held l now > mw"
      using v budget_not_refused[of now l r] by (auto simp: attempt_held split: if_splits)
    then show ?thesis using v Refused by (subst acquire_within.simps) (simp add: answer_ok_def)
  next
    case (Sleep d)
    let ?now = "now + d + late k" and ?l = "snd (rl_run (others k) l')"
    have step: "acquire_within late others mw k now l = acquire_within late others mw (Suc k) ?now ?l"
      using v Sleep by (subst acquire_within.simps) simp
    have "n = K - Suc k" using Suc(2) by simp
    from Suc(1)[OF this, of ?now ?l] obtain a where
      a: "acquire_within late others mw (Suc k) ?now ?l = Some a" "answer_ok mw ?now a"
        "held ?l ?now \<le> mw \<and> (\<forall>j. list_all (\<lambda>e. \<not> is_block e) (others j)) \<longrightarrow> fst a = Inr ()" by blast
    have "answer_ok mw now a" using a(2) by (auto simp: answer_ok_def split: prod.splits)
    moreover have "fst a = Inr ()" if "\<forall>j. list_all (\<lambda>e. \<not> is_block e) (others j)"
      using a(3) that held_after_sleep[OF v[unfolded Sleep], of "others k" "late k"] by simp
    ultimately show ?thesis using a(1) step by auto
  qed
qed

section \<open>Properties\<close>

text \<open>C13: Whatever the threads do - acquiring, blocking, changing the limit - while every limit in force
  is positive and at most \<open>L\<close>, no stretch of time of one window holds more than \<open>L\<close> granted requests.\<close>

theorem rate_never_exceeded:
  assumes "0 < unat n" and "unat n \<le> L" and "list_all (limit_ok L) es"
    and "sorted (concat (map event_time es))"
  shows "length (filter (\<lambda>g. t \<le> g \<and> g < t + w) (fst (rl_run es (limiter_new n w)))) \<le> L"
proof -
  obtain gs l' where r: "rl_run es (limiter_new n w) = (gs, l')" by fastforce
  have "sorted (0 # concat (map event_time es))" using assms(4) by simp
  from rl_run_inv[OF rl_inv_new[OF assms(1,2)] assms(3) this r]
  have "paced L w gs" "sorted gs" by (auto simp: rl_inv_def)
  then show ?thesis using paced_window r by simp
qed

theorem rate_never_exceeded_witness:
  "length (filter (\<lambda>g. 5 \<le> g \<and> g < 5 + 10) (fst (rl_run
      [Attempt 5 0, Attempt 6 0, Attempt 7 0, Set_Limit 1, Attempt 15 0, Attempt 16 0] (limiter_new 2 10)))) \<le> 2"
  by (rule rate_never_exceeded) simp_all

text \<open>A server's pause holds every caller: once \<open>block_for\<close> is told to wait, no request is granted
  before the pause (capped at one hour) is over, whatever was called before or is called after.\<close>

theorem server_pause_holds_everyone:
  assumes "sorted (concat (map event_time (Block t d # es)))"
  shows "list_all (\<lambda>g. block_until t d \<le> g) (fst (rl_run es (snd (rl_step (Block t d) l))))"
proof -
  obtain gs l' where r: "rl_run es (block_for t d l) = (gs, l')" by fastforce
  from rl_run_holds[OF block_holds _ r] assms have "\<forall>g \<in> set gs. block_until t d \<le> g" by simp
  then show ?thesis by (simp add: r list_all_iff)
qed

theorem server_pause_holds_everyone_witness:
  "list_all (\<lambda>g. block_until 3 4 \<le> g) (fst (rl_run [Attempt 5 0, Block 6 0, Attempt 9 0]
     (snd (rl_step (Block 3 4) (limiter_new 2 10)))))"
  by (rule server_pause_holds_everyone) simp

text \<open>C39: \<open>acquire_within\<close> on the shared limiter. Whatever other threads do to the limiter while the caller
  sleeps, and however late its sleeps wake, the call returns if the other threads leave the limiter
  alone from some sleep on (they may otherwise take every slot first). It refuses at once, changing
  nothing, when a server block has more than \<open>max_wait\<close> left, it refuses later only for a block that
  has more than \<open>max_wait\<close> left then, and unless another thread blocks the limiter meanwhile it is
  granted.\<close>

theorem acquire_within_returns:
  assumes "\<forall>j\<ge>K. others j = []"
  shows "\<exists>r t l'. acquire_within late others max_wait k now l = Some (r, t, l') \<and> now \<le> t
    \<and> (case r of Inl remaining \<Rightarrow> max_wait < remaining \<and> held l' t = remaining | Inr _ \<Rightarrow> True)
    \<and> (max_wait < held l now \<longrightarrow> r = Inl (held l now) \<and> t = now \<and> l' = l)
    \<and> (held l now \<le> max_wait \<and> (\<forall>j. list_all (\<lambda>e. \<not> is_block e) (others j)) \<longrightarrow> r = Inr ())"
proof -
  from interfered_returns[OF assms, of late max_wait k now l] obtain r t l' where
    "acquire_within late others max_wait k now l = Some (r, t, l')" "answer_ok max_wait now (r, t, l')"
    "held l now \<le> max_wait \<and> (\<forall>j. list_all (\<lambda>e. \<not> is_block e) (others j)) \<longrightarrow> r = Inr ()" by auto
  then show ?thesis
    using acquire_within_refused[of max_wait l now late others k] by (auto simp: answer_ok_def)
qed

text \<open>A second thread takes the slot that the caller slept for, and lowers the limit.\<close>

theorem acquire_within_returns_witness:
  "\<exists>t l'. acquire_within (\<lambda>_. 1) (\<lambda>j. if j = 0 then [Attempt 15 0, Set_Limit 1] else []) 5 0 12
      \<lparr>limit = 2, window = 10, sent = [5, 8], blocked_until = None\<rparr> = Some (Inr (), t, l') \<and> 12 \<le> t"
  using acquire_within_returns[of 1 "\<lambda>j. if j = 0 then [Attempt 15 0, Set_Limit 1] else []" "\<lambda>_. 1" 5 0 12
      "\<lparr>limit = 2, window = 10, sent = [5, 8], blocked_until = None\<rparr>"]
  by (auto simp: held_def)

text \<open>With sleeps that wake on time and no other thread a caller waits at most the server block and one
  window, even when the limit was lowered below what was already sent.\<close>

theorem acquire_waits_one_window:
  assumes "held l now \<le> max_wait" and "list_all (\<lambda>s. s \<le> now) (sent l)"
  shows "\<exists>t l'. acquire_within (\<lambda>_. 0) (\<lambda>_. []) max_wait k now l = Some (Inr (), t, l') \<and>
    now \<le> t \<and> t \<le> now + held l now + window l"
  using acquire_within_ok[OF _ assms(1), of k "\<lambda>_. []" "\<lambda>_. 0"] assms(2) by (auto simp: list_all_iff)

theorem acquire_waits_one_window_witness:
  "\<exists>t l'. acquire_within (\<lambda>_. 0) (\<lambda>_. []) 5 0 12
      \<lparr>limit = 1, window = 10, sent = [5, 8, 9], blocked_until = Some 14\<rparr> = Some (Inr (), t, l') \<and>
    12 \<le> t \<and> t \<le> 12 + held \<lparr>limit = 1, window = 10, sent = [5, 8, 9], blocked_until = Some 14\<rparr> 12
      + window \<lparr>limit = 1, window = 10, sent = [5, 8, 9], blocked_until = Some 14\<rparr>"
  by (rule acquire_waits_one_window) (simp_all add: held_def)

end
