(* ===== verification/Base64.thy ===== *)
theory Base64
  imports Rust_Str
begin

unbundle bit_operations_syntax

text \<open>
  \<open>src/base64.rs\<close>: Base64 in the standard and the URL-safe alphabet and Base16. Bytes are \<open>u8\<close>, texts
  are strings of ASCII characters; the alphabets are indexed with \<open>!\<close>, whose index is below their
  length (\<open>code_digits_small\<close>).
\<close>

section \<open>Encoding\<close>

definition STANDARD :: string where
  "STANDARD = ''ABCDEFGHIJKLMNOPQRSTUVWXYZabcdefghijklmnopqrstuvwxyz0123456789+/''"

definition URL_SAFE :: string where
  "URL_SAFE = ''ABCDEFGHIJKLMNOPQRSTUVWXYZabcdefghijklmnopqrstuvwxyz0123456789-_''"

definition BASE16_LOWER :: string where
  "BASE16_LOWER = ''0123456789abcdef''"

definition BASE16_UPPER :: string where
  "BASE16_UPPER = ''0123456789ABCDEF''"

definition first_digit :: "u8 \<Rightarrow> u8" where
  "first_digit a = drop_bit 2 a"

definition second_digit :: "u8 \<Rightarrow> u8 \<Rightarrow> u8" where
  "second_digit a b = push_bit 4 (a AND 3) OR drop_bit 4 b"

definition third_digit :: "u8 \<Rightarrow> u8 \<Rightarrow> u8" where
  "third_digit b c = push_bit 2 (b AND 15) OR drop_bit 6 c"

definition fourth_digit :: "u8 \<Rightarrow> u8" where
  "fourth_digit c = c AND 63"

fun encode :: "u8 list \<Rightarrow> string \<Rightarrow> bool \<Rightarrow> string" where
  "encode [] table pad = []"
| "encode [a] table pad =
     [table ! unat (first_digit a), table ! unat (second_digit a 0)] @ (if pad then ''=='' else [])"
| "encode [a, b] table pad =
     [table ! unat (first_digit a), table ! unat (second_digit a b), table ! unat (third_digit b 0)]
       @ (if pad then ''='' else [])"
| "encode (a # b # c # rest) table pad =
     [table ! unat (first_digit a), table ! unat (second_digit a b), table ! unat (third_digit b c),
      table ! unat (fourth_digit c)] @ encode rest table pad"

definition standard :: "u8 list \<Rightarrow> string" where
  "standard bytes = encode bytes STANDARD True"

definition url_unpadded :: "u8 list \<Rightarrow> string" where
  "url_unpadded bytes = encode bytes URL_SAFE False"

definition base16 :: "u8 list \<Rightarrow> string \<Rightarrow> string" where
  "base16 bytes table = concat (map (\<lambda>b. [table ! unat (drop_bit 4 b), table ! unat (b AND 0x0f)]) bytes)"

definition base16_lower :: "u8 list \<Rightarrow> string" where
  "base16_lower bytes = base16 bytes BASE16_LOWER"

definition base16_upper :: "u8 list \<Rightarrow> string" where
  "base16_upper bytes = base16 bytes BASE16_UPPER"

section \<open>Decoding\<close>

definition is_ascii_whitespace :: "char \<Rightarrow> bool" where
  "is_ascii_whitespace c \<longleftrightarrow> (of_char c :: nat) \<in> {9, 10, 12, 13, 32}"

definition decode_digit :: "char \<Rightarrow> u8 option" where
  "decode_digit c =
     (let b = (of_char c :: nat) in
      if 65 \<le> b \<and> b \<le> 90 then Some (of_nat (b - 65))
      else if 97 \<le> b \<and> b \<le> 122 then Some (of_nat (b - 97 + 26))
      else if 48 \<le> b \<and> b \<le> 57 then Some (of_nat (b - 48 + 52))
      else if b = 43 then Some 62
      else if b = 47 then Some 63
      else None)"

text \<open>The validating pass counts digits and padding.\<close>

fun count_symbols :: "string \<Rightarrow> nat \<Rightarrow> nat \<Rightarrow> (nat \<times> nat) option" where
  "count_symbols [] digits padding = Some (digits, padding)"
| "count_symbols (c # cs) digits padding =
     (if c = CHR ''='' then
        (if padding + 1 > 2 then None else count_symbols cs digits (padding + 1))
      else if padding \<noteq> 0 \<or> decode_digit c = None then None
      else count_symbols cs (digits + 1) padding)"

definition lengths_ok :: "nat \<Rightarrow> nat \<Rightarrow> bool" where
  "lengths_ok digits padding \<longleftrightarrow>
     (digits mod 4, padding) \<in> {(0, 0), (2, 0), (2, 2), (3, 0), (3, 1)}"

text \<open>The decoding pass; at its end the bits that were not written have to be zero.\<close>

fun decode_bits :: "string \<Rightarrow> u32 \<Rightarrow> nat \<Rightarrow> u8 list \<Rightarrow> u8 list option" where
  "decode_bits [] acc pending out =
     (if pending \<noteq> 0 \<and> acc AND (push_bit pending 1 - 1) \<noteq> 0 then None else Some out)"
| "decode_bits (c # cs) acc pending out =
     (if c = CHR ''='' then
        (if pending \<noteq> 0 \<and> acc AND (push_bit pending 1 - 1) \<noteq> 0 then None else Some out)
      else
        (case decode_digit c of
           None \<Rightarrow> None
         | Some value \<Rightarrow>
             (let acc' = push_bit 6 acc OR ucast value; pending' = pending + 6 in
              if pending' \<ge> 8
              then decode_bits cs acc' (pending' - 8)
                     (out @ [ucast (drop_bit (pending' - 8) acc' AND 0xff)])
              else decode_bits cs acc' pending' out)))"

definition decode_standard :: "string \<Rightarrow> u8 list option" where
  "decode_standard text =
     (let bytes = filter (\<lambda>c. \<not> is_ascii_whitespace c) text in
      case count_symbols bytes 0 0 of
        None \<Rightarrow> None
      | Some (digits, padding) \<Rightarrow>
          if lengths_ok digits padding then decode_bits bytes 0 0 [] else None)"

section \<open>Digits and bytes\<close>

lemma less8: "(\<forall>n < 8. P n) \<longleftrightarrow> P 0 \<and> P 1 \<and> P 2 \<and> P 3 \<and> P 4 \<and> P 5 \<and> P 6 \<and> P (7::nat)"
  by (simp add: numeral_eq_Suc less_Suc_eq) blast

lemma byte_eqI:
  assumes "bit a 0 = bit b 0" "bit a 1 = bit b 1" "bit a 2 = bit b 2" "bit a 3 = bit b 3"
    "bit a 4 = bit b 4" "bit a 5 = bit b 5" "bit a 6 = bit b 6" "bit a 7 = bit b 7"
  shows "a = (b :: u8)"
proof (rule bit_word_eqI)
  fix n assume n: "n < LENGTH(8)"
  have "\<forall>n < 8. bit a n = bit b n" unfolding less8 using assms by simp
  then show "bit a n = bit b n" using n by simp
qed

definition small :: "u8 \<Rightarrow> bool" where
  "small d \<longleftrightarrow> \<not> bit d 6 \<and> \<not> bit d 7"

lemma byte_high [simp]: "8 \<le> n \<Longrightarrow> \<not> bit (a :: u8) n"
  using bit_imp_le_length[of a n] by auto

definition first_byte :: "u8 \<Rightarrow> u8 \<Rightarrow> u8" where
  "first_byte d1 d2 = push_bit 2 d1 OR drop_bit 4 d2"

definition second_byte :: "u8 \<Rightarrow> u8 \<Rightarrow> u8" where
  "second_byte d2 d3 = push_bit 4 d2 OR drop_bit 2 d3"

definition third_byte :: "u8 \<Rightarrow> u8 \<Rightarrow> u8" where
  "third_byte d3 d4 = push_bit 6 d3 OR d4"

lemmas digit_defs = first_digit_def second_digit_def third_digit_def fourth_digit_def
lemmas byte_defs = first_byte_def second_byte_def third_byte_def

lemma code_digits_small:
  "small (first_digit a)" "small (second_digit a b)" "small (third_digit b c)" "small (fourth_digit c)"
  by (simp_all add: small_def digit_defs bit_simps)

lemma bytes_of_digits:
  "first_byte (first_digit a) (second_digit a b) = a"
  "second_byte (second_digit a b) (third_digit b c) = b"
  "third_byte (third_digit b c) (fourth_digit c) = c"
  by (rule byte_eqI; simp add: digit_defs byte_defs bit_simps)+

lemma digits_of_bytes:
  assumes "small d1" "small d2" "small d3" "small d4"
  shows "first_digit (first_byte d1 d2) = d1"
    "second_digit (first_byte d1 d2) (second_byte d2 d3) = d2"
    "third_digit (second_byte d2 d3) (third_byte d3 d4) = d3"
    "fourth_digit (third_byte d3 d4) = d4"
  by (rule byte_eqI; use assms in \<open>simp add: digit_defs byte_defs bit_simps small_def\<close>)+

lemma pads_of_bytes:
  "small d1 \<Longrightarrow> small d2 \<Longrightarrow> d2 AND 15 = 0 \<Longrightarrow> second_digit (first_byte d1 d2) 0 = d2"
  "small d2 \<Longrightarrow> small d3 \<Longrightarrow> d3 AND 3 = 0 \<Longrightarrow> third_digit (second_byte d2 d3) 0 = d3"
  "second_digit a 0 AND 15 = 0" "third_digit b 0 AND 3 = 0"
proof -
  show "second_digit (first_byte d1 d2) 0 = d2" if s: "small d1" "small d2" and z: "d2 AND 15 = 0"
  proof (rule byte_eqI)
    have "\<not> bit (d2 AND 15) n" for n using z by simp
    from this[of 0] this[of 1] this[of 2] this[of 3] have "\<not> bit d2 0 \<and> \<not> bit d2 1 \<and> \<not> bit d2 2 \<and> \<not> bit d2 3"
      by (simp add: bit_simps)
    with s show "bit (second_digit (first_byte d1 d2) 0) 0 = bit d2 0"
      "bit (second_digit (first_byte d1 d2) 0) 1 = bit d2 1"
      "bit (second_digit (first_byte d1 d2) 0) 2 = bit d2 2"
      "bit (second_digit (first_byte d1 d2) 0) 3 = bit d2 3"
      "bit (second_digit (first_byte d1 d2) 0) 4 = bit d2 4"
      "bit (second_digit (first_byte d1 d2) 0) 5 = bit d2 5"
      "bit (second_digit (first_byte d1 d2) 0) 6 = bit d2 6"
      "bit (second_digit (first_byte d1 d2) 0) 7 = bit d2 7"
      by (simp_all add: digit_defs byte_defs bit_simps small_def)
  qed
  show "third_digit (second_byte d2 d3) 0 = d3" if s: "small d2" "small d3" and z: "d3 AND 3 = 0"
  proof (rule byte_eqI)
    have "\<not> bit (d3 AND 3) n" for n using z by simp
    from this[of 0] this[of 1] have "\<not> bit d3 0 \<and> \<not> bit d3 1" by (simp add: bit_simps)
    with s show "bit (third_digit (second_byte d2 d3) 0) 0 = bit d3 0"
      "bit (third_digit (second_byte d2 d3) 0) 1 = bit d3 1"
      "bit (third_digit (second_byte d2 d3) 0) 2 = bit d3 2"
      "bit (third_digit (second_byte d2 d3) 0) 3 = bit d3 3"
      "bit (third_digit (second_byte d2 d3) 0) 4 = bit d3 4"
      "bit (third_digit (second_byte d2 d3) 0) 5 = bit d3 5"
      "bit (third_digit (second_byte d2 d3) 0) 6 = bit d3 6"
      "bit (third_digit (second_byte d2 d3) 0) 7 = bit d3 7"
      by (simp_all add: digit_defs byte_defs bit_simps small_def)
  qed
  show "second_digit a 0 AND 15 = 0" "third_digit b 0 AND 3 = 0"
    by (rule byte_eqI; simp add: digit_defs bit_simps)+
qed

text \<open>One digit shifted into the accumulator.\<close>

definition shift_in :: "u32 \<Rightarrow> u8 \<Rightarrow> u32" where
  "shift_in A d = push_bit 6 A OR ucast d"

lemma written_bytes:
  "small d1 \<Longrightarrow> small d2 \<Longrightarrow> ucast (drop_bit 4 (shift_in (shift_in A d1) d2) AND 0xff) = first_byte d1 d2"
  "small d2 \<Longrightarrow> small d3 \<Longrightarrow> ucast (drop_bit 2 (shift_in (shift_in A d2) d3) AND 0xff) = second_byte d2 d3"
  "small d3 \<Longrightarrow> small d4 \<Longrightarrow> ucast (shift_in (shift_in A d3) d4 AND 0xff) = third_byte d3 d4"
  by (rule byte_eqI; simp add: shift_in_def byte_defs bit_simps small_def)+

lemma ucast_zero: "ucast (d :: u8) = (0 :: u32) \<longleftrightarrow> d = 0"
proof
  assume z: "ucast d = (0 :: u32)"
  have "bit d n = bit (ucast d :: u32) n" for n by (auto simp: bit_simps dest: bit_imp_le_length)
  then show "d = 0" unfolding z by (intro bit_eqI) simp
qed simp

lemma left_over:
  "small d \<Longrightarrow> shift_in A d AND 15 = 0 \<longleftrightarrow> d AND 15 = 0"
  "small d \<Longrightarrow> shift_in A d AND 3 = 0 \<longleftrightarrow> d AND 3 = 0"
proof -
  have m: "(15 :: u32) = mask 4" "(15 :: u8) = mask 4" "(3 :: u32) = mask 2" "(3 :: u8) = mask 2"
    by (simp_all add: mask_eq_exp_minus_1)
  have "shift_in A d AND 15 = ucast (d AND 15)" "shift_in A d AND 3 = ucast (d AND 3)"
    unfolding m by (rule bit_word_eqI; auto simp: shift_in_def bit_simps)+
  then show "small d \<Longrightarrow> shift_in A d AND 15 = 0 \<longleftrightarrow> d AND 15 = 0"
    "small d \<Longrightarrow> shift_in A d AND 3 = 0 \<longleftrightarrow> d AND 3 = 0"
    by (simp_all add: push_bit_eq_mult ucast_zero)
qed

section \<open>The alphabet\<close>

lemma small_less: "small d \<Longrightarrow> unat d < 64"
proof -
  assume d: "small d"
  have "d = take_bit 6 d"
  proof (rule bit_word_eqI)
    fix n assume "n < LENGTH(8)"
    then have "n < 6 \<or> n = 6 \<or> n = 7" by auto
    then show "bit d n = bit (take_bit 6 d) n" using d by (auto simp: bit_take_bit_iff small_def)
  qed
  then have "unat d = take_bit 6 (unat d)" by (metis unsigned_take_bit_eq)
  then show ?thesis using take_bit_nat_less_exp[of 6 "unat d"] by simp
qed

lemma less_small: "unat d < 64 \<Longrightarrow> small d"
proof -
  assume "unat d < 64"
  then have "take_bit 6 (unat d) = unat d" by (intro take_bit_nat_eq_self) simp
  then have "take_bit 6 d = d" by (metis unsigned_take_bit_eq unsigned_word_eqI)
  then have bits: "bit d n = bit (take_bit 6 d) n" for n by simp
  show ?thesis using bits[of 6] bits[of 7] by (simp add: small_def bit_take_bit_iff)
qed

lemma decode_standard_table: "map decode_digit STANDARD = map (\<lambda>n. Some (of_nat n)) [0..<64]"
  by (simp add: STANDARD_def decode_digit_def upt_rec)

lemma length_STANDARD [simp]: "length STANDARD = 64"
  by (simp add: STANDARD_def)

lemma decode_digit_nth: "n < 64 \<Longrightarrow> decode_digit (STANDARD ! n) = Some (of_nat n)"
  using arg_cong[OF decode_standard_table, of "\<lambda>xs. xs ! n"] by simp

lemma standard_digit: "small d \<Longrightarrow> decode_digit (STANDARD ! unat d) = Some d"
  using decode_digit_nth[OF small_less] by simp

lemma alphabet: "list_all (\<lambda>b. char_of b \<in> set STANDARD) ([65..<91] @ [97..<123] @ [48..<58] @ [43, 47 :: nat])"
  by code_simp

lemma decode_digit_inv: "decode_digit c = Some d \<Longrightarrow> STANDARD ! unat d = c \<and> small d"
proof -
  assume d: "decode_digit c = Some d"
  then have "of_char c \<in> {65..<91} \<union> ({97..<123} \<union> ({48..<58} \<union> {43, 47 :: nat}))"
    by (auto simp: decode_digit_def Let_def split: if_splits)
  then have "of_char c \<in> set ([65..<91] @ [97..<123] @ [48..<58] @ [43, 47 :: nat])"
    by (simp only: set_append set_upt list.set)
  with alphabet have "char_of (of_char c :: nat) \<in> set STANDARD" unfolding list_all_iff by blast
  then obtain n where n: "n < 64" "STANDARD ! n = c" by (auto simp: in_set_conv_nth)
  then have "d = of_nat n" using d decode_digit_nth by auto
  then have "unat d = n" using n(1) by (simp add: unat_of_nat)
  then show ?thesis using n less_small by simp
qed

lemma decode_digit_pad [simp]: "decode_digit (CHR ''='') = None"
  by (simp add: decode_digit_def)

fun digits_of :: "u8 list \<Rightarrow> u8 list" where
  "digits_of [] = []"
| "digits_of [a] = [first_digit a, second_digit a 0]"
| "digits_of [a, b] = [first_digit a, second_digit a b, third_digit b 0]"
| "digits_of (a # b # c # rest) =
     [first_digit a, second_digit a b, third_digit b c, fourth_digit c] @ digits_of rest"

definition padding_of :: "u8 list \<Rightarrow> nat" where
  "padding_of bs = (if length bs mod 3 = 1 then 2 else if length bs mod 3 = 2 then 1 else 0)"

fun bytes_of :: "u8 list \<Rightarrow> u8 list option" where
  "bytes_of [] = Some []"
| "bytes_of [d] = None"
| "bytes_of [d1, d2] = (if d2 AND 15 \<noteq> 0 then None else Some [first_byte d1 d2])"
| "bytes_of [d1, d2, d3] =
     (if d3 AND 3 \<noteq> 0 then None else Some [first_byte d1 d2, second_byte d2 d3])"
| "bytes_of (d1 # d2 # d3 # d4 # rest) =
     map_option (\<lambda>bs. first_byte d1 d2 # second_byte d2 d3 # third_byte d3 d4 # bs) (bytes_of rest)"

lemma mod34 [simp]: "Suc (Suc (Suc n)) mod 3 = n mod 3" "Suc (Suc (Suc (Suc n))) mod 4 = n mod 4"
  by presburger+

lemma encode_digits:
  "encode bs table pad = map (\<lambda>d. table ! unat d) (digits_of bs)
     @ (if pad then replicate (padding_of bs) (CHR ''='') else [])"
  by (induction bs table pad rule: encode.induct) (simp_all add: padding_of_def numeral_2_eq_2)

lemma digits_of_small: "list_all small (digits_of bs)"
  by (induction bs rule: digits_of.induct) (simp_all add: code_digits_small)

lemma length_digits_of:
  "length (digits_of bs) mod 4 = (if length bs mod 3 = 1 then 2 else if length bs mod 3 = 2 then 3 else 0)"
  by (induction bs rule: digits_of.induct) simp_all

lemma bytes_of_digits_of: "bytes_of (digits_of bs) = Some bs"
  by (induction bs rule: digits_of.induct)
    (simp_all add: bytes_of_digits pads_of_bytes)

lemma digits_of_bytes_of: "bytes_of ds = Some bs \<Longrightarrow> list_all small ds \<Longrightarrow> digits_of bs = ds"
  by (induction ds arbitrary: bs rule: bytes_of.induct)
    (auto simp: digits_of_bytes pads_of_bytes split: if_splits)

lemma bytes_iff: "list_all small ds \<Longrightarrow> bytes_of ds = Some bs \<longleftrightarrow> digits_of bs = ds"
  using digits_of_bytes_of bytes_of_digits_of by blast

section \<open>The two passes\<close>

lemma decode_bits_digit:
  "decode_digit c = Some d \<Longrightarrow> pending < 2 \<Longrightarrow> decode_bits (c # cs) A pending out = decode_bits cs (shift_in A d) (pending + 6) out"
  "decode_digit c = Some d \<Longrightarrow> 2 \<le> pending \<Longrightarrow> decode_bits (c # cs) A pending out =
    decode_bits cs (shift_in A d) (pending - 2) (out @ [ucast (drop_bit (pending - 2) (shift_in A d) AND 0xff)])"
  by (auto simp: shift_in_def Let_def)

lemma decode_bits_end:
  assumes "pads = [] \<or> hd pads = CHR ''=''"
  shows "decode_bits pads A pending out =
    (if pending \<noteq> 0 \<and> A AND (push_bit pending 1 - 1) \<noteq> 0 then None else Some out)"
  using assms by (cases pads) auto

lemma decode_bits_run:
  assumes pads: "pads = [] \<or> hd pads = CHR ''=''"
  shows "map decode_digit cs = map Some ds \<Longrightarrow> list_all small ds \<Longrightarrow> length ds mod 4 \<noteq> 1 \<Longrightarrow>
    decode_bits (cs @ pads) A 0 out = map_option ((@) out) (bytes_of ds)"
proof (induction ds arbitrary: cs A out rule: bytes_of.induct)
  case 1
  then show ?case by (simp add: decode_bits_end[OF pads])
next
  case (3 d1 d2)
  then obtain c1 c2 where "cs = [c1, c2]" "decode_digit c1 = Some d1" "decode_digit c2 = Some d2" by auto
  with 3 show ?case
    by (simp add: decode_bits_digit decode_bits_end[OF pads] written_bytes left_over del: decode_bits.simps)
next
  case (4 d1 d2 d3)
  then obtain c1 c2 c3 where "cs = [c1, c2, c3]" "decode_digit c1 = Some d1" "decode_digit c2 = Some d2"
    "decode_digit c3 = Some d3" by auto
  with 4 show ?case
    by (simp add: decode_bits_digit decode_bits_end[OF pads] written_bytes left_over del: decode_bits.simps)
next
  case (5 d1 d2 d3 d4 ds)
  then obtain c1 c2 c3 c4 cs' where "cs = c1 # c2 # c3 # c4 # cs'" "decode_digit c1 = Some d1"
    "decode_digit c2 = Some d2" "decode_digit c3 = Some d3" "decode_digit c4 = Some d4"
    "map decode_digit cs' = map Some ds"
    by (auto simp: map_eq_Cons_conv)
  with 5 show ?case
    by (cases "bytes_of ds") (simp_all add: decode_bits_digit written_bytes del: decode_bits.simps)
qed simp

lemma count_pads:
  "count_symbols cs n p = Some (n', p') \<Longrightarrow> 0 < p \<Longrightarrow> n' = n \<and> p \<le> p' \<and> cs = replicate (p' - p) (CHR ''='')"
proof (induction cs arbitrary: p)
  case (Cons c cs)
  then have "c = CHR ''=''" "count_symbols cs n (p + 1) = Some (n', p')" by (simp_all split: if_splits)
  with Cons.IH[OF this(2)] show ?case by (simp add: Suc_diff_le flip: replicate_Suc Suc_diff_Suc)
qed simp

lemma count_sound:
  "count_symbols cs n 0 = Some (n', p') \<Longrightarrow>
    \<exists>ds. cs = ds @ replicate p' (CHR ''='') \<and> list_all (\<lambda>c. decode_digit c \<noteq> None) ds \<and> n' = n + length ds"
proof (induction cs arbitrary: n)
  case (Cons c cs)
  show ?case
  proof (cases "c = CHR ''=''")
    case True
    with Cons.prems have "count_symbols cs n 1 = Some (n', p')" by simp
    from count_pads[OF this] have "n' = n" "1 \<le> p'" "c # cs = replicate p' (CHR ''='')"
      using True by (auto simp: Suc_diff_le simp flip: replicate_Suc)
    then show ?thesis by (intro exI[of _ "[]"]) simp
  next
    case False
    with Cons.prems have d: "decode_digit c \<noteq> None" "count_symbols cs (n + 1) 0 = Some (n', p')"
      by (simp_all split: if_splits)
    from Cons.IH[OF d(2)] obtain ds where "cs = ds @ replicate p' (CHR ''='')"
      "list_all (\<lambda>c. decode_digit c \<noteq> None) ds" "n' = n + 1 + length ds" by blast
    with d(1) show ?thesis by (intro exI[of _ "c # ds"]) simp
  qed
qed simp

lemma count_complete:
  "list_all (\<lambda>c. decode_digit c \<noteq> None) ds \<Longrightarrow> p \<le> 2 \<Longrightarrow>
    count_symbols (ds @ replicate p (CHR ''='')) n 0 = Some (n + length ds, p)"
proof (induction ds arbitrary: n)
  case Nil
  then have "p = 0 \<or> p = 1 \<or> p = 2" by auto
  then show ?case by (auto simp: numeral_2_eq_2)
next
  case (Cons c ds)
  then have "c \<noteq> CHR ''=''" by auto
  with Cons show ?case by simp
qed

text \<open>What the characters stand for once the white space is gone.\<close>

definition visible :: "string \<Rightarrow> string" where
  "visible text = filter (\<lambda>c. \<not> is_ascii_whitespace c) text"

lemma digits_are_digits: "list_all (\<lambda>c. decode_digit c \<noteq> None) (map (\<lambda>d. STANDARD ! unat d) (digits_of bs))"
  using digits_of_small[of bs] standard_digit by (fastforce simp: list_all_iff)

lemma digits_are_codes: "map decode_digit (map (\<lambda>d. STANDARD ! unat d) (digits_of bs)) = map Some (digits_of bs)"
  using digits_of_small[of bs] standard_digit by (simp add: list_all_iff)

lemma lengths_ok_iff:
  "lengths_ok n p \<longleftrightarrow> n mod 4 \<noteq> 1 \<and> (p = 0 \<or> p = (4 - n mod 4) mod 4)"
proof -
  have "n mod 4 = 0 \<or> n mod 4 = 1 \<or> n mod 4 = 2 \<or> n mod 4 = 3" by presburger
  then show ?thesis by (auto simp: lengths_ok_def)
qed

lemma padding_of_digits: "padding_of bs = (4 - length (digits_of bs) mod 4) mod 4"
  by (simp add: length_digits_of padding_of_def)

lemma pads_hd: "replicate p (CHR ''='') = [] \<or> hd (replicate p (CHR ''='')) = CHR ''=''"
  by (cases p) auto

lemma decode_encode:
  assumes "p = 0 \<or> p = padding_of bs"
    and "visible text = map (\<lambda>d. STANDARD ! unat d) (digits_of bs) @ replicate p (CHR ''='')"
  shows "decode_standard text = Some bs"
proof -
  let ?ds = "digits_of bs"
  have "p \<le> 2" using assms(1) by (auto simp: padding_of_def)
  note count = count_complete[OF digits_are_digits this, of bs 0]
  have ok: "lengths_ok (length ?ds) p" and l: "length ?ds mod 4 \<noteq> 1"
    using assms(1) by (auto simp: lengths_ok_iff padding_of_digits length_digits_of)
  from decode_bits_run[OF pads_hd digits_are_codes digits_of_small l, of p 0 "[]"]
  have "decode_bits (visible text) 0 0 [] = Some bs"
    by (simp add: assms(2) bytes_of_digits_of)
  with count ok show ?thesis
    by (simp add: decode_standard_def assms(2)[unfolded visible_def] Let_def visible_def)
qed

lemma decode_sound:
  assumes "decode_standard text = Some bs"
  shows "\<exists>p. (p = 0 \<or> p = padding_of bs) \<and>
    visible text = map (\<lambda>d. STANDARD ! unat d) (digits_of bs) @ replicate p (CHR ''='')"
proof -
  from assms obtain n p where c: "count_symbols (visible text) 0 0 = Some (n, p)" "lengths_ok n p"
    "decode_bits (visible text) 0 0 [] = Some bs"
    by (auto simp: decode_standard_def visible_def Let_def split: option.splits prod.splits if_splits)
  from count_sound[OF c(1)] obtain cs where cs: "visible text = cs @ replicate p (CHR ''='')"
    "list_all (\<lambda>c. decode_digit c \<noteq> None) cs" "n = length cs" by auto
  define ds where "ds = map (\<lambda>c. the (decode_digit c)) cs"
  have codes: "map decode_digit cs = map Some ds" using cs(2) by (auto simp: ds_def list_all_iff)
  have small: "list_all small ds"
    using cs(2) decode_digit_inv by (auto simp: ds_def list_all_iff)
  have chars: "cs = map (\<lambda>d. STANDARD ! unat d) ds"
    unfolding ds_def map_map using cs(2) decode_digit_inv
    by (intro map_idI[symmetric]) (auto simp: list_all_iff)
  have l: "length ds mod 4 \<noteq> 1" using c(2) cs(3) by (simp add: lengths_ok_iff ds_def)
  have "decode_bits (cs @ replicate p (CHR ''='')) 0 0 [] = bytes_of ds"
    using decode_bits_run[OF pads_hd codes small l, of p 0 "[]"] by (cases "bytes_of ds") simp_all
  then have "bytes_of ds = Some bs" using c(3) cs(1) by simp
  then have "digits_of bs = ds" using small bytes_iff by blast
  then show ?thesis using cs chars c(2) by (intro exI[of _ p]) (auto simp: lengths_ok_iff padding_of_digits)
qed

section \<open>Properties\<close>

text \<open>C29: The decoder accepts exactly the encodings: a text, less its white space, decodes to some bytes
  iff it is the padded or the unpadded standard encoding of them. So encoding round-trips, and no
  two texts that differ beyond padding and white space decode alike.\<close>

theorem base64_exact:
  "decode_standard text = Some bs \<longleftrightarrow>
     visible text = standard bs \<or> visible text = encode bs STANDARD False"
proof
  assume "decode_standard text = Some bs"
  from decode_sound[OF this] show "visible text = standard bs \<or> visible text = encode bs STANDARD False"
    by (auto simp: standard_def encode_digits)
next
  assume "visible text = standard bs \<or> visible text = encode bs STANDARD False"
  then show "decode_standard text = Some bs"
    using decode_encode[of "padding_of bs" bs "text"] decode_encode[of 0 bs "text"]
    by (auto simp: standard_def encode_digits)
qed

end
