(* ===== verification/Std_Net.thy ===== *)
theory Std_Net
  imports Rust_Str
begin

unbundle bit_operations_syntax

text \<open>
  What the network modules use of the standard library: the lossy reading of bytes as UTF-8
  (\<open>String::from_utf8_lossy\<close>), big-endian integers, slices, and the text of \<open>Ipv4Addr\<close> and
  \<open>Ipv6Addr\<close>, which are a \<open>u32\<close> and a \<open>u128\<close>.
\<close>

section \<open>Bytes\<close>

text \<open>\<open>str::as_bytes\<close>\<close>

definition bytes_of_str :: "str \<Rightarrow> u8 list" where
  "bytes_of_str s = map of_char s"

lemma length_bytes_of_str [simp]: "length (bytes_of_str s) = length s"
  by (simp add: bytes_of_str_def)

lemma bytes_of_str_inj: "bytes_of_str s = bytes_of_str t \<Longrightarrow> s = t"
proof -
  have "inj (of_char :: char \<Rightarrow> u8)"
  proof (rule injI)
    fix c d :: char assume e: "(of_char c :: u8) = of_char d"
    have "unat (of_char x :: u8) = of_char x" for x :: char
      by (simp add: of_char_def horner_sum_foldr)
    with e have "(of_char c :: nat) = of_char d" by metis
    then show "c = d" by simp
  qed
  then show "bytes_of_str s = bytes_of_str t \<Longrightarrow> s = t" unfolding bytes_of_str_def by (simp add: inj_map_eq_map)
qed

text \<open>\<open>bytes.get(from..to)\<close> for \<open>from <= to\<close>\<close>

definition get_slice :: "'a list \<Rightarrow> nat \<Rightarrow> nat \<Rightarrow> 'a list option" where
  "get_slice xs from to = (if to \<le> length xs then Some (take (to - from) (drop from xs)) else None)"

definition get_at :: "'a list \<Rightarrow> nat \<Rightarrow> 'a option" where
  "get_at xs i = (if i < length xs then Some (xs ! i) else None)"

definition be16 :: "u8 list \<Rightarrow> nat \<Rightarrow> u16" where
  "be16 bs i = push_bit 8 (ucast (bs ! i)) OR ucast (bs ! (i + 1))"

definition be32 :: "u8 list \<Rightarrow> nat \<Rightarrow> u32" where
  "be32 bs i = push_bit 16 (ucast (be16 bs i)) OR ucast (be16 bs (i + 2))"

definition to_be16 :: "u16 \<Rightarrow> u8 list" where
  "to_be16 w = [ucast (drop_bit 8 w), ucast w]"

fun be_value :: "nat \<Rightarrow> u8 list \<Rightarrow> nat" where
  "be_value acc [] = acc"
| "be_value acc (b # bs) = be_value (acc * 256 + unat b) bs"

lemma be16_to_be16 [simp]: "be16 (to_be16 w @ bs) 0 = w"
proof (rule bit_word_eqI)
  fix n assume "n < LENGTH(16)"
  then show "bit (be16 (to_be16 w @ bs) 0) n = bit w n"
    by (cases "n < 8") (auto simp: be16_def to_be16_def bit_simps dest: bit_imp_le_length)
qed

lemma unat_byte: "unat (b :: u8) < 256"
proof -
  have "unat b < 2 ^ LENGTH(8)" by (rule unsigned_less)
  then show ?thesis by simp
qed

lemma get_slice_length: "get_slice xs from to = Some ys \<Longrightarrow> from \<le> to \<Longrightarrow> length ys = to - from \<and> to \<le> length xs"
  by (auto simp: get_slice_def split: if_splits)

section \<open>Lossy UTF-8\<close>

definition is_cont :: "nat \<Rightarrow> bool" where
  "is_cont b \<longleftrightarrow> 0x80 \<le> b \<and> b < 0xC0"

text \<open>What the second byte of a sequence may be, by the first.\<close>

definition second_ok :: "nat \<Rightarrow> nat \<Rightarrow> bool" where
  "second_ok a b \<longleftrightarrow>
     (if a = 0xE0 then 0xA0 \<le> b \<and> b < 0xC0
      else if a = 0xED then 0x80 \<le> b \<and> b < 0xA0
      else if a = 0xF0 then 0x90 \<le> b \<and> b < 0xC0
      else if a = 0xF4 then 0x80 \<le> b \<and> b < 0x90
      else is_cont b)"

text \<open>The length of the valid sequence or of the malformed prefix a run of bytes starts with.\<close>

fun utf8_chunk :: "nat list \<Rightarrow> bool \<times> nat" where
  "utf8_chunk [] = (False, 0)"
| "utf8_chunk (a # s) =
     (if a < 0x80 then (True, 1)
      else if 0xC2 \<le> a \<and> a \<le> 0xDF then
        (case s of b # _ \<Rightarrow> if is_cont b then (True, 2) else (False, 1) | _ \<Rightarrow> (False, 1))
      else if 0xE0 \<le> a \<and> a \<le> 0xEF then
        (case s of
           b # s' \<Rightarrow>
             if \<not> second_ok a b then (False, 1)
             else (case s' of c # _ \<Rightarrow> if is_cont c then (True, 3) else (False, 2) | _ \<Rightarrow> (False, 2))
         | _ \<Rightarrow> (False, 1))
      else if 0xF0 \<le> a \<and> a \<le> 0xF4 then
        (case s of
           b # s' \<Rightarrow>
             if \<not> second_ok a b then (False, 1)
             else (case s' of
                     c # s'' \<Rightarrow>
                       if \<not> is_cont c then (False, 2)
                       else (case s'' of d # _ \<Rightarrow> if is_cont d then (True, 4) else (False, 3)
                             | _ \<Rightarrow> (False, 3))
                   | _ \<Rightarrow> (False, 2))
         | _ \<Rightarrow> (False, 1))
      else (False, 1))"

lemma utf8_chunk_pos: "s \<noteq> [] \<Longrightarrow> 0 < snd (utf8_chunk s)"
  by (cases s) (auto split: list.split)

function lossy_bytes :: "nat list \<Rightarrow> nat list" where
  "lossy_bytes s =
     (if s = [] then []
      else (let (ok, n) = utf8_chunk s in
            (if ok then take n s else [0xEF, 0xBF, 0xBD]) @ lossy_bytes (drop n s)))"
  by pat_completeness auto

termination
proof (relation "measure length")
  show "wf (measure length)" by simp
next
  fix s :: "nat list" and x ok n
  assume "s \<noteq> []" "x = utf8_chunk s" "(ok, n) = x"
  then show "(drop n s, s) \<in> measure length"
    using utf8_chunk_pos[of s] by (metis diff_less in_measure length_drop length_greater_0_conv snd_conv)
qed

declare lossy_bytes.simps [simp del]

definition from_utf8_lossy :: "u8 list \<Rightarrow> str" where
  "from_utf8_lossy bs = map char_of (lossy_bytes (map unat bs))"

lemma lossy_ascii: "list_all (\<lambda>b. b < 0x80) s \<Longrightarrow> lossy_bytes s = s"
  by (induction s) (simp_all add: lossy_bytes.simps[of "_ # _"] lossy_bytes.simps[of "[]"])

section \<open>Addresses\<close>

fun show_hex :: "nat \<Rightarrow> str" where
  "show_hex n = (if n < 16 then [''0123456789abcdef'' ! n] else show_hex (n div 16) @ [''0123456789abcdef'' ! (n mod 16)])"

declare show_hex.simps [simp del]

definition show_ipv4 :: "u32 \<Rightarrow> str" where
  "show_ipv4 a = join ''.'' (map (\<lambda>i. show_nat (unat (drop_bit i a AND 0xff))) [24, 16, 8, 0])"

definition segments :: "128 word \<Rightarrow> nat list" where
  "segments a = map (\<lambda>i. unat (drop_bit (16 * i) a AND 0xffff)) [7, 6, 5, 4, 3, 2, 1, 0]"

text \<open>The first longest run of zero segments, as its start and length.\<close>

fun zero_run :: "nat \<Rightarrow> nat list \<Rightarrow> nat \<times> nat \<Rightarrow> nat \<times> nat \<Rightarrow> nat \<times> nat" where
  "zero_run i [] current longest = longest"
| "zero_run i (s # ss) (cs, cl) longest =
     (if s = 0 then
        (let current = (if cl = 0 then i else cs, cl + 1) in
         zero_run (i + 1) ss current (if snd current > snd longest then current else longest))
      else zero_run (i + 1) ss (0, 0) longest)"

definition show_segments :: "nat list \<Rightarrow> str" where
  "show_segments ss = join '':'' (map show_hex ss)"

definition show_ipv6 :: "128 word \<Rightarrow> str" where
  "show_ipv6 a =
     (let ss = segments a in
      if take 6 ss = [0, 0, 0, 0, 0, 0xffff]
      then ''::ffff:'' @ show_ipv4 (ucast a)
      else
        (let (start, len) = zero_run 0 ss (0, 0) (0, 0) in
         if len > 1
         then show_segments (take start ss) @ ''::'' @ show_segments (drop (start + len) ss)
         else show_segments ss))"

datatype ip_addr = V4 u32 | V6 "128 word"

fun show_ip :: "ip_addr \<Rightarrow> str" where
  "show_ip (V4 a) = show_ipv4 a"
| "show_ip (V6 a) = show_ipv6 a"

end
