(* ===== verification/Dns_Wire.thy ===== *)
theory Dns_Wire
  imports Std_Net Base64
begin

text \<open>
  \<open>src/dns_wire.rs\<close>: DNS messages in wire form. A body is a list of bytes; a name read from it is
  presentation text. Record types keep their numbers; \<open>A\<close> and \<open>AAAA\<close> of the source are
  \<open>TYPE_A\<close> and \<open>TYPE_AAAA\<close>.
\<close>

section \<open>Data\<close>

definition UDP_PAYLOAD :: u16 where "UDP_PAYLOAD = 4096"
definition MAX_POINTERS :: nat where "MAX_POINTERS = 32"
definition MAX_NAME_OCTETS :: nat where "MAX_NAME_OCTETS = 255"
definition TYPE_A :: u16 where "TYPE_A = 1"
definition TYPE_AAAA :: u16 where "TYPE_AAAA = 28"
definition NOERROR :: u8 where "NOERROR = 0"
definition NXDOMAIN :: u8 where "NXDOMAIN = 3"

datatype wire_error = Truncated | BadName | NotAnswer | BadQuery str

record extended_error =
  code :: u16
  ee_text :: str

datatype rdata =
    A u32
  | Aaaa "128 word"
  | Name str
  | Mx u16 str
  | Txt "str list"
  | Soa str str u32 u32 u32 u32 u32
  | Srv u16 u16 u16 str
  | Caa u8 str str
  | Other "u8 list"

record dns_question =
  q_name :: str
  q_kind :: u16

record dns_record =
  r_name :: str
  r_kind :: u16
  ttl :: u32
  r_data :: rdata

record message =
  msg_id :: u16
  rcode :: u8
  truncated :: bool
  msg_question :: "dns_question option"
  answers :: "dns_record list"
  extended_errs :: "extended_error list"

definition WITHHELD :: "u16 list" where
  "WITHHELD = [15, 16, 17]"

definition ERROR_NAMES :: "str list" where
  "ERROR_NAMES =
    [''Other'', ''Unsupported DNSKEY Algorithm'', ''Unsupported DS Digest Type'', ''Stale Answer'',
     ''Forged Answer'', ''DNSSEC Indeterminate'', ''DNSSEC Bogus'', ''Signature Expired'',
     ''Signature Not Yet Valid'', ''DNSKEY Missing'', ''RRSIGs Missing'', ''No Zone Key Bit Set'',
     ''NSEC Missing'', ''Cached Error'', ''Not Ready'', ''Blocked'', ''Censored'', ''Filtered'',
     ''Prohibited'', ''Stale NXDOMAIN Answer'', ''Not Authoritative'', ''Not Supported'',
     ''No Reachable Authority'', ''Network Error'', ''Invalid Data'']"

definition describe :: "extended_error \<Rightarrow> str" where
  "describe e =
     (let n = unat (code e);
          name = (if n < length ERROR_NAMES then ERROR_NAMES ! n else ''Unassigned'')
      in if ee_text e = [] then show_nat n @ '' '' @ name
         else show_nat n @ '' '' @ name @ '': '' @ ee_text e)"

definition withheld :: "extended_error \<Rightarrow> bool" where
  "withheld e \<longleftrightarrow> List.member WITHHELD (code e)"

definition addresses :: "message \<Rightarrow> ip_addr list" where
  "addresses m =
     List.map_filter (\<lambda>r. case r_data r of A a \<Rightarrow> Some (V4 a) | Aaaa a \<Rightarrow> Some (V6 a) | _ \<Rightarrow> None) (answers m)"

section \<open>Presentation\<close>

definition backslash :: char where "backslash = CHR 0x5C"

definition quote :: char where "quote = CHR 0x22"

definition quoted :: "str \<Rightarrow> str" where
  "quoted s = [quote] @ concat (map (\<lambda>c. if c = backslash \<or> c = quote then [backslash, c] else [c]) s) @ [quote]"

definition shown :: "'a::len word \<Rightarrow> str" where
  "shown w = show_nat (unat w)"

fun presentation :: "rdata \<Rightarrow> str" where
  "presentation (A a) = show_ipv4 a"
| "presentation (Aaaa a) = show_ipv6 a"
| "presentation (Name n) = n"
| "presentation (Mx preference exchange) = shown preference @ '' '' @ exchange"
| "presentation (Txt strings) = join '' '' (map quoted strings)"
| "presentation (Soa mname rname serial refresh retry expire minimum) =
     join '' '' [mname, rname, shown serial, shown refresh, shown retry, shown expire, shown minimum]"
| "presentation (Srv priority weight port target) =
     join '' '' [shown priority, shown weight, shown port, target]"
| "presentation (Caa flags tag value) = shown flags @ '' '' @ tag @ '' '' @ [quote] @ value @ [quote]"
| "presentation (Other bytes) =
     (if bytes = [] then [backslash] @ ''# 0''
      else [backslash] @ ''# '' @ show_nat (length bytes) @ '' '' @ base16_lower bytes)"

definition type_name :: "u16 \<Rightarrow> str" where
  "type_name kind =
     (if kind = TYPE_A then ''A'' else if kind = 2 then ''NS'' else if kind = 5 then ''CNAME''
      else if kind = 6 then ''SOA'' else if kind = 12 then ''PTR'' else if kind = 15 then ''MX''
      else if kind = 16 then ''TXT'' else if kind = TYPE_AAAA then ''AAAA'' else if kind = 33 then ''SRV''
      else if kind = 39 then ''DNAME'' else if kind = 257 then ''CAA'' else ''TYPE'' @ shown kind)"

definition rcode_name :: "u8 \<Rightarrow> str" where
  "rcode_name r =
     (if r = NOERROR then ''NOERROR'' else if r = 1 then ''FORMERR'' else if r = 2 then ''SERVFAIL''
      else if r = NXDOMAIN then ''NXDOMAIN'' else if r = 4 then ''NOTIMP'' else if r = 5 then ''REFUSED''
      else ''RCODE'' @ shown r)"

section \<open>Queries\<close>

definition bare_name :: "str \<Rightarrow> str" where
  "bare_name name = (case strip_suffix ''.'' name of Some b \<Rightarrow> b | None \<Rightarrow> name)"

definition askable_name :: "str \<Rightarrow> bool" where
  "askable_name name \<longleftrightarrow>
     (let bare = bare_name name in
      length bare \<le> 253 \<and> list_all (\<lambda>c. (of_char c :: nat) < 128) bare \<and>
      list_all (\<lambda>l. 1 \<le> length l \<and> length l \<le> 63) (split_on (CHR ''.'') bare))"

fun query_labels :: "str \<Rightarrow> str list \<Rightarrow> wire_error + u8 list" where
  "query_labels name [] = Inr []"
| "query_labels name (l # ls) =
     (if length l \<le> 255 \<and> 1 \<le> length l \<and> length l \<le> 63 then
        (case query_labels name ls of
           Inl e \<Rightarrow> Inl e
         | Inr rest \<Rightarrow> Inr ((of_nat (length l) # bytes_of_str l) @ rest))
      else Inl (BadQuery name))"

definition query :: "u16 \<Rightarrow> str \<Rightarrow> u16 \<Rightarrow> wire_error + u8 list" where
  "query i name kind =
     (if \<not> askable_name name then Inl (BadQuery name)
      else
        (case query_labels name (split_on (CHR ''.'') (bare_name name)) of
           Inl e \<Rightarrow> Inl e
         | Inr labels \<Rightarrow>
             Inr (to_be16 i @ [1, 0, 0, 1, 0, 0, 0, 0, 0, 1] @ labels @ [0] @ to_be16 kind @ [0, 1]
                  @ [0, 0, 41] @ to_be16 UDP_PAYLOAD @ [0, 0, 0, 0, 0, 0])))"

section \<open>Names\<close>

definition show3 :: "nat \<Rightarrow> str" where
  "show3 n = (let s = show_nat n in replicate (3 - length s) (CHR ''0'') @ s)"

definition escape :: "u8 \<Rightarrow> str" where
  "escape b =
     (if b = 46 \<or> b = 92 then [backslash, char_of (unat b)]
      else if 0x21 \<le> b \<and> b \<le> 0x7e then [char_of (unat b)]
      else backslash # show3 (unat b))"

function read_name_loop ::
  "u8 list \<Rightarrow> nat \<Rightarrow> str list \<Rightarrow> nat option \<Rightarrow> nat \<Rightarrow> nat \<Rightarrow> wire_error + (str \<times> nat)"
where
  "read_name_loop body pos labels resume pointers octets =
     (case get_at body pos of
        None \<Rightarrow> Inl Truncated
      | Some len \<Rightarrow>
          if len = 0 then
            Inr (if labels = [] then ''.'' else join ''.'' labels,
                 case resume of Some r \<Rightarrow> r | None \<Rightarrow> pos + 1)
          else if len \<le> 63 then
            (let octets' = octets + (1 + unat len) in
             if octets' > MAX_NAME_OCTETS then Inl BadName
             else
               (case get_slice body (pos + 1) (pos + 1 + unat len) of
                  None \<Rightarrow> Inl Truncated
                | Some label \<Rightarrow>
                    read_name_loop body (pos + (1 + unat len))
                      (labels @ [concat (map escape label)]) resume pointers octets'))
          else if 0xc0 \<le> len then
            (case get_at body (pos + 1) of
               None \<Rightarrow> Inl Truncated
             | Some low \<Rightarrow>
                 if pointers + 1 > MAX_POINTERS then Inl BadName
                 else
                   read_name_loop body
                     (unat (push_bit 8 (ucast (len AND 0x3f)) OR ucast low :: u16))
                     labels (case resume of None \<Rightarrow> Some (pos + 2) | Some r \<Rightarrow> Some r)
                     (pointers + 1) octets)
          else Inl BadName)"
  by pat_completeness auto

text \<open>Every label costs at least two of the octets a name may have, every pointer one of the pointers.\<close>

termination
  by (relation "measure (\<lambda>(_, _, _, _, pointers, octets). (MAX_POINTERS + 1 - pointers) + (MAX_NAME_OCTETS + 1 - octets))")
    (auto simp: MAX_POINTERS_def MAX_NAME_OCTETS_def)

declare read_name_loop.simps [simp del]

definition read_name :: "u8 list \<Rightarrow> nat \<Rightarrow> wire_error + (str \<times> nat)" where
  "read_name body pos = read_name_loop body pos [] None 0 1"

definition name_within :: "u8 list \<Rightarrow> nat \<Rightarrow> nat \<Rightarrow> wire_error + str" where
  "name_within body start end =
     (if start \<ge> end then Inl Truncated
      else (case read_name body start of
              Inl e \<Rightarrow> Inl e
            | Inr (name, nxt) \<Rightarrow> if nxt > end then Inl Truncated else Inr name))"

section \<open>Records\<close>

fun character_strings :: "u8 list \<Rightarrow> str list \<Rightarrow> wire_error + str list" where
  "character_strings [] out = Inr out"
| "character_strings (len # rest) out =
     (case get_slice rest 0 (unat len) of
        None \<Rightarrow> Inl Truncated
      | Some text \<Rightarrow> character_strings (drop (unat len) rest) (out @ [from_utf8_lossy text]))"

definition read_soa :: "u8 list \<Rightarrow> nat \<Rightarrow> nat \<Rightarrow> wire_error + rdata" where
  "read_soa body start end =
     (case read_name body start of
        Inl e \<Rightarrow> Inl e
      | Inr (mname, at1) \<Rightarrow>
          (case read_name body at1 of
             Inl e \<Rightarrow> Inl e
           | Inr (rname, at2) \<Rightarrow>
               (case get_slice body at2 (at2 + 20) of
                  None \<Rightarrow> Inl Truncated
                | Some ns \<Rightarrow>
                    if at2 + 20 \<le> end
                    then Inr (Soa mname rname (be32 ns 0) (be32 ns 4) (be32 ns 8) (be32 ns 12) (be32 ns 16))
                    else Inl Truncated)))"

definition short :: "u8 list \<Rightarrow> nat \<Rightarrow> wire_error + u16" where
  "short rdata pos =
     (case get_slice rdata pos (pos + 2) of None \<Rightarrow> Inl Truncated | Some b \<Rightarrow> Inr (be16 b 0))"

fun word_of :: "u8 list \<Rightarrow> 'a::len word" where
  "word_of bs = of_nat (be_value 0 bs)"

definition read_srv :: "u8 list \<Rightarrow> u8 list \<Rightarrow> nat \<Rightarrow> nat \<Rightarrow> wire_error + rdata" where
  "read_srv body rdata start end =
     (case short rdata 0 of
        Inl e \<Rightarrow> Inl e
      | Inr priority \<Rightarrow>
          (case short rdata 2 of
             Inl e \<Rightarrow> Inl e
           | Inr weight \<Rightarrow>
               (case short rdata 4 of
                  Inl e \<Rightarrow> Inl e
                | Inr port \<Rightarrow>
                    (case name_within body (start + 6) end of
                       Inl e \<Rightarrow> Inl e
                     | Inr target \<Rightarrow> Inr (Srv priority weight port target)))))"

fun read_caa :: "u8 list \<Rightarrow> wire_error + rdata" where
  "read_caa (flags # len # rest) =
     (case get_slice rest 0 (unat len) of
        None \<Rightarrow> Inl Truncated
      | Some tag \<Rightarrow> Inr (Caa flags (from_utf8_lossy tag) (from_utf8_lossy (drop (unat len) rest))))"
| "read_caa _ = Inl Truncated"

definition read_data :: "u8 list \<Rightarrow> u16 \<Rightarrow> nat \<Rightarrow> nat \<Rightarrow> wire_error + rdata" where
  "read_data body kind start end =
     (let rdata = take (end - start) (drop start body) in
      if kind = TYPE_A then (if length rdata = 4 then Inr (A (word_of rdata)) else Inl Truncated)
      else if kind = TYPE_AAAA then (if length rdata = 16 then Inr (Aaaa (word_of rdata)) else Inl Truncated)
      else if kind = 2 \<or> kind = 5 \<or> kind = 12 \<or> kind = 39 then
        (case name_within body start end of Inl e \<Rightarrow> Inl e | Inr n \<Rightarrow> Inr (Name n))
      else if kind = 15 then
        (case short rdata 0 of
           Inl e \<Rightarrow> Inl e
         | Inr preference \<Rightarrow>
             (case name_within body (start + 2) end of
                Inl e \<Rightarrow> Inl e
              | Inr exchange \<Rightarrow> Inr (Mx preference exchange)))
      else if kind = 16 then
        (case character_strings rdata [] of Inl e \<Rightarrow> Inl e | Inr ss \<Rightarrow> Inr (Txt ss))
      else if kind = 6 then read_soa body start end
      else if kind = 33 then read_srv body rdata start end
      else if kind = 257 then read_caa rdata
      else Inr (Other rdata))"

definition read_record :: "u8 list \<Rightarrow> nat \<Rightarrow> wire_error + (dns_record \<times> nat)" where
  "read_record body at0 =
     (case read_name body at0 of
        Inl e \<Rightarrow> Inl e
      | Inr (name, pos) \<Rightarrow>
          (case get_slice body pos (pos + 10) of
             None \<Rightarrow> Inl Truncated
           | Some fixed \<Rightarrow>
               (let start = pos + 10; end = start + unat (be16 fixed 8) in
                if end > length body then Inl Truncated
                else
                  (case read_data body (be16 fixed 0) start end of
                     Inl e \<Rightarrow> Inl e
                   | Inr d \<Rightarrow>
                       Inr (\<lparr>r_name = name, r_kind = be16 fixed 0, ttl = be32 fixed 4, r_data = d\<rparr>, end)))))"

section \<open>Messages\<close>

definition question :: "u8 list \<Rightarrow> wire_error + dns_question" where
  "question body =
     (case get_slice body 0 12 of
        None \<Rightarrow> Inl Truncated
      | Some header \<Rightarrow>
          if be16 header 4 = 0 then Inl Truncated
          else
            (case read_name body 12 of
               Inl e \<Rightarrow> Inl e
             | Inr (name, pos) \<Rightarrow>
                 (case get_slice body pos (pos + 2) of
                    None \<Rightarrow> Inl Truncated
                  | Some kind \<Rightarrow> Inr \<lparr>q_name = name, q_kind = be16 kind 0\<rparr>)))"

fun read_questions :: "u8 list \<Rightarrow> nat \<Rightarrow> nat \<Rightarrow> dns_question option \<Rightarrow> wire_error + (dns_question option \<times> nat)" where
  "read_questions body 0 pos first = Inr (first, pos)"
| "read_questions body (Suc n) pos first =
     (case read_name body pos of
        Inl e \<Rightarrow> Inl e
      | Inr (name, nxt) \<Rightarrow>
          (case get_slice body nxt (nxt + 4) of
             None \<Rightarrow> Inl Truncated
           | Some kind \<Rightarrow>
               read_questions body n (nxt + 4)
                 (case first of Some q \<Rightarrow> Some q
                  | None \<Rightarrow> Some \<lparr>q_name = name, q_kind = be16 kind 0\<rparr>)))"

fun read_answers :: "u8 list \<Rightarrow> nat \<Rightarrow> nat \<Rightarrow> dns_record list \<Rightarrow> wire_error + (dns_record list \<times> nat)" where
  "read_answers body 0 pos out = Inr (out, pos)"
| "read_answers body (Suc n) pos out =
     (case read_record body pos of
        Inl e \<Rightarrow> Inl e
      | Inr (record, nxt) \<Rightarrow> read_answers body n nxt (out @ [record]))"

definition trim_nuls :: "str \<Rightarrow> str" where
  "trim_nuls s = rev (dropWhile (\<lambda>c. c = CHR 0x00) (rev s))"

text \<open>The options of one OPT record.\<close>

function read_options :: "u8 list \<Rightarrow> extended_error list \<Rightarrow> extended_error list" where
  "read_options options out =
     (if length options < 4 then out
      else
        (let opt_code = be16 options 0; len = unat (be16 options 2) in
         case get_slice options 4 (4 + len) of
           None \<Rightarrow> out
         | Some value \<Rightarrow>
             read_options (drop (4 + len) options)
               (if opt_code = 15 \<and> length value \<ge> 2
                then out @ [\<lparr>code = be16 value 0, ee_text = trim_nuls (from_utf8_lossy (drop 2 value))\<rparr>]
                else out)))"
  by pat_completeness auto

termination
  by (relation "measure (\<lambda>(options, _). length options)") auto

declare read_options.simps [simp del]

text \<open>\<open>left\<close> records are still to read, the last \<open>additional\<close> of which are the additional section.\<close>

fun extended_errors :: "u8 list \<Rightarrow> nat \<Rightarrow> nat \<Rightarrow> nat \<Rightarrow> extended_error list \<Rightarrow> extended_error list" where
  "extended_errors body pos 0 additional out = out"
| "extended_errors body pos (Suc left) additional out =
     (case read_record body pos of
        Inl e \<Rightarrow> out
      | Inr (record, nxt) \<Rightarrow>
          extended_errors body nxt left additional
            (case r_data record of
               Other options \<Rightarrow>
                 if Suc left \<le> additional \<and> r_kind record = 41 then read_options options out else out
             | _ \<Rightarrow> out))"

definition parse :: "u8 list \<Rightarrow> wire_error + message" where
  "parse body =
     (case get_slice body 0 12 of
        None \<Rightarrow> Inl Truncated
      | Some header \<Rightarrow>
          (let flags = be16 header 2 in
           if flags AND 0x8000 = 0 then Inl NotAnswer
           else
             (case read_questions body (unat (be16 header 4)) 12 None of
                Inl e \<Rightarrow> Inl e
              | Inr (first, pos) \<Rightarrow>
                  (case read_answers body (unat (be16 header 6)) pos [] of
                     Inl e \<Rightarrow> Inl e
                   | Inr (records, pos') \<Rightarrow>
                       Inr \<lparr>msg_id = be16 header 0, rcode = ucast (flags AND 0x0f),
                            truncated = (flags AND 0x0200 \<noteq> 0), msg_question = first, answers = records,
                            extended_errs = extended_errors body pos'
                              (unat (be16 header 8) + unat (be16 header 10)) (unat (be16 header 10)) []\<rparr>))))"

end
