(* ===== verification/Dns_Correct.thy ===== *)
theory Dns_Correct
  imports Dns_Wire
begin

text \<open>
  What \<open>src/dns_wire.rs\<close> guarantees: a query reads back as the question it asks, names and records
  stay within the message and their bounds, and an answer has exactly the records its header counts.
\<close>

section \<open>Slices\<close>

lemma get_at_Some [simp]: "get_at xs i = Some x \<longleftrightarrow> i < length xs \<and> xs ! i = x"
  by (auto simp: get_at_def)

lemma get_at_pre: "get_at (xs @ y # ys) (length xs) = Some y"
  by simp

lemma get_slice_pre:
  "get_slice (xs @ ys @ zs) (length xs) (length xs + length ys) = Some ys"
  by (simp add: get_slice_def)

section \<open>Reading the labels of a query\<close>

definition escape_label :: "str \<Rightarrow> str" where
  "escape_label l = concat (map escape (bytes_of_str l))"

definition wire_label :: "str \<Rightarrow> u8 list" where
  "wire_label l = of_nat (length l) # bytes_of_str l"

definition wire_size :: "str list \<Rightarrow> nat" where
  "wire_size ls = sum_list (map (\<lambda>l. 1 + length l) ls)"

lemma query_labels_ok:
  "list_all (\<lambda>l. 1 \<le> length l \<and> length l \<le> 63) ls \<Longrightarrow> query_labels name ls = Inr (concat (map wire_label ls))"
  by (induction ls) (auto simp: wire_label_def)

lemma label_byte:
  assumes "1 \<le> n" "n \<le> 63"
  shows "(of_nat n :: u8) \<noteq> 0" "(of_nat n :: u8) \<le> 63" "unat (of_nat n :: u8) = n"
proof -
  show u: "unat (of_nat n :: u8) = n" using assms by (simp add: unat_of_nat)
  show "(of_nat n :: u8) \<noteq> 0" using u assms by (metis unat_0 not_one_le_zero)
  show "(of_nat n :: u8) \<le> 63" using assms by (simp add: word_le_nat_alt unat_of_nat)
qed

lemma read_name_labels:
  "list_all (\<lambda>l. 1 \<le> length l \<and> length l \<le> 63) ls \<Longrightarrow> octets + wire_size ls \<le> MAX_NAME_OCTETS \<Longrightarrow>
    read_name_loop (pre @ concat (map wire_label ls) @ 0 # post) (length pre) labels None pointers octets =
      Inr (if labels @ ls = [] then ''.'' else join ''.'' (labels @ map escape_label ls),
           length pre + wire_size ls + 1)"
proof (induction ls arbitrary: pre labels octets)
  case Nil
  then show ?case by (subst read_name_loop.simps) (simp add: get_at_def wire_size_def)
next
  case (Cons l ls)
  let ?n = "of_nat (length l) :: u8"
  let ?rest = "concat (map wire_label ls) @ 0 # post"
  have l: "1 \<le> length l" "length l \<le> 63" using Cons.prems(1) by simp_all
  have body: "pre @ concat (map wire_label (l # ls)) @ 0 # post = pre @ ?n # bytes_of_str l @ ?rest"
    by (simp add: wire_label_def)
  have "get_slice (pre @ ?n # bytes_of_str l @ ?rest) (length pre + 1) (length pre + 1 + length l)
      = Some (bytes_of_str l)"
    using get_slice_pre[of "pre @ [?n]" "bytes_of_str l" ?rest] by simp
  moreover have "octets + (1 + length l) \<le> MAX_NAME_OCTETS" using Cons.prems(2) by (simp add: wire_size_def)
  ultimately have "read_name_loop (pre @ ?n # bytes_of_str l @ ?rest) (length pre) labels None pointers octets =
    read_name_loop (pre @ ?n # bytes_of_str l @ ?rest) (length pre + (1 + length l))
      (labels @ [escape_label l]) None pointers (octets + (1 + length l))"
    using label_byte[OF l] by (subst read_name_loop.simps) (simp add: get_at_def escape_label_def Let_def)
  also have "\<dots> = Inr (join ''.'' ((labels @ [escape_label l]) @ map escape_label ls),
      length pre + (1 + length l) + wire_size ls + 1)"
    using Cons.IH[of "octets + (1 + length l)" "pre @ ?n # bytes_of_str l" "labels @ [escape_label l]"] Cons.prems
    by (simp add: wire_size_def)
  finally show ?case unfolding body by (simp add: wire_size_def)
qed

lemma split_on_nonempty: "split_on d s \<noteq> []"
  by (induction s) (auto split: list.split)

lemma split_on_size: "wire_size (split_on (CHR ''.'') s) = length s + 1"
proof (induction s)
  case (Cons c s)
  then show ?case using split_on_nonempty[of "CHR ''.''" s]
    by (auto simp: wire_size_def split: list.split)
qed (simp add: wire_size_def)

lemma question_of_body:
  assumes "length h = 12" "be16 h 4 \<noteq> 0" "read_name (h @ r) 12 = Inr (n, length h + k)"
    "r = r1 @ to_be16 kind @ r2" "k = length r1"
  shows "question (h @ r) = Inr \<lparr>q_name = n, q_kind = kind\<rparr>"
proof -
  have "get_slice (h @ r) 0 12 = Some h" using assms(1) by (simp add: get_slice_def)
  moreover have "get_slice (h @ r) (12 + k) (12 + k + 2) = Some (to_be16 kind)"
    using get_slice_pre[of "h @ r1" "to_be16 kind" r2] assms(1,4,5) by (simp add: to_be16_def)
  moreover have "be16 (to_be16 kind) 0 = kind" using be16_to_be16[of kind "[]"] by simp
  ultimately show ?thesis using assms(1,2,3) by (simp add: question_def)
qed

section \<open>Bounds\<close>

lemma length_show_nat: "n < 1000 \<Longrightarrow> length (show_nat n) \<le> 3"
  by (subst show_nat.simps, subst show_nat.simps, subst show_nat.simps) auto

lemma length_escape: "length (escape b) \<le> 4"
proof -
  have "unat b < 1000" using unat_byte[of b] by simp
  from length_show_nat[OF this] show ?thesis by (simp add: escape_def show3_def Let_def)
qed

lemma length_escaped: "length (concat (map escape bs)) \<le> 4 * length bs"
proof (induction bs)
  case (Cons b bs)
  then show ?case using length_escape[of b] by simp
qed simp

lemma length_join_dots: "length (join ''.'' ls) \<le> sum_list (map (\<lambda>l. length l + 1) ls)"
  by (induction "''.''" ls rule: join.induct) auto

lemma read_name_loop_bounds:
  assumes "read_name_loop body pos labels resume pointers octets = Inr (name, nxt)"
    and "case resume of None \<Rightarrow> start \<le> pos | Some r \<Rightarrow> start < r \<and> r \<le> length body"
    and "sum_list (map (\<lambda>l. length l + 1) labels) + 4 \<le> 4 * octets" and "octets \<le> MAX_NAME_OCTETS"
  shows "start < nxt \<and> nxt \<le> length body \<and> length name \<le> 4 * MAX_NAME_OCTETS"
  using assms
proof (induction body pos labels resume pointers octets rule: read_name_loop.induct)
  case (1 body pos labels resume pointers octets)
  obtain len where len: "pos < length body" "body ! pos = len"
    using "1.prems"(1) by (subst (asm) read_name_loop.simps) (auto split: option.splits)
  then have g: "get_at body pos = Some len" by simp
  consider "len = 0" | "len \<noteq> 0" "len \<le> 63" | "len \<noteq> 0" "\<not> len \<le> 63" "0xc0 \<le> len"
    using "1.prems"(1) g by (subst (asm) read_name_loop.simps) (auto split: if_splits)
  then show ?case
  proof cases
    case 1
    then have "name = (if labels = [] then ''.'' else join ''.'' labels)"
      "nxt = (case resume of Some r \<Rightarrow> r | None \<Rightarrow> pos + 1)"
      using "1.prems"(1) g by (subst (asm) read_name_loop.simps, simp)+
    then show ?thesis using "1.prems"(2-4) len length_join_dots[of labels]
      by (auto split: option.splits simp: MAX_NAME_OCTETS_def)
  next
    case 2
    let ?o = "octets + (1 + unat len)"
    obtain label where l: "\<not> ?o > MAX_NAME_OCTETS" "get_slice body (pos + 1) (pos + 1 + unat len) = Some label"
      "read_name_loop body (pos + (1 + unat len)) (labels @ [concat (map escape label)]) resume pointers ?o
        = Inr (name, nxt)"
      using "1.prems"(1) g 2 by (subst (asm) read_name_loop.simps) (auto simp: Let_def split: if_splits option.splits)
    have "length label = unat len" using get_slice_length[OF l(2)] by simp
    then have "sum_list (map (\<lambda>l. length l + 1) (labels @ [concat (map escape label)])) + 4 \<le> 4 * ?o"
      using "1.prems"(3) length_escaped[of label] by simp
    moreover have "case resume of None \<Rightarrow> start \<le> pos + (1 + unat len) | Some r \<Rightarrow> start < r \<and> r \<le> length body"
      using "1.prems"(2) by (auto split: option.splits)
    ultimately show ?thesis using "1.IH"(1)[OF g 2(1,2) refl l(1,2,3)] l(1) by simp
  next
    case 3
    obtain low where l: "get_at body (pos + 1) = Some low" "\<not> pointers + 1 > MAX_POINTERS"
      "read_name_loop body (unat (push_bit 8 (ucast (len AND 0x3f)) OR ucast low :: u16)) labels
        (case resume of None \<Rightarrow> Some (pos + 2) | Some r \<Rightarrow> Some r) (pointers + 1) octets = Inr (name, nxt)"
      using "1.prems"(1) g 3 by (subst (asm) read_name_loop.simps) (auto simp: Let_def split: if_splits option.splits)
    have "case (case resume of None \<Rightarrow> Some (pos + 2) | Some r \<Rightarrow> Some r) of
        None \<Rightarrow> start \<le> unat (push_bit 8 (ucast (len AND 0x3f)) OR ucast low :: u16)
      | Some r \<Rightarrow> start < r \<and> r \<le> length body"
      using "1.prems"(2) l(1) by (auto split: option.splits)
    from "1.IH"(2)[OF g 3 l this "1.prems"(3,4)] show ?thesis .
  qed
qed

lemma read_name_bounds:
  "read_name body pos = Inr (name, nxt) \<Longrightarrow> pos < nxt \<and> nxt \<le> length body \<and> length name \<le> 1020"
  using read_name_loop_bounds[of body pos "[]" None 0 1 name nxt pos]
  by (simp add: read_name_def MAX_NAME_OCTETS_def)

lemma read_record_bounds:
  "read_record body pos = Inr (r, nxt) \<Longrightarrow> pos + 11 \<le> nxt \<and> nxt \<le> length body"
  by (auto simp: read_record_def Let_def split: sum.splits option.splits if_splits dest!: read_name_bounds)

lemma read_answers_count:
  "read_answers body n pos out = Inr (rs, pos') \<Longrightarrow> pos \<le> length body \<Longrightarrow>
    length rs = length out + n \<and> pos + 11 * n \<le> pos' \<and> pos' \<le> length body"
proof (induction body n pos out rule: read_answers.induct)
  case (2 body n pos out)
  then obtain r nxt where r: "read_record body pos = Inr (r, nxt)"
    "read_answers body n nxt (out @ [r]) = Inr (rs, pos')" by (auto split: sum.splits)
  from read_record_bounds[OF r(1)] "2.IH"[OF r(1) refl r(2)] show ?case by simp
qed simp

lemma read_questions_count:
  "read_questions body n pos first = Inr (q, pos') \<Longrightarrow> pos \<le> length body \<Longrightarrow>
    (q = None \<longleftrightarrow> n = 0 \<and> first = None) \<and> pos + 5 * n \<le> pos' \<and> pos' \<le> length body"
proof (induction body n pos first rule: read_questions.induct)
  case (2 body n pos first)
  then obtain name nxt kind where r: "read_name body pos = Inr (name, nxt)"
    "get_slice body nxt (nxt + 4) = Some kind"
    "read_questions body n (nxt + 4)
       (case first of Some q \<Rightarrow> Some q | None \<Rightarrow> Some \<lparr>q_name = name, q_kind = be16 kind 0\<rparr>) = Inr (q, pos')"
    by (auto split: sum.splits option.splits)
  from read_name_bounds[OF r(1)] get_slice_length[OF r(2)] "2.IH"[OF r(1) refl r(2,3)] show ?case
    by (auto split: option.splits)
qed simp

section \<open>Character strings\<close>

definition wire_string :: "u8 list \<Rightarrow> u8 list" where
  "wire_string s = of_nat (length s) # s"

lemma character_strings_sound:
  "character_strings rdata out = Inr ss \<Longrightarrow>
    \<exists>bs. rdata = concat (map wire_string bs) \<and> ss = out @ map from_utf8_lossy bs \<and> list_all (\<lambda>b. length b \<le> 255) bs"
proof (induction rdata out rule: character_strings.induct)
  case (2 len rest out)
  then obtain s where s: "get_slice rest 0 (unat len) = Some s"
    "character_strings (drop (unat len) rest) (out @ [from_utf8_lossy s]) = Inr ss"
    by (auto split: option.splits)
  from "2.IH"[OF s] obtain bs where bs: "drop (unat len) rest = concat (map wire_string bs)"
    "ss = out @ from_utf8_lossy s # map from_utf8_lossy bs" "list_all (\<lambda>b. length b \<le> 255) bs" by auto
  have take: "s = take (unat len) rest" and len: "length s = unat len"
    using s(1) by (auto simp: get_slice_def split: if_splits)
  have "len # rest = wire_string s @ concat (map wire_string bs)"
    using append_take_drop_id[of "unat len" rest] take len bs(1) by (simp add: wire_string_def)
  moreover have "length s \<le> 255" using len unat_byte[of len] by simp
  ultimately show ?case using bs(2,3) by (intro exI[of _ "s # bs"]) simp
qed simp

lemma character_strings_complete:
  "list_all (\<lambda>b. length b \<le> 255) bs \<Longrightarrow>
    character_strings (concat (map wire_string bs)) out = Inr (out @ map from_utf8_lossy bs)"
proof (induction bs arbitrary: out)
  case (Cons b bs)
  then have "unat (of_nat (length b) :: u8) = length b" by (simp add: unat_of_nat)
  with Cons show ?case by (simp add: wire_string_def get_slice_def)
qed simp

section \<open>Properties\<close>

text \<open>C38: A query round-trips: whatever \<open>query\<close> builds reads back as the question for the same type and the
  same labels (their bytes in presentation form), is refused as an answer, and fits in 512 bytes.\<close>

theorem query_roundtrip:
  assumes "query i name kind = Inr body"
  shows "question body =
      Inr \<lparr>q_name = join ''.'' (map escape_label (split_on (CHR ''.'') (bare_name name))), q_kind = kind\<rparr> \<and>
    parse body = Inl NotAnswer \<and> length body \<le> 512"
proof -
  let ?ls = "split_on (CHR ''.'') (bare_name name)"
  let ?h = "to_be16 i @ [1, 0, 0, 1, 0, 0, 0, 0, 0, 1]"
  let ?opt = "[0, 1] @ [0, 0, 41] @ to_be16 UDP_PAYLOAD @ [0, 0, 0, 0, 0, 0 :: u8]"
  have ask: "length (bare_name name) \<le> 253" "list_all (\<lambda>l. 1 \<le> length l \<and> length l \<le> 63) ?ls"
    using assms by (auto simp: query_def askable_name_def Let_def split: if_splits)
  have body: "body = ?h @ concat (map wire_label ?ls) @ 0 # to_be16 kind @ ?opt"
    using assms query_labels_ok[OF ask(2), of name] by (auto simp: query_def split: if_splits)
  have h: "length ?h = 12" by (simp add: to_be16_def)
  have size: "wire_size ?ls = length (bare_name name) + 1" by (rule split_on_size)
  have "1 + wire_size ?ls \<le> MAX_NAME_OCTETS" using ask(1) size by (simp add: MAX_NAME_OCTETS_def)
  from read_name_labels[OF ask(2) this, of ?h "to_be16 kind @ ?opt" "[]" 0]
  have "read_name body 12 = Inr (join ''.'' (map escape_label ?ls), length ?h + (wire_size ?ls + 1))"
    using h split_on_nonempty[of "CHR ''.''" "bare_name name"] by (simp add: body read_name_def)
  moreover have len: "length (concat (map wire_label ?ls)) = wire_size ?ls"
    by (simp add: wire_size_def wire_label_def length_concat comp_def)
  moreover have "be16 ?h 4 \<noteq> 0" by (simp add: to_be16_def be16_def)
  ultimately have "question body = Inr \<lparr>q_name = join ''.'' (map escape_label ?ls), q_kind = kind\<rparr>"
    using question_of_body[OF h, of "concat (map wire_label ?ls) @ 0 # to_be16 kind @ ?opt" _ "wire_size ?ls + 1"
        "concat (map wire_label ?ls) @ [0]" kind ?opt] by (simp add: body)
  moreover have "parse body = Inl NotAnswer"
    by (simp add: parse_def body get_slice_def to_be16_def be16_def)
  moreover have "length body \<le> 512" using len size ask(1) by (simp add: body to_be16_def)
  ultimately show ?thesis by simp
qed

theorem query_roundtrip_witness:
  "question (projr (query 7 ''example.com.'' 1)) =
     Inr \<lparr>q_name = join ''.'' (map escape_label (split_on (CHR ''.'') (bare_name ''example.com.''))), q_kind = 1\<rparr>"
proof -
  have "query 7 ''example.com.'' 1 = Inr (projr (query 7 ''example.com.'' 1))"
    by code_simp
  from query_roundtrip[OF this] show ?thesis by blast
qed

text \<open>A name read from any message, whatever its compression pointers, ends past where it starts and
  within the message, and its text is at most 1020 bytes: a hostile name cannot loop or swell.\<close>

theorem read_name_bounded:
  assumes "read_name body pos = Inr (name, nxt)"
  shows "pos < nxt \<and> nxt \<le> length body \<and> length name \<le> 1020"
  using assms by (rule read_name_bounds)

theorem read_name_bounded_witness:
  "read_name [1, 97, 0, 0xc0, 0] 3 = Inr (''a'', 5) \<and> 3 < (5 :: nat) \<and>
     5 \<le> length [1, 97, 0, 0xc0, 0 :: u8] \<and> length ''a'' \<le> 1020"
proof -
  have r: "read_name [1, 97, 0, 0xc0, 0] 3 = Inr (''a'', 5)" by code_simp
  from read_name_bounded[OF r] r show ?thesis by blast
qed

text \<open>An answer that parses is whole: its header's response bit is set, it holds as many records as
  the header counts, each within the message, and its question is absent only if none was counted.\<close>

theorem parse_counts_records:
  assumes "parse body = Inr m"
  shows "be16 body 2 AND 0x8000 \<noteq> 0 \<and> msg_id m = be16 body 0 \<and>
    length (answers m) = unat (be16 body 6) \<and> (msg_question m = None \<longleftrightarrow> be16 body 4 = 0) \<and>
    12 + 5 * unat (be16 body 4) + 11 * unat (be16 body 6) \<le> length body"
proof -
  from assms obtain h first p rs p' where h: "get_slice body 0 12 = Some h" "be16 h 2 AND 0x8000 \<noteq> 0"
    and q: "read_questions body (unat (be16 h 4)) 12 None = Inr (first, p)"
    and a: "read_answers body (unat (be16 h 6)) p [] = Inr (rs, p')"
    and m: "msg_id m = be16 h 0" "msg_question m = first" "answers m = rs"
    by (auto simp: parse_def Let_def split: option.splits sum.splits if_splits prod.splits)
  have len: "12 \<le> length body" and take: "h = take 12 body"
    using h(1) by (auto simp: get_slice_def split: if_splits)
  have [simp]: "be16 h 0 = be16 body 0" "be16 h 2 = be16 body 2" "be16 h 4 = be16 body 4" "be16 h 6 = be16 body 6"
    using len by (simp_all add: take be16_def)
  from read_questions_count[OF q len] have qc: "first = None \<longleftrightarrow> be16 body 4 = 0"
    "12 + 5 * unat (be16 body 4) \<le> p" "p \<le> length body" by (auto simp: unat_eq_0)
  from read_answers_count[OF a qc(3)] qc h(2) m show ?thesis by simp
qed

text \<open>A one-answer message: header, root question, root record of type A.\<close>

definition sample_answer :: "u8 list" where
  "sample_answer = [0, 7, 0x80, 0, 0, 1, 0, 1, 0, 0, 0, 0,  0, 0, 1, 0, 1,
     0, 0, 1, 0, 1, 0, 0, 0, 60, 0, 4, 192, 0, 2, 1]"

theorem parse_counts_records_witness:
  "length (answers (projr (parse sample_answer))) = unat (be16 sample_answer 6) \<and>
     12 + 5 * unat (be16 sample_answer 4) + 11 * unat (be16 sample_answer 6) \<le> length sample_answer"
proof -
  have "parse sample_answer = Inr (projr (parse sample_answer))" by code_simp
  from parse_counts_records[OF this] show ?thesis by blast
qed

text \<open>The strings of a TXT record are read exactly: its data is accepted iff it is a sequence of
  length-prefixed strings that ends with the record, and the strings come back in order.\<close>

theorem txt_strings_exact:
  "character_strings rdata [] = Inr ss \<longleftrightarrow>
     (\<exists>bs. rdata = concat (map wire_string bs) \<and> list_all (\<lambda>b. length b \<le> 255) bs \<and> ss = map from_utf8_lossy bs)"
  using character_strings_sound[of rdata "[]" ss] character_strings_complete[of _ "[]"] by auto

end
