(* ===== verification/Sha256.thy ===== *)
theory Sha256
  imports Std_Net Base64
begin

unbundle bit_operations_syntax

text \<open>
  \<open>src/sha256.rs\<close>: the streaming hasher and the one-shot function. The digest of the \<open>ring\<close> crate is
  the argument \<open>ring_digest\<close>, and whether the CPU has the SHA2 instructions is \<open>hw\<close> (always false off
  AArch64). \<open>sha256_spec\<close> is the hash of the standard over the whole padded message.
\<close>

section \<open>Compression\<close>

text \<open>The constants are written as the code groups them, by the halves of a word.\<close>

definition halves :: "u32 \<Rightarrow> u32 \<Rightarrow> u32" where
  "halves high low = push_bit 16 high OR low"

definition K :: "u32 list" where
  "K =
    [halves 0x428a 0x2f98, halves 0x7137 0x4491, halves 0xb5c0 0xfbcf, halves 0xe9b5 0xdba5,
     halves 0x3956 0xc25b, halves 0x59f1 0x11f1, halves 0x923f 0x82a4, halves 0xab1c 0x5ed5,
     halves 0xd807 0xaa98, halves 0x1283 0x5b01, halves 0x2431 0x85be, halves 0x550c 0x7dc3,
     halves 0x72be 0x5d74, halves 0x80de 0xb1fe, halves 0x9bdc 0x06a7, halves 0xc19b 0xf174,
     halves 0xe49b 0x69c1, halves 0xefbe 0x4786, halves 0x0fc1 0x9dc6, halves 0x240c 0xa1cc,
     halves 0x2de9 0x2c6f, halves 0x4a74 0x84aa, halves 0x5cb0 0xa9dc, halves 0x76f9 0x88da,
     halves 0x983e 0x5152, halves 0xa831 0xc66d, halves 0xb003 0x27c8, halves 0xbf59 0x7fc7,
     halves 0xc6e0 0x0bf3, halves 0xd5a7 0x9147, halves 0x06ca 0x6351, halves 0x1429 0x2967,
     halves 0x27b7 0x0a85, halves 0x2e1b 0x2138, halves 0x4d2c 0x6dfc, halves 0x5338 0x0d13,
     halves 0x650a 0x7354, halves 0x766a 0x0abb, halves 0x81c2 0xc92e, halves 0x9272 0x2c85,
     halves 0xa2bf 0xe8a1, halves 0xa81a 0x664b, halves 0xc24b 0x8b70, halves 0xc76c 0x51a3,
     halves 0xd192 0xe819, halves 0xd699 0x0624, halves 0xf40e 0x3585, halves 0x106a 0xa070,
     halves 0x19a4 0xc116, halves 0x1e37 0x6c08, halves 0x2748 0x774c, halves 0x34b0 0xbcb5,
     halves 0x391c 0x0cb3, halves 0x4ed8 0xaa4a, halves 0x5b9c 0xca4f, halves 0x682e 0x6ff3,
     halves 0x748f 0x82ee, halves 0x78a5 0x636f, halves 0x84c8 0x7814, halves 0x8cc7 0x0208,
     halves 0x90be 0xfffa, halves 0xa450 0x6ceb, halves 0xbef9 0xa3f7, halves 0xc671 0x78f2]"

definition H0 :: "u32 list" where
  "H0 = [0x6a09e667, 0xbb67ae85, 0x3c6ef372, 0xa54ff53a, 0x510e527f, 0x9b05688c, 0x1f83d9ab, 0x5be0cd19]"

definition message_word :: "u32 list \<Rightarrow> nat \<Rightarrow> u32" where
  "message_word w i =
     (let s0 = word_rotr 7 (w ! (i - 15)) XOR word_rotr 18 (w ! (i - 15)) XOR drop_bit 3 (w ! (i - 15));
          s1 = word_rotr 17 (w ! (i - 2)) XOR word_rotr 19 (w ! (i - 2)) XOR drop_bit 10 (w ! (i - 2))
      in w ! (i - 16) + s0 + w ! (i - 7) + s1)"

definition schedule :: "u8 list \<Rightarrow> u32 list" where
  "schedule chunk =
     foldl (\<lambda>w i. w @ [message_word w i]) (map (\<lambda>i. be32 chunk (i * 4)) [0..<16]) [16..<64]"

definition round :: "u32 list \<Rightarrow> u32 list \<Rightarrow> nat \<Rightarrow> u32 list" where
  "round w a i =
     (let s1 = word_rotr 6 (a ! 4) XOR word_rotr 11 (a ! 4) XOR word_rotr 25 (a ! 4);
          ch = (a ! 4 AND a ! 5) XOR (NOT (a ! 4) AND a ! 6);
          t1 = a ! 7 + s1 + ch + K ! i + w ! i;
          s0 = word_rotr 2 (a ! 0) XOR word_rotr 13 (a ! 0) XOR word_rotr 22 (a ! 0);
          maj = (a ! 0 AND a ! 1) XOR (a ! 0 AND a ! 2) XOR (a ! 1 AND a ! 2);
          t2 = s0 + maj
      in [t1 + t2, a ! 0, a ! 1, a ! 2, a ! 3 + t1, a ! 4, a ! 5, a ! 6])"

definition compress :: "u32 list \<Rightarrow> u8 list \<Rightarrow> u32 list" where
  "compress h chunk = map2 (+) h (foldl (round (schedule chunk)) h [0..<64])"

section \<open>The streaming hasher\<close>

record sha256_state =
  state :: "u32 list"
  total_bytes :: u64
  buffer :: "u8 list"
  buffered :: nat

definition sha256_new :: sha256_state where
  "sha256_new = \<lparr>state = H0, total_bytes = 0, buffer = replicate 64 0, buffered = 0\<rparr>"

text \<open>\<open>buf[at..at + part.len()].copy_from_slice(part)\<close>\<close>

definition copy_into :: "'a list \<Rightarrow> nat \<Rightarrow> 'a list \<Rightarrow> 'a list" where
  "copy_into buf pos part = take pos buf @ part @ drop (pos + length part) buf"

text \<open>The whole 64-byte blocks of a slice compressed in order, and what is left over.\<close>

function (sequential) compress_blocks :: "u32 list \<Rightarrow> u8 list \<Rightarrow> u32 list \<times> u8 list" where
  "compress_blocks h xs =
     (if length xs < 64 then (h, xs) else compress_blocks (compress h (take 64 xs)) (drop 64 xs))"
  by pat_completeness auto

termination
  by (relation "measure (\<lambda>(_, xs). length xs)") auto

declare compress_blocks.simps [simp del]

definition update_blocks :: "u8 list \<Rightarrow> sha256_state \<Rightarrow> sha256_state" where
  "update_blocks input s =
     (let (h, remainder) = compress_blocks (state s) input in
      s\<lparr>state := h, buffer := copy_into (buffer s) 0 remainder, buffered := length remainder\<rparr>)"

definition update :: "u8 list \<Rightarrow> sha256_state \<Rightarrow> sha256_state" where
  "update input s0 =
     (let s = s0\<lparr>total_bytes := total_bytes s0 + of_nat (length input)\<rparr> in
      if buffered s > 0 then
        (let n = min (length input) (64 - buffered s);
             s1 = s\<lparr>buffer := copy_into (buffer s) (buffered s) (take n input), buffered := buffered s + n\<rparr>
         in if buffered s1 < 64 then s1
            else update_blocks (drop n input) (s1\<lparr>state := compress (state s1) (buffer s1), buffered := 0\<rparr>))
      else update_blocks input s)"

definition to_be32 :: "u32 \<Rightarrow> u8 list" where
  "to_be32 w = map (\<lambda>i. ucast (drop_bit i w)) [24, 16, 8, 0]"

definition to_be64 :: "u64 \<Rightarrow> u8 list" where
  "to_be64 w = map (\<lambda>i. ucast (drop_bit i w)) [56, 48, 40, 32, 24, 16, 8, 0]"

definition digest_bytes :: "u32 list \<Rightarrow> u8 list" where
  "digest_bytes h = concat (map to_be32 h)"

definition finalize :: "sha256_state \<Rightarrow> u8 list" where
  "finalize s =
     (let blocks = copy_into (replicate 128 0) 0 (take (buffered s) (buffer s));
          blocks1 = blocks[buffered s := 0x80];
          padded_len = (if buffered s < 56 then 64 else 128);
          blocks2 = copy_into blocks1 (padded_len - 8) (to_be64 (total_bytes s * 8))
      in digest_bytes (fst (compress_blocks (state s) (take padded_len blocks2))))"

definition accelerated_backend_for :: "bool \<Rightarrow> nat \<Rightarrow> bool" where
  "accelerated_backend_for hw len \<longleftrightarrow> len \<ge> 1024 \<or> len \<ge> 32 \<and> hw"

definition sha256 :: "(u8 list \<Rightarrow> u8 list) \<Rightarrow> bool \<Rightarrow> u8 list \<Rightarrow> u8 list" where
  "sha256 ring_digest hw data =
     (if accelerated_backend_for hw (length data) then ring_digest data
      else finalize (update data sha256_new))"

definition hex32 :: "u8 list \<Rightarrow> str" where
  "hex32 bytes = base16_lower bytes"

section \<open>The standard's hash\<close>

definition padding :: "nat \<Rightarrow> u8 list" where
  "padding n = 0x80 # replicate (if n mod 64 < 56 then 55 - n mod 64 else 119 - n mod 64) 0
     @ to_be64 (of_nat n * 8)"

definition sha256_spec :: "u8 list \<Rightarrow> u8 list" where
  "sha256_spec data = digest_bytes (fst (compress_blocks H0 (data @ padding (length data))))"

section \<open>Streaming is the standard's hash\<close>

lemma compress_blocks_append:
  "compress_blocks h xs = (h', r) \<Longrightarrow> compress_blocks h (xs @ ys) = compress_blocks h' (r @ ys)"
proof (induction h xs arbitrary: h' r rule: compress_blocks.induct)
  case (1 h xs)
  show ?case
  proof (cases "length xs < 64")
    case True
    with 1(2) show ?thesis by (simp add: compress_blocks.simps[of h xs])
  next
    case False
    then have "compress_blocks h (xs @ ys) = compress_blocks (compress h (take 64 xs)) (drop 64 xs @ ys)"
      by (subst compress_blocks.simps) simp
    with False 1 show ?thesis by (simp add: compress_blocks.simps[of h xs])
  qed
qed

lemma compress_blocks_rest: "compress_blocks h xs = (h', r) \<Longrightarrow> length r < 64 \<and> length r = length xs mod 64"
proof (induction h xs arbitrary: h' r rule: compress_blocks.induct)
  case (1 h xs)
  show ?case
  proof (cases "length xs < 64")
    case True
    with "1.prems" show ?thesis by (simp add: compress_blocks.simps[of h xs])
  next
    case False
    with "1.prems" have "compress_blocks (compress h (take 64 xs)) (drop 64 xs) = (h', r)"
      by (simp add: compress_blocks.simps[of h xs])
    from "1.IH"[OF False this] have "length r < 64" "length r = (length xs - 64) mod 64" by simp_all
    moreover have "(length xs - 64) mod 64 = length xs mod 64" using False le_mod_geq[of 64 "length xs"] by simp
    ultimately show ?thesis by metis
  qed
qed

text \<open>The state after some bytes: the compressed blocks, and the rest in the buffer.\<close>

definition hashed :: "u8 list \<Rightarrow> sha256_state \<Rightarrow> bool" where
  "hashed data s \<longleftrightarrow>
     length (buffer s) = 64 \<and> total_bytes s = of_nat (length data) \<and> buffered s < 64 \<and>
     compress_blocks H0 data = (state s, take (buffered s) (buffer s))"

lemma hashed_new: "hashed [] sha256_new"
  by (simp add: hashed_def sha256_new_def compress_blocks.simps)

lemma length_copy_into: "pos + length part \<le> length buf \<Longrightarrow> length (copy_into buf pos part) = length buf"
  by (simp add: copy_into_def)

lemma update_blocks_hashed:
  assumes "length (buffer s) = 64" "total_bytes s = of_nat (length data)"
    and "compress_blocks H0 data = compress_blocks (state s) input"
  shows "hashed data (update_blocks input s)"
proof -
  obtain h r where r: "compress_blocks (state s) input = (h, r)" by fastforce
  from compress_blocks_rest[OF r] assms r show ?thesis
    by (simp add: hashed_def update_blocks_def copy_into_def)
qed

lemma update_hashed:
  assumes "hashed data s"
  shows "hashed (data @ input) (update input s)"
proof -
  let ?b = "take (buffered s) (buffer s)"
  have s: "length (buffer s) = 64" "total_bytes s = of_nat (length data)" "buffered s < 64"
    "compress_blocks H0 data = (state s, ?b)" using assms by (simp_all add: hashed_def)
  note step = compress_blocks_append[OF s(4), of input]
  have total: "total_bytes s + of_nat (length input) = of_nat (length (data @ input))" using s(2) by simp
  show ?thesis
  proof (cases "buffered s > 0")
    case False
    then have "update input s = update_blocks input (s\<lparr>total_bytes := total_bytes s + of_nat (length input)\<rparr>)"
      by (simp add: update_def)
    then show ?thesis using update_blocks_hashed[of "s\<lparr>total_bytes := total_bytes s + of_nat (length input)\<rparr>"
          "data @ input" input] step s total False by simp
  next
    case True
    define n where "n = min (length input) (64 - buffered s)"
    define buf where "buf = copy_into (buffer s) (buffered s) (take n input)"
    have n: "length (take n input) = n" "buffered s + n \<le> 64" using s(3) by (auto simp: n_def)
    have buf: "take (buffered s + n) buf = ?b @ take n input" "length buf = 64"
      using s(1,3) n by (simp_all add: buf_def copy_into_def)
    show ?thesis
    proof (cases "buffered s + n < 64")
      case less: True
      then have "n = length input" by (auto simp: n_def)
      then have "compress_blocks H0 (data @ input) = (state s, take (buffered s + n) buf)"
        using step buf less s by (simp add: compress_blocks.simps[of "state s"])
      then show ?thesis using True less buf total
        by (simp add: update_def Let_def hashed_def n_def[symmetric] buf_def[symmetric])
    next
      case False
      then have full: "buffered s + n = 64" using n(2) by simp
      then have whole: "buf = ?b @ take n input" using buf by simp
      have "compress_blocks (state s) (?b @ input) = compress_blocks (compress (state s) buf) (drop n input)"
        using full s(1,3) n whole by (subst compress_blocks.simps) (auto simp: n_def)
      then show ?thesis
        using True False update_blocks_hashed[of "s\<lparr>total_bytes := total_bytes s + of_nat (length input),
            buffer := buf, state := compress (state s) buf, buffered := 0\<rparr>" "data @ input" "drop n input"]
          step buf total full
        by (simp add: update_def Let_def n_def[symmetric] buf_def[symmetric])
    qed
  qed
qed

lemma append_take_self: "take (length xs) (xs @ ys) = xs"
  by simp

lemma take_copy: "length (take q x @ y) = p \<Longrightarrow> take p (copy_into x q y) = take q x @ y"
  unfolding copy_into_def append_assoc[symmetric] by (erule subst) (rule append_take_self)

lemma take_front:
  "length b = n \<Longrightarrow> q \<le> m \<Longrightarrow> take (n + Suc q) (b @ x # replicate m y) = b @ x # replicate q y"
  by (simp add: min_def)

lemma finalize_hashed:
  assumes "hashed data s"
  shows "finalize s = sha256_spec data"
proof -
  let ?b = "take (buffered s) (buffer s)" and ?n = "buffered s"
  have s: "length (buffer s) = 64" "total_bytes s = of_nat (length data)" "?n < 64"
    "compress_blocks H0 data = (state s, ?b)" using assms by (simp_all add: hashed_def)
  have n: "length data mod 64 = ?n" using compress_blocks_rest[OF s(4)] s(1,3) by simp
  let ?p = "if ?n < 56 then 64 else 128 :: nat"
  have len: "length ?b = ?n" using s(1,3) by simp
  have "128 - ?n = Suc (127 - ?n)" using s(3) by simp
  then have "replicate (128 - ?n) (0 :: u8) = 0 # replicate (127 - ?n) 0" by simp
  then have blocks: "(copy_into (replicate 128 0) 0 ?b)[?n := 0x80] = ?b @ 0x80 # replicate (127 - ?n) 0"
    using len by (simp add: copy_into_def list_update_append)
  have be: "length (to_be64 w) = 8" for w by (simp add: to_be64_def)
  have "?p - 8 = ?n + Suc (?p - 9 - ?n)" "?p - 9 - ?n \<le> 127 - ?n" using s(3) by auto
  then have front: "take (?p - 8) (?b @ 0x80 # replicate (127 - ?n) 0) = ?b @ 0x80 # replicate (?p - 9 - ?n) 0"
    using take_front[OF len] by metis
  have "length (take (?p - 8) (?b @ 0x80 # replicate (127 - ?n) 0) @ to_be64 (total_bytes s * 8)) = ?p"
    using len s(3) unfolding front by (simp add: be)
  then have "take ?p (copy_into (?b @ 0x80 # replicate (127 - ?n) 0) (?p - 8) (to_be64 (total_bytes s * 8)))
      = take (?p - 8) (?b @ 0x80 # replicate (127 - ?n) 0) @ to_be64 (total_bytes s * 8)"
    by (rule take_copy)
  also have "\<dots> = ?b @ padding (length data)"
    unfolding front padding_def n s(2) by (cases "?n < 56") simp_all
  finally have "take ?p (copy_into (?b @ 0x80 # replicate (127 - ?n) 0) (?p - 8) (to_be64 (total_bytes s * 8)))
      = ?b @ padding (length data)" .
  then show ?thesis
    using compress_blocks_append[OF s(4), of "padding (length data)"]
    by (simp add: finalize_def Let_def blocks sha256_spec_def)
qed

section \<open>Properties\<close>

text \<open>C14: The streaming hasher computes the standard's SHA-256 of all its input, however the input is cut
  into chunks.\<close>

theorem streaming_sha256:
  "finalize (fold update chunks sha256_new) = sha256_spec (concat chunks)"
proof -
  have "hashed (data @ concat chunks) (fold update chunks s)" if "hashed data s" for data s
    using that
  proof (induction chunks arbitrary: data s)
    case (Cons c chunks)
    from Cons.IH[OF update_hashed[OF Cons.prems, of c]] show ?case by simp
  qed simp
  from finalize_hashed[OF this[OF hashed_new]] show ?thesis by simp
qed

text \<open>The one-shot function computes the same hash whichever backend the length and the CPU select,
  if the linked library hashes as the standard says.\<close>

theorem sha256_is_standard:
  assumes "\<And>d. ring_digest d = sha256_spec d"
  shows "sha256 ring_digest hw data = sha256_spec data"
  using assms finalize_hashed[OF update_hashed[OF hashed_new, of data]] by (simp add: sha256_def)

theorem sha256_is_standard_witness:
  "sha256 sha256_spec True [97, 98, 99] = sha256_spec [97, 98, 99]"
  by (rule sha256_is_standard) (rule refl)

end
