(* ===== verification/Ledger.thy ===== *)
theory Ledger
  imports Sha256 Errors
begin

text \<open>
  \<open>src/stage.rs\<close> and \<open>src/ledger.rs\<close>: the evidence ladder and the hash-chained ledger. The hash is the
  model of \<open>src/sha256.rs\<close> with its two arguments; files and JSON are arguments of \<open>save_chain\<close> and
  \<open>load_chain\<close>.
\<close>

section \<open>The evidence ladder\<close>

datatype evidence_level =
    Assertion | DerivedEvidence | PrimaryEvidence | IndependentCorroboration | DirectObservation
  | Reproduction | EndToEndDemonstration

fun level_rank :: "evidence_level \<Rightarrow> nat" where
  "level_rank Assertion = 0"
| "level_rank DerivedEvidence = 1"
| "level_rank PrimaryEvidence = 2"
| "level_rank IndependentCorroboration = 3"
| "level_rank DirectObservation = 4"
| "level_rank Reproduction = 5"
| "level_rank EndToEndDemonstration = 6"

instantiation evidence_level :: linorder
begin

definition less_eq_evidence_level :: "evidence_level \<Rightarrow> evidence_level \<Rightarrow> bool" where
  "less_eq_evidence_level a b \<longleftrightarrow> level_rank a \<le> level_rank b"

definition less_evidence_level :: "evidence_level \<Rightarrow> evidence_level \<Rightarrow> bool" where
  "less_evidence_level a b \<longleftrightarrow> level_rank a < level_rank b"

instance
proof
  fix a b :: evidence_level
  assume "a \<le> b" "b \<le> a"
  then have "level_rank a = level_rank b" by (simp add: less_eq_evidence_level_def)
  then show "a = b" by (cases a; cases b) simp_all
qed (auto simp: less_eq_evidence_level_def less_evidence_level_def)

end

fun level_as_str :: "evidence_level \<Rightarrow> str" where
  "level_as_str Assertion = ''assertion''"
| "level_as_str DerivedEvidence = ''derived_evidence''"
| "level_as_str PrimaryEvidence = ''primary_evidence''"
| "level_as_str IndependentCorroboration = ''independent_corroboration''"
| "level_as_str DirectObservation = ''direct_observation''"
| "level_as_str Reproduction = ''reproduction''"
| "level_as_str EndToEndDemonstration = ''end_to_end_demonstration''"

definition level_admits_interop :: "evidence_level \<Rightarrow> bool" where
  "level_admits_interop l \<longleftrightarrow> l \<ge> DirectObservation"

datatype status = Verified | Partial | Unverified | NotApplicable

fun status_as_str :: "status \<Rightarrow> str" where
  "status_as_str Verified = ''verified''"
| "status_as_str Partial = ''partial''"
| "status_as_str Unverified = ''unverified''"
| "status_as_str NotApplicable = ''not_applicable''"

section \<open>Claims and the interop gate\<close>

definition GENESIS :: str where
  "GENESIS = replicate 64 (CHR ''0'')"

record claim =
  claim_text :: str
  claim_source :: str
  component :: str
  technique_id :: "str option"
  claim_status :: status
  evidence_level :: evidence_level
  does_not_show :: str

record ledger_entry =
  prev :: str
  hash :: str
  entry_claim :: claim

definition BINDINGS :: "(str \<times> str) list" where
  "BINDINGS = []"

definition binds :: "(str \<times> str) list \<Rightarrow> str \<Rightarrow> str \<Rightarrow> bool" where
  "binds bindings part technique \<longleftrightarrow> list_ex (\<lambda>(path, i). path = part \<and> i = technique) bindings"

definition valid_technique :: "str \<Rightarrow> bool" where
  "valid_technique i =
     (let rest = (case strip_prefix ''T'' i of Some r \<Rightarrow> r | None \<Rightarrow> []);
          (base, sub) = (case split_once (CHR ''.'') rest of Some (b, s) \<Rightarrow> (b, Some s) | None \<Rightarrow> (rest, None))
      in length base = 4 \<and> list_all is_ascii_digit base \<and>
         (case sub of None \<Rightarrow> True | Some s \<Rightarrow> length s = 3 \<and> list_all is_ascii_digit s))"

definition admits_interop_with :: "(str \<times> str) list \<Rightarrow> claim \<Rightarrow> bool" where
  "admits_interop_with bindings c \<longleftrightarrow>
     claim_status c = Verified \<and> level_admits_interop (evidence_level c) \<and>
     trim (component c) \<noteq> [] \<and>
     (case technique_id c of None \<Rightarrow> False
      | Some i \<Rightarrow> valid_technique i \<and> binds bindings (component c) i) \<and>
     trim (does_not_show c) \<noteq> []"

definition admits_interop :: "claim \<Rightarrow> bool" where
  "admits_interop c = admits_interop_with BINDINGS c"

section \<open>The chain\<close>

definition PREIMAGE_TAG :: "u8 list" where
  "PREIMAGE_TAG = bytes_of_str ''huntsman-ledger-v2''"

definition field :: "u8 list \<Rightarrow> u8 list" where
  "field v = to_be64 (of_nat (length v)) @ v"

definition preimage :: "str \<Rightarrow> claim \<Rightarrow> u8 list" where
  "preimage p c =
     field PREIMAGE_TAG @ field (bytes_of_str p) @ field (bytes_of_str (claim_text c)) @
     field (bytes_of_str (claim_source c)) @ field (bytes_of_str (component c)) @
     (case technique_id c of None \<Rightarrow> [0] | Some i \<Rightarrow> 1 # field (bytes_of_str i)) @
     field (bytes_of_str (status_as_str (claim_status c))) @
     field (bytes_of_str (level_as_str (evidence_level c))) @
     field (bytes_of_str (does_not_show c))"

definition append_claim :: "(u8 list \<Rightarrow> u8 list) \<Rightarrow> bool \<Rightarrow> str \<Rightarrow> claim \<Rightarrow> ledger_entry" where
  "append_claim ring_digest hw p c =
     \<lparr>prev = p, hash = hex32 (sha256 ring_digest hw (preimage p c)), entry_claim = c\<rparr>"

definition seal :: "(u8 list \<Rightarrow> u8 list) \<Rightarrow> bool \<Rightarrow> claim \<Rightarrow> ledger_entry" where
  "seal ring_digest hw c = append_claim ring_digest hw GENESIS c"

fun intact_from :: "(u8 list \<Rightarrow> u8 list) \<Rightarrow> bool \<Rightarrow> str \<Rightarrow> ledger_entry list \<Rightarrow> bool" where
  "intact_from ring_digest hw p [] \<longleftrightarrow> True"
| "intact_from ring_digest hw p (e # es) \<longleftrightarrow>
     (if prev e \<noteq> p then False
      else if hash (append_claim ring_digest hw p (entry_claim e)) \<noteq> hash e then False
      else intact_from ring_digest hw (hash e) es)"

definition chain_intact :: "(u8 list \<Rightarrow> u8 list) \<Rightarrow> bool \<Rightarrow> ledger_entry list \<Rightarrow> bool" where
  "chain_intact ring_digest hw es = intact_from ring_digest hw GENESIS es"

definition admitted_with ::
  "(u8 list \<Rightarrow> u8 list) \<Rightarrow> bool \<Rightarrow> ledger_entry list \<Rightarrow> (str \<times> str) list \<Rightarrow> ledger_entry list"
where
  "admitted_with ring_digest hw es bindings =
     (let chain_verified = (bindings \<noteq> [] \<and> chain_intact ring_digest hw es) in
      filter (\<lambda>e. chain_verified \<and> admits_interop_with bindings (entry_claim e)) es)"

definition admitted :: "(u8 list \<Rightarrow> u8 list) \<Rightarrow> bool \<Rightarrow> ledger_entry list \<Rightarrow> ledger_entry list" where
  "admitted ring_digest hw es = admitted_with ring_digest hw es BINDINGS"

text \<open>\<open>write_json\<close> writes the entries to the path; \<open>body\<close> is what reading the path gave and
  \<open>from_json\<close> the decoder.\<close>

definition save_chain ::
  "(u8 list \<Rightarrow> u8 list) \<Rightarrow> bool \<Rightarrow> (ledger_entry list \<Rightarrow> error + unit) \<Rightarrow> ledger_entry list \<Rightarrow> error + unit"
where
  "save_chain ring_digest hw write_json es =
     (if \<not> chain_intact ring_digest hw es then Inl (Invalid ''refusing to write a broken chain'')
      else write_json es)"

definition load_chain ::
  "(u8 list \<Rightarrow> u8 list) \<Rightarrow> bool \<Rightarrow> ('b \<Rightarrow> str + ledger_entry list) \<Rightarrow> error + 'b \<Rightarrow> error + ledger_entry list"
where
  "load_chain ring_digest hw from_json body =
     (case body of
        Inl e \<Rightarrow> Inl e
      | Inr b \<Rightarrow>
          (case from_json b of
             Inl e \<Rightarrow> Inl (Invalid e)
           | Inr es \<Rightarrow>
               if \<not> chain_intact ring_digest hw es then Inl (Invalid ''ledger chain broken'')
               else Inr es))"

section \<open>The preimage is unambiguous\<close>

lemma to_be64_inj: "to_be64 v = to_be64 w \<Longrightarrow> v = w"
proof (rule bit_word_eqI)
  fix n assume e: "to_be64 v = to_be64 w" and n: "n < LENGTH(64)"
  have "8 * (n div 8) \<in> {56, 48, 40, 32, 24, 16, 8, 0}" using n by auto
  then have "(ucast (drop_bit (8 * (n div 8)) v) :: u8) = ucast (drop_bit (8 * (n div 8)) w)"
    using e by (auto simp: to_be64_def)
  then have "bit (ucast (drop_bit (8 * (n div 8)) v) :: u8) (n mod 8)
      = bit (ucast (drop_bit (8 * (n div 8)) w) :: u8) (n mod 8)" by simp
  then show "bit v n = bit w n" by (simp add: bit_simps)
qed

lemma field_inj:
  assumes "field v @ r = field w @ s" "length v < 2 ^ 64" "length w < 2 ^ 64"
  shows "v = w \<and> r = s"
proof -
  have "to_be64 (of_nat (length v)) = to_be64 (of_nat (length w))" "v @ r = w @ s"
    using assms(1) by (simp_all add: field_def to_be64_def)
  then have "(of_nat (length v) :: u64) = of_nat (length w)" by (intro to_be64_inj)
  then have "unat (of_nat (length v) :: u64) = unat (of_nat (length w) :: u64)" by simp
  then have "length v = length w" using assms(2,3) by (simp add: unat_of_nat)
  with \<open>v @ r = w @ s\<close> show ?thesis by simp
qed

definition small_claim :: "claim \<Rightarrow> bool" where
  "small_claim c \<longleftrightarrow>
     length (claim_text c) < 2 ^ 64 \<and> length (claim_source c) < 2 ^ 64 \<and> length (component c) < 2 ^ 64 \<and>
     (case technique_id c of None \<Rightarrow> True | Some i \<Rightarrow> length i < 2 ^ 64) \<and> length (does_not_show c) < 2 ^ 64"

lemma label_lengths: "length (status_as_str s) < 2 ^ 64" "length (level_as_str l) < 2 ^ 64"
  by (cases s; simp) (cases l; simp)

lemma status_as_str_inj: "status_as_str s = status_as_str t \<Longrightarrow> s = t"
  by (cases s; cases t) simp_all

lemma level_as_str_inj: "level_as_str s = level_as_str t \<Longrightarrow> s = t"
  by (cases s; cases t) simp_all

lemma preimage_injective:
  assumes eq: "preimage p c = preimage q d"
    and small: "small_claim c" "small_claim d" "length p < 2 ^ 64" "length q < 2 ^ 64"
  shows "p = q \<and> c = d"
proof -
  note S = small[unfolded small_claim_def]
  note inj = field_inj[of "bytes_of_str _" _ "bytes_of_str _", unfolded length_bytes_of_str]
  have "length PREIMAGE_TAG < 2 ^ 64" by (simp add: PREIMAGE_TAG_def)
  from field_inj[OF eq[unfolded preimage_def] this this] have
    e1: "field (bytes_of_str p) @ field (bytes_of_str (claim_text c)) @
     field (bytes_of_str (claim_source c)) @ field (bytes_of_str (component c)) @
     (case technique_id c of None \<Rightarrow> [0] | Some i \<Rightarrow> 1 # field (bytes_of_str i)) @
     field (bytes_of_str (status_as_str (claim_status c))) @
     field (bytes_of_str (level_as_str (evidence_level c))) @ field (bytes_of_str (does_not_show c))
    = field (bytes_of_str q) @ field (bytes_of_str (claim_text d)) @
     field (bytes_of_str (claim_source d)) @ field (bytes_of_str (component d)) @
     (case technique_id d of None \<Rightarrow> [0] | Some i \<Rightarrow> 1 # field (bytes_of_str i)) @
     field (bytes_of_str (status_as_str (claim_status d))) @
     field (bytes_of_str (level_as_str (evidence_level d))) @ field (bytes_of_str (does_not_show d))" by simp
  note s1 = inj[OF e1 small(3,4)]
  have l2: "length (claim_text c) < 2 ^ 64" "length (claim_text d) < 2 ^ 64"
    "length (claim_source c) < 2 ^ 64" "length (claim_source d) < 2 ^ 64"
    "length (component c) < 2 ^ 64" "length (component d) < 2 ^ 64"
    "length (does_not_show c) < 2 ^ 64" "length (does_not_show d) < 2 ^ 64" using S by simp_all
  note s2 = inj[OF conjunct2[OF s1] l2(1,2)]
  note s3 = inj[OF conjunct2[OF s2] l2(3,4)]
  note s4 = inj[OF conjunct2[OF s3] l2(5,6)]
  have s5: "technique_id c = technique_id d \<and>
     field (bytes_of_str (status_as_str (claim_status c))) @
     field (bytes_of_str (level_as_str (evidence_level c))) @ field (bytes_of_str (does_not_show c)) =
     field (bytes_of_str (status_as_str (claim_status d))) @
     field (bytes_of_str (level_as_str (evidence_level d))) @ field (bytes_of_str (does_not_show d))"
  proof (cases "technique_id c"; cases "technique_id d")
    fix i j assume t: "technique_id c = Some i" "technique_id d = Some j"
    have "length i < 2 ^ 64" "length j < 2 ^ 64" using S t by simp_all
    from inj[OF _ this] conjunct2[OF s4] t show ?thesis using bytes_of_str_inj by auto
  qed (use conjunct2[OF s4] in auto)
  note s6 = inj[OF conjunct2[OF s5] label_lengths(1) label_lengths(1)]
  note s7 = inj[OF conjunct2[OF s6] label_lengths(2) label_lengths(2)]
  have "field (bytes_of_str (does_not_show c)) @ [] = field (bytes_of_str (does_not_show d)) @ []"
    using conjunct2[OF s7] by simp
  note s8 = inj[OF this l2(7,8)]
  have "c = d"
    by (rule claim.equality)
      (use s2 s3 s4 s5 s6 s7 s8 status_as_str_inj level_as_str_inj bytes_of_str_inj in simp_all)
  then show ?thesis using s1 bytes_of_str_inj by simp
qed

section \<open>Chains\<close>

lemma base16_inj: "base16_lower xs = base16_lower ys \<Longrightarrow> xs = ys"
proof (induction xs arbitrary: ys)
  case Nil
  then show ?case by (cases ys) (simp_all add: base16_lower_def base16_def)
next
  case (Cons x xs)
  obtain y ys' where ys: "ys = y # ys'" using Cons.prems by (cases ys) (simp_all add: base16_lower_def base16_def)
  have table: "distinct BASE16_LOWER" "length BASE16_LOWER = 16" by (simp_all add: BASE16_LOWER_def)
  have small: "unat (drop_bit 4 b) < 16" "unat (b AND 15) < 16" for b :: u8
  proof -
    have "(15 :: u8) = mask 4" by (simp add: mask_eq_exp_minus_1)
    then have "b AND 15 = take_bit 4 b" by (simp only: take_bit_eq_mask)
    then have "unat (b AND 15) = take_bit 4 (unat b)" by (simp add: unsigned_take_bit_eq)
    then show "unat (b AND 15) < 16" using take_bit_nat_less_exp[of 4 "unat b"] by simp
    show "unat (drop_bit 4 b) < 16" unfolding unat_drop_bit_eq using unat_byte[of b] by (simp add: drop_bit_eq_div)
  qed
  have eq: "BASE16_LOWER ! unat (drop_bit 4 x) = BASE16_LOWER ! unat (drop_bit 4 y)"
    "BASE16_LOWER ! unat (x AND 15) = BASE16_LOWER ! unat (y AND 15)" "base16_lower xs = base16_lower ys'"
    using Cons.prems ys by (simp_all add: base16_lower_def base16_def)
  then have "unat (drop_bit 4 x) = unat (drop_bit 4 y)" "unat (x AND 15) = unat (y AND 15)"
    using small table by (simp_all add: nth_eq_iff_index_eq)
  then have "drop_bit 4 x = drop_bit 4 y" "x AND 15 = y AND 15" by (simp_all only: word_unat_eq_iff)
  moreover have "b = push_bit 4 (drop_bit 4 b) OR (b AND 15)" for b :: u8
    by (rule byte_eqI; simp add: bit_simps)
  ultimately have "x = y" by metis
  with Cons.IH[OF eq(3)] ys show ?case by simp
qed

lemma intact_snoc:
  "intact_from r hw p (xs @ [e]) \<longleftrightarrow> intact_from r hw p xs \<and>
     prev e = (if xs = [] then p else hash (last xs)) \<and>
     hash e = hash (append_claim r hw (prev e) (entry_claim e))"
  by (induction xs arbitrary: p) auto

definition entry_preimage :: "ledger_entry \<Rightarrow> u8 list" where
  "entry_preimage e = preimage (prev e) (entry_claim e)"

text \<open>No two different preimages of the entries collide, none hashes to the genesis value, and no text is
  of \<open>2 ^ 64\<close> bytes.\<close>

definition collision_free :: "(u8 list \<Rightarrow> u8 list) \<Rightarrow> bool \<Rightarrow> ledger_entry list \<Rightarrow> bool" where
  "collision_free r hw es \<longleftrightarrow>
     list_all (\<lambda>e. list_all (\<lambda>f. sha256 r hw (entry_preimage e) = sha256 r hw (entry_preimage f)
       \<longrightarrow> entry_preimage e = entry_preimage f) es) es \<and>
     list_all (\<lambda>e. hash e \<noteq> GENESIS \<and> small_claim (entry_claim e) \<and> length (prev e) < 2 ^ 64) es"

lemma collision_freeD:
  "collision_free r hw es \<Longrightarrow> e \<in> set es \<Longrightarrow> f \<in> set es \<Longrightarrow>
    sha256 r hw (entry_preimage e) = sha256 r hw (entry_preimage f) \<Longrightarrow> entry_preimage e = entry_preimage f"
  by (simp add: collision_free_def list_all_iff)

lemma same_hash_same_entry:
  assumes free: "collision_free r hw es" and mem: "e \<in> set es" "f \<in> set es"
    and sealed: "hash e = hash (append_claim r hw (prev e) (entry_claim e))"
      "hash f = hash (append_claim r hw (prev f) (entry_claim f))" and same: "hash e = hash f"
  shows "e = f"
proof -
  have "sha256 r hw (entry_preimage e) = sha256 r hw (entry_preimage f)"
    using sealed same by (simp add: append_claim_def hex32_def entry_preimage_def base16_inj)
  from collision_freeD[OF free mem this] have "preimage (prev e) (entry_claim e) = preimage (prev f) (entry_claim f)"
    by (simp add: entry_preimage_def)
  then have "prev e = prev f" "entry_claim e = entry_claim f"
    using preimage_injective free mem unfolding collision_free_def list_all_iff by blast+
  with same show ?thesis by (intro ledger_entry.equality) simp_all
qed

lemma intact_agree:
  "intact_from r hw GENESIS es \<Longrightarrow> intact_from r hw GENESIS fs \<Longrightarrow> es \<noteq> [] \<Longrightarrow> fs \<noteq> [] \<Longrightarrow>
    hash (last es) = hash (last fs) \<Longrightarrow> collision_free r hw all \<Longrightarrow> set es \<union> set fs \<subseteq> set all \<Longrightarrow> es = fs"
proof (induction es arbitrary: fs rule: rev_induct)
  case (snoc e xs)
  obtain ys f where fs: "fs = ys @ [f]" using snoc.prems(4) by (cases fs rule: rev_cases) auto
  note E = snoc.prems(1)[unfolded intact_snoc] and F = snoc.prems(2)[unfolded fs intact_snoc]
  have mem: "e \<in> set all" "f \<in> set all" using snoc.prems(7) fs by auto
  have ef: "e = f"
    by (rule same_hash_same_entry[OF snoc.prems(6) mem]) (use E F snoc.prems(5) fs in simp_all)
  have real: "g \<in> set all \<Longrightarrow> hash g \<noteq> GENESIS" for g
    using snoc.prems(6) by (simp add: collision_free_def list_all_iff)
  have "xs = ys"
  proof (cases "xs = [] \<or> ys = []")
    case True
    show ?thesis
    proof (rule ccontr)
      assume "xs \<noteq> ys"
      with True E F ef have "\<exists>g \<in> set xs \<union> set ys. hash g = GENESIS"
        by (cases "xs = []") (metis UnI2 last_in_set, metis UnI1 last_in_set)
      with real snoc.prems(7) fs show False by auto
    qed
  next
    case False
    with E F ef snoc.prems(6,7) fs show ?thesis by (intro snoc.IH) auto
  qed
  with ef fs show ?case by simp
qed simp

section \<open>Properties\<close>

text \<open>No field content can shift a field boundary: two claims with the same preimage are the same claim
  after the same entry, for texts below \<open>2 ^ 64\<close> bytes.\<close>

theorem preimage_unambiguous:
  assumes "preimage p c = preimage q d" and "small_claim c" "small_claim d"
    and "length p < 2 ^ 64" "length q < 2 ^ 64"
  shows "p = q \<and> c = d"
  using assms by (rule preimage_injective)

definition sample_claim :: claim where
  "sample_claim =
     \<lparr>claim_text = ''c'', claim_source = ''s'', component = ''p'', technique_id = Some ''T1591'',
      claim_status = Verified, evidence_level = DirectObservation, does_not_show = ''d''\<rparr>"

theorem preimage_unambiguous_witness:
  "GENESIS = GENESIS \<and> sample_claim = sample_claim"
  by (rule preimage_unambiguous[of GENESIS sample_claim GENESIS sample_claim])
    (simp_all add: small_claim_def sample_claim_def GENESIS_def)

text \<open>C12: Two intact chains that end in the same hash are the same chain, entry for entry, as long as the
  hash does not collide on their preimages: no entry can be dropped, reordered, edited or inserted
  without changing the last hash.\<close>

theorem chain_is_tamper_evident:
  assumes "chain_intact ring_digest hw es" "chain_intact ring_digest hw fs"
    and "es \<noteq> []" "fs \<noteq> []" "hash (last es) = hash (last fs)"
    and "collision_free ring_digest hw (es @ fs)"
  shows "es = fs"
  using assms(3,4,5,6)
  by (intro intact_agree[OF assms(1,2)[unfolded chain_intact_def], of "es @ fs"]) simp_all

text \<open>A digest of two bytes, which the witness hashes with.\<close>

definition sample_digest :: "u8 list \<Rightarrow> u8 list" where
  "sample_digest d = [of_nat (length d), 7]"

definition sample_chain :: "ledger_entry list" where
  "sample_chain = [append_claim sample_digest True GENESIS sample_claim]"

lemma sample_chain_intact: "chain_intact sample_digest True sample_chain"
  by (simp add: chain_intact_def sample_chain_def append_claim_def)

lemma collision_free_single:
  assumes "hash a \<noteq> GENESIS" "small_claim (entry_claim a)" "length (prev a) < 2 ^ 64" "\<And>e. e \<in> set es \<Longrightarrow> e = a"
  shows "collision_free r hw es"
  unfolding collision_free_def list_all_iff using assms by blast

lemma sample_chain_free: "collision_free sample_digest True (sample_chain @ sample_chain)"
proof -
  have e: "e = append_claim sample_digest True GENESIS sample_claim" if "e \<in> set (sample_chain @ sample_chain)" for e
    using that by (simp add: sample_chain_def)
  have "32 \<le> length (preimage GENESIS sample_claim)" by (simp add: preimage_def field_def to_be64_def GENESIS_def)
  then have four: "length (hash (append_claim sample_digest True GENESIS sample_claim)) = 4"
    by (simp add: append_claim_def hex32_def base16_lower_def base16_def sha256_def accelerated_backend_for_def
        sample_digest_def)
  have "hash (append_claim sample_digest True GENESIS sample_claim) \<noteq> GENESIS"
  proof
    assume eq: "hash (append_claim sample_digest True GENESIS sample_claim) = GENESIS"
    from four show False unfolding eq by (simp add: GENESIS_def)
  qed
  moreover have "small_claim (entry_claim (append_claim sample_digest True GENESIS sample_claim))"
    by (simp add: append_claim_def small_claim_def sample_claim_def)
  moreover have "length (prev (append_claim sample_digest True GENESIS sample_claim)) < 2 ^ 64"
    by (simp add: append_claim_def GENESIS_def)
  moreover note e
  ultimately show ?thesis by (rule collision_free_single)
qed

theorem chain_is_tamper_evident_witness:
  "chain_intact sample_digest True sample_chain \<and>
     collision_free sample_digest True (sample_chain @ sample_chain) \<and> sample_chain = sample_chain"
proof (intro conjI sample_chain_intact sample_chain_free)
  show "sample_chain = sample_chain"
    by (rule chain_is_tamper_evident[OF sample_chain_intact sample_chain_intact _ _ refl sample_chain_free])
      (simp_all add: sample_chain_def)
qed

text \<open>Appending to an intact chain after its last hash keeps it intact, a broken chain is never saved,
  and what loads is intact.\<close>

theorem ledger_stays_intact:
  assumes "chain_intact ring_digest hw es"
  shows "chain_intact ring_digest hw
      (es @ [append_claim ring_digest hw (if es = [] then GENESIS else hash (last es)) c]) \<and>
    save_chain ring_digest hw write_json es = write_json es \<and>
    load_chain ring_digest hw Inr (Inr es) = Inr es"
  using assms by (simp add: chain_intact_def intact_snoc append_claim_def save_chain_def load_chain_def)

theorem ledger_stays_intact_witness:
  "chain_intact sample_digest True
      (sample_chain @ [append_claim sample_digest True
         (if sample_chain = [] then GENESIS else hash (last sample_chain)) sample_claim]) \<and>
    save_chain sample_digest True (\<lambda>_. Inr ()) sample_chain = Inr () \<and>
    load_chain sample_digest True Inr (Inr sample_chain) = Inr sample_chain"
  using ledger_stays_intact[OF sample_chain_intact, where write_json = "\<lambda>_. Inr ()"] by simp

text \<open>The interop gate: an entry is admitted exactly when the whole chain is intact and its claim is
  verified, directly observed or better, bound to its technique by the table and says what it does
  not show; with the table of this crate, which is empty, nothing is admitted.\<close>

theorem interop_gate:
  "(e \<in> set (admitted_with ring_digest hw es bindings) \<longleftrightarrow>
     e \<in> set es \<and> chain_intact ring_digest hw es \<and> claim_status (entry_claim e) = Verified \<and>
     DirectObservation \<le> evidence_level (entry_claim e) \<and> trim (component (entry_claim e)) \<noteq> [] \<and>
     trim (does_not_show (entry_claim e)) \<noteq> [] \<and>
     (\<exists>i. technique_id (entry_claim e) = Some i \<and> valid_technique i \<and>
        (component (entry_claim e), i) \<in> set bindings)) \<and>
   admitted ring_digest hw es = []"
proof -
  have "binds bindings p i \<longleftrightarrow> (p, i) \<in> set bindings" for p i
    by (auto simp: binds_def list_ex_iff)
  then show ?thesis
    by (auto simp: admitted_with_def admitted_def admits_interop_with_def level_admits_interop_def BINDINGS_def
        split: option.splits)
qed

end
