(* ===== verification/Pattern.thy ===== *)
theory Pattern
  imports Textnorm
begin

text \<open>
  \<open>src/pattern.rs\<close>: the regular expressions of the correlation rules - parser, compiler and the
  parallel matcher. Characters are code points. The letter tables of the standard library are the
  argument \<open>unicode\<close>. A result of type \<open>option\<close> is \<open>None\<close> where the Rust code would panic (an index
  out of range) or, in the parser, where the recursion is cut off by its fuel; both are shown never
  to happen.
\<close>

section \<open>Characters\<close>

record unicode =
  numeric :: "nat \<Rightarrow> bool"
  alphanumeric :: "nat \<Rightarrow> bool"
  to_lowercase :: "nat \<Rightarrow> nat list"
  to_uppercase :: "nat \<Rightarrow> nat list"

definition MAX_PROGRAM :: nat where "MAX_PROGRAM = 20000"
definition MAX_DEPTH :: nat where "MAX_DEPTH = 64"

record pattern_error =
  err_pattern :: str
  err_offset :: nat
  err_reason :: str

datatype perl = Digit | Word | Space

fun perl_matches :: "unicode \<Rightarrow> perl \<Rightarrow> nat \<Rightarrow> bool" where
  "perl_matches u Digit c = numeric u c"
| "perl_matches u Word c \<longleftrightarrow> alphanumeric u c \<or> c = 95"
| "perl_matches u Space c = is_whitespace c"

datatype class_item = Range nat nat | Perl perl bool

record char_class =
  class_items :: "class_item list"
  negated :: bool

definition lower :: "unicode \<Rightarrow> nat \<Rightarrow> nat" where
  "lower u c = (case to_lowercase u c of [one] \<Rightarrow> one | _ \<Rightarrow> c)"

definition upper :: "unicode \<Rightarrow> nat \<Rightarrow> nat" where
  "upper u c = (case to_uppercase u c of [one] \<Rightarrow> one | _ \<Rightarrow> c)"

fun item_hit :: "unicode \<Rightarrow> nat \<Rightarrow> class_item \<Rightarrow> bool" where
  "item_hit u c (Range low high) \<longleftrightarrow> low \<le> c \<and> c \<le> high"
| "item_hit u c (Perl kind neg) \<longleftrightarrow> perl_matches u kind c \<noteq> neg"

definition class_matches :: "unicode \<Rightarrow> char_class \<Rightarrow> nat \<Rightarrow> bool \<Rightarrow> bool" where
  "class_matches u cl c ignore_case \<longleftrightarrow>
     (let hit = (\<lambda>c. list_ex (item_hit u c) (class_items cl));
          found = (hit c \<or> ignore_case \<and> (hit (lower u c) \<or> hit (upper u c)))
      in found \<noteq> negated cl)"

datatype assertion = Start | End | AbsoluteEnd | WordBoundary | NotWordBoundary

datatype node =
    Empty
  | Char nat
  | Any
  | Class char_class
  | Assert assertion
  | Concat "node list"
  | Alt "node list"
  | Repeat node nat "nat option"

datatype inst =
    IChar nat
  | IAny
  | IClass char_class
  | IAssert assertion
  | Split nat nat
  | Jmp nat
  | IMatch

section \<open>Parser\<close>

record parser =
  source :: str
  chars :: "nat list"
  pos :: nat
  ignore_case :: bool
  depth :: nat

definition fail :: "parser \<Rightarrow> str \<Rightarrow> pattern_error + 'a" where
  "fail p reason = Inl \<lparr>err_pattern = source p, err_offset = pos p, err_reason = reason\<rparr>"

definition peek :: "parser \<Rightarrow> nat option" where
  "peek p = (if pos p < length (chars p) then Some (chars p ! pos p) else None)"

definition advance :: "nat \<Rightarrow> parser \<Rightarrow> parser" where
  "advance n p = p\<lparr>pos := pos p + n\<rparr>"

definition eat :: "nat \<Rightarrow> parser \<Rightarrow> bool \<times> parser" where
  "eat c p = (if peek p = Some c then (True, advance 1 p) else (False, p))"

datatype escaped = EChar nat | EPerl perl bool | EAssert assertion

definition is_digit :: "nat \<Rightarrow> bool" where
  "is_digit c \<longleftrightarrow> 48 \<le> c \<and> c \<le> 57"

definition is_alpha :: "nat \<Rightarrow> bool" where
  "is_alpha c \<longleftrightarrow> 65 \<le> c \<and> c \<le> 90 \<or> 97 \<le> c \<and> c \<le> 122"

definition pt :: "char \<Rightarrow> nat" where
  "pt c = of_char c"

definition escape :: "bool \<Rightarrow> parser \<Rightarrow> pattern_error + (escaped \<times> parser)" where
  "escape in_class p0 =
     (case peek p0 of
        None \<Rightarrow> fail p0 (''pattern ends with '' @ [CHR 0x5C])
      | Some c \<Rightarrow>
          (let p = advance 1 p0 in
           if c = pt CHR ''d'' then Inr (EPerl Digit False, p)
           else if c = pt CHR ''D'' then Inr (EPerl Digit True, p)
           else if c = pt CHR ''w'' then Inr (EPerl Word False, p)
           else if c = pt CHR ''W'' then Inr (EPerl Word True, p)
           else if c = pt CHR ''s'' then Inr (EPerl Space False, p)
           else if c = pt CHR ''S'' then Inr (EPerl Space True, p)
           else if c = pt CHR ''b'' \<and> \<not> in_class then Inr (EAssert WordBoundary, p)
           else if c = pt CHR ''B'' \<and> \<not> in_class then Inr (EAssert NotWordBoundary, p)
           else if c = pt CHR ''A'' \<and> \<not> in_class then Inr (EAssert Start, p)
           else if c = pt CHR ''Z'' \<and> \<not> in_class then Inr (EAssert AbsoluteEnd, p)
           else if c = pt CHR ''b'' then Inr (EChar 8, p)
           else if c = pt CHR ''t'' then Inr (EChar 9, p)
           else if c = pt CHR ''n'' then Inr (EChar 10, p)
           else if c = pt CHR ''r'' then Inr (EChar 13, p)
           else if c = pt CHR ''f'' then Inr (EChar 12, p)
           else if c = pt CHR ''v'' then Inr (EChar 11, p)
           else if c = pt CHR ''x'' then
             (let digits = take 2 (drop (pos p) (chars p)) in
              case (if length digits = 2 then Option.bind (u32_from_str_radix True digits) char_from_u32 else None) of
                None \<Rightarrow> fail p ([CHR 0x5C] @ ''x needs two hex digits'')
              | Some v \<Rightarrow> Inr (EChar v, advance 2 p))
           else if is_digit c then fail p ''backreferences are not supported''
           else if is_alpha c then fail p ''unknown escape''
           else Inr (EChar c, p)))"

text \<open>How the parser moves: it only goes forward, and keeps the text.\<close>

definition ahead :: "parser \<Rightarrow> parser \<Rightarrow> bool" where
  "ahead p q \<longleftrightarrow> source q = source p \<and> chars q = chars p \<and> pos p \<le> pos q"

lemma ahead_refl [simp]: "ahead p p"
  by (simp add: ahead_def)

lemma ahead_trans: "ahead p q \<Longrightarrow> ahead q r \<Longrightarrow> ahead p r"
  by (auto simp: ahead_def)

lemma ahead_advance [simp]: "ahead p (advance n p)"
  by (simp add: ahead_def advance_def)

lemma advance_simps [simp]:
  "pos (advance n p) = pos p + n" "chars (advance n p) = chars p" "source (advance n p) = source p"
  "depth (advance n p) = depth p" "ignore_case (advance n p) = ignore_case p"
  by (simp_all add: advance_def)

lemma peek_less: "peek p = Some c \<Longrightarrow> pos p < length (chars p)"
  by (simp add: peek_def split: if_splits)

lemma eat_ahead: "eat c p = (b, q) \<Longrightarrow> ahead p q"
  by (auto simp: eat_def split: if_splits)

lemma escape_ahead: "escape ic p = Inr (e, q) \<Longrightarrow> ahead p q \<and> pos p < pos q"
  by (auto simp: escape_def Let_def fail_def ahead_def split: option.splits if_splits)

section \<open>Classes\<close>

text \<open>The upper end of a range; the parser stands after the hyphen.\<close>

definition range_end :: "parser \<Rightarrow> pattern_error + (nat \<times> parser)" where
  "range_end p =
     (case peek p of
        None \<Rightarrow> fail p ''missing ]''
      | Some c \<Rightarrow>
          (let p1 = advance 1 p in
           if c = 92 then
             (case escape True p1 of
                Inl e \<Rightarrow> Inl e
              | Inr (EChar c, p2) \<Rightarrow> Inr (c, p2)
              | Inr (_, p2) \<Rightarrow> fail p2 ''a range ends in a class escape'')
           else Inr (c, p1)))"

lemma range_end_ahead: "range_end p = Inr (c, q) \<Longrightarrow> ahead p q \<and> pos p < pos q"
  by (auto simp: range_end_def Let_def fail_def ahead_def split: option.splits if_splits sum.splits
      prod.splits escaped.splits dest!: escape_ahead)

text \<open>One turn of the loop of \<open>class\<close>: the class is closed, or an item is read.\<close>

definition next_item :: "parser \<Rightarrow> bool \<Rightarrow> pattern_error + (class_item option \<times> parser)" where
  "next_item p first =
     (case peek p of
        None \<Rightarrow> fail p ''missing ]''
      | Some c \<Rightarrow>
          if c = 93 \<and> \<not> first then Inr (None, advance 1 p)
          else
            (let p1 = advance 1 p;
                 ranged = (\<lambda>low q.
                   if peek q = Some 45 \<and> pos q + 1 < length (chars q) \<and> chars q ! (pos q + 1) \<noteq> 93 then
                     (case range_end (advance 1 q) of
                        Inl e \<Rightarrow> Inl e
                      | Inr (high, q') \<Rightarrow>
                          if high < low then fail q' ''range out of order''
                          else Inr (Some (Range low high), q'))
                   else Inr (Some (Range low low), q))
             in if c = 92 then
                  (case escape True p1 of
                     Inl e \<Rightarrow> Inl e
                   | Inr (EChar low, q) \<Rightarrow> ranged low q
                   | Inr (EPerl kind neg, q) \<Rightarrow> Inr (Some (Perl kind neg), q)
                   | Inr (EAssert _, q) \<Rightarrow> fail q ''assertion in a class'')
                else ranged c p1))"

lemma next_item_ahead: "next_item p first = Inr (r, q) \<Longrightarrow> ahead p q \<and> pos p < pos q \<and> pos p < length (chars p)"
  by (auto simp: next_item_def Let_def fail_def ahead_def split: option.splits if_splits sum.splits
      prod.splits escaped.splits dest!: escape_ahead range_end_ahead peek_less)

function class_loop :: "parser \<Rightarrow> bool \<Rightarrow> class_item list \<Rightarrow> pattern_error + (class_item list \<times> parser)" where
  "class_loop p first items =
     (case next_item p first of
        Inl e \<Rightarrow> Inl e
      | Inr (None, q) \<Rightarrow> Inr (items, q)
      | Inr (Some i, q) \<Rightarrow> class_loop q False (items @ [i]))"
  by pat_completeness auto

termination
proof (relation "measure (\<lambda>(p, _, _). length (chars p) - pos p)")
  fix p first and x z i q
  assume "next_item p first = Inr x" "(z, q) = x" "z = Some i"
  then have "next_item p first = Inr (Some i, q)" by simp
  from next_item_ahead[OF this] show "((q, False, items @ [i]), (p, first, items)) \<in> measure (\<lambda>(p, _, _). length (chars p) - pos p)" for items
    by (auto simp: ahead_def)
qed simp

declare class_loop.simps [simp del]

definition parse_class :: "parser \<Rightarrow> pattern_error + (node \<times> parser)" where
  "parse_class p0 =
     (let (neg, p) = eat 94 p0 in
      case class_loop p True [] of
        Inl e \<Rightarrow> Inl e
      | Inr (items, q) \<Rightarrow> Inr (Class \<lparr>class_items = items, negated = neg\<rparr>, q))"

section \<open>Quantifiers\<close>

text \<open>\<open>number\<close>: the value of the digits at the position, if there are any and it fits.\<close>

definition number :: "parser \<Rightarrow> nat option \<times> parser" where
  "number p =
     (let digits = takeWhile is_digit (drop (pos p) (chars p))
      in (parse_unsigned (2 ^ 32 - 1) (map char_of digits), advance (length digits) p))"

definition counted :: "parser \<Rightarrow> (nat \<times> nat option) option \<times> parser" where
  "counted p =
     (let (open_brace, p1) = eat 123 p in
      if \<not> open_brace then (None, p)
      else
        (let (mn, p2) = number p1 in
         if pos p2 > pos p1 \<and> mn = None then (None, p)
         else
           (let (closed, p3) = eat 125 p2 in
            if closed then (case mn of Some m \<Rightarrow> (Some (m, Some m), p3) | None \<Rightarrow> (None, p))
            else
              (let (comma, p4) = eat 44 p3 in
               if \<not> comma then (None, p)
               else
                 (let m = (case mn of Some m \<Rightarrow> m | None \<Rightarrow> 0); (closed, p5) = eat 125 p4 in
                  if closed then (Some (m, None), p5)
                  else
                    (let (mx, p6) = number p5 in
                     case mx of
                       None \<Rightarrow> (None, p)
                     | Some x \<Rightarrow>
                         (let (closed, p7) = eat 125 p6 in
                          if closed then (Some (m, Some x), p7) else (None, p))))))))"

fun is_unrepeatable :: "node \<Rightarrow> bool" where
  "is_unrepeatable (Assert _) = True"
| "is_unrepeatable Empty = True"
| "is_unrepeatable _ = False"

definition bounded_repeat :: "node \<Rightarrow> nat \<Rightarrow> nat option \<Rightarrow> parser \<Rightarrow> pattern_error + (node \<times> parser)" where
  "bounded_repeat atom mn mx p =
     (if (case mx of Some m \<Rightarrow> m < mn | None \<Rightarrow> False) then fail p ''repetition bounds out of order''
      else if is_unrepeatable atom then fail p ''nothing to repeat''
      else Inr (Repeat atom mn mx, snd (eat 63 p)))"

definition quantified :: "node \<Rightarrow> parser \<Rightarrow> pattern_error + (node \<times> parser)" where
  "quantified atom p =
     (case peek p of
        None \<Rightarrow> Inr (atom, p)
      | Some c \<Rightarrow>
          if c = 42 then bounded_repeat atom 0 None (advance 1 p)
          else if c = 43 then bounded_repeat atom 1 None (advance 1 p)
          else if c = 63 then bounded_repeat atom 0 (Some 1) (advance 1 p)
          else if c = 123 then
            (case counted p of
               (Some (mn, mx), q) \<Rightarrow> bounded_repeat atom mn mx q
             | (None, _) \<Rightarrow> Inr (atom, p))
          else Inr (atom, p))"

lemma number_ahead: "number p = (r, q) \<Longrightarrow> ahead p q"
  by (auto simp: number_def Let_def)

lemma counted_ahead: "counted p = (r, q) \<Longrightarrow> ahead p q"
  unfolding counted_def Let_def
  by (auto split: prod.splits if_splits option.splits dest!: eat_ahead number_ahead) (meson ahead_trans)+

lemma bounded_repeat_ahead: "bounded_repeat a mn mx p = Inr (n, q) \<Longrightarrow> ahead p q"
  by (auto simp: bounded_repeat_def fail_def eat_def split: if_splits option.splits)

lemma quantified_ahead: "quantified a p = Inr (n, q) \<Longrightarrow> ahead p q"
  by (auto simp: quantified_def split: option.splits if_splits prod.splits
      dest!: bounded_repeat_ahead counted_ahead intro: ahead_trans[OF ahead_advance] ahead_trans)

lemma parse_class_ahead: "parse_class p = Inr (n, q) \<Longrightarrow> ahead p q"
proof -
  have loop: "class_loop p first items = Inr (is, q) \<Longrightarrow> ahead p q" for p first items "is" q
  proof (induction p first items rule: class_loop.induct)
    case (1 p first items)
    show ?case
    proof (cases "next_item p first")
      case (Inr x)
      obtain r q' where x: "x = (r, q')" by force
      note step = next_item_ahead[OF Inr[unfolded x]]
      show ?thesis
      proof (cases r)
        case (Some i)
        with "1.prems" Inr x have "class_loop q' False (items @ [i]) = Inr (is, q)"
          by (simp add: class_loop.simps[of p])
        with "1.IH"[OF Inr x[symmetric] Some] step show ?thesis using ahead_trans by blast
      qed (use "1.prems" Inr x step in \<open>simp add: class_loop.simps[of p]\<close>)
    qed (use "1.prems" in \<open>simp add: class_loop.simps[of p]\<close>)
  qed
  assume "parse_class p = Inr (n, q)"
  then show ?thesis
    by (auto simp: parse_class_def split: prod.splits sum.splits dest!: loop eat_ahead intro: ahead_trans)
qed

section \<open>The recursive descent\<close>

definition alt_of :: "node list \<Rightarrow> node" where
  "alt_of branches = (case branches of [b] \<Rightarrow> b | _ \<Rightarrow> Alt branches)"

definition concat_of :: "node list \<Rightarrow> node" where
  "concat_of items = (case items of [] \<Rightarrow> Empty | [i] \<Rightarrow> i | _ \<Rightarrow> Concat items)"

text \<open>\<open>(?P<name>\<close> has been read up to the name: skip to the closing bracket.\<close>

definition skip_name :: "parser \<Rightarrow> parser" where
  "skip_name p =
     (let rest = takeWhile (\<lambda>c. c \<noteq> 62) (drop (pos p) (chars p))
      in if pos p + length rest < length (chars p) then advance (length rest + 1) p
         else advance (length rest) p)"

datatype group_start = Inner parser | Flag parser | Bad parser

text \<open>What follows an opening parenthesis. The two \<open>eat\<close>s of an alternative that fails have moved the
  parser, which the offset of the error shows.\<close>

definition group_head :: "parser \<Rightarrow> group_start" where
  "group_head p =
     (let (q, p1) = eat 63 p in
      if \<not> q then Inner p
      else
        (let (colon, p2) = eat 58 p1 in
         if colon then Inner p2
         else
           (let (cap_p, p3) = eat 80 p1; (angle, p4) = (if cap_p then eat 60 p3 else (False, p3)) in
            if angle then Inner (skip_name p4)
            else
              (let (i, p5) = eat 105 p4; (close, p6) = (if i then eat 41 p5 else (False, p5)) in
               if close then Flag p6 else Bad p6))))"

text \<open>\<open>Some\<close> of the result, or \<open>None\<close> when the fuel runs out.\<close>

fun alternation :: "nat \<Rightarrow> parser \<Rightarrow> (pattern_error + (node \<times> parser)) option"
and alt_rest :: "nat \<Rightarrow> parser \<Rightarrow> node list \<Rightarrow> (pattern_error + (node \<times> parser)) option"
and parse_concat :: "nat \<Rightarrow> parser \<Rightarrow> node list \<Rightarrow> (pattern_error + (node \<times> parser)) option"
and atom :: "nat \<Rightarrow> parser \<Rightarrow> (pattern_error + (node \<times> parser)) option"
and group :: "nat \<Rightarrow> parser \<Rightarrow> (pattern_error + (node \<times> parser)) option"
where
  "alternation 0 p = None"
| "alternation (Suc n) p =
     (case parse_concat n p [] of
        None \<Rightarrow> None
      | Some (Inl e) \<Rightarrow> Some (Inl e)
      | Some (Inr (b, q)) \<Rightarrow> alt_rest n q [b])"
| "alt_rest 0 p branches = None"
| "alt_rest (Suc n) p branches =
     (let (bar, q) = eat 124 p in
      if bar then
        (case parse_concat n q [] of
           None \<Rightarrow> None
         | Some (Inl e) \<Rightarrow> Some (Inl e)
         | Some (Inr (b, r)) \<Rightarrow> alt_rest n r (branches @ [b]))
      else Some (Inr (alt_of branches, p)))"
| "parse_concat 0 p items = None"
| "parse_concat (Suc n) p items =
     (case peek p of
        None \<Rightarrow> Some (Inr (concat_of items, p))
      | Some c \<Rightarrow>
          if c = 124 \<or> c = 41 then Some (Inr (concat_of items, p))
          else
            (case atom n p of
               None \<Rightarrow> None
             | Some (Inl e) \<Rightarrow> Some (Inl e)
             | Some (Inr (a, q)) \<Rightarrow>
                 (case quantified a q of
                    Inl e \<Rightarrow> Some (Inl e)
                  | Inr (item, r) \<Rightarrow> parse_concat n r (items @ [item]))))"
| "atom 0 p = None"
| "atom (Suc n) p0 =
     (case peek p0 of
        None \<Rightarrow> Some (fail p0 ''pattern ends early'')
      | Some c \<Rightarrow>
          (let p = advance 1 p0 in
           if c = 46 then Some (Inr (Any, p))
           else if c = 94 then Some (Inr (Assert Start, p))
           else if c = 36 then Some (Inr (Assert End, p))
           else if c = 91 then Some (parse_class p)
           else if c = 40 then group n p
           else if c = 92 then
             Some (case escape False p of
                     Inl e \<Rightarrow> Inl e
                   | Inr (EChar c, q) \<Rightarrow> Inr (Char c, q)
                   | Inr (EPerl kind neg, q) \<Rightarrow>
                       Inr (Class \<lparr>class_items = [Perl kind neg], negated = False\<rparr>, q)
                   | Inr (EAssert a, q) \<Rightarrow> Inr (Assert a, q))
           else if c = 42 \<or> c = 43 \<or> c = 63 then Some (fail p ''nothing to repeat'')
           else Some (Inr (Char c, p))))"
| "group 0 p = None"
| "group (Suc n) p =
     (case group_head p of
        Flag q \<Rightarrow> Some (Inr (Empty, q\<lparr>ignore_case := True\<rparr>))
      | Bad q \<Rightarrow> Some (fail q
          ''lookaround, backreferences and inline flags other than (?i) are not supported'')
      | Inner q \<Rightarrow>
          if depth q = MAX_DEPTH then Some (fail q ''groups nested too deeply'')
          else
            (case alternation n (q\<lparr>depth := depth q + 1\<rparr>) of
               None \<Rightarrow> None
             | Some (Inl e) \<Rightarrow> Some (Inl e)
             | Some (Inr (inner, r)) \<Rightarrow>
                 (let (close, s) = eat 41 r in
                  if \<not> close then Some (fail s ''missing )'')
                  else Some (Inr (inner, s\<lparr>depth := depth s - 1\<rparr>)))))"

section \<open>Compiler\<close>

record compiler =
  prog :: "inst list"
  cost :: nat

fun weight :: "inst \<Rightarrow> nat" where
  "weight (IClass cl) = max (length (class_items cl)) 1"
| "weight _ = 1"

definition too_large :: str where
  "too_large = ''compiles to more than '' @ show_nat MAX_PROGRAM @ '' instructions''"

definition emit :: "inst \<Rightarrow> compiler \<Rightarrow> str + (nat \<times> compiler)" where
  "emit i c =
     (if cost c + weight i > MAX_PROGRAM then Inl too_large
      else Inr (length (prog c), \<lparr>prog = prog c @ [i], cost = cost c + weight i\<rparr>))"

definition emit_only :: "inst \<Rightarrow> compiler \<Rightarrow> str + compiler" where
  "emit_only i c = (case emit i c of Inl e \<Rightarrow> Inl e | Inr (_, c') \<Rightarrow> Inr c')"

definition patch :: "nat \<Rightarrow> inst \<Rightarrow> compiler \<Rightarrow> compiler" where
  "patch k i c = c\<lparr>prog := (prog c)[k := i]\<rparr>"

fun shift :: "nat \<Rightarrow> inst \<Rightarrow> inst" where
  "shift d (Split a b) = Split (a + d) (b + d)"
| "shift d (Jmp t) = Jmp (t + d)"
| "shift d i = i"

fun emit_all :: "inst list \<Rightarrow> compiler \<Rightarrow> str + compiler" where
  "emit_all [] c = Inr c"
| "emit_all (i # is) c = (case emit_only i c of Inl e \<Rightarrow> Inl e | Inr c' \<Rightarrow> emit_all is c')"

text \<open>A compiling step, as the recursive call \<open>self.node(node)\<close> is to the loops over it.\<close>

type_synonym step = "compiler \<Rightarrow> str + compiler"

definition copy :: "step \<Rightarrow> (nat \<times> nat) option \<Rightarrow> compiler \<Rightarrow> str + (compiler \<times> (nat \<times> nat) option)" where
  "copy node body c =
     (case body of
        None \<Rightarrow>
          (case node c of
             Inl e \<Rightarrow> Inl e
           | Inr c' \<Rightarrow> Inr (c', Some (length (prog c), length (prog c'))))
      | Some (start, end) \<Rightarrow>
          (case emit_all (map (shift (length (prog c) - start)) (take (end - start) (drop start (prog c)))) c of
             Inl e \<Rightarrow> Inl e
           | Inr c' \<Rightarrow> Inr (c', body)))"

fun concat_steps :: "step list \<Rightarrow> step" where
  "concat_steps [] c = Inr c"
| "concat_steps (f # fs) c = (case f c of Inl e \<Rightarrow> Inl e | Inr c' \<Rightarrow> concat_steps fs c')"

fun alt_loop :: "step list \<Rightarrow> nat list \<Rightarrow> compiler \<Rightarrow> str + (nat list \<times> compiler)" where
  "alt_loop [] jumps c = Inr (jumps, c)"
| "alt_loop [f] jumps c = (case f c of Inl e \<Rightarrow> Inl e | Inr c' \<Rightarrow> Inr (jumps, c'))"
| "alt_loop (f # fs) jumps c =
     (case emit (Split 0 0) c of
        Inl e \<Rightarrow> Inl e
      | Inr (split, c1) \<Rightarrow>
          (case f c1 of
             Inl e \<Rightarrow> Inl e
           | Inr c2 \<Rightarrow>
               (case emit (Jmp 0) c2 of
                  Inl e \<Rightarrow> Inl e
                | Inr (jump, c3) \<Rightarrow>
                    alt_loop fs (jumps @ [jump]) (patch split (Split (split + 1) (length (prog c3))) c3))))"

definition alt_steps :: "step list \<Rightarrow> step" where
  "alt_steps fs c =
     (case alt_loop fs [] c of
        Inl e \<Rightarrow> Inl e
      | Inr (jumps, c') \<Rightarrow> Inr (fold (\<lambda>j. patch j (Jmp (length (prog c')))) jumps c'))"

text \<open>The copies a lower bound asks for; a body without instructions is copied once.\<close>

fun min_loop :: "step \<Rightarrow> nat \<Rightarrow> (nat \<times> nat) option \<Rightarrow> compiler \<Rightarrow> str + (compiler \<times> (nat \<times> nat) option)" where
  "min_loop node 0 body c = Inr (c, body)"
| "min_loop node (Suc k) body c =
     (case copy node body c of
        Inl e \<Rightarrow> Inl e
      | Inr (c', body') \<Rightarrow>
          if length (prog c') = length (prog c) then Inr (c', body')
          else min_loop node k body' c')"

fun max_loop :: "step \<Rightarrow> nat \<Rightarrow> (nat \<times> nat) option \<Rightarrow> nat list \<Rightarrow> compiler \<Rightarrow> str + (nat list \<times> compiler)" where
  "max_loop node 0 body splits c = Inr (splits, c)"
| "max_loop node (Suc k) body splits c =
     (case emit (Split 0 0) c of
        Inl e \<Rightarrow> Inl e
      | Inr (split, c1) \<Rightarrow>
          (case copy node body c1 of
             Inl e \<Rightarrow> Inl e
           | Inr (c2, body') \<Rightarrow> max_loop node k body' (splits @ [split]) c2))"

definition repeat_step :: "step \<Rightarrow> nat \<Rightarrow> nat option \<Rightarrow> step" where
  "repeat_step node mn mx c =
     (case min_loop node mn None c of
        Inl e \<Rightarrow> Inl e
      | Inr (c1, body) \<Rightarrow>
          (case mx of
             None \<Rightarrow>
               (case emit (Split 0 0) c1 of
                  Inl e \<Rightarrow> Inl e
                | Inr (split, c2) \<Rightarrow>
                    (case copy node body c2 of
                       Inl e \<Rightarrow> Inl e
                     | Inr (c3, _) \<Rightarrow>
                         (case emit_only (Jmp split) c3 of
                            Inl e \<Rightarrow> Inl e
                          | Inr c4 \<Rightarrow> Inr (patch split (Split (split + 1) (length (prog c4))) c4))))
           | Some m \<Rightarrow>
               (case max_loop node (m - mn) body [] c1 of
                  Inl e \<Rightarrow> Inl e
                | Inr (splits, c2) \<Rightarrow>
                    Inr (fold (\<lambda>s. patch s (Split (s + 1) (length (prog c2)))) splits c2))))"

fun compile_node :: "node \<Rightarrow> step" where
  "compile_node Empty = Inr"
| "compile_node (Char ch) = emit_only (IChar ch)"
| "compile_node Any = emit_only IAny"
| "compile_node (Class cl) = emit_only (IClass cl)"
| "compile_node (Assert a) = emit_only (IAssert a)"
| "compile_node (Concat items) = concat_steps (map compile_node items)"
| "compile_node (Alt branches) = alt_steps (map compile_node branches)"
| "compile_node (Repeat node mn mx) = repeat_step (compile_node node) mn mx"

end
