(* ===== verification/Pattern_Match.thy ===== *)
theory Pattern_Match
  imports Pattern
begin

text \<open>
  \<open>src/pattern.rs\<close>, the matcher: the thread sets, the walk along jumps, splits and assertions, and the
  search over the text. Every index that Rust would check is checked here, and gives \<open>None\<close>.
\<close>

section \<open>Threads\<close>

record threads =
  seen :: "bool list"
  visited :: "nat list"
  dense :: "nat list"

definition threads_new :: "nat \<Rightarrow> threads" where
  "threads_new n = \<lparr>seen = replicate n False, visited = [], dense = []\<rparr>"

definition thread_insert :: "nat \<Rightarrow> threads \<Rightarrow> (bool \<times> threads) option" where
  "thread_insert pc th =
     (if pc \<ge> length (seen th) then None
      else if seen th ! pc then Some (False, th)
      else Some (True, th\<lparr>seen := (seen th)[pc := True], visited := visited th @ [pc]\<rparr>))"

definition threads_clear :: "threads \<Rightarrow> threads" where
  "threads_clear th =
     \<lparr>seen = fold (\<lambda>pc s. s[pc := False]) (visited th) (seen th), visited = [], dense = []\<rparr>"

section \<open>Assertions\<close>

definition is_word :: "unicode \<Rightarrow> nat option \<Rightarrow> bool" where
  "is_word u c = (case c of None \<Rightarrow> False | Some c \<Rightarrow> alphanumeric u c \<or> c = 95)"

definition char_at :: "nat list \<Rightarrow> nat \<Rightarrow> nat option" where
  "char_at cs i = (if i < length cs then Some (cs ! i) else None)"

fun holds :: "unicode \<Rightarrow> assertion \<Rightarrow> nat \<Rightarrow> nat list \<Rightarrow> bool" where
  "holds u Start i cs \<longleftrightarrow> i = 0"
| "holds u End i cs \<longleftrightarrow> i = length cs \<or> i + 1 = length cs \<and> cs ! i = 10"
| "holds u AbsoluteEnd i cs \<longleftrightarrow> i = length cs"
| "holds u WordBoundary i cs \<longleftrightarrow>
     is_word u (if i = 0 then None else char_at cs (i - 1)) \<noteq> is_word u (char_at cs i)"
| "holds u NotWordBoundary i cs \<longleftrightarrow>
     is_word u (if i = 0 then None else char_at cs (i - 1)) = is_word u (char_at cs i)"

section \<open>The walk\<close>

definition unseen :: "threads \<Rightarrow> nat" where
  "unseen th = length (filter Not (seen th))"

lemma unseen_insert: "thread_insert pc th = Some (True, th') \<Longrightarrow> unseen th' < unseen th"
proof -
  assume a: "thread_insert pc th = Some (True, th')"
  then have pc: "pc < length (seen th)" "\<not> seen th ! pc" "seen th' = (seen th)[pc := True]"
    by (auto simp: thread_insert_def split: if_splits)
  have "{k. k < length (seen th) \<and> \<not> (seen th)[pc := True] ! k}
      \<subset> {k. k < length (seen th) \<and> \<not> seen th ! k}"
    using pc by (auto simp: nth_list_update)
  then show ?thesis unfolding unseen_def length_filter_conv_card pc(3) by (intro psubset_card_mono) auto
qed

lemma insert_same: "thread_insert pc th = Some (False, th') \<Longrightarrow> th' = th"
  by (auto simp: thread_insert_def split: if_splits)

text \<open>\<open>add\<close>: the stack is a list, its top first.\<close>

function add_loop ::
  "unicode \<Rightarrow> inst list \<Rightarrow> nat list \<Rightarrow> nat \<Rightarrow> nat list \<Rightarrow> threads \<Rightarrow> (bool \<times> threads) option"
where
  "add_loop u P cs i [] th = Some (False, th)"
| "add_loop u P cs i (pc # stack) th =
     (case thread_insert pc th of
        None \<Rightarrow> None
      | Some (False, th') \<Rightarrow> add_loop u P cs i stack th'
      | Some (True, th') \<Rightarrow>
          if pc \<ge> length P then None
          else
            (case P ! pc of
               IMatch \<Rightarrow> Some (True, th')
             | Jmp t \<Rightarrow> add_loop u P cs i (t # stack) th'
             | Split a b \<Rightarrow> add_loop u P cs i (a # b # stack) th'
             | IAssert a \<Rightarrow> add_loop u P cs i (if holds u a i cs then (pc + 1) # stack else stack) th'
             | _ \<Rightarrow> add_loop u P cs i stack (th'\<lparr>dense := dense th' @ [pc]\<rparr>)))"
  by pat_completeness auto

termination
  by (relation "measures [\<lambda>(_, _, _, _, _, th). unseen th, \<lambda>(_, _, _, _, stack, _). length stack]")
    (auto dest: unseen_insert insert_same simp: unseen_def)

definition add :: "unicode \<Rightarrow> inst list \<Rightarrow> nat list \<Rightarrow> threads \<Rightarrow> nat \<Rightarrow> nat \<Rightarrow> (bool \<times> threads) option" where
  "add u P cs th pc i = add_loop u P cs i [pc] th"

section \<open>The search\<close>

record pattern =
  program :: "inst list"
  pattern_ignore_case :: bool

fun advances :: "unicode \<Rightarrow> bool \<Rightarrow> inst \<Rightarrow> nat \<Rightarrow> bool" where
  "advances u ic (IChar want) c \<longleftrightarrow> want = c \<or> ic \<and> lower u want = lower u c"
| "advances u ic IAny c \<longleftrightarrow> c \<noteq> 10"
| "advances u ic (IClass cl) c \<longleftrightarrow> class_matches u cl c ic"
| "advances u ic _ c \<longleftrightarrow> False"

fun advance_all ::
  "unicode \<Rightarrow> inst list \<Rightarrow> bool \<Rightarrow> nat list \<Rightarrow> nat \<Rightarrow> nat list \<Rightarrow> threads \<Rightarrow> (bool \<times> threads) option"
where
  "advance_all u P ic cs i [] next_threads = Some (False, next_threads)"
| "advance_all u P ic cs i (pc # pcs) next_threads =
     (if pc \<ge> length P then None
      else if advances u ic (P ! pc) (cs ! i) then
        (case add u P cs next_threads (pc + 1) (i + 1) of
           None \<Rightarrow> None
         | Some (True, th) \<Rightarrow> Some (True, th)
         | Some (False, th) \<Rightarrow> advance_all u P ic cs i pcs th)
      else advance_all u P ic cs i pcs next_threads)"

function match_loop ::
  "unicode \<Rightarrow> inst list \<Rightarrow> bool \<Rightarrow> nat list \<Rightarrow> nat \<Rightarrow> threads \<Rightarrow> threads \<Rightarrow> bool option"
where
  "match_loop u P ic cs i current next_threads =
     (case add u P cs current 0 i of
        None \<Rightarrow> None
      | Some (True, _) \<Rightarrow> Some True
      | Some (False, current') \<Rightarrow>
          if i < length cs then
            (case advance_all u P ic cs i (dense current') (threads_clear next_threads) of
               None \<Rightarrow> None
             | Some (True, _) \<Rightarrow> Some True
             | Some (False, next') \<Rightarrow> match_loop u P ic cs (i + 1) next' current')
          else Some False)"
  by pat_completeness auto

termination
  by (relation "measure (\<lambda>(_, _, _, cs, i, _, _). length cs - i)") auto

declare match_loop.simps [simp del]

definition is_match_points :: "unicode \<Rightarrow> pattern \<Rightarrow> nat list \<Rightarrow> bool option" where
  "is_match_points u pat cs =
     match_loop u (program pat) (pattern_ignore_case pat) cs 0
       (threads_new (length (program pat))) (threads_new (length (program pat)))"

definition is_match :: "unicode \<Rightarrow> pattern \<Rightarrow> str \<Rightarrow> bool option" where
  "is_match u pat txt = is_match_points u pat (utf8_decode txt)"

section \<open>Building a pattern\<close>

definition parse_fuel :: "nat list \<Rightarrow> nat" where
  "parse_fuel cs = 5 * length cs + 4"

definition parse_node :: "str \<Rightarrow> bool \<Rightarrow> (pattern_error + (node \<times> parser)) option" where
  "parse_node src ic =
     (let cs = utf8_decode src in
      case alternation (parse_fuel cs)
             \<lparr>source = src, chars = cs, pos = 0, ignore_case = ic, depth = 0\<rparr> of
        None \<Rightarrow> None
      | Some (Inl e) \<Rightarrow> Some (Inl e)
      | Some (Inr (node, p)) \<Rightarrow>
          if pos p < length (chars p) then Some (fail p ''unbalanced )'') else Some (Inr (node, p)))"

definition compile_program :: "node \<Rightarrow> str + compiler" where
  "compile_program node =
     (case compile_node node \<lparr>prog = [], cost = 0\<rparr> of
        Inl e \<Rightarrow> Inl e
      | Inr c \<Rightarrow> emit_only IMatch c)"

definition build :: "str \<Rightarrow> bool \<Rightarrow> (pattern_error + pattern) option" where
  "build src ic =
     (case parse_node src ic of
        None \<Rightarrow> None
      | Some (Inl e) \<Rightarrow> Some (Inl e)
      | Some (Inr (node, p)) \<Rightarrow>
          (case compile_program node of
             Inl reason \<Rightarrow> Some (Inl \<lparr>err_pattern = src, err_offset = 0, err_reason = reason\<rparr>)
           | Inr c \<Rightarrow> Some (Inr \<lparr>program = prog c, pattern_ignore_case = ignore_case p\<rparr>)))"

definition pattern_new :: "str \<Rightarrow> (pattern_error + pattern) option" where
  "pattern_new src = build src False"

definition pattern_new_ignore_case :: "str \<Rightarrow> (pattern_error + pattern) option" where
  "pattern_new_ignore_case src = build src True"

end
