(* ===== verification/Pattern_Code.thy ===== *)
theory Pattern_Code
  imports Pattern_Match
begin

text \<open>
  The compiler of \<open>src/pattern.rs\<close> against a layout of the code: a layout gives the instructions of a
  node for the address they start at. Emitting, patching and copying with shifted jumps is shown to
  append exactly the layout.
\<close>

section \<open>Layouts\<close>

type_synonym layout = "nat \<Rightarrow> inst list"

definition seq_layout :: "layout \<Rightarrow> layout \<Rightarrow> layout" where
  "seq_layout f g s = f s @ g (s + length (f s))"

definition one_layout :: "inst \<Rightarrow> layout" where
  "one_layout i s = [i]"

definition nil_layout :: layout where
  "nil_layout s = []"

definition alt_layout :: "layout \<Rightarrow> layout \<Rightarrow> layout" where
  "alt_layout f g s =
     (let b = f (s + 1); n = s + 1 + length b + 1
      in Split (s + 1) n # b @ Jmp (n + length (g n)) # g n)"

definition opt_layout :: "layout \<Rightarrow> layout" where
  "opt_layout g s = Split (s + 1) (s + 1 + length (g (s + 1))) # g (s + 1)"

definition star_layout :: "layout \<Rightarrow> layout" where
  "star_layout f s = Split (s + 1) (s + 1 + length (f (s + 1)) + 1) # f (s + 1) @ [Jmp s]"

fun reps_layout :: "nat \<Rightarrow> layout \<Rightarrow> layout" where
  "reps_layout 0 f = nil_layout"
| "reps_layout (Suc k) f = seq_layout f (reps_layout k f)"

fun opts_layout :: "nat \<Rightarrow> layout \<Rightarrow> layout" where
  "opts_layout 0 f = nil_layout"
| "opts_layout (Suc k) f = opt_layout (seq_layout f (opts_layout k f))"

fun concat_layout :: "layout list \<Rightarrow> layout" where
  "concat_layout [] = nil_layout"
| "concat_layout (f # fs) = seq_layout f (concat_layout fs)"

fun alts_layout :: "layout list \<Rightarrow> layout" where
  "alts_layout [] = nil_layout"
| "alts_layout [f] = f"
| "alts_layout (f # fs) = alt_layout f (alts_layout fs)"

fun node_layout :: "node \<Rightarrow> layout" where
  "node_layout Empty = nil_layout"
| "node_layout (Char c) = one_layout (IChar c)"
| "node_layout Any = one_layout IAny"
| "node_layout (Class cl) = one_layout (IClass cl)"
| "node_layout (Assert a) = one_layout (IAssert a)"
| "node_layout (Concat items) = concat_layout (map node_layout items)"
| "node_layout (Alt branches) = alts_layout (map node_layout branches)"
| "node_layout (Repeat node mn mx) =
     seq_layout (reps_layout mn (node_layout node))
       (case mx of None \<Rightarrow> star_layout (node_layout node)
        | Some m \<Rightarrow> opts_layout (m - mn) (node_layout node))"

section \<open>Relocation\<close>

definition relocatable :: "layout \<Rightarrow> bool" where
  "relocatable f \<longleftrightarrow> (\<forall>s d. f (s + d) = map (shift d) (f s))"

lemma relocatableD: "relocatable f \<Longrightarrow> f (s + d) = map (shift d) (f s)"
  by (simp add: relocatable_def)

lemma relocatable_length: "relocatable f \<Longrightarrow> length (f s) = length (f 0)"
  using relocatableD[of f 0 s] by simp

named_theorems relocating

lemma relocatable_seq [relocating]: "relocatable f \<Longrightarrow> relocatable g \<Longrightarrow> relocatable (seq_layout f g)"
proof -
  assume f: "relocatable f" and g: "relocatable g"
  have "g (s + d + length (f s)) = map (shift d) (g (s + length (f s)))" for s d
    using relocatableD[OF g, of "s + length (f s)" d] by (simp add: ac_simps)
  then show ?thesis by (simp add: relocatable_def[of "seq_layout f g"] seq_layout_def relocatableD[OF f])
qed

lemma relocatable_one [relocating]: "(\<And>d. shift d i = i) \<Longrightarrow> relocatable (one_layout i)"
  by (simp add: relocatable_def one_layout_def)

lemma relocatable_nil [relocating]: "relocatable nil_layout"
  by (simp add: relocatable_def nil_layout_def)

lemma relocatable_opt [relocating]:
  assumes "relocatable g"
  shows "relocatable (opt_layout g)"
  unfolding relocatable_def
proof (intro allI)
  fix s d
  have "g (s + d + 1) = map (shift d) (g (s + 1))" using relocatableD[OF assms, of "s + 1" d] by simp
  then show "opt_layout g (s + d) = map (shift d) (opt_layout g s)" by (simp add: opt_layout_def)
qed

lemma relocatable_star [relocating]:
  assumes "relocatable f"
  shows "relocatable (star_layout f)"
  unfolding relocatable_def
proof (intro allI)
  fix s d
  have "f (s + d + 1) = map (shift d) (f (s + 1))" using relocatableD[OF assms, of "s + 1" d] by simp
  then show "star_layout f (s + d) = map (shift d) (star_layout f s)" by (simp add: star_layout_def)
qed

lemma relocatable_alt [relocating]:
  assumes "relocatable f" "relocatable g"
  shows "relocatable (alt_layout f g)"
  unfolding relocatable_def
proof (intro allI)
  fix s d
  let ?n = "s + 1 + length (f (s + 1)) + 1"
  have f: "f (s + d + 1) = map (shift d) (f (s + 1))" using relocatableD[OF assms(1), of "s + 1" d] by simp
  have g: "g (?n + d) = map (shift d) (g ?n)" by (rule relocatableD[OF assms(2)])
  have n: "s + d + 1 + length (f (s + d + 1)) + 1 = ?n + d"
    using arg_cong[OF f, of length] by simp
  show "alt_layout f g (s + d) = map (shift d) (alt_layout f g s)"
    unfolding alt_layout_def Let_def n using f g by simp
qed

lemma relocatable_reps [relocating]: "relocatable f \<Longrightarrow> relocatable (reps_layout k f)"
  by (induction k) (simp_all add: relocating)

lemma relocatable_opts [relocating]: "relocatable f \<Longrightarrow> relocatable (opts_layout k f)"
  by (induction k) (simp_all add: relocating)

lemma relocatable_concat [relocating]: "list_all relocatable fs \<Longrightarrow> relocatable (concat_layout fs)"
  by (induction fs) (simp_all add: relocating)

lemma relocatable_alts [relocating]: "list_all relocatable fs \<Longrightarrow> relocatable (alts_layout fs)"
  by (induction fs rule: alts_layout.induct) (simp_all add: relocating)

lemma relocatable_node: "relocatable (node_layout n)"
proof (induction n rule: node_layout.induct)
  case (8 node mn mx)
  then show ?case by (cases mx) (simp_all add: relocating)
qed (simp_all add: relocating list_all_iff)

section \<open>The compiler appends the layout\<close>

text \<open>What one step does to the program and its cost.\<close>

definition grown :: "compiler \<Rightarrow> compiler \<Rightarrow> inst list \<Rightarrow> bool" where
  "grown c c' xs \<longleftrightarrow> prog c' = prog c @ xs \<and> (length (prog c) \<le> cost c \<longrightarrow> length (prog c') \<le> cost c') \<and>
     (cost c \<le> MAX_PROGRAM \<longrightarrow> cost c' \<le> MAX_PROGRAM)"

definition appends :: "step \<Rightarrow> layout \<Rightarrow> bool" where
  appends_grown: "appends F f \<longleftrightarrow> (\<forall>c c'. F c = Inr c' \<longrightarrow> grown c c' (f (length (prog c))))"

lemma grown_trans: "grown c d xs \<Longrightarrow> grown d e ys \<Longrightarrow> grown c e (xs @ ys)"
  by (auto simp: grown_def)

lemma grown_length: "grown c d xs \<Longrightarrow> length (prog d) = length (prog c) + length xs"
  by (simp add: grown_def)

lemma grown_refl: "grown c c []"
  by (simp add: grown_def)

lemma weight_pos: "0 < weight i"
  by (cases i) auto

lemma emit_grown: "emit i c = Inr (k, c') \<Longrightarrow> k = length (prog c) \<and> grown c c' [i]"
  using weight_pos[of i] by (auto simp: emit_def grown_def split: if_splits)

lemma emit_only_grown: "emit_only i c = Inr c' \<Longrightarrow> grown c c' [i]"
  by (auto simp: emit_only_def split: sum.splits dest: emit_grown)

lemma emit_all_grown: "emit_all is c = Inr c' \<Longrightarrow> grown c c' is"
proof (induction "is" arbitrary: c)
  case (Cons i "is")
  then obtain d where "emit_only i c = Inr d" "emit_all is d = Inr c'" by (auto split: sum.splits)
  with Cons.IH show ?case using grown_trans[of c d "[i]" c' "is"] emit_only_grown by simp
qed (simp add: grown_refl)

lemma grown_patch:
  "grown c d (xs @ i # ys) \<Longrightarrow> k = length (prog c) + length xs \<Longrightarrow> grown c (patch k i' d) (xs @ i' # ys)"
  by (auto simp: grown_def patch_def list_update_append)

text \<open>The body of a repeat that was compiled before, as the span it was compiled to.\<close>

definition body_ok :: "layout \<Rightarrow> compiler \<Rightarrow> (nat \<times> nat) option \<Rightarrow> bool" where
  "body_ok f c body \<longleftrightarrow>
     (case body of None \<Rightarrow> True
      | Some (start, end) \<Rightarrow> start \<le> length (prog c) \<and> end = start + length (f start) \<and> end \<le> length (prog c) \<and>
          take (length (f start)) (drop start (prog c)) = f start)"

lemma body_ok_grown: "body_ok f c body \<Longrightarrow> grown c c' xs \<Longrightarrow> body_ok f c' body"
  by (auto simp: body_ok_def grown_def split: option.splits)

lemma copy_grown:
  assumes F: "appends F f" and rel: "relocatable f" and ok: "body_ok f c body"
    and c: "copy F body c = Inr (c', body')"
  shows "grown c c' (f (length (prog c))) \<and> body_ok f c' body'"
proof (cases body)
  case None
  then have r: "F c = Inr c'" "body' = Some (length (prog c), length (prog c'))"
    using c by (auto simp: copy_def split: sum.splits)
  from F r(1) have "grown c c' (f (length (prog c)))" by (simp add: appends_grown)
  with r(2) show ?thesis by (auto simp: body_ok_def grown_def)
next
  case (Some b)
  then obtain s e where b: "body = Some (s, e)" by (cases b) auto
  have B: "s \<le> length (prog c)" "e = s + length (f s)" "take (length (f s)) (drop s (prog c)) = f s"
    using ok b by (auto simp: body_ok_def)
  have "emit_all (map (shift (length (prog c) - s)) (f s)) c = Inr c'" "body' = body"
    using c b B by (auto simp: copy_def split: sum.splits)
  moreover have "map (shift (length (prog c) - s)) (f s) = f (length (prog c))"
    using relocatableD[OF rel, of s "length (prog c) - s"] B(1) by simp
  ultimately have "grown c c' (f (length (prog c)))" using emit_all_grown by metis
  with \<open>body' = body\<close> show ?thesis using body_ok_grown[OF ok] by simp
qed

lemma concat_steps_append: "list_all2 appends Fs fs \<Longrightarrow> appends (concat_steps Fs) (concat_layout fs)"
proof (induction Fs fs rule: list_all2_induct)
  case (Cons F Fs f fs)
  show ?case unfolding appends_grown
  proof (intro allI impI)
    fix c c' assume "concat_steps (F # Fs) c = Inr c'"
    then obtain d where d: "F c = Inr d" "concat_steps Fs d = Inr c'" by (auto split: sum.splits)
    have g: "grown c d (f (length (prog c)))" "grown d c' (concat_layout fs (length (prog d)))"
      using Cons d by (auto simp: appends_grown)
    then show "grown c c' (concat_layout (f # fs) (length (prog c)))"
      using grown_trans[OF g] grown_length[OF g(1)] by (simp add: seq_layout_def)
  qed
qed (simp add: appends_grown grown_refl nil_layout_def)

lemma min_loop_append:
  assumes F: "appends F f" and rel: "relocatable f"
  shows "body_ok f c body \<Longrightarrow> min_loop F k body c = Inr (c', body') \<Longrightarrow>
    grown c c' (reps_layout k f (length (prog c))) \<and> body_ok f c' body'"
proof (induction k arbitrary: c body)
  case (Suc k)
  obtain d b where d: "copy F body c = Inr (d, b)" using Suc.prems(2) by (auto split: sum.splits)
  from copy_grown[OF F rel Suc.prems(1) d] have g: "grown c d (f (length (prog c)))" "body_ok f d b" by simp_all
  show ?case
  proof (cases "length (prog d) = length (prog c)")
    case True
    then have r: "c' = d" "body' = b" using Suc.prems(2) d by simp_all
    have empty: "f (length (prog c)) = []" using g(1) True by (simp add: grown_def)
    then have "f s = []" for s using relocatable_length[OF rel] by (metis length_0_conv)
    then have "reps_layout (Suc k) f s = []" for s
      by (induction k arbitrary: s) (simp_all add: seq_layout_def nil_layout_def)
    with g r empty show ?thesis by simp
  next
    case False
    then have "min_loop F k b d = Inr (c', body')" using Suc.prems(2) d by simp
    from Suc.IH[OF g(2) this] have h: "grown d c' (reps_layout k f (length (prog d)))" "body_ok f c' body'" by simp_all
    with grown_trans[OF g(1) h(1)] show ?thesis using grown_length[OF g(1)] by (simp add: seq_layout_def)
  qed
qed (simp add: grown_refl nil_layout_def)

section \<open>Backpatching\<close>

text \<open>The optional copies and the alternatives with their jumps not yet patched, and where those are.\<close>

fun opts_open :: "nat \<Rightarrow> layout \<Rightarrow> layout" where
  "opts_open 0 f = nil_layout"
| "opts_open (Suc k) f = seq_layout (seq_layout (one_layout (Split 0 0)) f) (opts_open k f)"

fun opts_places :: "nat \<Rightarrow> layout \<Rightarrow> nat \<Rightarrow> nat list" where
  "opts_places 0 f s = []"
| "opts_places (Suc k) f s = s # opts_places k f (s + 1 + length (f (s + 1)))"

lemma max_loop_append:
  assumes F: "appends F f" and rel: "relocatable f"
  shows "body_ok f c body \<Longrightarrow> max_loop F k body sp c = Inr (sp', c') \<Longrightarrow>
    grown c c' (opts_open k f (length (prog c))) \<and> sp' = sp @ opts_places k f (length (prog c))"
proof (induction k arbitrary: c body sp)
  case (Suc k)
  obtain s c1 c2 b where e: "emit (Split 0 0) c = Inr (s, c1)" "copy F body c1 = Inr (c2, b)"
    "max_loop F k b (sp @ [s]) c2 = Inr (sp', c')"
    using Suc.prems(2) by (auto split: sum.splits)
  note s = emit_grown[OF e(1)]
  have "body_ok f c1 body" using body_ok_grown[OF Suc.prems(1)] s by blast
  note g = copy_grown[OF F rel this e(2)]
  note h = Suc.IH[OF conjunct2[OF g] e(3)]
  have l1: "length (prog c1) = length (prog c) + 1" using grown_length[OF conjunct2[OF s]] by simp
  have l2: "length (prog c2) = length (prog c) + 1 + length (f (length (prog c) + 1))"
    using grown_length[OF conjunct1[OF g]] l1 by simp
  have "grown c c' (([Split 0 0] @ f (length (prog c1))) @ opts_open k f (length (prog c2)))"
    using grown_trans[OF grown_trans] s g h by blast
  then show ?case using h s l1 l2
    by (simp add: seq_layout_def one_layout_def)
qed (simp add: grown_refl nil_layout_def)

lemma opts_places_ge: "\<forall>k \<in> set (opts_places n f s). s \<le> k"
  by (induction n f s rule: opts_places.induct) fastforce+

lemma fold_patch_prog:
  "prog (fold (\<lambda>k. patch k (i k)) ks c) = fold (\<lambda>k p. p[k := i k]) ks (prog c)"
  "cost (fold (\<lambda>k. patch k (i k)) ks c) = cost c"
  by (induction ks arbitrary: c) (simp_all add: patch_def)

lemma fold_update_above:
  "\<forall>k \<in> set ks. length xs \<le> k \<Longrightarrow>
    fold (\<lambda>k p. p[k := i k]) ks (xs @ ys) = xs @ fold (\<lambda>k p. p[k - length xs := i k]) ks ys"
  by (induction ks arbitrary: ys) (simp_all add: list_update_append)

lemma length_fold_update: "length (fold (\<lambda>k p. p[h k := i k]) ks p) = length p"
  by (induction ks arbitrary: p) simp_all

lemma opts_open_length: "length (opts_open k f s) = length (opts_layout k f s)"
  by (induction k arbitrary: s) (simp_all add: seq_layout_def one_layout_def opt_layout_def nil_layout_def)

lemma patch_opts:
  "fold (\<lambda>k p. p[k := Split (k + 1) (length pre + length (opts_open n f (length pre)))])
     (opts_places n f (length pre)) (pre @ opts_open n f (length pre))
   = pre @ opts_layout n f (length pre)"
proof (induction n arbitrary: pre)
  case (Suc n)
  let ?s = "length pre" and ?b = "f (length pre + 1)"
  let ?pre = "pre @ Split (?s + 1) (?s + length (opts_open (Suc n) f ?s)) # ?b"
  have l: "length ?pre = ?s + 1 + length ?b" by simp
  have end_pos: "?s + length (opts_open (Suc n) f ?s) = length ?pre + length (opts_open n f (length ?pre))"
    by (simp add: seq_layout_def one_layout_def)
  have "fold (\<lambda>k p. p[k := Split (k + 1) (?s + length (opts_open (Suc n) f ?s))])
      (opts_places (Suc n) f ?s) (pre @ opts_open (Suc n) f ?s)
    = fold (\<lambda>k p. p[k := Split (k + 1) (length ?pre + length (opts_open n f (length ?pre)))])
      (opts_places n f (length ?pre)) (?pre @ opts_open n f (length ?pre))"
    unfolding end_pos[symmetric] by (simp add: seq_layout_def one_layout_def l list_update_append)
  also have "\<dots> = ?pre @ opts_layout n f (length ?pre)" by (rule Suc.IH)
  also have "\<dots> = pre @ opts_layout (Suc n) f ?s"
    using end_pos opts_open_length[of n f "length ?pre"]
    by (simp add: opt_layout_def seq_layout_def one_layout_def)
  finally show ?case .
qed (simp add: nil_layout_def)

fun alts_open :: "layout list \<Rightarrow> layout" where
  "alts_open [] = nil_layout"
| "alts_open [f] = f"
| "alts_open (f # fs) = (\<lambda>s.
     (let n = s + 1 + length (f (s + 1)) + 1
      in Split (s + 1) n # f (s + 1) @ Jmp 0 # alts_open fs n))"

fun alts_places :: "layout list \<Rightarrow> nat \<Rightarrow> nat list" where
  "alts_places [] s = []"
| "alts_places [f] s = []"
| "alts_places (f # fs) s =
     (s + 1 + length (f (s + 1))) # alts_places fs (s + 1 + length (f (s + 1)) + 1)"

lemma alt_loop_append:
  "list_all2 appends Fs fs \<Longrightarrow> alt_loop Fs js c = Inr (js', c') \<Longrightarrow>
    grown c c' (alts_open fs (length (prog c))) \<and> js' = js @ alts_places fs (length (prog c))"
proof (induction Fs js c arbitrary: fs rule: alt_loop.induct)
  case (1 js c)
  then show ?case by (simp add: grown_refl nil_layout_def)
next
  case (2 F js c)
  then obtain f where "fs = [f]" "appends F f" by (auto simp: list_all2_Cons1)
  with 2 show ?case by (auto simp: appends_grown split: sum.splits)
next
  case (3 F F' Fs js c)
  obtain f f' fs' where fs: "fs = f # f' # fs'" and F: "appends F f" and Fs: "list_all2 appends (F' # Fs) (f' # fs')"
    using "3.prems"(1) by (auto simp: list_all2_Cons1)
  obtain sp c1 c2 j c3 where e: "emit (Split 0 0) c = Inr (sp, c1)" "F c1 = Inr c2" "emit (Jmp 0) c2 = Inr (j, c3)"
    "alt_loop (F' # Fs) (js @ [j]) (patch sp (Split (sp + 1) (length (prog c3))) c3) = Inr (js', c')"
    using "3.prems"(2) by (auto split: sum.splits)
  note s = emit_grown[OF e(1)] and j = emit_grown[OF e(3)]
  have f: "grown c1 c2 (f (length (prog c1)))" using F e(2) by (simp add: appends_grown)
  let ?n = "length (prog c) + 1 + length (f (length (prog c) + 1)) + 1"
  have l1: "length (prog c1) = length (prog c) + 1" using grown_length[OF conjunct2[OF s]] by simp
  have l2: "length (prog c2) = length (prog c) + 1 + length (f (length (prog c) + 1))"
    using grown_length[OF f] l1 by simp
  have l3: "length (prog c3) = ?n" using grown_length[OF conjunct2[OF j]] l2 by simp
  have "grown c c3 ([] @ Split 0 0 # f (length (prog c) + 1) @ [Jmp 0])"
    using grown_trans[OF grown_trans[OF conjunct2[OF s] f] conjunct2[OF j]] l1 by simp
  from grown_patch[OF this, of sp "Split (sp + 1) (length (prog c3))"] s l3
  have g: "grown c (patch sp (Split (sp + 1) (length (prog c3))) c3)
      (Split (length (prog c) + 1) ?n # f (length (prog c) + 1) @ [Jmp 0])" by simp
  have l4: "length (prog (patch sp (Split (sp + 1) (length (prog c3))) c3)) = ?n" using l3 by (simp add: patch_def)
  from "3.IH"[OF e(1) refl e(2,3) refl Fs e(4)] l4 have
    h: "grown (patch sp (Split (sp + 1) (length (prog c3))) c3) c' (alts_open (f' # fs') ?n)"
      "js' = js @ [j] @ alts_places (f' # fs') ?n" by simp_all
  show ?case using grown_trans[OF g h(1)] h(2) j l2 by (simp add: fs)
qed

lemma alts_open_length: "length (alts_open fs s) = length (alts_layout fs s)"
  by (induction fs arbitrary: s rule: alts_open.induct) (simp_all add: alt_layout_def Let_def nil_layout_def)

lemma patch_alts:
  "E = length pre + length (alts_open fs (length pre)) \<Longrightarrow>
    fold (\<lambda>k p. p[k := Jmp E]) (alts_places fs (length pre)) (pre @ alts_open fs (length pre))
   = pre @ alts_layout fs (length pre)"
proof (induction fs arbitrary: pre rule: alts_open.induct)
  case (3 f f' fs)
  let ?s = "length pre" and ?b = "f (length pre + 1)" and ?fs = "f' # fs"
  let ?n = "length pre + 1 + length (f (length pre + 1)) + 1"
  let ?pre = "pre @ Split (?s + 1) ?n # ?b @ [Jmp E]"
  have l: "length ?pre = ?n" by simp
  have e: "E = length ?pre + length (alts_open ?fs (length ?pre))"
    unfolding l using "3.prems" by (simp add: Let_def)
  have "fold (\<lambda>k p. p[k := Jmp E]) (alts_places (f # ?fs) ?s) (pre @ alts_open (f # ?fs) ?s)
    = fold (\<lambda>k p. p[k := Jmp E]) (alts_places ?fs (length ?pre)) (?pre @ alts_open ?fs (length ?pre))"
    unfolding l by (simp add: Let_def list_update_append)
  also have "\<dots> = ?pre @ alts_layout ?fs (length ?pre)" by (rule "3.IH"[OF refl e])
  also have "\<dots> = pre @ alts_layout (f # ?fs) ?s"
    using e alts_open_length[of ?fs ?n] unfolding l by (simp add: alt_layout_def Let_def)
  finally show ?case .
qed (simp_all add: nil_layout_def)

lemma fold_patch_grown:
  assumes "grown c d xs" and "fold (\<lambda>k p. p[k := i k]) ks (prog c @ xs) = prog c @ ys" "length ys = length xs"
  shows "grown c (fold (\<lambda>k. patch k (i k)) ks d) ys"
  using assms by (auto simp: grown_def fold_patch_prog)

lemma alt_steps_append:
  assumes "list_all2 appends Fs fs"
  shows "appends (alt_steps Fs) (alts_layout fs)"
  unfolding appends_grown
proof (intro allI impI)
  fix c c' assume "alt_steps Fs c = Inr c'"
  then obtain js d where d: "alt_loop Fs [] c = Inr (js, d)"
    "c' = fold (\<lambda>j. patch j (Jmp (length (prog d)))) js d" by (auto simp: alt_steps_def split: sum.splits)
  note g = alt_loop_append[OF assms d(1)]
  have "length (prog d) = length (prog c) + length (alts_open fs (length (prog c)))"
    using grown_length[OF conjunct1[OF g]] .
  then show "grown c c' (alts_layout fs (length (prog c)))"
    unfolding d(2) using g patch_alts[of "length (prog d)" "prog c" fs] alts_open_length[of fs "length (prog c)"]
    by (intro fold_patch_grown[where i = "\<lambda>_. Jmp (length (prog d))", OF conjunct1[OF g]]) simp_all
qed

lemma repeat_step_append:
  assumes F: "appends F f" and rel: "relocatable f"
  shows "appends (repeat_step F mn mx)
    (seq_layout (reps_layout mn f) (case mx of None \<Rightarrow> star_layout f | Some m \<Rightarrow> opts_layout (m - mn) f))"
  unfolding appends_grown
proof (intro allI impI)
  fix c c' assume r: "repeat_step F mn mx c = Inr c'"
  then obtain c1 body where m: "min_loop F mn None c = Inr (c1, body)"
    by (auto simp: repeat_step_def split: sum.splits)
  have "body_ok f c None" by (simp add: body_ok_def)
  note g = min_loop_append[OF F rel this m]
  note l1 = grown_length[OF conjunct1[OF g]]
  have "grown c1 c' ((case mx of None \<Rightarrow> star_layout f | Some m \<Rightarrow> opts_layout (m - mn) f) (length (prog c1)))"
  proof (cases mx)
    case None
    then obtain s c2 c3 b c4 where e: "emit (Split 0 0) c1 = Inr (s, c2)" "copy F body c2 = Inr (c3, b)"
      "emit_only (Jmp s) c3 = Inr c4" "c' = patch s (Split (s + 1) (length (prog c4))) c4"
      using r m by (auto simp: repeat_step_def split: sum.splits)
    note s = emit_grown[OF e(1)]
    note b = copy_grown[OF F rel body_ok_grown[OF conjunct2[OF g] conjunct2[OF s]] e(2)]
    note j = emit_only_grown[OF e(3)]
    have l2: "length (prog c2) = length (prog c1) + 1" using grown_length[OF conjunct2[OF s]] by simp
    have "grown c1 c4 ([] @ Split 0 0 # f (length (prog c1) + 1) @ [Jmp s])"
      using grown_trans[OF grown_trans[OF conjunct2[OF s] conjunct1[OF b]] j] l2 by simp
    moreover from grown_length[OF this]
    have "length (prog c4) = length (prog c1) + 1 + length (f (length (prog c1) + 1)) + 1" by simp
    ultimately show ?thesis
      using grown_patch[of c1 c4 "[]" "Split 0 0" "f (length (prog c1) + 1) @ [Jmp s]" s] s None e(4)
      by (simp add: star_layout_def)
  next
    case (Some m')
    then obtain sp c2 where e: "max_loop F (m' - mn) body [] c1 = Inr (sp, c2)"
      "c' = fold (\<lambda>s. patch s (Split (s + 1) (length (prog c2)))) sp c2"
      using r m by (auto simp: repeat_step_def split: sum.splits)
    note h = max_loop_append[OF F rel conjunct2[OF g] e(1)]
    have "length (prog c2) = length (prog c1) + length (opts_open (m' - mn) f (length (prog c1)))"
      using grown_length[OF conjunct1[OF h]] .
    then show ?thesis unfolding e(2)
      using h patch_opts[where pre = "prog c1" and n = "m' - mn" and f = f] opts_open_length[of "m' - mn" f "length (prog c1)"] Some
      by (intro fold_patch_grown[where i = "\<lambda>s. Split (s + 1) (length (prog c2))", OF conjunct1[OF h]]) simp_all
  qed
  from grown_trans[OF conjunct1[OF g] this] l1
  show "grown c c' (seq_layout (reps_layout mn f)
      (case mx of None \<Rightarrow> star_layout f | Some m \<Rightarrow> opts_layout (m - mn) f) (length (prog c)))"
    by (simp add: seq_layout_def)
qed

lemma emit_only_appends: "appends (emit_only i) (one_layout i)"
  by (simp add: appends_grown one_layout_def emit_only_grown)

lemma compile_node_appends: "appends (compile_node n) (node_layout n)"
proof (induction n rule: node_layout.induct)
  case 1
  then show ?case by (auto simp: appends_grown nil_layout_def grown_refl)
next
  case (6 items)
  then have "list_all2 appends (map compile_node items) (map node_layout items)"
    by (simp add: list_all2_map1 list_all2_map2 list_all2_same)
  from concat_steps_append[OF this] show ?case by simp
next
  case (7 branches)
  then have "list_all2 appends (map compile_node branches) (map node_layout branches)"
    by (simp add: list_all2_map1 list_all2_map2 list_all2_same)
  from alt_steps_append[OF this] show ?case by simp
next
  case (8 node mn mx)
  from repeat_step_append[OF "8.IH"(1) relocatable_node] show ?case by simp
qed (simp_all add: emit_only_appends)

lemma compile_program_layout:
  assumes "compile_program n = Inr c"
  shows "prog c = node_layout n 0 @ [IMatch] \<and> length (prog c) \<le> cost c \<and> cost c \<le> MAX_PROGRAM"
proof -
  obtain d where d: "compile_node n \<lparr>prog = [], cost = 0\<rparr> = Inr d" "emit_only IMatch d = Inr c"
    using assms by (auto simp: compile_program_def split: sum.splits)
  have "grown \<lparr>prog = [], cost = 0\<rparr> d (node_layout n 0)"
    using compile_node_appends[of n] d(1) by (fastforce simp: appends_grown)
  from grown_trans[OF this emit_only_grown[OF d(2)]]
  show ?thesis unfolding grown_def by (elim conjE, intro conjI) simp_all
qed

end
