(* ===== verification/Pattern_Means.thy ===== *)
theory Pattern_Means
  imports Pattern_Code
begin

text \<open>
  What a layout means: the positions of a text that a run of its code connects. The relation of a node is
  the reading of the pattern itself; the layout of a node is shown to mean exactly that.
\<close>

section \<open>Running code\<close>

type_synonym view = "unicode \<times> bool \<times> nat list"

fun consumes :: "view \<Rightarrow> inst \<Rightarrow> nat \<Rightarrow> bool" where
  "consumes (u, ic, cs) i k \<longleftrightarrow> k < length cs \<and> advances u ic i (cs ! k)"

fun asserts :: "view \<Rightarrow> assertion \<Rightarrow> nat \<Rightarrow> bool" where
  "asserts (u, ic, cs) a k \<longleftrightarrow> holds u a k cs"

inductive vm_step :: "view \<Rightarrow> inst list \<Rightarrow> nat \<times> nat \<Rightarrow> nat \<times> nat \<Rightarrow> bool" for m P where
  step_jmp: "pc < length P \<Longrightarrow> P ! pc = Jmp t \<Longrightarrow> vm_step m P (pc, i) (t, i)"
| step_first: "pc < length P \<Longrightarrow> P ! pc = Split a b \<Longrightarrow> vm_step m P (pc, i) (a, i)"
| step_second: "pc < length P \<Longrightarrow> P ! pc = Split a b \<Longrightarrow> vm_step m P (pc, i) (b, i)"
| step_assert: "pc < length P \<Longrightarrow> P ! pc = IAssert a \<Longrightarrow> asserts m a i \<Longrightarrow> vm_step m P (pc, i) (pc + 1, i)"
| step_consume: "pc < length P \<Longrightarrow> consumes m (P ! pc) i \<Longrightarrow> vm_step m P (pc, i) (pc + 1, i + 1)"

inductive_cases vm_stepE: "vm_step m P (pc, i) q"
inductive_simps vm_step_simps: "vm_step m P (pc, i) (pc', i')"

definition seg :: "view \<Rightarrow> inst list \<Rightarrow> nat \<Rightarrow> nat \<Rightarrow> ((nat \<times> nat) \<times> nat \<times> nat) set" where
  "seg m P s e = {(p, q). vm_step m P p q \<and> s \<le> fst p \<and> fst p < e}"

definition contained :: "view \<Rightarrow> inst list \<Rightarrow> nat \<Rightarrow> nat \<Rightarrow> bool" where
  "contained m P s e \<longleftrightarrow> (\<forall>(p, q) \<in> seg m P s e. s \<le> fst q \<and> fst q \<le> e)"

definition placed :: "inst list \<Rightarrow> nat \<Rightarrow> inst list \<Rightarrow> bool" where
  "placed P s xs \<longleftrightarrow> s + length xs \<le> length P \<and> take (length xs) (drop s P) = xs"

lemma containedD: "contained m P s e \<Longrightarrow> ((pc, i), (q, k)) \<in> seg m P s e \<Longrightarrow> s \<le> q \<and> q \<le> e"
  unfolding contained_def by fastforce

lemma seg_step: "((pc, i), q) \<in> seg m P s e \<longleftrightarrow> vm_step m P (pc, i) q \<and> s \<le> pc \<and> pc < e"
  by (simp add: seg_def)

lemma placed_append: "placed P s (xs @ ys) \<longleftrightarrow> placed P s xs \<and> placed P (s + length xs) ys"
proof
  assume a: "placed P s (xs @ ys)"
  then have "take (length xs + length ys) (drop s P) = xs @ ys" by (simp add: placed_def)
  then have "take (length xs) (drop s P) @ take (length ys) (drop (s + length xs) P) = xs @ ys"
    by (simp add: take_add add.commute)
  with a show "placed P s xs \<and> placed P (s + length xs) ys"
    by (auto simp: placed_def append_eq_append_conv)
next
  assume "placed P s xs \<and> placed P (s + length xs) ys"
  then show "placed P s (xs @ ys)" by (simp add: placed_def take_add add.commute)
qed

lemma placed_Cons: "placed P s (x # ys) \<longleftrightarrow> s < length P \<and> P ! s = x \<and> placed P (s + 1) ys"
proof -
  have "placed P s [x] \<longleftrightarrow> s < length P \<and> P ! s = x"
    by (auto simp: placed_def take_Suc_conv_app_nth)
  then show ?thesis using placed_append[of P s "[x]" ys] by simp
qed

lemma seg_mono: "s' \<le> s \<Longrightarrow> e \<le> e' \<Longrightarrow> seg m P s e \<subseteq> seg m P s' e'"
  by (auto simp: seg_def)

lemma seg_nil [simp]: "seg m P s s = {}"
  by (auto simp: seg_def)

definition means :: "view \<Rightarrow> layout \<Rightarrow> (nat \<times> nat) set \<Rightarrow> bool" where
  "means m f R \<longleftrightarrow> (\<forall>P s. placed P s (f s) \<longrightarrow> contained m P s (s + length (f s)) \<and>
     (\<forall>i j. ((s, i), (s + length (f s), j)) \<in> (seg m P s (s + length (f s)))\<^sup>* \<longleftrightarrow> (i, j) \<in> R))"

lemma meansI:
  assumes "\<And>P s. placed P s (f s) \<Longrightarrow> contained m P s (s + length (f s))"
    "\<And>P s i j. placed P s (f s) \<Longrightarrow> (i, j) \<in> R \<Longrightarrow> ((s, i), (s + length (f s), j)) \<in> (seg m P s (s + length (f s)))\<^sup>*"
    "\<And>P s i j. placed P s (f s) \<Longrightarrow> ((s, i), (s + length (f s), j)) \<in> (seg m P s (s + length (f s)))\<^sup>* \<Longrightarrow> (i, j) \<in> R"
  shows "means m f R"
  using assms unfolding means_def by blast

lemma means_contained: "means m f R \<Longrightarrow> placed P s (f s) \<Longrightarrow> contained m P s (s + length (f s))"
  by (simp add: means_def)

lemma means_iff: "means m f R \<Longrightarrow> placed P s (f s) \<Longrightarrow>
    ((s, i), (s + length (f s), j)) \<in> (seg m P s (s + length (f s)))\<^sup>* \<longleftrightarrow> (i, j) \<in> R"
  by (simp add: means_def)

text \<open>A run that starts in the second half of a code stays there.\<close>

lemma contained_join: "contained m P s b \<Longrightarrow> contained m P b e \<Longrightarrow> s \<le> b \<Longrightarrow> b \<le> e \<Longrightarrow> contained m P s e"
  unfolding contained_def seg_def by fastforce

lemma run_second:
  assumes "contained m P b e" "(p, q) \<in> (seg m P s e)\<^sup>*" "b \<le> fst p"
  shows "(p, q) \<in> (seg m P b e)\<^sup>*"
  using assms(2,3)
proof (induction rule: converse_rtrancl_induct)
  case (step p p')
  then have s: "(p, p') \<in> seg m P b e" by (auto simp: seg_def)
  then have "b \<le> fst p'" using assms(1) by (auto simp: contained_def)
  with step s show ?case by (meson converse_rtrancl_into_rtrancl)
qed simp

text \<open>A run through two adjacent codes passes their border.\<close>

lemma run_split:
  assumes c1: "contained m P s b" and c2: "contained m P b e"
    and run: "(p, (e, j)) \<in> (seg m P s e)\<^sup>*" and p: "s \<le> fst p" "fst p \<le> b" and be: "b \<le> e"
  shows "\<exists>k. (p, (b, k)) \<in> (seg m P s b)\<^sup>* \<and> ((b, k), (e, j)) \<in> (seg m P b e)\<^sup>*"
  using run p
proof (induction rule: converse_rtrancl_induct)
  case base
  then show ?case using be by (intro exI[of _ j]) auto
next
  case (step p p')
  show ?case
  proof (cases "fst p = b")
    case True
    obtain k where "p = (b, k)" using True by (cases p) simp
    moreover have "(p, (e, j)) \<in> (seg m P s e)\<^sup>*" using step.hyps by (meson converse_rtrancl_into_rtrancl)
    from run_second[OF c2 this] True have "(p, (e, j)) \<in> (seg m P b e)\<^sup>*" by simp
    ultimately show ?thesis by blast
  next
    case False
    then have s: "(p, p') \<in> seg m P s b" using step.hyps(1) step.prems by (auto simp: seg_def)
    then have "s \<le> fst p'" "fst p' \<le> b" using c1 by (auto simp: contained_def)
    with step.IH obtain k where "(p', (b, k)) \<in> (seg m P s b)\<^sup>*" "((b, k), (e, j)) \<in> (seg m P b e)\<^sup>*" by blast
    with s show ?thesis by (meson converse_rtrancl_into_rtrancl)
  qed
qed

section \<open>The combinators\<close>

lemma means_nil: "means m nil_layout Id"
  by (rule meansI) (auto simp: nil_layout_def contained_def)

lemma means_seq:
  assumes f: "means m f R" and g: "means m g Q"
  shows "means m (seq_layout f g) (R O Q)"
proof (rule meansI)
  fix P s
  assume "placed P s (seq_layout f g s)"
  let ?b = "s + length (f s)"
  let ?e = "?b + length (g ?b)"
  have pl: "placed P s (f s)" "placed P ?b (g ?b)"
    using \<open>placed P s (seq_layout f g s)\<close> by (simp_all add: seq_layout_def placed_append)
  have len: "s + length (seq_layout f g s) = ?e" by (simp add: seq_layout_def)
  note c1 = means_contained[OF f pl(1)] and c2 = means_contained[OF g pl(2)]
  show "contained m P s (s + length (seq_layout f g s))"
    unfolding len by (rule contained_join[OF c1 c2]) simp_all
  fix i j
  show "((s, i), (s + length (seq_layout f g s), j)) \<in> (seg m P s (s + length (seq_layout f g s)))\<^sup>*"
    if "(i, j) \<in> R O Q"
  proof -
    from that obtain k where k: "(i, k) \<in> R" "(k, j) \<in> Q" by blast
    have "((s, i), (?b, k)) \<in> (seg m P s ?b)\<^sup>*" "((?b, k), (?e, j)) \<in> (seg m P ?b ?e)\<^sup>*"
      by (rule iffD2[OF means_iff[OF f pl(1)] k(1)], rule iffD2[OF means_iff[OF g pl(2)] k(2)])
    moreover have "(seg m P s ?b)\<^sup>* \<subseteq> (seg m P s ?e)\<^sup>*" "(seg m P ?b ?e)\<^sup>* \<subseteq> (seg m P s ?e)\<^sup>*"
      by (intro rtrancl_mono seg_mono; simp)+
    ultimately show ?thesis unfolding len by (meson rtrancl_trans subsetD)
  qed
  show "(i, j) \<in> R O Q"
    if "((s, i), (s + length (seq_layout f g s), j)) \<in> (seg m P s (s + length (seq_layout f g s)))\<^sup>*"
  proof -
    have "((s, i), (?e, j)) \<in> (seg m P s ?e)\<^sup>*" using that unfolding len .
    from run_split[OF c1 c2 this] obtain k where "((s, i), (?b, k)) \<in> (seg m P s ?b)\<^sup>*"
      "((?b, k), (?e, j)) \<in> (seg m P ?b ?e)\<^sup>*" by auto
    then show ?thesis using means_iff[OF f pl(1)] means_iff[OF g pl(2)] by blast
  qed
qed

text \<open>One instruction whose steps all go to the next address.\<close>

definition inst_rel :: "view \<Rightarrow> inst \<Rightarrow> (nat \<times> nat) set" where
  "inst_rel m i = {(k, l). consumes m i k \<and> l = k + 1 \<or> (\<exists>a. i = IAssert a \<and> asserts m a k \<and> l = k)}"

fun plain :: "inst \<Rightarrow> bool" where
  "plain (Split _ _) = False"
| "plain (Jmp _) = False"
| "plain IMatch = False"
| "plain _ = True"

lemma plain_step: "plain (P ! s) \<Longrightarrow> vm_step m P (s, i) (t, j) \<longleftrightarrow>
    s < length P \<and> t = s + 1 \<and> (i, j) \<in> inst_rel m (P ! s)"
  unfolding vm_step_simps inst_rel_def by (cases "P ! s") auto

lemma seg_one: "((t, i), q) \<in> seg m P s (Suc s) \<longleftrightarrow> t = s \<and> vm_step m P (s, i) q"
  by (auto simp: seg_def less_Suc_eq_le)

lemma means_one:
  assumes i: "plain i"
  shows "means m (one_layout i) (inst_rel m i)"
proof (rule meansI)
  fix P s
  assume "placed P s (one_layout i s)"
  then have P: "s < length P" "P ! s = i" by (simp_all add: one_layout_def placed_Cons)
  have step: "vm_step m P (s, k) (t, l) \<longleftrightarrow> t = s + 1 \<and> (k, l) \<in> inst_rel m i" for k t l
    using plain_step[of P s m k t l] i P by simp
  have len: "s + length (one_layout i s) = Suc s" by (simp add: one_layout_def)
  show "contained m P s (s + length (one_layout i s))"
    unfolding len contained_def by (auto simp: seg_one step)
  fix k l
  show "((s, k), (s + length (one_layout i s), l)) \<in> (seg m P s (s + length (one_layout i s)))\<^sup>*"
    if "(k, l) \<in> inst_rel m i" using that unfolding len by (intro r_into_rtrancl) (simp add: seg_one step)
  show "(k, l) \<in> inst_rel m i"
    if "((s, k), (s + length (one_layout i s), l)) \<in> (seg m P s (s + length (one_layout i s)))\<^sup>*"
    using that unfolding len
  proof (cases rule: converse_rtranclE)
    case (step q)
    obtain t n where q: "q = (t, n)" by force
    have st: "t = Suc s" "(k, n) \<in> inst_rel m i"
      using step(1)[unfolded q seg_one] \<open>\<And>l k t. vm_step m P (s, k) (t, l) \<longleftrightarrow> t = s + 1 \<and> (k, l) \<in> inst_rel m i\<close>
      by simp_all
    have "((Suc s, n), (Suc s, l)) \<in> (seg m P (Suc s) (Suc s))\<^sup>*"
      using run_second[of m P "Suc s" "Suc s" q "(Suc s, l)" s] step(2) q st by (simp add: contained_def)
    then show ?thesis using st by simp
  qed simp
qed

lemma run_head:
  assumes "((s, i), (e, j)) \<in> (seg m P s e)\<^sup>*" "s < e"
  obtains q where "vm_step m P (s, i) q" "(q, (e, j)) \<in> (seg m P s e)\<^sup>*"
  using assms(1)
proof (cases rule: converse_rtranclE)
  case (step q)
  from step(1) have "vm_step m P (s, i) q" by (simp add: seg_def)
  then show ?thesis using step(2) by (rule that)
qed (use assms(2) in simp)

lemma run_end: "((e, i), (e, j)) \<in> (seg m P s e)\<^sup>* \<Longrightarrow> i = j"
proof -
  assume "((e, i), (e, j)) \<in> (seg m P s e)\<^sup>*"
  then have "((e, i), (e, j)) \<in> (seg m P e e)\<^sup>*" by (rule run_second[rotated]) (simp_all add: contained_def)
  then show ?thesis by simp
qed

lemma run_into: "(p, q) \<in> (seg m P s' e')\<^sup>* \<Longrightarrow> s \<le> s' \<Longrightarrow> e' \<le> e \<Longrightarrow> (p, q) \<in> (seg m P s e)\<^sup>*"
  using rtrancl_mono[OF seg_mono, of s s' e' e m P] by blast

lemma step_into: "vm_step m P (s, i) q \<Longrightarrow> s < e \<Longrightarrow> (q, r) \<in> (seg m P s e)\<^sup>* \<Longrightarrow> ((s, i), r) \<in> (seg m P s e)\<^sup>*"
  by (rule converse_rtrancl_into_rtrancl) (simp_all add: seg_def)

lemma split_steps: "s < length P \<Longrightarrow> P ! s = Split a b \<Longrightarrow> vm_step m P (s, i) q \<longleftrightarrow> q = (a, i) \<or> q = (b, i)"
  by (cases q) (auto simp: vm_step_simps elim: consumes.elims)

lemma jmp_steps: "s < length P \<Longrightarrow> P ! s = Jmp t \<Longrightarrow> vm_step m P (s, i) q \<longleftrightarrow> q = (t, i)"
  by (cases q) (auto simp: vm_step_simps elim: consumes.elims)

lemma means_opt:
  assumes g: "means m g Q"
  shows "means m (opt_layout g) (Id \<union> Q)"
proof (rule meansI)
  fix P s
  assume "placed P s (opt_layout g s)"
  let ?e = "s + 1 + length (g (s + 1))"
  have P: "s < length P" "P ! s = Split (s + 1) ?e" and pl: "placed P (s + 1) (g (s + 1))"
    using \<open>placed P s (opt_layout g s)\<close> by (simp_all add: opt_layout_def placed_Cons)
  have len: "s + length (opt_layout g s) = ?e" by (simp add: opt_layout_def)
  note head = split_steps[OF P] and c = means_contained[OF g pl] and iff = means_iff[OF g pl]
  show "contained m P s (s + length (opt_layout g s))"
    unfolding len contained_def
  proof clarify
    fix pc i q k assume st: "((pc, i), (q, k)) \<in> seg m P s ?e"
    show "s \<le> fst (q, k) \<and> fst (q, k) \<le> ?e"
    proof (cases "pc = s")
      case True
      with st show ?thesis by (auto simp: seg_def head)
    next
      case False
      with st have "((pc, i), (q, k)) \<in> seg m P (s + 1) ?e" by (auto simp: seg_def)
      with c show ?thesis by (fastforce simp: contained_def)
    qed
  qed
  fix i j
  show "((s, i), (s + length (opt_layout g s), j)) \<in> (seg m P s (s + length (opt_layout g s)))\<^sup>*"
    if "(i, j) \<in> Id \<union> Q" unfolding len using that
  proof
    assume "(i, j) \<in> Id"
    then show "((s, i), (?e, j)) \<in> (seg m P s ?e)\<^sup>*"
      by (intro step_into[of m P s i "(?e, i)"]) (auto simp: head)
  next
    assume "(i, j) \<in> Q"
    then have "((s + 1, i), (?e, j)) \<in> (seg m P s ?e)\<^sup>*" by (intro run_into[OF iffD2[OF iff]]) simp_all
    then show "((s, i), (?e, j)) \<in> (seg m P s ?e)\<^sup>*"
      by (intro step_into[of m P s i "(s + 1, i)"]) (auto simp: head)
  qed
  show "(i, j) \<in> Id \<union> Q"
    if "((s, i), (s + length (opt_layout g s), j)) \<in> (seg m P s (s + length (opt_layout g s)))\<^sup>*"
  proof -
    from that[unfolded len] obtain q where q: "vm_step m P (s, i) q" "(q, (?e, j)) \<in> (seg m P s ?e)\<^sup>*"
      by (rule run_head) auto
    from q(1) have "q = (s + 1, i) \<or> q = (?e, i)" by (simp add: head)
    then show ?thesis
    proof
      assume e: "q = (s + 1, i)"
      have "((s + 1, i), (?e, j)) \<in> (seg m P (s + 1) ?e)\<^sup>*" by (rule run_second[OF c q(2)[unfolded e]]) simp
      then show ?thesis using iff by simp
    next
      assume "q = (?e, i)"
      with q(2) run_end show ?thesis by blast
    qed
  qed
qed

lemma means_star:
  assumes f: "means m f R"
  shows "means m (star_layout f) (R\<^sup>*)"
proof (rule meansI)
  fix P s
  assume "placed P s (star_layout f s)"
  let ?b = "s + 1 + length (f (s + 1))"
  let ?e = "?b + 1"
  have P: "s < length P" "P ! s = Split (s + 1) ?e" and pl: "placed P (s + 1) (f (s + 1))"
    and B: "?b < length P" "P ! ?b = Jmp s"
    using \<open>placed P s (star_layout f s)\<close> by (simp_all add: star_layout_def placed_Cons placed_append)
  have len: "s + length (star_layout f s) = ?e" by (simp add: star_layout_def)
  note head = split_steps[OF P] and jump = jmp_steps[OF B] and c = means_contained[OF f pl] and iff = means_iff[OF f pl]
  show "contained m P s (s + length (star_layout f s))"
    unfolding len contained_def
  proof clarify
    fix pc i q k assume st: "((pc, i), (q, k)) \<in> seg m P s ?e"
    consider "pc = s" | "pc = ?b" | "((pc, i), (q, k)) \<in> seg m P (s + 1) ?b"
      using st unfolding seg_step by linarith
    then show "s \<le> fst (q, k) \<and> fst (q, k) \<le> ?e"
    proof cases
      case 1
      then show ?thesis using st head by (auto simp: seg_step)
    next
      case 2
      then show ?thesis using st jump by (auto simp: seg_step)
    next
      case 3
      from containedD[OF c 3] show ?thesis by simp
    qed
  qed
  fix i j
  show "((s, i), (s + length (star_layout f s), j)) \<in> (seg m P s (s + length (star_layout f s)))\<^sup>*"
    if "(i, j) \<in> R\<^sup>*" unfolding len using that
  proof (induction rule: converse_rtrancl_induct)
    case base
    show ?case by (rule step_into[of m P s j "(?e, j)"]) (auto simp: head)
  next
    case (step i k)
    have "((s, k), (?e, j)) \<in> (seg m P s ?e)\<^sup>*" by (rule step.IH)
    moreover have "((?b, k), (s, k)) \<in> seg m P s ?e" using iffD2[OF jump refl, of m k] by (simp add: seg_def)
    moreover have "((s + 1, i), (?b, k)) \<in> (seg m P s ?e)\<^sup>*"
      using step.hyps(1) by (intro run_into[OF iffD2[OF iff]]) simp_all
    ultimately have "((s + 1, i), (?e, j)) \<in> (seg m P s ?e)\<^sup>*"
      by (meson converse_rtrancl_into_rtrancl rtrancl_trans)
    then show ?case by (intro step_into[of m P s i "(s + 1, i)"]) (auto simp: head)
  qed
  show "(i, j) \<in> R\<^sup>*"
    if "((s, i), (s + length (star_layout f s), j)) \<in> (seg m P s (s + length (star_layout f s)))\<^sup>*"
  proof -
    have "(fst p = s \<longrightarrow> (snd p, j) \<in> R\<^sup>*) \<and>
        (s + 1 \<le> fst p \<and> fst p \<le> ?b \<longrightarrow> (\<exists>k. (p, (?b, k)) \<in> (seg m P (s + 1) ?b)\<^sup>* \<and> (k, j) \<in> R\<^sup>*)) \<and>
        (fst p = ?e \<longrightarrow> snd p = j)" if "(p, (?e, j)) \<in> (seg m P s ?e)\<^sup>*" for p
      using that
    proof (induction rule: converse_rtrancl_induct)
      case (step p p')
      obtain pc k where p: "p = (pc, k)" by force
      have st: "vm_step m P (pc, k) p'" "s \<le> pc" "pc < ?e" using step.hyps(1) by (auto simp: seg_def p)
      consider "pc = s" | "pc = ?b" "pc \<noteq> s" | "s + 1 \<le> pc" "pc < ?b" using st(2,3) by fastforce
      then show ?case
      proof cases
        case 1
        then have "p' = (s + 1, k) \<or> p' = (?e, k)" using st(1) head by simp
        then have "(k, j) \<in> R\<^sup>*"
        proof
          assume "p' = (s + 1, k)"
          with step.IH obtain l where "((s + 1, k), (?b, l)) \<in> (seg m P (s + 1) ?b)\<^sup>*" "(l, j) \<in> R\<^sup>*" by auto
          with iff show ?thesis by (meson converse_rtrancl_into_rtrancl)
        next
          assume "p' = (?e, k)"
          with step.IH show ?thesis by simp
        qed
        then show ?thesis using 1 p by simp
      next
        case 2
        then have "p' = (s, k)" using st(1) jump by simp
        with step.IH have "(k, j) \<in> R\<^sup>*" by simp
        then show ?thesis using 2 p by auto
      next
        case 3
        then have s: "(p, p') \<in> seg m P (s + 1) ?b" using st(1) p by (simp add: seg_def)
        then have "s + 1 \<le> fst p'" "fst p' \<le> ?b" using c by (auto simp: contained_def)
        with step.IH obtain l where "(p', (?b, l)) \<in> (seg m P (s + 1) ?b)\<^sup>*" "(l, j) \<in> R\<^sup>*" by blast
        then have "(p, (?b, l)) \<in> (seg m P (s + 1) ?b)\<^sup>*" "(l, j) \<in> R\<^sup>*"
          using s by (meson converse_rtrancl_into_rtrancl)+
        then show ?thesis using 3 p by auto
      qed
    qed simp
    from this[OF that[unfolded len]] show ?thesis by simp
  qed
qed

lemma means_alt:
  assumes f: "means m f R" and g: "means m g Q"
  shows "means m (alt_layout f g) (R \<union> Q)"
proof (rule meansI)
  fix P s
  assume pl0: "placed P s (alt_layout f g s)"
  let ?b = "s + 1 + length (f (s + 1))"
  let ?n = "?b + 1"
  let ?e = "?n + length (g ?n)"
  have P: "s < length P" "P ! s = Split (s + 1) ?n" and plf: "placed P (s + 1) (f (s + 1))"
    and B: "?b < length P" "P ! ?b = Jmp ?e" and plg: "placed P ?n (g ?n)"
    using pl0 by (simp_all add: alt_layout_def Let_def placed_Cons placed_append)
  have len: "s + length (alt_layout f g s) = ?e" by (simp add: alt_layout_def Let_def)
  note head = split_steps[OF P] and out = jmp_steps[OF B]
    and cf = means_contained[OF f plf] and cg = means_contained[OF g plg]
    and iff = means_iff[OF f plf] and ifg = means_iff[OF g plg]
  show "contained m P s (s + length (alt_layout f g s))"
    unfolding len contained_def
  proof clarify
    fix pc i q k assume st: "((pc, i), (q, k)) \<in> seg m P s ?e"
    consider "pc = s" | "pc = ?b" | "((pc, i), (q, k)) \<in> seg m P (s + 1) ?b" | "((pc, i), (q, k)) \<in> seg m P ?n ?e"
      using st unfolding seg_step by linarith
    then show "s \<le> fst (q, k) \<and> fst (q, k) \<le> ?e"
    proof cases
      case 1
      then show ?thesis using st head by (auto simp: seg_step)
    next
      case 2
      then show ?thesis using st out by (auto simp: seg_step)
    next
      case 3
      from containedD[OF cf 3] show ?thesis by simp
    next
      case 4
      from containedD[OF cg 4] show ?thesis by simp
    qed
  qed
  fix i j
  show "((s, i), (s + length (alt_layout f g s), j)) \<in> (seg m P s (s + length (alt_layout f g s)))\<^sup>*"
    if "(i, j) \<in> R \<union> Q" unfolding len using that
  proof
    assume "(i, j) \<in> R"
    then have "((s + 1, i), (?b, j)) \<in> (seg m P s ?e)\<^sup>*" by (intro run_into[OF iffD2[OF iff]]) simp_all
    moreover have "((?b, j), (?e, j)) \<in> seg m P s ?e" using iffD2[OF out refl, of m j] by (simp add: seg_def)
    ultimately have "((s + 1, i), (?e, j)) \<in> (seg m P s ?e)\<^sup>*" by (rule rtrancl_into_rtrancl)
    then show "((s, i), (?e, j)) \<in> (seg m P s ?e)\<^sup>*"
      by (intro step_into[of m P s i "(s + 1, i)"]) (auto simp: head)
  next
    assume "(i, j) \<in> Q"
    then have "((?n, i), (?e, j)) \<in> (seg m P s ?e)\<^sup>*" by (intro run_into[OF iffD2[OF ifg]]) simp_all
    then show "((s, i), (?e, j)) \<in> (seg m P s ?e)\<^sup>*"
      by (intro step_into[of m P s i "(?n, i)"]) (auto simp: head)
  qed
  show "(i, j) \<in> R \<union> Q"
    if run: "((s, i), (s + length (alt_layout f g s), j)) \<in> (seg m P s (s + length (alt_layout f g s)))\<^sup>*"
  proof -
    from run[unfolded len] obtain q where q: "vm_step m P (s, i) q" "(q, (?e, j)) \<in> (seg m P s ?e)\<^sup>*"
      by (rule run_head) auto
    have first: "\<exists>k. (p, (?b, k)) \<in> (seg m P (s + 1) ?b)\<^sup>* \<and> k = j"
      if "(p, (?e, j)) \<in> (seg m P s ?e)\<^sup>*" "s + 1 \<le> fst p" "fst p \<le> ?b" for p
      using that
    proof (induction rule: converse_rtrancl_induct)
      case (step p p')
      obtain pc k where p: "p = (pc, k)" by force
      have st: "vm_step m P (pc, k) p'" using step.hyps(1) by (auto simp: seg_def p)
      show ?case
      proof (cases "pc = ?b")
        case True
        then have "p' = (?e, k)" using st out by simp
        with step.hyps(2) run_end have "k = j" by blast
        with True p show ?thesis by auto
      next
        case False
        then have s: "(p, p') \<in> seg m P (s + 1) ?b" using st p step.prems by (simp add: seg_def)
        then have "s + 1 \<le> fst p'" "fst p' \<le> ?b" using cf by (auto simp: contained_def)
        with step.IH s show ?thesis by (meson converse_rtrancl_into_rtrancl)
      qed
    qed simp
    from q(1) have "q = (s + 1, i) \<or> q = (?n, i)" by (simp add: head)
    then show ?thesis
    proof
      assume "q = (s + 1, i)"
      with first[OF q(2)] iff show ?thesis by auto
    next
      assume e: "q = (?n, i)"
      have "((?n, i), (?e, j)) \<in> (seg m P ?n ?e)\<^sup>*" by (rule run_second[OF cg q(2)[unfolded e]]) simp
      then show ?thesis using ifg by simp
    qed
  qed
qed

section \<open>Nodes\<close>

fun power_upto :: "nat \<Rightarrow> (nat \<times> nat) set \<Rightarrow> (nat \<times> nat) set" where
  "power_upto 0 R = Id"
| "power_upto (Suc k) R = Id \<union> (R O power_upto k R)"

text \<open>The pairs of positions between which a node matches. The parser never builds an \<open>Alt\<close> without
  branches nor an upper bound below the lower one; the code reads the first as the empty text and
  the second as the lower bound.\<close>

fun rel :: "view \<Rightarrow> node \<Rightarrow> (nat \<times> nat) set" where
  "rel m Empty = Id"
| "rel m (Char c) = {(i, j). consumes m (IChar c) i \<and> j = i + 1}"
| "rel m Any = {(i, j). consumes m IAny i \<and> j = i + 1}"
| "rel m (Class cl) = {(i, j). consumes m (IClass cl) i \<and> j = i + 1}"
| "rel m (Assert a) = {(i, j). asserts m a i \<and> j = i}"
| "rel m (Concat items) = foldr (O) (map (rel m) items) Id"
| "rel m (Alt branches) = (if branches = [] then Id else \<Union> (set (map (rel m) branches)))"
| "rel m (Repeat n mn mx) =
     (\<Union>k \<in> {k. mn \<le> k \<and> (case mx of None \<Rightarrow> True | Some x \<Rightarrow> k \<le> max mn x)}. rel m n ^^ k)"

lemma means_reps: "means m f R \<Longrightarrow> means m (reps_layout k f) (R ^^ k)"
proof (induction k)
  case (Suc k)
  from means_seq[OF Suc.prems Suc.IH[OF Suc.prems]] show ?case by (simp add: relpow_commute)
qed (simp add: means_nil)

lemma means_opts: "means m f R \<Longrightarrow> means m (opts_layout k f) (power_upto k R)"
  by (induction k) (simp_all add: means_nil means_opt means_seq)

lemma power_upto_iff: "power_upto k R = (\<Union>l \<in> {..k}. R ^^ l)"
proof (induction k)
  case (Suc k)
  have "(\<Union>l \<in> {..Suc k}. R ^^ l) = Id \<union> (\<Union>l \<in> {..k}. R ^^ Suc l)"
    by (subst atMost_Suc_eq_insert_0) (simp add: image_image del: relpow.simps(2))
  moreover have "R ^^ Suc l = R O R ^^ l" for l by (simp add: relpow_commute)
  then have "(\<Union>l \<in> {..k}. R ^^ Suc l) = R O (\<Union>l \<in> {..k}. R ^^ l)"
    by (simp only: relcomp_UNION_distrib)
  ultimately show ?case using Suc by simp
qed simp

lemma means_concat: "list_all2 (means m) fs Rs \<Longrightarrow> means m (concat_layout fs) (foldr (O) Rs Id)"
  by (induction rule: list_all2_induct) (simp_all add: means_nil means_seq)

lemma means_alts: "list_all2 (means m) fs Rs \<Longrightarrow>
    means m (alts_layout fs) (if Rs = [] then Id else \<Union> (set Rs))"
proof (induction fs arbitrary: Rs rule: alts_layout.induct)
  case (2 f)
  then show ?case by (auto simp: list_all2_Cons1)
next
  case (3 f f' fs)
  then obtain R R' Rs' where "Rs = R # R' # Rs'" "means m f R" "list_all2 (means m) (f' # fs) (R' # Rs')"
    by (auto simp: list_all2_Cons1)
  with means_alt[OF this(2) "3.IH"[OF this(3)]] show ?case by simp
qed (simp add: means_nil)

lemma repeat_rel:
  "R ^^ mn O R\<^sup>* = (\<Union>k \<in> {k. mn \<le> k}. R ^^ k)"
  "R ^^ mn O power_upto (x - mn) R = (\<Union>k \<in> {k. mn \<le> k \<and> k \<le> max mn x}. R ^^ k)"
proof -
  have shift: "(\<Union>l \<in> A. R ^^ (mn + l)) = (\<Union>k \<in> (+) mn ` A. R ^^ k)" for A by simp
  have a: "R ^^ mn O (\<Union>l \<in> A. R ^^ l) = (\<Union>k \<in> (+) mn ` A. R ^^ k)" for A
    unfolding shift[symmetric] relpow_add relcomp_UNION_distrib ..
  have b: "(+) mn ` UNIV = {k. mn \<le> k}"
    by (auto simp: nat_le_iff_add)
  have c: "(+) mn ` {..x - mn} = {k. mn \<le> k \<and> k \<le> max mn x}"
  proof (intro set_eqI iffI)
    fix k assume "k \<in> {k. mn \<le> k \<and> k \<le> max mn x}"
    then have "k = mn + (k - mn)" "k - mn \<in> {..x - mn}" by auto
    then show "k \<in> (+) mn ` {..x - mn}" by blast
  qed auto
  show "R ^^ mn O R\<^sup>* = (\<Union>k \<in> {k. mn \<le> k}. R ^^ k)"
    unfolding rtrancl_is_UN_relpow a b ..
  show "R ^^ mn O power_upto (x - mn) R = (\<Union>k \<in> {k. mn \<le> k \<and> k \<le> max mn x}. R ^^ k)"
    unfolding power_upto_iff a c ..
qed

lemma means_node: "means m (node_layout n) (rel m n)"
proof (induction n rule: node_layout.induct)
  case 1
  then show ?case by (simp add: means_nil)
next
  case (6 items)
  then have "list_all2 (means m) (map node_layout items) (map (rel m) items)"
    by (simp add: list_all2_map1 list_all2_map2 list_all2_same)
  from means_concat[OF this] show ?case by simp
next
  case (7 branches)
  then have "list_all2 (means m) (map node_layout branches) (map (rel m) branches)"
    by (simp add: list_all2_map1 list_all2_map2 list_all2_same)
  from means_alts[OF this] show ?case by simp
next
  case (8 n mn mx)
  note body = "8.IH"(1)
  show ?case
  proof (cases mx)
    case None
    from means_seq[OF means_reps[OF body] means_star[OF body], of mn] None show ?thesis
      by (simp add: repeat_rel)
  next
    case (Some x)
    from means_seq[OF means_reps[OF body] means_opts[OF body], of mn "x - mn"] Some show ?thesis
      by (simp add: repeat_rel)
  qed
next
  case (2 c)
  from means_one[of "IChar c" m] show ?case by (simp add: inst_rel_def)
next
  case 3
  from means_one[of IAny m] show ?case by (simp add: inst_rel_def)
next
  case (4 cl)
  from means_one[of "IClass cl" m] show ?case by (simp add: inst_rel_def)
next
  case (5 a)
  have "\<not> consumes m (IAssert a) k" for k by (cases m) simp
  with means_one[of "IAssert a" m] show ?case by (simp add: inst_rel_def)
qed

end
