(* ===== verification/Pattern_Correct.thy ===== *)
theory Pattern_Correct
  imports Pattern_Means
begin

text \<open>
  The matcher of \<open>src/pattern.rs\<close> explores exactly the runs of the program, so a compiled pattern matches
  a text iff the pattern itself matches between two of its positions; and what the parser and the
  compiler guarantee about sizes.
\<close>

section \<open>Runs of a program\<close>

definition vm :: "view \<Rightarrow> inst list \<Rightarrow> ((nat \<times> nat) \<times> nat \<times> nat) set" where
  "vm m P = {(p, q). vm_step m P p q}"

text \<open>The steps that stay at a position.\<close>

definition eps :: "view \<Rightarrow> inst list \<Rightarrow> nat \<Rightarrow> (nat \<times> nat) set" where
  "eps m P i = {(pc, pc'). vm_step m P (pc, i) (pc', i)}"

fun consumer :: "inst \<Rightarrow> bool" where
  "consumer (IChar _) = True"
| "consumer IAny = True"
| "consumer (IClass _) = True"
| "consumer _ = False"

lemma consumes_consumer: "consumes m i k \<Longrightarrow> consumer i"
  by (cases m; cases i) simp_all

lemma consumes_less: "consumes (u, ic, cs) i k \<Longrightarrow> k < length cs"
  by simp

lemma vm_position: "vm_step m P (pc, i) (pc', i') \<Longrightarrow>
    i' = i \<or> i' = i + 1 \<and> pc' = pc + 1 \<and> pc < length P \<and> consumes m (P ! pc) i"
  unfolding vm_step_simps by auto

lemma eps_run: "(pc, pc') \<in> (eps m P i)\<^sup>* \<Longrightarrow> ((pc, i), (pc', i)) \<in> (vm m P)\<^sup>*"
proof (induction rule: rtrancl_induct)
  case (step y z)
  then show ?case by (auto simp: eps_def vm_def intro: rtrancl_into_rtrancl)
qed simp

lemma run_positions: "((pc, i), (pc', i')) \<in> (vm m P)\<^sup>* \<Longrightarrow> i \<le> i'"
proof (induction "(pc', i')" arbitrary: pc' i' rule: rtrancl_induct)
  case (step y)
  obtain q k where y: "y = (q, k)" by force
  from step(2) y have "k \<le> i'" by (auto simp: vm_def dest: vm_position)
  with step(3)[OF y] show ?case by simp
qed simp

lemma run_same: "((pc, i), (pc', i')) \<in> (vm m P)\<^sup>* \<Longrightarrow> i' = i \<Longrightarrow> (pc, pc') \<in> (eps m P i)\<^sup>*"
proof (induction "(pc', i')" arbitrary: pc' i' rule: rtrancl_induct)
  case (step y)
  obtain q k where y: "y = (q, k)" by force
  have "i \<le> k" using step(1) run_positions y by blast
  moreover have "k \<le> i'" using step(2) y by (auto simp: vm_def dest: vm_position)
  ultimately have k: "k = i" using step.prems by simp
  from step(3)[OF y k] step(2) y k step.prems show ?case
    by (auto simp: eps_def vm_def intro: rtrancl_into_rtrancl)
qed simp

lemma run_last_char:
  "((pc0, k), (pc, l)) \<in> (vm m P)\<^sup>* \<Longrightarrow> k \<le> i \<Longrightarrow> l = i + 1 \<Longrightarrow>
    \<exists>q. ((pc0, k), (q, i)) \<in> (vm m P)\<^sup>* \<and> q < length P \<and> consumes m (P ! q) i \<and> (q + 1, pc) \<in> (eps m P (i + 1))\<^sup>*"
proof (induction "(pc, l)" arbitrary: pc l rule: rtrancl_induct)
  case (step y)
  obtain q n where y: "y = (q, n)" by force
  have st: "vm_step m P (q, n) (pc, l)" using step(2) y by (simp add: vm_def)
  from vm_position[OF st] show ?case
  proof
    assume "l = n"
    then have n: "n = i + 1" using step.prems by simp
    from step(3)[OF y step.prems(1) n] obtain q' where q': "((pc0, k), (q', i)) \<in> (vm m P)\<^sup>*" "q' < length P"
      "consumes m (P ! q') i" "(q' + 1, q) \<in> (eps m P (i + 1))\<^sup>*" by blast
    have "(q, pc) \<in> eps m P (i + 1)" using st n step.prems by (simp add: eps_def)
    with q' show ?thesis by (meson rtrancl_into_rtrancl)
  next
    assume a: "l = n + 1 \<and> pc = q + 1 \<and> q < length P \<and> consumes m (P ! q) n"
    then have "n = i" using step.prems by simp
    with a step(1) y show ?thesis by blast
  qed
qed simp

section \<open>The walk\<close>

definition threads_at :: "threads \<Rightarrow> nat set" where
  "threads_at th = {pc. pc < length (seen th) \<and> seen th ! pc}"

definition th_ok :: "inst list \<Rightarrow> threads \<Rightarrow> bool" where
  "th_ok P th \<longleftrightarrow> length (seen th) = length P \<and> set (visited th) = threads_at th \<and>
     set (dense th) = {pc \<in> threads_at th. consumer (P ! pc)}"

definition targets_ok :: "view \<Rightarrow> inst list \<Rightarrow> bool" where
  "targets_ok m P \<longleftrightarrow> (\<forall>pc i pc' i'. vm_step m P (pc, i) (pc', i') \<longrightarrow> pc' < length P)"

lemma insert_new:
  assumes "th_ok P th" "pc < length P" "pc \<notin> threads_at th"
  obtains th' where "thread_insert pc th = Some (True, th')" "threads_at th' = insert pc (threads_at th)"
    "length (seen th') = length P" "set (visited th') = threads_at th'" "dense th' = dense th"
proof -
  let ?th = "th\<lparr>seen := (seen th)[pc := True], visited := visited th @ [pc]\<rparr>"
  have "threads_at ?th = insert pc (threads_at th)"
    using assms(1,2) by (auto simp: threads_at_def th_ok_def nth_list_update)
  with assms show thesis
    by (intro that[of ?th]) (auto simp: thread_insert_def th_ok_def threads_at_def)
qed

lemma insert_old: "th_ok P th \<Longrightarrow> pc \<in> threads_at th \<Longrightarrow> thread_insert pc th = Some (False, th)"
  by (auto simp: thread_insert_def threads_at_def)

text \<open>What a walk from some addresses leaves behind.\<close>

definition walked :: "view \<Rightarrow> inst list \<Rightarrow> nat \<Rightarrow> nat set \<Rightarrow> threads \<Rightarrow> bool \<times> threads \<Rightarrow> bool" where
  "walked m P i starts th r \<longleftrightarrow>
     (case r of
        (True, th') \<Rightarrow> \<exists>pc \<in> (eps m P i)\<^sup>* `` starts. pc < length P \<and> P ! pc = IMatch
      | (False, th') \<Rightarrow> th_ok P th' \<and> threads_at th \<subseteq> threads_at th' \<and> starts \<subseteq> threads_at th' \<and>
          threads_at th' \<subseteq> threads_at th \<union> (eps m P i)\<^sup>* `` starts \<and>
          (\<forall>pc \<in> threads_at th' - threads_at th. eps m P i `` {pc} \<subseteq> threads_at th' \<and> P ! pc \<noteq> IMatch))"

lemma eps_match: "pc < length P \<Longrightarrow> P ! pc = Jmp t \<Longrightarrow> eps m P i `` {pc} = {t}"
  "pc < length P \<Longrightarrow> P ! pc = Split a b \<Longrightarrow> eps m P i `` {pc} = {a, b}"
  "pc < length P \<Longrightarrow> P ! pc = IAssert s \<Longrightarrow> eps m P i `` {pc} = (if asserts m s i then {pc + 1} else {})"
  "pc < length P \<Longrightarrow> consumer (P ! pc) \<Longrightarrow> eps m P i `` {pc} = {}"
  by (auto simp: eps_def vm_step_simps)

lemma walked_new:
  assumes "walked m P i (succs \<union> starts) th1 r" "threads_at th1 = insert pc (threads_at th)"
    "eps m P i `` {pc} = succs" "P ! pc \<noteq> IMatch"
  shows "walked m P i (insert pc starts) th r"
proof -
  obtain b th' where r: "r = (b, th')" by force
  have sub: "(eps m P i)\<^sup>* `` (succs \<union> starts) \<subseteq> (eps m P i)\<^sup>* `` insert pc starts"
    using assms(3) by (auto intro: converse_rtrancl_into_rtrancl)
  show ?thesis
  proof (cases b)
    case True
    with assms(1) sub r show ?thesis by (auto simp: walked_def)
  next
    case False
    with assms(1) r have w: "th_ok P th'" "threads_at th1 \<subseteq> threads_at th'" "succs \<union> starts \<subseteq> threads_at th'"
      "threads_at th' \<subseteq> threads_at th1 \<union> (eps m P i)\<^sup>* `` (succs \<union> starts)"
      "\<forall>pc \<in> threads_at th' - threads_at th1. eps m P i `` {pc} \<subseteq> threads_at th' \<and> P ! pc \<noteq> IMatch"
      by (simp_all add: walked_def)
    have "threads_at th' \<subseteq> threads_at th \<union> (eps m P i)\<^sup>* `` insert pc starts"
      using w(4) sub assms(2) by blast
    moreover have "\<forall>q \<in> threads_at th' - threads_at th. eps m P i `` {q} \<subseteq> threads_at th' \<and> P ! q \<noteq> IMatch"
    proof
      fix q assume "q \<in> threads_at th' - threads_at th"
      then show "eps m P i `` {q} \<subseteq> threads_at th' \<and> P ! q \<noteq> IMatch"
        using w(3,5) assms(2,3,4) by (cases "q = pc") simp_all
    qed
    ultimately show ?thesis using w assms(2) r False by (simp add: walked_def)
  qed
qed

lemma walked_old:
  assumes "walked m P i starts th r" "pc \<in> threads_at th"
  shows "walked m P i (insert pc starts) th r"
proof -
  obtain b th' where r: "r = (b, th')" by force
  have sub: "(eps m P i)\<^sup>* `` starts \<subseteq> (eps m P i)\<^sup>* `` insert pc starts" by blast
  show ?thesis
  proof (cases b)
    case True
    with assms(1) sub r show ?thesis by (auto simp: walked_def)
  next
    case False
    with assms(1) r have w: "th_ok P th'" "threads_at th \<subseteq> threads_at th'" "starts \<subseteq> threads_at th'"
      "threads_at th' \<subseteq> threads_at th \<union> (eps m P i)\<^sup>* `` starts"
      "\<forall>pc \<in> threads_at th' - threads_at th. eps m P i `` {pc} \<subseteq> threads_at th' \<and> P ! pc \<noteq> IMatch"
      by (simp_all add: walked_def)
    moreover have "threads_at th' \<subseteq> threads_at th \<union> (eps m P i)\<^sup>* `` insert pc starts" using w(4) sub by blast
    moreover have "insert pc starts \<subseteq> threads_at th'" using w(2,3) assms(2) by blast
    ultimately show ?thesis using r False by (simp add: walked_def)
  qed
qed

lemma walked_push:
  assumes ok: "targets_ok m P" and pc: "pc < length P" and th1: "threads_at th1 = insert pc (threads_at th)"
    and succs: "eps m P i `` {pc} = set succs" and match: "P ! pc \<noteq> IMatch"
    and IH: "set (succs @ stack) \<subseteq> {..<length P} \<Longrightarrow>
      \<exists>r. add_loop u P cs i (succs @ stack) th2 = Some r \<and> walked m P i (set (succs @ stack)) th2 r"
    and same: "threads_at th2 = threads_at th1" and stack: "set stack \<subseteq> {..<length P}"
  shows "\<exists>r. add_loop u P cs i (succs @ stack) th2 = Some r \<and> walked m P i (set (pc # stack)) th r"
proof -
  have "set succs \<subseteq> {..<length P}"
  proof
    fix q assume "q \<in> set succs"
    then have "q \<in> eps m P i `` {pc}" using succs by simp
    then have "vm_step m P (pc, i) (q, i)" by (simp add: eps_def)
    then show "q \<in> {..<length P}" using ok unfolding targets_ok_def by blast
  qed
  then obtain r where r: "add_loop u P cs i (succs @ stack) th2 = Some r" "walked m P i (set succs \<union> set stack) th2 r"
    using IH stack by auto
  from walked_new[OF r(2) _ succs match] th1 same r(1) show ?thesis by auto
qed

lemma add_loop_walked:
  "targets_ok (u, ic, cs) P \<Longrightarrow> th_ok P th \<Longrightarrow> set stack \<subseteq> {..<length P} \<Longrightarrow>
    \<exists>r. add_loop u P cs i stack th = Some r \<and> walked (u, ic, cs) P i (set stack) th r"
proof (induction u P cs i stack th rule: add_loop.induct)
  case (1 u P cs i th)
  then have "walked (u, ic, cs) P i (set []) th (False, th)" by (simp add: walked_def)
  then show ?case by (intro exI[of _ "(False, th)"]) simp
next
  case (2 u P cs i pc stack th)
  let ?m = "(u, ic, cs)"
  note ok = "2.prems"(1)
  have pc: "pc < length P" and stack: "set stack \<subseteq> {..<length P}" using "2.prems" by auto
  show ?case
  proof (cases "pc \<in> threads_at th")
    case True
    note ins = insert_old[OF "2.prems"(2) True]
    from "2.IH"(7)[OF ins refl refl ok "2.prems"(2) stack] obtain r where
      "add_loop u P cs i stack th = Some r" "walked ?m P i (set stack) th r" by blast
    from this(1) walked_old[OF this(2) True] ins show ?thesis by simp
  next
    case False
    from insert_new[OF "2.prems"(2) pc False] obtain th1 where
      ins: "thread_insert pc th = Some (True, th1)" and at1: "threads_at th1 = insert pc (threads_at th)"
      and th1: "length (seen th1) = length P" "set (visited th1) = threads_at th1" "dense th1 = dense th" by blast
    have npc: "\<not> length P \<le> pc" using pc by simp
    have keep: "th_ok P th1" if "\<not> consumer (P ! pc)"
      using that th1 at1 "2.prems"(2) by (auto simp: th_ok_def)
    note IH = "2.IH"(1-6)[OF ins refl refl npc]
    let ?th2 = "th1\<lparr>dense := dense th1 @ [pc]\<rparr>"
    have at2: "threads_at ?th2 = threads_at th1" by (simp add: threads_at_def)
    have ok2: "th_ok P ?th2" if "consumer (P ! pc)"
      using that th1 at1 at2 "2.prems"(2) by (auto simp: th_ok_def)
    have push: "\<exists>r. add_loop u P cs i stack ?th2 = Some r \<and> walked ?m P i (set (pc # stack)) th r"
      if "consumer (P ! pc)" "\<exists>r. add_loop u P cs i stack ?th2 = Some r \<and> walked ?m P i (set stack) ?th2 r"
    proof -
      have "P ! pc \<noteq> IMatch" using that(1) by auto
      from walked_push[OF ok pc at1 _ this, of i "[]" stack u cs ?th2] eps_match(4)[OF pc that(1), of ?m i] that(2) at2 stack
      show ?thesis by simp
    qed
    show ?thesis
    proof (cases "P ! pc")
      case IMatch
      then show ?thesis using ins pc by (auto simp: walked_def)
    next
      case (Jmp t)
      have "\<exists>r. add_loop u P cs i ([t] @ stack) th1 = Some r \<and> walked ?m P i (set (pc # stack)) th r"
        by (rule walked_push[OF ok pc at1 _ _ _ refl stack])
          (use eps_match(1)[OF pc Jmp, of ?m i] Jmp IH(6)[OF Jmp ok keep] in simp_all)
      then show ?thesis using ins npc Jmp by simp
    next
      case (Split a b)
      have "\<exists>r. add_loop u P cs i ([a, b] @ stack) th1 = Some r \<and> walked ?m P i (set (pc # stack)) th r"
        by (rule walked_push[OF ok pc at1 _ _ _ refl stack])
          (use eps_match(2)[OF pc Split, of ?m i] Split IH(5)[OF Split ok keep] in simp_all)
      then show ?thesis using ins npc Split by simp
    next
      case (IAssert s)
      let ?succs = "if holds u s i cs then [pc + 1] else []"
      have "\<exists>r. add_loop u P cs i (?succs @ stack) th1 = Some r \<and> walked ?m P i (set (pc # stack)) th r"
        by (rule walked_push[OF ok pc at1 _ _ _ refl stack])
          (use eps_match(3)[OF pc IAssert, of ?m i] IAssert IH(4)[OF IAssert ok keep] in \<open>simp_all split: if_splits\<close>)
      then show ?thesis using ins npc IAssert by (simp split: if_splits)
    qed (use push ok2 ins npc IH ok stack in simp_all)
  qed
qed

section \<open>The search\<close>

text \<open>The addresses that some run started at or before a position has reached there.\<close>

definition reach :: "view \<Rightarrow> inst list \<Rightarrow> nat \<Rightarrow> nat set" where
  "reach m P i = {pc. \<exists>k \<le> i. ((0, k), (pc, i)) \<in> (vm m P)\<^sup>*}"

definition before :: "view \<Rightarrow> inst list \<Rightarrow> nat \<Rightarrow> nat set" where
  "before m P i = {pc. \<exists>k < i. ((0, k), (pc, i)) \<in> (vm m P)\<^sup>*}"

definition matched :: "inst list \<Rightarrow> nat set \<Rightarrow> bool" where
  "matched P A \<longleftrightarrow> (\<exists>pc \<in> A. pc < length P \<and> P ! pc = IMatch)"

lemma before_0 [simp]: "before m P 0 = {}"
  by (simp add: before_def)

lemma before_closed: "pc \<in> before m P i \<Longrightarrow> (pc, q) \<in> eps m P i \<Longrightarrow> q \<in> before m P i"
  by (auto simp: before_def eps_def vm_def intro: rtrancl_into_rtrancl)

lemma reach_before: "reach m P i = before m P i \<union> (eps m P i)\<^sup>* `` {0}"
proof -
  have "((0, i), (pc, i)) \<in> (vm m P)\<^sup>* \<longleftrightarrow> (0, pc) \<in> (eps m P i)\<^sup>*" for pc
    using run_same eps_run by blast
  then show ?thesis unfolding reach_def before_def by (auto simp: le_less)
qed

lemma before_Suc:
  "before m P (i + 1) = (eps m P (i + 1))\<^sup>* `` {pc + 1 | pc. pc \<in> reach m P i \<and> pc < length P \<and> consumes m (P ! pc) i}"
proof (intro set_eqI iffI)
  fix pc assume "pc \<in> before m P (i + 1)"
  then obtain k where "k < i + 1" and run: "((0, k), (pc, i + 1)) \<in> (vm m P)\<^sup>*" unfolding before_def by blast
  then have k: "k \<le> i" "((0, k), (pc, i + 1)) \<in> (vm m P)\<^sup>*" by simp_all
  from run_last_char[OF k(2,1) refl] obtain q where "((0, k), (q, i)) \<in> (vm m P)\<^sup>*" "q < length P"
    "consumes m (P ! q) i" "(q + 1, pc) \<in> (eps m P (i + 1))\<^sup>*" by blast
  then show "pc \<in> (eps m P (i + 1))\<^sup>* `` {pc + 1 | pc. pc \<in> reach m P i \<and> pc < length P \<and> consumes m (P ! pc) i}"
    using k(1) by (auto simp: reach_def)
next
  fix pc assume "pc \<in> (eps m P (i + 1))\<^sup>* `` {pc + 1 | pc. pc \<in> reach m P i \<and> pc < length P \<and> consumes m (P ! pc) i}"
  then obtain q k where q: "k \<le> i" "((0, k), (q, i)) \<in> (vm m P)\<^sup>*" "q < length P" "consumes m (P ! q) i"
    "(q + 1, pc) \<in> (eps m P (i + 1))\<^sup>*" by (auto simp: reach_def)
  have "((q, i), (q + 1, i + 1)) \<in> vm m P" using step_consume[OF q(3,4)] by (simp add: vm_def)
  with q(2) eps_run[OF q(5)] have "((0, k), (pc, i + 1)) \<in> (vm m P)\<^sup>*"
    by (meson rtrancl_into_rtrancl rtrancl_trans)
  then show "pc \<in> before m P (i + 1)" unfolding before_def using q(1) by (intro CollectI exI[of _ k]) simp_all
qed

text \<open>A walk that finds no match has reached everything there is to reach.\<close>

lemma walked_closed:
  assumes w: "walked m P i starts th (False, th')" and start: "threads_at th = A"
    and closed: "\<And>pc q. pc \<in> A \<Longrightarrow> (pc, q) \<in> eps m P i \<Longrightarrow> q \<in> A"
  shows "th_ok P th' \<and> threads_at th' = A \<union> (eps m P i)\<^sup>* `` starts \<and>
    (\<not> matched P A \<longrightarrow> \<not> matched P (threads_at th'))"
proof -
  from w start have W: "th_ok P th'" "A \<subseteq> threads_at th'" "starts \<subseteq> threads_at th'"
    "threads_at th' \<subseteq> A \<union> (eps m P i)\<^sup>* `` starts"
    "\<And>pc. pc \<in> threads_at th' - A \<Longrightarrow> eps m P i `` {pc} \<subseteq> threads_at th' \<and> P ! pc \<noteq> IMatch"
    by (simp_all add: walked_def)
  have step: "q \<in> threads_at th'" if "pc \<in> threads_at th'" "(pc, q) \<in> eps m P i" for pc q
    using that W(2) W(5)[of pc] closed[of pc q] by (cases "pc \<in> A") auto
  have "pc \<in> threads_at th'" if "(s, pc) \<in> (eps m P i)\<^sup>*" "s \<in> starts" for s pc
    using that by (induction rule: rtrancl_induct) (use W(3) step in auto)
  then have "threads_at th' = A \<union> (eps m P i)\<^sup>* `` starts" using W(2,4) by auto
  moreover have "\<not> matched P (threads_at th')" if "\<not> matched P A"
    using that W(5) unfolding matched_def by blast
  ultimately show ?thesis using W(1) by blast
qed

lemma advance_all_walked:
  assumes ok: "targets_ok (u, ic, cs) P"
  shows "th_ok P th \<Longrightarrow> list_all (\<lambda>pc. pc < length P \<and> consumer (P ! pc)) pcs \<Longrightarrow> i < length cs \<Longrightarrow>
    threads_at th = (eps (u, ic, cs) P (i + 1))\<^sup>* `` A \<Longrightarrow> \<not> matched P (threads_at th) \<Longrightarrow>
    \<exists>b th'. advance_all u P ic cs i pcs th = Some (b, th') \<and>
      (let B = (eps (u, ic, cs) P (i + 1))\<^sup>* `` (A \<union> {pc + 1 | pc. pc \<in> set pcs \<and> consumes (u, ic, cs) (P ! pc) i})
       in if b then matched P B else th_ok P th' \<and> threads_at th' = B \<and> \<not> matched P B)"
proof (induction pcs arbitrary: th A)
  case Nil
  then show ?case by (intro exI[of _ False] exI[of _ th]) simp
next
  case (Cons pc pcs)
  let ?m = "(u, ic, cs)" and ?E = "eps (u, ic, cs) P (i + 1)"
  let ?next = "\<lambda>pcs. {pc + 1 | pc. pc \<in> set pcs \<and> consumes ?m (P ! pc) i}"
  have pc: "pc < length P" "consumer (P ! pc)" and npc: "\<not> length P \<le> pc" using Cons.prems(2) by auto
  show ?case
  proof (cases "consumes ?m (P ! pc) i")
    case False
    then have "advance_all u P ic cs i (pc # pcs) th = advance_all u P ic cs i pcs th"
      and "?next (pc # pcs) = ?next pcs" using npc Cons.prems(3) by auto
    then show ?thesis using Cons.IH[OF Cons.prems(1) _ Cons.prems(3-5)] Cons.prems(2) by simp
  next
    case True
    have next_set: "?next (pc # pcs) = insert (pc + 1) (?next pcs)" using True by auto
    have adv: "advances u ic (P ! pc) (cs ! i)" using True by simp
    have "vm_step ?m P (pc, i) (pc + 1, i + 1)" using step_consume[OF pc(1) True] .
    then have "set [pc + 1] \<subseteq> {..<length P}" using ok by (auto simp: targets_ok_def)
    from add_loop_walked[OF ok Cons.prems(1) this, of "i + 1"] obtain b th1 where
      add: "add u P cs th (pc + 1) (i + 1) = Some (b, th1)" "walked ?m P (i + 1) {pc + 1} th (b, th1)"
      by (auto simp: add_def)
    show ?thesis
    proof (cases b)
      case b: True
      have "matched P (?E\<^sup>* `` (A \<union> ?next (pc # pcs)))"
        using add(2) b unfolding next_set matched_def walked_def by auto
      then show ?thesis using add(1) b npc adv by (intro exI[of _ True] exI[of _ th1]) (simp add: Let_def)
    next
      case b: False
      have closed: "q \<in> ?E\<^sup>* `` A" if "p \<in> ?E\<^sup>* `` A" "(p, q) \<in> ?E" for p q
        using that by (auto intro: rtrancl_into_rtrancl)
      have sum: "?E\<^sup>* `` A \<union> ?E\<^sup>* `` {pc + 1} = ?E\<^sup>* `` (insert (pc + 1) A)" by blast
      have no: "\<not> matched P (?E\<^sup>* `` A)" using Cons.prems(4,5) by simp
      have "th_ok P th1 \<and> threads_at th1 = ?E\<^sup>* `` A \<union> ?E\<^sup>* `` {pc + 1} \<and>
          (\<not> matched P (?E\<^sup>* `` A) \<longrightarrow> \<not> matched P (threads_at th1))"
        by (rule walked_closed[OF _ Cons.prems(4) closed]) (use add(2) b in simp)
      then have w: "th_ok P th1" "threads_at th1 = ?E\<^sup>* `` (insert (pc + 1) A)" "\<not> matched P (threads_at th1)"
        using no unfolding sum by blast+
      have "advance_all u P ic cs i (pc # pcs) th = advance_all u P ic cs i pcs th1"
        using add(1) b npc adv by simp
      moreover have "insert (pc + 1) A \<union> ?next pcs = A \<union> ?next (pc # pcs)" unfolding next_set by blast
      ultimately show ?thesis
        using Cons.IH[OF w(1) _ Cons.prems(3) w(2) w(3)] Cons.prems(2) by simp
    qed
  qed
qed

lemma threads_clear_ok:
  assumes "length (seen th) = length P" "set (visited th) = threads_at th"
  shows "th_ok P (threads_clear th) \<and> threads_at (threads_clear th) = {}"
proof -
  have len: "length (fold (\<lambda>pc s. s[pc := False]) ks s) = length s" for ks and s :: "bool list"
    by (induction ks arbitrary: s) simp_all
  have "fold (\<lambda>pc s. s[pc := False]) ks s ! k \<longleftrightarrow> s ! k \<and> k \<notin> set ks" if "k < length s" for ks k and s :: "bool list"
    using that
  proof (induction ks arbitrary: s)
    case (Cons a ks)
    from Cons.IH[of "s[a := False]"] Cons.prems show ?case by (cases "k = a") simp_all
  qed simp
  then have "threads_at (threads_clear th) = {}"
    using assms(2) by (auto simp: threads_at_def threads_clear_def len)
  then show ?thesis using assms(1) by (simp add: th_ok_def threads_clear_def len)
qed

end
