(* ===== verification/Pattern_Search.thy ===== *)
theory Pattern_Search
  imports Pattern_Correct
begin

text \<open>
  \<open>src/pattern.rs\<close>, the search and what a pattern as a whole guarantees: the position loop of
  \<open>is_match\<close> answers true iff some run reaches the final instruction, and the parser always has enough
  fuel.
\<close>

section \<open>The position loop\<close>

lemma matched_mono: "matched P A \<Longrightarrow> A \<subseteq> B \<Longrightarrow> matched P B"
  by (auto simp: matched_def)

lemma dense_steps:
  assumes "th_ok P th" "threads_at th = reach m P i"
  shows "list_all (\<lambda>pc. pc < length P \<and> consumer (P ! pc)) (dense th)"
    and "{pc + 1 | pc. pc \<in> set (dense th) \<and> consumes m (P ! pc) i} =
      {pc + 1 | pc. pc \<in> reach m P i \<and> pc < length P \<and> consumes m (P ! pc) i}"
proof -
  have d: "set (dense th) = {pc \<in> reach m P i. consumer (P ! pc)}" and l: "length (seen th) = length P"
    using assms by (simp_all add: th_ok_def)
  have small: "pc < length P" if "pc \<in> reach m P i" for pc
    using that assms(2)[symmetric] l by (simp add: threads_at_def)
  show "list_all (\<lambda>pc. pc < length P \<and> consumer (P ! pc)) (dense th)"
    using d small by (auto simp: list_all_iff)
  show "{pc + 1 | pc. pc \<in> set (dense th) \<and> consumes m (P ! pc) i} =
      {pc + 1 | pc. pc \<in> reach m P i \<and> pc < length P \<and> consumes m (P ! pc) i}"
    using d small consumes_consumer[of m _ i] by blast
qed

lemma match_loop_walked:
  assumes ok: "targets_ok (u, ic, cs) P" and P: "0 < length P"
  shows "i \<le> length cs \<Longrightarrow> th_ok P current \<Longrightarrow> threads_at current = before (u, ic, cs) P i \<Longrightarrow>
    \<not> matched P (before (u, ic, cs) P i) \<Longrightarrow> length (seen nxt) = length P \<Longrightarrow> set (visited nxt) = threads_at nxt \<Longrightarrow>
    match_loop u P ic cs i current nxt =
      Some (\<exists>k. i \<le> k \<and> k \<le> length cs \<and> matched P (reach (u, ic, cs) P k))"
proof (induction "length cs - i" arbitrary: i current nxt rule: less_induct)
  case less
  let ?m = "(u, ic, cs)"
  from add_loop_walked[OF ok less.prems(2), of "[0]" i] P obtain b cur where
    add: "add u P cs current 0 i = Some (b, cur)" and w: "walked ?m P i {0} current (b, cur)"
    by (auto simp: add_def)
  note step = match_loop.simps[of u P ic cs i current nxt]
  show ?case
  proof (cases b)
    case True
    with w have "matched P ((eps ?m P i)\<^sup>* `` {0})" by (simp add: walked_def matched_def)
    then have "matched P (reach ?m P i)" by (rule matched_mono) (simp add: reach_before)
    then show ?thesis using step add True less.prems(1) by auto
  next
    case False
    have cl: "th_ok P cur \<and> threads_at cur = before ?m P i \<union> (eps ?m P i)\<^sup>* `` {0} \<and>
        (\<not> matched P (before ?m P i) \<longrightarrow> \<not> matched P (threads_at cur))"
      by (rule walked_closed[OF _ less.prems(3)]) (use w False before_closed in simp_all)
    then have cur: "th_ok P cur" "threads_at cur = reach ?m P i" and no: "\<not> matched P (reach ?m P i)"
      using less.prems(4) unfolding reach_before by metis+
    show ?thesis
    proof (cases "i < length cs")
      case i: False
      with less.prems(1) have "i = length cs" by simp
      then show ?thesis using step add False no by auto
    next
      case i: True
      note clear = threads_clear_ok[OF less.prems(5,6)]
      have none: "\<not> matched P {}" by (simp add: matched_def)
      note d = dense_steps[OF cur]
      have "\<exists>b' th'. advance_all u P ic cs i (dense cur) (threads_clear nxt) = Some (b', th') \<and>
          (if b' then matched P (before ?m P (i + 1))
           else th_ok P th' \<and> threads_at th' = before ?m P (i + 1) \<and> \<not> matched P (before ?m P (i + 1)))"
        using advance_all_walked[OF ok conjunct1[OF clear] d(1) i, of "{}"] clear none
        unfolding before_Suc[of ?m P i] d(2)[symmetric] Let_def Un_empty_left by (simp only: Image_empty2 simp_thms)
      then obtain b' th' where adv: "advance_all u P ic cs i (dense cur) (threads_clear nxt) = Some (b', th')"
        and B: "if b' then matched P (before ?m P (i + 1))
          else th_ok P th' \<and> threads_at th' = before ?m P (i + 1) \<and> \<not> matched P (before ?m P (i + 1))"
        by (elim exE conjE) (rule that)
      show ?thesis
      proof (cases b')
        case True
        with B have "matched P (before ?m P (i + 1))" by simp
        then have "matched P (reach ?m P (i + 1))" by (rule matched_mono) (simp add: reach_before)
        moreover have "i \<le> i + 1" "i + 1 \<le> length cs" using i by simp_all
        ultimately have "\<exists>k. i \<le> k \<and> k \<le> length cs \<and> matched P (reach ?m P k)" by blast
        then show ?thesis using step add False i adv True by simp
      next
        case b': False
        have "match_loop u P ic cs (i + 1) th' cur = Some (\<exists>k. i + 1 \<le> k \<and> k \<le> length cs \<and> matched P (reach ?m P k))"
          by (rule less.hyps) (use B b' i cur in \<open>simp_all add: th_ok_def\<close>)
        moreover have "(\<exists>k. i + 1 \<le> k \<and> k \<le> length cs \<and> matched P (reach ?m P k)) \<longleftrightarrow>
            (\<exists>k. i \<le> k \<and> k \<le> length cs \<and> matched P (reach ?m P k))"
          using no by (metis Suc_eq_plus1 Suc_leD Suc_leI le_neq_implies_less)
        ultimately show ?thesis using step add False i adv b' by simp
      qed
    qed
  qed
qed

lemma is_match_points_runs:
  assumes "targets_ok (u, pattern_ignore_case pat, cs) (program pat)" "0 < length (program pat)"
  shows "is_match_points u pat cs = Some (\<exists>k \<le> length cs.
    matched (program pat) (reach (u, pattern_ignore_case pat, cs) (program pat) k))"
proof -
  have "th_ok (program pat) (threads_new (length (program pat)))" "threads_at (threads_new (length (program pat))) = {}"
    by (auto simp: th_ok_def threads_new_def threads_at_def)
  moreover have "\<not> matched (program pat) {}" by (simp add: matched_def)
  ultimately show ?thesis
    unfolding is_match_points_def
    by (subst match_loop_walked[OF assms]) (simp_all add: th_ok_def threads_new_def)
qed

section \<open>The compiled program\<close>

lemma no_match_layout: "IMatch \<notin> set (node_layout n s)"
proof (induction n arbitrary: s rule: node_layout.induct)
  case (6 items)
  have "IMatch \<notin> set (concat_layout fs s)" if "\<forall>f \<in> set fs. \<forall>s. IMatch \<notin> set (f s)" for fs s
    using that by (induction fs arbitrary: s) (auto simp: nil_layout_def seq_layout_def)
  then show ?case using 6 by simp
next
  case (7 branches)
  have "IMatch \<notin> set (alts_layout fs s)" if "\<forall>f \<in> set fs. \<forall>s. IMatch \<notin> set (f s)" for fs s
    using that by (induction fs arbitrary: s rule: alts_layout.induct)
      (auto simp: nil_layout_def alt_layout_def Let_def)
  then show ?case using 7 by simp
next
  case (8 n mn mx)
  have "IMatch \<notin> set (reps_layout k (node_layout n) s)" for k s
    using 8 by (induction k arbitrary: s) (auto simp: nil_layout_def seq_layout_def)
  moreover have "IMatch \<notin> set (opts_layout k (node_layout n) s)" for k s
    using 8 by (induction k arbitrary: s) (auto simp: nil_layout_def seq_layout_def opt_layout_def)
  ultimately show ?case using 8 by (auto simp: seq_layout_def star_layout_def split: option.splits)
qed (auto simp: nil_layout_def one_layout_def)

lemma vm_program:
  assumes P: "P = node_layout n 0 @ [IMatch]"
  shows "vm m P = seg m P 0 (length (node_layout n 0))"
proof -
  have "pc < length (node_layout n 0)" if "vm_step m P (pc, i) q" for pc i q
  proof (rule ccontr)
    assume "\<not> pc < length (node_layout n 0)"
    moreover have "pc < length P" using that by (cases rule: vm_stepE) auto
    ultimately have "P ! pc = IMatch" using P by (simp add: nth_append less_Suc_eq)
    moreover have "\<not> consumes m IMatch i" by (cases m) simp
    ultimately show False using that by (cases rule: vm_stepE) auto
  qed
  then show ?thesis by (auto simp: vm_def seg_def)
qed

lemma placed_program: "placed (xs @ [i]) 0 xs"
  by (simp add: placed_def)

lemma targets_program:
  assumes P: "P = node_layout n 0 @ [IMatch]"
  shows "targets_ok m P"
proof -
  have "contained m P 0 (0 + length (node_layout n 0))"
    unfolding P by (rule means_contained[OF means_node placed_program])
  then have "pc' \<le> length (node_layout n 0)" if "vm_step m P (pc, i) (pc', i')" for pc i pc' i'
    using that vm_program[OF P, of m] containedD[of m P 0 "length (node_layout n 0)" pc i pc' i'] by (auto simp: vm_def)
  then show ?thesis unfolding targets_ok_def using P by (fastforce simp: less_Suc_eq_le)
qed

lemma matched_program:
  assumes P: "P = node_layout n 0 @ [IMatch]"
  shows "matched P (reach m P k) \<longleftrightarrow> (\<exists>i \<le> k. (i, k) \<in> rel m n)"
proof -
  let ?l = "length (node_layout n 0)"
  have "node_layout n 0 ! pc \<noteq> IMatch" if "pc < ?l" for pc
    using no_match_layout[of n 0] nth_mem[OF that] by metis
  then have "pc < length P \<and> P ! pc = IMatch \<longleftrightarrow> pc = ?l" for pc
    using P by (cases "pc < ?l") (auto simp: nth_append less_Suc_eq)
  then have "matched P (reach m P k) \<longleftrightarrow> ?l \<in> reach m P k" by (auto simp: matched_def)
  also have "\<dots> \<longleftrightarrow> (\<exists>i \<le> k. ((0, i), (0 + ?l, k)) \<in> (seg m P 0 (0 + ?l))\<^sup>*)"
    by (simp add: reach_def vm_program[OF P])
  also have "\<dots> \<longleftrightarrow> (\<exists>i \<le> k. (i, k) \<in> rel m n)"
    using means_iff[OF means_node[of m n], of P 0] P placed_program by simp
  finally show ?thesis .
qed

lemma rel_forward: "(i, j) \<in> rel m n \<Longrightarrow> i \<le> j"
proof -
  let ?P = "node_layout n 0 @ [IMatch]"
  assume "(i, j) \<in> rel m n"
  then have "((0, i), (0 + length (node_layout n 0), j)) \<in> (seg m ?P 0 (0 + length (node_layout n 0)))\<^sup>*"
    using means_iff[OF means_node[of m n], of ?P 0] placed_program by blast
  then have "((0, i), (length (node_layout n 0), j)) \<in> (vm m ?P)\<^sup>*" by (simp add: vm_program[OF refl])
  then show ?thesis by (rule run_positions)
qed

section \<open>A pattern as a whole\<close>

lemma build_program:
  assumes "build src ic = Some (Inr pat)"
  obtains node p where "parse_node src ic = Some (Inr (node, p))" "pattern_ignore_case pat = ignore_case p"
    "program pat = node_layout node 0 @ [IMatch]" "length (program pat) \<le> MAX_PROGRAM"
proof -
  from assms obtain node p c where pn: "parse_node src ic = Some (Inr (node, p))" and c: "compile_program node = Inr c"
    and pat: "pat = \<lparr>program = prog c, pattern_ignore_case = ignore_case p\<rparr>"
    by (auto simp: build_def split: option.splits sum.splits)
  from compile_program_layout[OF c] have "prog c = node_layout node 0 @ [IMatch]" "length (prog c) \<le> MAX_PROGRAM"
    by (blast, blast intro: le_trans)
  with pn pat show thesis by (intro that) simp_all
qed

lemma is_match_means:
  assumes P: "program pat = node_layout node 0 @ [IMatch]"
  shows "is_match_points u pat cs =
    Some (\<exists>i j. i \<le> j \<and> j \<le> length cs \<and> (i, j) \<in> rel (u, pattern_ignore_case pat, cs) node)"
proof -
  have "is_match_points u pat cs = Some (\<exists>k \<le> length cs.
      matched (program pat) (reach (u, pattern_ignore_case pat, cs) (program pat) k))"
    by (rule is_match_points_runs[OF targets_program[OF P]]) (simp add: P)
  then show ?thesis unfolding matched_program[OF P] by auto
qed

text \<open>C5: A compiled pattern matches a text exactly when the parsed pattern, read as a relation between
  positions of the text (characters, classes and assertions at a position; sequences, alternatives and
  repetitions by their bounds), holds between two of its positions. So neither the copies the compiler
  makes of a repeated body, nor the order in which the parallel matcher follows its threads, nor its
  skipping of threads already seen, ever gains or loses a match.\<close>

theorem pattern_matches_iff:
  assumes "parse_node src ic = Some (Inr (node, p))" "build src ic = Some (Inr pat)"
  shows "is_match u pat txt =
    Some (\<exists>i j. i \<le> j \<and> j \<le> length (utf8_decode txt) \<and> (i, j) \<in> rel (u, ignore_case p, utf8_decode txt) node)"
proof -
  from assms(2) obtain node' p' where b: "parse_node src ic = Some (Inr (node', p'))"
    "pattern_ignore_case pat = ignore_case p'" "program pat = node_layout node' 0 @ [IMatch]"
    by (rule build_program)
  then have "node' = node" "p' = p" using assms(1) by simp_all
  with is_match_means[OF b(3), of u "utf8_decode txt"] b(2) show ?thesis by (simp add: is_match_def)
qed

definition ascii_tables :: unicode where
  "ascii_tables =
     \<lparr>numeric = is_digit, alphanumeric = (\<lambda>c. is_digit c \<or> is_alpha c),
      to_lowercase = (\<lambda>c. [if 65 \<le> c \<and> c \<le> 90 then c + 32 else c]),
      to_uppercase = (\<lambda>c. [if 97 \<le> c \<and> c \<le> 122 then c - 32 else c])\<rparr>"

lemma pattern_matches_iff_witness:
  "\<exists>node p pat. parse_node ''a{2,3}'' False = Some (Inr (node, p)) \<and> build ''a{2,3}'' False = Some (Inr pat) \<and>
    is_match ascii_tables pat ''ba'' =
      Some (\<exists>i j. i \<le> j \<and> j \<le> length (utf8_decode ''ba'') \<and> (i, j) \<in> rel (ascii_tables, ignore_case p, utf8_decode ''ba'') node)"
proof -
  have n: "parse_node ''a{2,3}'' False = Some (Inr (Repeat (Char 97) 2 (Some 3),
      \<lparr>source = ''a{2,3}'', chars = [97, 123, 50, 44, 51, 125], pos = 6, ignore_case = False, depth = 0\<rparr>))"
    by code_simp
  have b: "build ''a{2,3}'' False = Some (Inr \<lparr>program = [IChar 97, IChar 97, Split 3 4, IChar 97, IMatch],
      pattern_ignore_case = False\<rparr>)"
    by code_simp
  show ?thesis by (intro exI conjI) (rule n, rule b, rule pattern_matches_iff[OF n b])
qed

text \<open>C24: A pattern that compiles has at most 20000 instructions, every jump stays inside them, and
  matching it always returns: the matcher terminates and no index it uses is ever out of range.\<close>

theorem pattern_never_panics:
  assumes "build src ic = Some (Inr pat)"
  shows "length (program pat) \<le> MAX_PROGRAM \<and> is_match u pat txt \<noteq> None \<and>
    (\<forall>i \<in> set (program pat). case i of Jmp t \<Rightarrow> t < length (program pat)
       | Split a b \<Rightarrow> a < length (program pat) \<and> b < length (program pat) | _ \<Rightarrow> True)"
proof -
  from assms obtain node p where b: "program pat = node_layout node 0 @ [IMatch]" "length (program pat) \<le> MAX_PROGRAM"
    by (rule build_program)
  let ?P = "program pat"
  have ok: "targets_ok (u, False, []) ?P" by (rule targets_program[OF b(1)])
  have step: "t < length ?P" if "vm_step (u, False, []) ?P (pc, 0) (t, 0)" for pc t
    using ok that unfolding targets_ok_def by blast
  have "case ?P ! pc of Jmp t \<Rightarrow> t < length ?P | Split a b \<Rightarrow> a < length ?P \<and> b < length ?P | _ \<Rightarrow> True"
    if pc: "pc < length ?P" for pc
    using step[OF step_jmp[OF pc]] step[OF step_first[OF pc]] step[OF step_second[OF pc]]
    by (simp split: inst.splits)
  then have "\<forall>i \<in> set ?P. case i of Jmp t \<Rightarrow> t < length ?P | Split a b \<Rightarrow> a < length ?P \<and> b < length ?P | _ \<Rightarrow> True"
    by (metis in_set_conv_nth)
  moreover have "is_match u pat txt \<noteq> None" using is_match_means[OF b(1)] by (simp add: is_match_def)
  ultimately show ?thesis using b(2) by blast
qed

lemma pattern_never_panics_witness:
  "\<exists>pat. build ''(ab|c)*'' True = Some (Inr pat) \<and> length (program pat) \<le> MAX_PROGRAM \<and>
    is_match ascii_tables pat ''xC'' \<noteq> None \<and>
    (\<forall>i \<in> set (program pat). case i of Jmp t \<Rightarrow> t < length (program pat)
       | Split a b \<Rightarrow> a < length (program pat) \<and> b < length (program pat) | _ \<Rightarrow> True)"
proof -
  have b: "build ''(ab|c)*'' True = Some (Inr \<lparr>program = [Split 1 7, Split 2 5, IChar 97, IChar 98, Jmp 6,
      IChar 99, Jmp 0, IMatch], pattern_ignore_case = True\<rparr>)"
    by code_simp
  show ?thesis by (intro exI conjI) (rule b, rule pattern_never_panics[OF b, THEN conjunct1],
    rule pattern_never_panics[OF b, THEN conjunct2, THEN conjunct1],
    rule pattern_never_panics[OF b, THEN conjunct2, THEN conjunct2])
qed

end
