(* ===== verification/Pattern_Total.thy ===== *)
theory Pattern_Total
  imports Pattern_Match
begin

text \<open>
  \<open>src/pattern.rs\<close>: the parser always returns, and every operation of it only moves forward. With \<open>r\<close>
  characters left, \<open>5 r + k\<close> calls are deep enough, with a \<open>k\<close> for each function.
\<close>

definition left :: "parser \<Rightarrow> nat" where
  "left p = length (chars p) - pos p"

lemma left_ahead: "ahead p q \<Longrightarrow> left q \<le> left p"
  by (auto simp: ahead_def left_def)

lemma left_advance: "peek p = Some c \<Longrightarrow> 0 < left p \<and> left (advance 1 p) + 1 = left p"
  by (auto simp: left_def dest: peek_less)

lemma ahead_update [simp]:
  "ahead p (q\<lparr>ignore_case := b\<rparr>) = ahead p q" "ahead p (q\<lparr>depth := d\<rparr>) = ahead p q"
  by (simp_all add: ahead_def)

lemma left_update [simp]: "left (q\<lparr>depth := d\<rparr>) = left q"
  by (simp add: left_def)

text \<open>A call that returned, and where it left the parser.\<close>

fun returned :: "parser \<Rightarrow> (pattern_error + (node \<times> parser)) option \<Rightarrow> bool" where
  "returned p None = False"
| "returned p (Some (Inl e)) = True"
| "returned p (Some (Inr (n, q))) = ahead p q"

lemma returnedE:
  assumes "returned p r"
  obtains e where "r = Some (Inl e)" | n q where "r = Some (Inr (n, q))" "ahead p q"
  using assms by (cases "(p, r)" rule: returned.cases) auto

lemma returned_trans: "ahead p q \<Longrightarrow> returned q r \<Longrightarrow> returned p r"
  by (erule returnedE) (auto intro: ahead_trans)

lemma returned_fail [simp]: "returned p (Some (fail q reason))"
  by (simp add: fail_def)

lemma eat_left: "eat c p = (True, q) \<Longrightarrow> 0 < left p \<and> left q + 1 = left p"
  by (auto simp: eat_def split: if_splits dest: left_advance)

lemma group_head_ahead:
  "group_head p = Inner q \<Longrightarrow> ahead p q" "group_head p = Flag q \<Longrightarrow> ahead p q"
  by (auto simp: group_head_def Let_def skip_name_def eat_def ahead_def split: if_splits prod.splits)

lemma atom_class: "returned (advance 1 p) (Some (parse_class (advance 1 p)))"
  by (cases "parse_class (advance 1 p)") (auto dest: parse_class_ahead)

definition atom_fuel :: "nat \<Rightarrow> bool" where
  "atom_fuel n \<longleftrightarrow> (\<forall>p. 5 * left p + 2 \<le> n \<longrightarrow> (\<forall>c. peek p = Some c \<longrightarrow> returned (advance 1 p) (atom n p)))"

definition concat_fuel :: "nat \<Rightarrow> bool" where
  "concat_fuel n \<longleftrightarrow> (\<forall>p items. 5 * left p + 3 \<le> n \<longrightarrow> returned p (parse_concat n p items))"

definition rest_fuel :: "nat \<Rightarrow> bool" where
  "rest_fuel n \<longleftrightarrow> (\<forall>p bs. 5 * left p + 1 \<le> n \<longrightarrow> returned p (alt_rest n p bs))"

definition alternation_fuel :: "nat \<Rightarrow> bool" where
  "alternation_fuel n \<longleftrightarrow> (\<forall>p. 5 * left p + 4 \<le> n \<longrightarrow> returned p (alternation n p))"

definition group_fuel :: "nat \<Rightarrow> bool" where
  "group_fuel n \<longleftrightarrow> (\<forall>p. 5 * left p + 5 \<le> n \<longrightarrow> returned p (group n p))"

lemma alternation_step:
  assumes "concat_fuel n" "rest_fuel n"
  shows "alternation_fuel (Suc n)"
  unfolding alternation_fuel_def
proof (intro allI impI)
  fix p assume n: "5 * left p + 4 \<le> Suc n"
  then have "returned p (parse_concat n p [])" using assms(1) by (simp add: concat_fuel_def)
  then show "returned p (alternation (Suc n) p)"
  proof (rule returnedE)
    fix b q assume q: "parse_concat n p [] = Some (Inr (b, q))" "ahead p q"
    have "returned q (alt_rest n q [b])" using assms(2) n left_ahead[OF q(2)] by (simp add: rest_fuel_def)
    with q show ?thesis by (simp add: returned_trans)
  qed simp
qed

lemma rest_step:
  assumes "concat_fuel n" "rest_fuel n"
  shows "rest_fuel (Suc n)"
  unfolding rest_fuel_def
proof (intro allI impI)
  fix p bs assume n: "5 * left p + 1 \<le> Suc n"
  obtain bar q where q: "eat 124 p = (bar, q)" by force
  show "returned p (alt_rest (Suc n) p bs)"
  proof (cases bar)
    case True
    have l: "0 < left p" "left q + 1 = left p" using eat_left[of 124 p q] q True by simp_all
    have "returned q (parse_concat n q [])" using assms(1) n l by (simp add: concat_fuel_def)
    then show ?thesis
    proof (rule returnedE)
      fix b r assume r: "parse_concat n q [] = Some (Inr (b, r))" "ahead q r"
      have "returned r (alt_rest n r (bs @ [b]))" using assms(2) n l left_ahead[OF r(2)] by (simp add: rest_fuel_def)
      then have "returned p (alt_rest n r (bs @ [b]))"
        using ahead_trans[OF eat_ahead[OF q] r(2)] by (simp add: returned_trans)
      then show ?thesis using q r True by simp
    qed (use q True in simp)
  qed (use q in simp)
qed

lemma concat_step:
  assumes "atom_fuel n" "concat_fuel n"
  shows "concat_fuel (Suc n)"
  unfolding concat_fuel_def
proof (intro allI impI)
  fix p items assume n: "5 * left p + 3 \<le> Suc n"
  show "returned p (parse_concat (Suc n) p items)"
  proof (cases "peek p")
    case (Some c)
    note l = left_advance[OF Some]
    have "returned (advance 1 p) (atom n p)" using assms(1) n Some by (simp add: atom_fuel_def)
    then show ?thesis
    proof (rule returnedE)
      fix a q assume q: "atom n p = Some (Inr (a, q))" "ahead (advance 1 p) q"
      show ?thesis
      proof (cases "quantified a q")
        case (Inr x)
        obtain i r where x: "x = (i, r)" by force
        have r: "ahead (advance 1 p) r" using quantified_ahead[OF Inr[unfolded x]] q(2) ahead_trans by blast
        have "returned r (parse_concat n r (items @ [i]))" using assms(2) n l left_ahead[OF r] by (simp add: concat_fuel_def)
        then have "returned p (parse_concat n r (items @ [i]))" using ahead_trans[OF ahead_advance r] by (simp add: returned_trans)
        then show ?thesis using Some q Inr x by simp
      qed (use Some q in simp)
    qed (use Some in simp)
  qed simp
qed

lemma atom_step:
  assumes "group_fuel n"
  shows "atom_fuel (Suc n)"
  unfolding atom_fuel_def
proof (intro allI impI)
  fix p c assume n: "5 * left p + 2 \<le> Suc n" and c: "peek p = Some c"
  have g: "returned (advance 1 p) (group n (advance 1 p))"
    using assms n left_advance[OF c] by (simp add: group_fuel_def)
  have e: "returned (advance 1 p) (Some (case escape False (advance 1 p) of
                     Inl e \<Rightarrow> Inl e
                   | Inr (EChar c, q) \<Rightarrow> Inr (Char c, q)
                   | Inr (EPerl kind neg, q) \<Rightarrow>
                       Inr (Class \<lparr>class_items = [Perl kind neg], negated = False\<rparr>, q)
                   | Inr (EAssert a, q) \<Rightarrow> Inr (Assert a, q)))"
    by (auto split: sum.splits prod.splits escaped.splits dest!: escape_ahead)
  show "returned (advance 1 p) (atom (Suc n) p)"
    using g e atom_class[of p] c by (simp add: Let_def)
qed

lemma group_step:
  assumes "alternation_fuel n"
  shows "group_fuel (Suc n)"
  unfolding group_fuel_def
proof (intro allI impI)
  fix p assume n: "5 * left p + 5 \<le> Suc n"
  show "returned p (group (Suc n) p)"
  proof (cases "group_head p")
    case (Inner q)
    let ?q = "q\<lparr>depth := depth q + 1\<rparr>"
    have q: "ahead p ?q" using group_head_ahead(1)[OF Inner] by simp
    have "returned ?q (alternation n ?q)" using assms n left_ahead[OF q] by (simp add: alternation_fuel_def)
    then show ?thesis
    proof (rule returnedE)
      fix i r assume r: "alternation n ?q = Some (Inr (i, r))" "ahead ?q r"
      obtain b s where s: "eat 41 r = (b, s)" by force
      have "ahead p s" using ahead_trans[OF ahead_trans[OF q r(2)] eat_ahead[OF s]] .
      then show ?thesis using Inner r s by simp
    qed (use Inner in simp)
  next
    case (Flag q)
    then show ?thesis using group_head_ahead(2)[OF Flag] by simp
  qed simp
qed

lemma fuel_enough:
  "alternation_fuel n \<and> rest_fuel n \<and> concat_fuel n \<and> atom_fuel n \<and> group_fuel n"
proof (induction n)
  case 0
  then show ?case
    by (simp add: alternation_fuel_def rest_fuel_def concat_fuel_def atom_fuel_def group_fuel_def)
next
  case (Suc n)
  then show ?case
    by (simp add: alternation_step rest_step concat_step atom_step group_step)
qed

lemma parse_node_returns: "parse_node src ic \<noteq> None"
proof -
  let ?cs = "utf8_decode src"
  let ?p = "\<lparr>source = src, chars = ?cs, pos = 0, ignore_case = ic, depth = 0\<rparr>"
  have "returned ?p (alternation (parse_fuel ?cs) ?p)"
    using fuel_enough[of "parse_fuel ?cs"] by (simp add: alternation_fuel_def left_def parse_fuel_def)
  then show ?thesis by (rule returnedE) (simp_all add: parse_node_def Let_def)
qed

text \<open>C23: Compiling a pattern always returns, with a pattern or an error, whatever the input: the
  recursive descent never runs out of the depth that the model gives it, five calls to a character
  and four more.\<close>

theorem build_returns: "build src ic \<noteq> None"
  using parse_node_returns[of src ic] by (auto simp: build_def split: option.splits sum.splits)

end
