(* ===== verification/Float64.thy ===== *)
theory Float64
  imports Prelude
begin

text \<open>
  The comparisons and the selections of \<open>f64\<close> that the model needs beyond the prelude: \<open>max\<close> and
  \<open>min\<close>, which prefer a number to a NaN, equality, and the clamp to the unit interval that stored
  confidences pass. The arithmetic is in \<open>Float_Arith\<close>.
\<close>

definition f64_eq :: "f64 \<Rightarrow> f64 \<Rightarrow> bool" where
  "f64_eq a b \<longleftrightarrow> a = b \<and> a \<noteq> NaN"

definition f64_max :: "f64 \<Rightarrow> f64 \<Rightarrow> f64" where
  "f64_max a b = (if a = NaN then b else if b = NaN then a else if f64_le a b then b else a)"

definition f64_min :: "f64 \<Rightarrow> f64 \<Rightarrow> f64" where
  "f64_min a b = (if a = NaN then b else if b = NaN then a else if f64_le a b then a else b)"

text \<open>\<open>if x.is_finite() { x.clamp(0.0, 1.0) } else { 0.0 }\<close>\<close>

fun f64_unit :: "f64 \<Rightarrow> f64" where
  "f64_unit (Fin q) = Fin (if q < 0 then 0 else if q > 1 then 1 else q)"
| "f64_unit _ = Fin 0"

text \<open>The order with every NaN below: what \<open>max\<close> never loses.\<close>

definition f64_held :: "f64 \<Rightarrow> f64 \<Rightarrow> bool" where
  "f64_held a b \<longleftrightarrow> a = NaN \<or> f64_le a b"

lemma f64_le_refl [simp]: "f64_le a a \<longleftrightarrow> a \<noteq> NaN"
  by (cases a) simp_all

lemma f64_le_trans: "f64_le a b \<Longrightarrow> f64_le b c \<Longrightarrow> f64_le a c"
  by (cases a; cases b; cases c) simp_all

lemma f64_le_total: "a \<noteq> NaN \<Longrightarrow> b \<noteq> NaN \<Longrightarrow> f64_le a b \<or> f64_le b a"
  by (cases a; cases b) auto

lemma f64_le_NaN [simp]: "\<not> f64_le NaN a" "\<not> f64_le a NaN"
  by (cases a; simp)+

lemma f64_held_refl [simp]: "f64_held a a"
  by (simp add: f64_held_def)

lemma f64_held_trans: "f64_held a b \<Longrightarrow> f64_held b c \<Longrightarrow> f64_held a c"
  unfolding f64_held_def using f64_le_trans f64_le_NaN by blast

lemma f64_max_held: "f64_held a (f64_max a b)" "f64_held b (f64_max a b)"
  using f64_le_total[of a b] by (auto simp: f64_held_def f64_max_def)

lemma f64_max_among: "f64_max a b = a \<or> f64_max a b = b"
  by (simp add: f64_max_def)

lemma f64_min_le: "b \<noteq> NaN \<Longrightarrow> f64_le (f64_min a b) b"
  using f64_le_total[of a b] by (auto simp: f64_min_def)

lemma f64_unit_ok: "f64_unit_interval (f64_unit a)"
  by (cases a) simp_all

lemma f64_max_NaN [simp]: "f64_max a b = NaN \<longleftrightarrow> a = NaN \<and> b = NaN"
  by (auto simp: f64_max_def)

end
