(* ===== verification/Scan_Route.thy ===== *)
theory Scan_Route
  imports Rust_Str
begin

text \<open>
  The kinds of lookup of \<open>src/scan_route.rs\<close>, their command words and the aliases the command line
  accepts, and the route key of a handle (\<open>src/canonical.rs\<close>).
\<close>

datatype scan_kind =
  People | Email | Exposure | Username | Phone | Domain | Ip | Netblock | Asn | Network | CryptoAddress | Place

definition ALL_KINDS :: "scan_kind list" where
  "ALL_KINDS =
     [People, Email, Exposure, Username, Phone, Domain, Ip, Netblock, Asn, Network, CryptoAddress, Place]"

fun command :: "scan_kind \<Rightarrow> str" where
  "command People = ''people''"
| "command Email = ''email''"
| "command Exposure = ''exposure''"
| "command Username = ''username''"
| "command Phone = ''phone''"
| "command Domain = ''domain''"
| "command Ip = ''ip''"
| "command Netblock = ''netblock''"
| "command Asn = ''asn''"
| "command Network = ''network''"
| "command CryptoAddress = ''crypto''"
| "command Place = ''geocode''"

definition parse_kind :: "str \<Rightarrow> str + scan_kind" where
  "parse_kind v =
     (if v \<in> {''people'', ''name''} then Inr People
      else if v = ''email'' then Inr Email
      else if v \<in> {''exposure'', ''breach''} then Inr Exposure
      else if v \<in> {''username'', ''handle''} then Inr Username
      else if v = ''phone'' then Inr Phone
      else if v = ''domain'' then Inr Domain
      else if v \<in> {''ip'', ''address''} then Inr Ip
      else if v \<in> {''netblock'', ''cidr'', ''prefix''} then Inr Netblock
      else if v \<in> {''asn'', ''as'', ''bgp''} then Inr Asn
      else if v \<in> {''network'', ''wifi'', ''bssid'', ''ssid'', ''wigle''} then Inr Network
      else if v \<in> {''crypto'', ''bitcoin'', ''btc''} then Inr CryptoAddress
      else if v \<in> {''geocode'', ''place'', ''location''} then Inr Place
      else Inl v)"

lemma parse_command [simp]: "parse_kind (command k) = Inr k"
  by (cases k) (simp_all add: parse_kind_def)

lemma command_inj [simp]: "command k = command l \<longleftrightarrow> k = l"
proof
  assume "command k = command l"
  then have "parse_kind (command k) = parse_kind (command l)" by simp
  then show "k = l" by simp
qed simp

lemma ALL_KINDS_complete: "set ALL_KINDS = UNIV" "distinct ALL_KINDS"
proof -
  have "k \<in> set ALL_KINDS" for k by (cases k) (simp_all add: ALL_KINDS_def)
  then show "set ALL_KINDS = UNIV" by blast
qed (simp add: ALL_KINDS_def)

definition trim_ats :: "str \<Rightarrow> str" where
  "trim_ats s = dropWhile (\<lambda>c. c = CHR ''@'') s"

definition handle_route_key :: "str \<Rightarrow> str" where
  "handle_route_key raw = to_ascii_lowercase (trim_ats (trim raw))"

end
