(* ===== verification/Entities.thy ===== *)
theory Entities
  imports Evidence Float64 Scan_Route Sha256
begin

text \<open>
  The entity of \<open>src/entity.rs\<close>: its kinds, its confidence and evidence, how many sources count for it,
  and the merge of entities that share a uid. Counts of type \<open>u32\<close> are numbers whose saturating
  operations write the bound. The canonical form of a value (\<open>normalise\<close>) and the JSON test are
  arguments, as is the family table of a source label.
\<close>

section \<open>Kinds and sources\<close>

datatype entity_kind =
  Person | Organisation | Email | Phone | Username | Domain | Url | IpAddress | Coordinates | Address
| Credential | Document | CryptoAddress | DeviceId | Ssid | TrackingId | AbnAcn | ApiKey | MacAddress | Asn
| Netblock | Other

fun entity_kind_as_str :: "entity_kind \<Rightarrow> str" where
  "entity_kind_as_str Person = ''person''"
| "entity_kind_as_str Organisation = ''organisation''"
| "entity_kind_as_str entity_kind.Email = ''email''"
| "entity_kind_as_str entity_kind.Phone = ''phone''"
| "entity_kind_as_str entity_kind.Username = ''username''"
| "entity_kind_as_str entity_kind.Domain = ''domain''"
| "entity_kind_as_str Url = ''url''"
| "entity_kind_as_str IpAddress = ''ip_address''"
| "entity_kind_as_str Coordinates = ''coordinates''"
| "entity_kind_as_str Address = ''address''"
| "entity_kind_as_str Credential = ''credential''"
| "entity_kind_as_str Document = ''document''"
| "entity_kind_as_str entity_kind.CryptoAddress = ''crypto_address''"
| "entity_kind_as_str DeviceId = ''device_id''"
| "entity_kind_as_str Ssid = ''ssid''"
| "entity_kind_as_str TrackingId = ''tracking_id''"
| "entity_kind_as_str AbnAcn = ''abn_acn''"
| "entity_kind_as_str ApiKey = ''api_key''"
| "entity_kind_as_str MacAddress = ''mac_address''"
| "entity_kind_as_str entity_kind.Asn = ''asn''"
| "entity_kind_as_str entity_kind.Netblock = ''netblock''"
| "entity_kind_as_str Other = ''other''"

definition RECALL_SOURCE :: str where "RECALL_SOURCE = ''recall''"
definition CROSS_SCAN_SOURCE :: str where "CROSS_SCAN_SOURCE = ''cross_scan_history''"
definition CONSENSUS_SOURCE :: str where "CONSENSUS_SOURCE = ''breach_consensus''"
definition MULTIPATH_CORROBORATION_SOURCE :: str where
  "MULTIPATH_CORROBORATION_SOURCE = ''multipath_corroboration''"
definition CROSS_SCAN_CORROBORATION_SOURCE :: str where
  "CROSS_SCAN_CORROBORATION_SOURCE = ''cross_scan_corroboration''"
definition GEO_CORROBORATION_SOURCE :: str where "GEO_CORROBORATION_SOURCE = ''geo_corroboration''"

definition ENRICHMENT_ONLY_SOURCES :: "str list" where
  "ENRICHMENT_ONLY_SOURCES =
     [''breach_timezone'', ''discord_snowflake'', ''email_canonical'', ''email_header_geo'', ''email_locale'',
      ''email_parse'', ''geo_domain_classifier'', ''geo_normalize'', ''name_intel'', ''oui'', ''payid'',
      ''phone_ae'', ''phone_au'', ''phone_geo'', ''phone_intl'', ''phone_nanp'', ''registry_policy'', ''seed'',
      ''structured_id'', ''url_extract'', ''username_variants'']"

definition LOCAL_INPUT_SOURCES :: "str list" where
  "LOCAL_INPUT_SOURCES = [''apk_intel'', ''apk_set'', ''docmeta'', ''exif'']"

definition is_enrichment_source :: "str \<Rightarrow> bool" where
  "is_enrichment_source s \<longleftrightarrow> List.member ENRICHMENT_ONLY_SOURCES s"

definition is_local_input_source :: "str \<Rightarrow> bool" where
  "is_local_input_source s \<longleftrightarrow> List.member LOCAL_INPUT_SOURCES s"

definition is_promotion_source :: "str \<Rightarrow> bool" where
  "is_promotion_source s \<longleftrightarrow>
     s = MULTIPATH_CORROBORATION_SOURCE \<or> s = CROSS_SCAN_CORROBORATION_SOURCE \<or> s = GEO_CORROBORATION_SOURCE"

definition is_non_corroborating_source :: "str \<Rightarrow> bool" where
  "is_non_corroborating_source s \<longleftrightarrow>
     is_enrichment_source s \<or> is_local_input_source s \<or>
     s = RECALL_SOURCE \<or> s = CROSS_SCAN_SOURCE \<or> s = CONSENSUS_SOURCE"

definition DERIVED :: str where "DERIVED = ''derived''"
definition CANDIDATE :: str where "CANDIDATE = ''candidate''"
definition NAME_SEARCH_LEAD :: str where "NAME_SEARCH_LEAD = ''name-search-lead''"
definition CANDIDATE_CONF :: f64 where "CANDIDATE_CONF = Fin (1 / 4)"

section \<open>Entities\<close>

definition u32_max :: nat where
  "u32_max = 2 ^ 32 - 1"

record entity =
  uid :: str
  e_kind :: entity_kind
  e_value :: str
  raw_value :: str
  confidence :: f64
  corroboration :: nat
  e_observed_at :: u64
  e_evidence :: "evidence list"
  tags :: "str list"
  e_scan_id :: str
  generation :: nat
  spellings :: "(str \<times> f64) list"

definition derive_uid :: "(u8 list \<Rightarrow> u8 list) \<Rightarrow> bool \<Rightarrow> entity_kind \<Rightarrow> str \<Rightarrow> str" where
  "derive_uid ring_digest hw kind normalised_value =
     hex32 (sha256 ring_digest hw (bytes_of_str (entity_kind_as_str kind @ '':'' @ normalised_value)))"

text \<open>\<open>normalise\<close>, the digest, the CPU test and the clock are arguments.\<close>

definition entity_new ::
  "(entity_kind \<Rightarrow> str \<Rightarrow> str) \<Rightarrow> (u8 list \<Rightarrow> u8 list) \<Rightarrow> bool \<Rightarrow> u64 \<Rightarrow> entity_kind \<Rightarrow> str \<Rightarrow> f64 \<Rightarrow> str \<Rightarrow> entity"
where
  "entity_new normalise ring_digest hw now kind raw conf scan =
     (let v = normalise kind raw in
      \<lparr>uid = derive_uid ring_digest hw kind v, e_kind = kind, e_value = v, raw_value = raw,
       confidence = f64_unit conf, corroboration = 1, e_observed_at = now, e_evidence = [], tags = [],
       e_scan_id = scan, generation = 0, spellings = []\<rparr>)"

definition has_tag :: "str \<Rightarrow> entity \<Rightarrow> bool" where
  "has_tag t e \<longleftrightarrow> List.member (tags e) t"

definition tag :: "str \<Rightarrow> entity \<Rightarrow> entity" where
  "tag t e = (if has_tag t e then e else e\<lparr>tags := tags e @ [t]\<rparr>)"

definition add_evidence :: "(nat list \<Rightarrow> nat list) \<Rightarrow> evidence \<Rightarrow> entity \<Rightarrow> entity" where
  "add_evidence lower ev0 e =
     (let p0 = provenance ev0;
          p1 = (if scan_id p0 = None \<and> e_scan_id e \<noteq> [] then p0\<lparr>scan_id := Some (e_scan_id e)\<rparr> else p0);
          p2 = (if source_family p1 = []
                then p1\<lparr>source_family := canonical_provenance_family lower (source p1)\<rparr> else p1)
      in e\<lparr>e_evidence := e_evidence e @ [ev0\<lparr>provenance := p2\<rparr>]\<rparr>)"

definition push_entity ::
  "(nat list \<Rightarrow> nat list) \<Rightarrow> evidence \<Rightarrow> str list \<Rightarrow> entity \<Rightarrow> entity list \<Rightarrow> entity list"
where
  "push_entity lower ev ts new es = es @ [add_evidence lower ev (fold tag ts new)]"

definition demote_to_candidate :: "entity \<Rightarrow> entity" where
  "demote_to_candidate e = tag CANDIDATE (e\<lparr>confidence := f64_min (confidence e) CANDIDATE_CONF\<rparr>)"

definition evidence_sources :: "entity \<Rightarrow> str list" where
  "evidence_sources e = bset_extend [] (map (\<lambda>v. source (provenance v)) (e_evidence e))"

definition key_of :: "(nat list \<Rightarrow> nat list) \<Rightarrow> evidence \<Rightarrow> str" where
  "key_of lower v = corroboration_key lower (provenance v)"

definition is_offline_reading :: "(nat list \<Rightarrow> nat list) \<Rightarrow> entity \<Rightarrow> bool" where
  "is_offline_reading lower e \<longleftrightarrow>
     e_evidence e \<noteq> [] \<and>
     list_all (\<lambda>v. \<not> is_operator_seed v \<and> is_enrichment_source (key_of lower v)) (e_evidence e)"

definition corroborating_sources :: "(nat list \<Rightarrow> nat list) \<Rightarrow> entity \<Rightarrow> str list" where
  "corroborating_sources lower e =
     bset_extend [] (filter (\<lambda>s. \<not> is_non_corroborating_source s) (map (key_of lower) (e_evidence e)))"

text \<open>\<open>source_count\<close>: the real and the promoting sources of one pass over the evidence.\<close>

fun count_sources ::
  "(nat list \<Rightarrow> nat list) \<Rightarrow> evidence list \<Rightarrow> str list \<times> str list \<Rightarrow> str list \<times> str list"
where
  "count_sources lower [] acc = acc"
| "count_sources lower (v # vs) (real_keys, promo) =
     count_sources lower vs
       (let key = key_of lower v in
        if is_non_corroborating_source key then (real_keys, promo)
        else if is_promotion_source key then (real_keys, bset_insert key promo)
        else (bset_insert key real_keys, promo))"

definition source_count :: "(nat list \<Rightarrow> nat list) \<Rightarrow> entity \<Rightarrow> nat" where
  "source_count lower e =
     (let derived = has_tag DERIVED e;
          (real_keys, promo) = count_sources lower (e_evidence e) ([], []);
          grounded = (length real_keys \<ge> (if derived then 2 else 1));
          distinct_keys = length real_keys + (if grounded then length promo else 0)
      in if distinct_keys > 0 then min distinct_keys u32_max
         else if e_evidence e \<noteq> [] \<and> corroborating_sources lower e = [] then 1
         else max (corroboration e) 1)"

section \<open>Spellings\<close>

definition is_observed :: "entity \<Rightarrow> bool" where
  "is_observed e \<longleftrightarrow>
     e_evidence e = [] \<or> list_ex (\<lambda>v. \<not> is_inferred v \<and> \<not> is_operator_seed v) (e_evidence e)"

definition spelling_of :: "str \<Rightarrow> str" where
  "spelling_of raw = trim_ats (trim raw)"

definition observed_spellings :: "entity \<Rightarrow> (str \<times> f64) list" where
  "observed_spellings e =
     (if spellings e \<noteq> [] then spellings e
      else if e_kind e = entity_kind.Username \<and> is_observed e
      then bmap_insert (spelling_of (raw_value e)) (confidence e) [] else [])"

definition add_spelling :: "str \<times> f64 \<Rightarrow> (str \<times> f64) list \<Rightarrow> (str \<times> f64) list" where
  "add_spelling = (\<lambda>(spelling, conf) m.
     (case List.find (\<lambda>(kept, _). handle_route_key kept = handle_route_key spelling) m of
        Some (kept, held) \<Rightarrow> bmap_insert kept (f64_max held conf) m
      | None \<Rightarrow> bmap_insert spelling conf m))"

definition same_spellings :: "(str \<times> f64) list \<Rightarrow> (str \<times> f64) list \<Rightarrow> bool" where
  "same_spellings m n \<longleftrightarrow> list_all2 (\<lambda>(k, a) (l, b). k = l \<and> f64_eq a b) m n"

section \<open>Merging\<close>

fun keep_evidence :: "(str \<Rightarrow> bool) \<Rightarrow> evidence \<Rightarrow> evidence list \<Rightarrow> evidence list" where
  "keep_evidence is_json v [] = [v]"
| "keep_evidence is_json v (c # cs) =
     (if same_evidence_identity is_json c v then merge_evidence c v # cs else c # keep_evidence is_json v cs)"

definition absorb :: "(str \<Rightarrow> bool) \<Rightarrow> entity \<Rightarrow> entity \<Rightarrow> entity" where
  "absorb is_json other self =
     (if uid self \<noteq> uid other then self
      else
        (let joined = (if e_kind self = entity_kind.Username
                       then Some (fold add_spelling (observed_spellings other) (observed_spellings self)) else None);
             e1 = self\<lparr>confidence := f64_max (confidence self) (confidence other),
                       corroboration := min (corroboration self + corroboration other) u32_max,
                       e_observed_at := min (e_observed_at self) (e_observed_at other),
                       generation := min (generation self) (generation other)\<rparr>;
             e2 = fold tag (tags other) e1;
             e3 = e2\<lparr>e_evidence := fold (keep_evidence is_json) (e_evidence other) (e_evidence e2)\<rparr>
         in case joined of
              None \<Rightarrow> e3
            | Some m \<Rightarrow>
                (let e4 = e3\<lparr>spellings := []\<rparr> in
                 if same_spellings m (observed_spellings e4) then e4 else e4\<lparr>spellings := m\<rparr>)))"

fun merge_step :: "(str \<Rightarrow> bool) \<Rightarrow> entity \<Rightarrow> (str \<times> nat) list \<times> entity list \<Rightarrow> (str \<times> nat) list \<times> entity list" where
  "merge_step is_json e (positions, merged) =
     (case map_of positions (uid e) of
        Some i \<Rightarrow> (positions, merged[i := absorb is_json e (merged ! i)])
      | None \<Rightarrow> ((uid e, length merged) # positions, merged @ [e]))"

definition merge_by_uid :: "(str \<Rightarrow> bool) \<Rightarrow> entity list \<Rightarrow> entity list" where
  "merge_by_uid is_json es = snd (fold (merge_step is_json) es ([], []))"

end
