(* ===== verification/Entity_Merge.thy ===== *)
theory Entity_Merge
  imports Entities
begin

text \<open>
  What the merge of entities keeps: every tag, every evidence record with its values and observations,
  the highest confidence and every observed spelling of a handle.
\<close>

section \<open>Evidence\<close>

definition record_held :: "evidence \<Rightarrow> evidence \<Rightarrow> bool" where
  "record_held v w \<longleftrightarrow>
     source (provenance v) = source (provenance w) \<and> summary v = summary w \<and>
     attrs_held (attributes v) (attributes w) \<and> observations v \<subseteq> observations w"

definition records_held :: "evidence list \<Rightarrow> evidence list \<Rightarrow> bool" where
  "records_held vs ws \<longleftrightarrow> (\<forall>v \<in> set vs. \<exists>w \<in> set ws. record_held v w)"

lemma record_held_refl [simp]: "record_held v v"
  by (simp add: record_held_def attrs_held_refl)

lemma record_held_trans: "record_held u v \<Longrightarrow> record_held v w \<Longrightarrow> record_held u w"
  unfolding record_held_def using attrs_held_trans by (metis order_trans)

lemma records_held_refl [simp]: "records_held vs vs"
  unfolding records_held_def using record_held_refl by blast

lemma records_held_trans: "records_held us vs \<Longrightarrow> records_held vs ws \<Longrightarrow> records_held us ws"
  unfolding records_held_def by (meson record_held_trans)

lemma keep_observation_source [simp]:
  "provenance (keep_observation p e) = provenance e" "summary (keep_observation p e) = summary e"
  by (simp_all add: keep_observation_def)

lemma keep_observations_source:
  "provenance (fold keep_observation ps e) = provenance e" "summary (fold keep_observation ps e) = summary e"
  by (induction ps arbitrary: e) simp_all

lemma merge_evidence_source:
  "provenance (merge_evidence e i) = provenance e" "summary (merge_evidence e i) = summary e"
  by (simp_all add: merge_evidence_def keep_observations_def keep_observations_source del: fold_simps)

lemma merge_evidence_held:
  assumes "same_evidence_identity is_json e i"
  shows "record_held e (merge_evidence e i)" "record_held i (merge_evidence e i)"
proof -
  have same: "source (provenance e) = source (provenance i)" "summary e = summary i"
    using assms by (auto simp: same_evidence_identity_def split: if_splits)
  show "record_held e (merge_evidence e i)"
    by (simp add: record_held_def merge_evidence_source merge_evidence_fields merge_attributes_held)
  have "attrs_held (attributes i) (attributes (merge_evidence e i))"
    using merge_attributes_new[of "attributes i" "attributes e"]
    unfolding attrs_held_def merge_evidence_fields by (auto dest: map_of_SomeD)
  then show "record_held i (merge_evidence e i)"
    using same by (simp add: record_held_def merge_evidence_source merge_evidence_fields)
qed

lemma keep_evidence_held:
  "records_held cs (keep_evidence is_json v cs) \<and> (\<exists>w \<in> set (keep_evidence is_json v cs). record_held v w)"
proof (induction is_json v cs rule: keep_evidence.induct)
  case (2 is_json v c cs)
  show ?case
  proof (cases "same_evidence_identity is_json c v")
    case True
    then have "keep_evidence is_json v (c # cs) = merge_evidence c v # cs" by simp
    then show ?thesis using merge_evidence_held[OF True] unfolding records_held_def
      by (metis list.set_intros set_ConsD record_held_refl)
  next
    case False
    with 2 show ?thesis by (auto simp: records_held_def)
  qed
qed (auto simp: records_held_def)

lemma fold_keep_evidence_held:
  "records_held cs (fold (keep_evidence is_json) vs cs) \<and> records_held vs (fold (keep_evidence is_json) vs cs)"
proof (induction vs arbitrary: cs)
  case (Cons v vs)
  let ?cs = "keep_evidence is_json v cs"
  from keep_evidence_held[of cs is_json v] obtain w where w: "w \<in> set ?cs" "record_held v w"
    and cs: "records_held cs ?cs" by blast
  from Cons[of ?cs] have IH: "records_held ?cs (fold (keep_evidence is_json) vs ?cs)"
    "records_held vs (fold (keep_evidence is_json) vs ?cs)" by simp_all
  from IH(1) w(1) obtain w' where "w' \<in> set (fold (keep_evidence is_json) vs ?cs)" "record_held w w'"
    unfolding records_held_def by blast
  with w(2) have "\<exists>w \<in> set (fold (keep_evidence is_json) vs ?cs). record_held v w" using record_held_trans by blast
  with IH records_held_trans[OF cs] show ?case by (simp add: records_held_def)
qed (simp add: records_held_def)

section \<open>Spellings\<close>

definition spellings_held :: "(str \<times> f64) list \<Rightarrow> (str \<times> f64) list \<Rightarrow> bool" where
  "spellings_held m n \<longleftrightarrow> (\<forall>x \<in> set m. \<exists>y \<in> set n.
     handle_route_key (fst y) = handle_route_key (fst x) \<and> f64_held (snd x) (snd y))"

lemma spellings_held_refl [simp]: "spellings_held m m"
  unfolding spellings_held_def using f64_held_refl by blast

lemma spellings_held_trans:
  assumes "spellings_held l m" "spellings_held m n"
  shows "spellings_held l n"
  unfolding spellings_held_def
proof
  fix x assume "x \<in> set l"
  then obtain y where y: "y \<in> set m" "handle_route_key (fst y) = handle_route_key (fst x)" "f64_held (snd x) (snd y)"
    using assms(1) by (auto simp: spellings_held_def)
  then obtain z where z: "z \<in> set n" "handle_route_key (fst z) = handle_route_key (fst y)" "f64_held (snd y) (snd z)"
    using assms(2) by (auto simp: spellings_held_def)
  show "\<exists>z \<in> set n. handle_route_key (fst z) = handle_route_key (fst x) \<and> f64_held (snd x) (snd z)"
    using y(2) z(1,2) f64_held_trans[OF y(3) z(3)] by auto
qed

lemma set_bmap_insert: "bmap_ok m \<Longrightarrow> set (bmap_insert k v m) = insert (k, v) {e \<in> set m. fst e \<noteq> k}"
proof (induction m)
  case (Cons e m)
  then show ?case by (cases e) (force simp: bmap_ok_def bset_ok_def)
qed simp

lemma add_spelling_held:
  assumes m: "bmap_ok m"
  shows "bmap_ok (add_spelling e m) \<and> spellings_held m (add_spelling e m) \<and> spellings_held [e] (add_spelling e m)"
proof -
  obtain s c where e: "e = (s, c)" by force
  let ?P = "\<lambda>(kept, _). handle_route_key kept = handle_route_key s"
  note put = set_bmap_insert[OF m]
  show ?thesis
  proof (cases "List.find ?P m")
    case None
    then have no: "\<forall>x \<in> set m. handle_route_key (fst x) \<noteq> handle_route_key s"
      by (auto simp: find_None_iff)
    have add: "add_spelling e m = bmap_insert s c m" using None e by (simp add: add_spelling_def)
    have "set m \<subseteq> set (bmap_insert s c m)" unfolding put using no by auto
    then have "spellings_held m (bmap_insert s c m)"
      unfolding spellings_held_def using f64_held_refl by blast
    moreover have "spellings_held [e] (bmap_insert s c m)" by (simp add: spellings_held_def put e)
    ultimately show ?thesis using m unfolding add by (simp add: bmap_ok_insert)
  next
    case (Some x)
    then obtain i where "?P (m ! i)" "i < length m" "x = m ! i"
      unfolding find_Some_iff by (elim exE conjE) (rule that)
    then have x: "x \<in> set m" "handle_route_key (fst x) = handle_route_key s" by (auto simp: case_prod_unfold)
    have only: "y = x" if "y \<in> set m" "fst y = fst x" for y
      using that x(1) m by (metis bmap_ok_def bset_ok_def eq_key_imp_eq_value prod.collapse)
    have add: "add_spelling e m = bmap_insert (fst x) (f64_max (snd x) c) m"
      using Some e by (simp add: add_spelling_def split: prod.split)
    note in_add = put[of "fst x" "f64_max (snd x) c", folded add]
    have "\<exists>y \<in> set (add_spelling e m). handle_route_key (fst y) = handle_route_key (fst z) \<and> f64_held (snd z) (snd y)"
      if z: "z \<in> set m" for z
    proof (cases "fst z = fst x")
      case True
      with only z have "z = x" by simp
      then show ?thesis using f64_max_held(1)[of "snd x" c] unfolding in_add by simp
    next
      case False
      then have "z \<in> set (add_spelling e m)" using z unfolding in_add by simp
      then show ?thesis using f64_held_refl by blast
    qed
    then have "spellings_held m (add_spelling e m)" by (simp add: spellings_held_def)
    moreover have "spellings_held [e] (add_spelling e m)"
      using x(2) f64_max_held(2)[of c "snd x"] unfolding spellings_held_def in_add by (simp add: e)
    ultimately show ?thesis using m by (simp add: add bmap_ok_insert)
  qed
qed

lemma fold_add_spelling_held:
  "bmap_ok m \<Longrightarrow> bmap_ok (fold add_spelling es m) \<and> spellings_held m (fold add_spelling es m) \<and>
    spellings_held es (fold add_spelling es m)"
proof (induction es arbitrary: m)
  case (Cons e es)
  from add_spelling_held[OF Cons.prems, of e] have a: "bmap_ok (add_spelling e m)"
    "spellings_held m (add_spelling e m)" "spellings_held [e] (add_spelling e m)" by simp_all
  from Cons.IH[OF a(1)] have b: "bmap_ok (fold add_spelling es (add_spelling e m))"
    "spellings_held (add_spelling e m) (fold add_spelling es (add_spelling e m))"
    "spellings_held es (fold add_spelling es (add_spelling e m))" by simp_all
  have "spellings_held [e] (fold add_spelling es (add_spelling e m))"
    "spellings_held m (fold add_spelling es (add_spelling e m))"
    using spellings_held_trans[OF a(3) b(2)] spellings_held_trans[OF a(2) b(2)] by simp_all
  with b show ?case by (simp add: spellings_held_def)
qed (simp add: spellings_held_def)

lemma same_spellings_held: "same_spellings m n \<Longrightarrow> spellings_held m n"
proof (unfold same_spellings_def, induction rule: list_all2_induct)
  case (Cons x xs y ys)
  obtain k a l b where "x = (k, a)" "y = (l, b)" by force
  then show ?case using Cons by (auto simp: spellings_held_def f64_eq_def)
qed (simp add: spellings_held_def)

lemma bmap_ok_observed: "bmap_ok (spellings e) \<Longrightarrow> bmap_ok (observed_spellings e)"
  by (simp add: observed_spellings_def bmap_ok_def bset_ok_def)

section \<open>One entity absorbs another\<close>

definition entity_held :: "entity \<Rightarrow> entity \<Rightarrow> bool" where
  "entity_held e m \<longleftrightarrow>
     uid e = uid m \<and> f64_held (confidence e) (confidence m) \<and> set (tags e) \<subseteq> set (tags m) \<and>
     records_held (e_evidence e) (e_evidence m) \<and> generation m \<le> generation e \<and> e_observed_at m \<le> e_observed_at e \<and>
     (e_kind m = entity_kind.Username \<longrightarrow> spellings_held (observed_spellings e) (observed_spellings m))"

lemma entity_held_refl [simp]: "entity_held e e"
  by (simp add: entity_held_def)

lemma tag_fields [simp]:
  "uid (tag t e) = uid e" "e_kind (tag t e) = e_kind e" "confidence (tag t e) = confidence e"
  "corroboration (tag t e) = corroboration e" "e_observed_at (tag t e) = e_observed_at e"
  "e_evidence (tag t e) = e_evidence e" "generation (tag t e) = generation e" "spellings (tag t e) = spellings e"
  "e_value (tag t e) = e_value e" "raw_value (tag t e) = raw_value e" "e_scan_id (tag t e) = e_scan_id e"
  "set (tags (tag t e)) = insert t (set (tags e))"
  by (auto simp: tag_def has_tag_def)

lemma fold_tag_fields [simp]:
  "uid (fold tag ts e) = uid e" "e_kind (fold tag ts e) = e_kind e" "confidence (fold tag ts e) = confidence e"
  "corroboration (fold tag ts e) = corroboration e" "e_observed_at (fold tag ts e) = e_observed_at e"
  "e_evidence (fold tag ts e) = e_evidence e" "generation (fold tag ts e) = generation e"
  "spellings (fold tag ts e) = spellings e" "set (tags (fold tag ts e)) = set ts \<union> set (tags e)"
  by (induction ts arbitrary: e) auto

lemma absorb_other [simp]: "uid self \<noteq> uid other \<Longrightarrow> absorb is_json other self = self"
  by (simp add: absorb_def)

lemma absorb_fields:
  assumes "uid self = uid other"
  shows "uid (absorb is_json other self) = uid self" "e_kind (absorb is_json other self) = e_kind self"
    "confidence (absorb is_json other self) = f64_max (confidence self) (confidence other)"
    "corroboration (absorb is_json other self) = min (corroboration self + corroboration other) u32_max"
    "e_observed_at (absorb is_json other self) = min (e_observed_at self) (e_observed_at other)"
    "generation (absorb is_json other self) = min (generation self) (generation other)"
    "set (tags (absorb is_json other self)) = set (tags other) \<union> set (tags self)"
    "e_evidence (absorb is_json other self) = fold (keep_evidence is_json) (e_evidence other) (e_evidence self)"
  using assms by (simp_all add: absorb_def Let_def)

lemma absorb_spellings:
  assumes u: "uid self = uid other" and k: "e_kind self = entity_kind.Username"
    and ok: "bmap_ok (spellings self)"
  shows "bmap_ok (spellings (absorb is_json other self)) \<and>
    spellings_held (observed_spellings self) (observed_spellings (absorb is_json other self)) \<and>
    spellings_held (observed_spellings other) (observed_spellings (absorb is_json other self))"
proof -
  let ?m = "fold add_spelling (observed_spellings other) (observed_spellings self)"
  let ?a = "absorb is_json other self"
  note m = fold_add_spelling_held[OF bmap_ok_observed[OF ok], of "observed_spellings other"]
  have "\<exists>e4. spellings e4 = [] \<and> ?a = (if same_spellings ?m (observed_spellings e4) then e4 else e4\<lparr>spellings := ?m\<rparr>)"
    unfolding absorb_def Let_def using u k
    by (simp only: if_False if_True refl not_True_eq_False not_False_eq_True option.case)
      (rule exI, rule conjI[rotated], rule refl, simp)
  then obtain e4 where e4: "spellings e4 = []"
    and a: "?a = (if same_spellings ?m (observed_spellings e4) then e4 else e4\<lparr>spellings := ?m\<rparr>)" by blast
  have "bmap_ok (spellings ?a) \<and> spellings_held ?m (observed_spellings ?a)"
  proof (cases "same_spellings ?m (observed_spellings e4)")
    case True
    then show ?thesis using a e4 same_spellings_held by simp
  next
    case False
    then have "?a = e4\<lparr>spellings := ?m\<rparr>" using a by simp
    moreover have "spellings_held ?m (observed_spellings (e4\<lparr>spellings := ?m\<rparr>))"
      by (cases "?m = []") (simp add: spellings_held_def, simp add: observed_spellings_def)
    ultimately show ?thesis using m by simp
  qed
  with m show ?thesis using spellings_held_trans by blast
qed

lemma absorb_other_kind:
  "e_kind self \<noteq> entity_kind.Username \<Longrightarrow> spellings (absorb is_json other self) = spellings self"
  by (simp add: absorb_def Let_def)

lemma absorb_held:
  assumes u: "uid self = uid other" and ok: "bmap_ok (spellings self)"
  shows "entity_held self (absorb is_json other self)" "entity_held other (absorb is_json other self)"
proof -
  note f = absorb_fields[OF u, of is_json]
  note e = fold_keep_evidence_held[of "e_evidence self" is_json "e_evidence other"]
  note c = f64_max_held[of "confidence self" "confidence other"] f64_max_held[of "confidence other" "confidence self"]
  show "entity_held self (absorb is_json other self)"
    unfolding entity_held_def f using e c absorb_spellings[OF u _ ok, of is_json] by simp
  show "entity_held other (absorb is_json other self)"
    unfolding entity_held_def f using e c absorb_spellings[OF u _ ok, of is_json] u by simp
qed

lemma absorb_spellings_ok: "bmap_ok (spellings self) \<Longrightarrow> bmap_ok (spellings (absorb is_json other self))"
  by (cases "uid self = uid other"; cases "e_kind self = entity_kind.Username")
    (simp_all add: absorb_spellings absorb_other_kind)

lemma entity_held_trans:
  "entity_held a b \<Longrightarrow> entity_held b c \<Longrightarrow> e_kind b = e_kind c \<Longrightarrow> entity_held a c"
  unfolding entity_held_def
  by (elim conjE, intro conjI impI)
    (simp, erule (1) f64_held_trans, erule (1) subset_trans, erule (1) records_held_trans, erule (1) order_trans[rotated],
      erule (1) order_trans[rotated], rule spellings_held_trans, simp, simp)


section \<open>All entities of one uid\<close>

text \<open>The positions only point at the entity of a uid, so a step absorbs into that entity or appends.\<close>

fun merge_into :: "(str \<Rightarrow> bool) \<Rightarrow> entity \<Rightarrow> entity list \<Rightarrow> entity list" where
  "merge_into is_json e [] = [e]"
| "merge_into is_json e (m # ms) =
     (if uid m = uid e then absorb is_json e m # ms else m # merge_into is_json e ms)"

definition positions_ok :: "(str \<times> nat) list \<Rightarrow> entity list \<Rightarrow> bool" where
  "positions_ok ps ms \<longleftrightarrow> distinct (map uid ms) \<and>
     (\<forall>u i. map_of ps u = Some i \<longleftrightarrow> i < length ms \<and> uid (ms ! i) = u)"

lemma uid_absorb [simp]: "uid (absorb is_json e m) = uid m"
  by (cases "uid m = uid e") (simp_all add: absorb_fields)

lemma merge_into_at:
  "i < length ms \<Longrightarrow> uid (ms ! i) = uid e \<Longrightarrow> distinct (map uid ms) \<Longrightarrow>
    merge_into is_json e ms = ms[i := absorb is_json e (ms ! i)]"
proof (induction ms arbitrary: i)
  case (Cons m ms)
  show ?case
  proof (cases i)
    case (Suc j)
    then have "uid m \<noteq> uid e" using Cons.prems by (metis distinct.simps(2) length_Cons list.simps(9) nth_Cons_Suc nth_map nth_mem length_map Suc_less_eq)
    with Suc Cons show ?thesis by simp
  qed (use Cons.prems in simp)
qed simp

lemma merge_into_new: "uid e \<notin> uid ` set ms \<Longrightarrow> merge_into is_json e ms = ms @ [e]"
  by (induction ms) auto

lemma uids_merge_into:
  "map uid (merge_into is_json e ms) = (if uid e \<in> uid ` set ms then map uid ms else map uid ms @ [uid e])"
  by (induction ms) auto

lemma merge_step_into:
  assumes "positions_ok ps ms"
  shows "snd (merge_step is_json e (ps, ms)) = merge_into is_json e ms \<and>
    positions_ok (fst (merge_step is_json e (ps, ms))) (merge_into is_json e ms)"
proof (cases "map_of ps (uid e)")
  case (Some i)
  then have i: "i < length ms" "uid (ms ! i) = uid e" "distinct (map uid ms)"
    using assms by (auto simp: positions_ok_def)
  let ?ms = "ms[i := absorb is_json e (ms ! i)]"
  have step: "merge_step is_json e (ps, ms) = (ps, ?ms)" using Some by simp
  have same: "map uid ?ms = map uid ms" using i by (simp add: map_update list_update_same_conv)
  then have "uid (?ms ! j) = uid (ms ! j)" if "j < length ms" for j
    using that by (metis length_list_update nth_map)
  then have "positions_ok ps ?ms" using assms by (simp add: positions_ok_def same cong: conj_cong)
  then show ?thesis unfolding step merge_into_at[OF i, of is_json] by simp
next
  case None
  then have new: "uid e \<notin> uid ` set ms"
    using assms unfolding positions_ok_def by (metis imageE in_set_conv_nth option.distinct(1))
  have "map_of ((uid e, length ms) # ps) u = Some i \<longleftrightarrow> i < length (ms @ [e]) \<and> uid ((ms @ [e]) ! i) = u" for u i
  proof (cases "i < length ms")
    case True
    then have "uid (ms ! i) \<noteq> uid e" using new by (metis imageI nth_mem)
    then show ?thesis using True None assms by (auto simp: positions_ok_def nth_append)
  next
    case False
    then have "map_of ps u \<noteq> Some i" using assms by (simp add: positions_ok_def)
    then show ?thesis using False by (auto simp: nth_append less_Suc_eq)
  qed
  moreover have "distinct (map uid (ms @ [e]))" using new assms by (simp add: positions_ok_def)
  ultimately have "positions_ok ((uid e, length ms) # ps) (ms @ [e])" unfolding positions_ok_def by blast
  then show ?thesis using None new by (simp add: merge_into_new)
qed

lemma merge_by_uid_fold: "merge_by_uid is_json es = fold (merge_into is_json) es []"
proof -
  have "snd (fold (merge_step is_json) es (ps, ms)) = fold (merge_into is_json) es ms" if "positions_ok ps ms" for ps ms
    using that
  proof (induction es arbitrary: ps ms)
    case (Cons e es)
    obtain ps' ms' where st: "merge_step is_json e (ps, ms) = (ps', ms')" by force
    with merge_step_into[OF Cons.prems, of is_json e] have "ms' = merge_into is_json e ms" "positions_ok ps' ms'" by simp_all
    with Cons.IH[of ps' ms'] st show ?case by (simp del: merge_step.simps)
  qed simp
  moreover have "positions_ok [] []" by (simp add: positions_ok_def)
  ultimately show ?thesis by (simp add: merge_by_uid_def)
qed

text \<open>The uids in the order of their first entity.\<close>

definition first_uids :: "entity list \<Rightarrow> str list" where
  "first_uids es = fold (\<lambda>e us. if List.member us (uid e) then us else us @ [uid e]) es []"

lemma merge_uids: "map uid (merge_by_uid is_json es) = first_uids es"
proof -
  have "map uid (fold (merge_into is_json) es ms) =
      fold (\<lambda>e us. if List.member us (uid e) then us else us @ [uid e]) es (map uid ms)" for ms
    by (induction es arbitrary: ms) (simp_all add: uids_merge_into)
  then show ?thesis by (simp add: merge_by_uid_fold first_uids_def)
qed

lemma first_uids_props: "distinct (first_uids es) \<and> set (first_uids es) = uid ` set es"
proof -
  have "distinct us \<Longrightarrow> distinct (fold (\<lambda>e us. if List.member us (uid e) then us else us @ [uid e]) es us) \<and>
      set (fold (\<lambda>e us. if List.member us (uid e) then us else us @ [uid e]) es us) = set us \<union> uid ` set es" for us
    by (induction es arbitrary: us) auto
  then show ?thesis by (simp add: first_uids_def)
qed

text \<open>What a merge has seen of one uid.\<close>

definition absorbed :: "entity list \<Rightarrow> entity \<Rightarrow> bool" where
  "absorbed es m \<longleftrightarrow> bmap_ok (spellings m) \<and> confidence m \<in> confidence ` {e \<in> set es. uid e = uid m} \<and>
     (\<forall>e \<in> set es. uid e = uid m \<longrightarrow> entity_held e m) \<and>
     min (corroboration m) u32_max = min (sum_list (map corroboration (filter (\<lambda>e. uid e = uid m) es))) u32_max"

lemma absorbed_other: "absorbed es m \<Longrightarrow> uid e \<noteq> uid m \<Longrightarrow> absorbed (es @ [e]) m"
  by (auto simp: absorbed_def)

lemma absorbed_new:
  assumes "uid e \<notin> uid ` set es" "bmap_ok (spellings e)"
  shows "absorbed (es @ [e]) e"
proof -
  have no: "uid x \<noteq> uid e" if "x \<in> set es" for x using assms(1) that by (metis imageI)
  then have "filter (\<lambda>a. uid a = uid e) es = []" by (simp add: filter_empty_conv)
  moreover have "\<forall>x \<in> set (es @ [e]). uid x = uid e \<longrightarrow> entity_held x e" using no by auto
  ultimately show ?thesis using assms(2) by (simp add: absorbed_def)
qed

lemma min_sum: "min a c = min b c \<Longrightarrow> min (a + k) c = min (b + k) (c :: nat)"
  by (auto simp: min_def split: if_splits)

lemma absorbed_absorb:
  assumes a: "absorbed es m" and u: "uid m = uid e"
  shows "absorbed (es @ [e]) (absorb is_json e m)"
proof -
  let ?m = "absorb is_json e m"
  note f = absorb_fields[OF u, of is_json]
  have ok: "bmap_ok (spellings m)" using a by (simp add: absorbed_def)
  have "entity_held x ?m" if "x \<in> set (es @ [e])" "uid x = uid ?m" for x
    using that a absorb_held[OF u ok, of is_json] entity_held_trans[of x m ?m] f(2)
    by (auto simp: absorbed_def)
  moreover have "confidence ?m \<in> confidence ` {x \<in> set (es @ [e]). uid x = uid ?m}"
    using a f64_max_among[of "confidence m" "confidence e"] u unfolding f(3) by (auto simp: absorbed_def)
  moreover have "min (corroboration ?m) u32_max =
      min (sum_list (map corroboration (filter (\<lambda>x. uid x = uid ?m) (es @ [e])))) u32_max"
  proof -
    have c: "min (corroboration m) u32_max = min (sum_list (map corroboration (filter (\<lambda>x. uid x = uid m) es))) u32_max"
      using a by (simp add: absorbed_def)
    show ?thesis unfolding f(4) using min_sum[OF c, of "corroboration e"] u by simp
  qed
  ultimately show ?thesis using absorb_spellings_ok[OF ok] by (simp add: absorbed_def)
qed

lemma merge_into_absorbed:
  assumes "\<forall>m \<in> set ms. absorbed es m" "distinct (map uid ms)" "uid ` set ms = uid ` set es" "bmap_ok (spellings e)"
  shows "\<forall>m \<in> set (merge_into is_json e ms). absorbed (es @ [e]) m"
proof (cases "uid e \<in> uid ` set ms")
  case False
  then show ?thesis using assms absorbed_other absorbed_new[of e es] by (auto simp: merge_into_new) (metis imageI)
next
  case True
  then obtain i where i: "i < length ms" "uid (ms ! i) = uid e" by (auto simp: in_set_conv_nth)
  have others: "uid (ms ! j) \<noteq> uid e" if "j < length ms" "j \<noteq> i" for j
    using that i assms(2) by (metis distinct_map distinct_conv_nth length_map nth_map)
  have "absorbed (es @ [e]) (merge_into is_json e ms ! j)" if "j < length ms" for j
    using that assms(1) others[OF that] i absorbed_absorb[of es "ms ! i" e is_json] absorbed_other[of es "ms ! j" e]
    unfolding merge_into_at[OF i assms(2)] by (cases "j = i") auto
  then show ?thesis unfolding merge_into_at[OF i assms(2)] by (auto simp: in_set_conv_nth)
qed

lemma merge_absorbed:
  "\<forall>e \<in> set es. bmap_ok (spellings e) \<Longrightarrow> \<forall>m \<in> set (merge_by_uid is_json es). absorbed es m"
proof (induction es rule: rev_induct)
  case (snoc e es)
  have "distinct (map uid (merge_by_uid is_json es))" "uid ` set (merge_by_uid is_json es) = uid ` set es"
    using merge_uids[of is_json es] first_uids_props[of es] by (simp, metis set_map)
  with merge_into_absorbed[of "merge_by_uid is_json es" es e is_json] snoc show ?case
    by (simp add: merge_by_uid_fold)
qed (simp add: merge_by_uid_fold)

section \<open>Properties\<close>

text \<open>C10: Merging entities by uid keeps one entity per uid, in the order each was first seen, and loses
  nothing: it holds every tag, every evidence record with all its values and observations, every
  observed spelling of a handle and the earliest generation and time of the entities it merged, its
  confidence is the highest of theirs, and its corroboration their sum up to the bound of \<open>u32\<close>.\<close>

theorem merge_by_uid_lossless:
  assumes "\<forall>e \<in> set es. bmap_ok (spellings e)"
  shows "map uid (merge_by_uid is_json es) = first_uids es \<and> distinct (first_uids es) \<and>
    (\<forall>e \<in> set es. \<exists>m \<in> set (merge_by_uid is_json es). entity_held e m) \<and>
    (\<forall>m \<in> set (merge_by_uid is_json es).
       (\<exists>e \<in> set es. uid e = uid m \<and> confidence m = confidence e) \<and>
       min (corroboration m) u32_max = min (sum_list (map corroboration (filter (\<lambda>e. uid e = uid m) es))) u32_max)"
proof -
  note a = merge_absorbed[OF assms, of is_json]
  have held: "\<exists>m \<in> set (merge_by_uid is_json es). entity_held e m" if "e \<in> set es" for e
  proof -
    have "uid e \<in> uid ` set (merge_by_uid is_json es)"
      using that merge_uids[of is_json es] first_uids_props[of es] by (metis image_eqI set_map)
    then obtain m where "uid e = uid m" "m \<in> set (merge_by_uid is_json es)" by (rule imageE)
    then show ?thesis using a that by (intro bexI[of _ m]) (simp_all add: absorbed_def)
  qed
  have exact: "(\<exists>e \<in> set es. uid e = uid m \<and> confidence m = confidence e) \<and>
      min (corroboration m) u32_max = min (sum_list (map corroboration (filter (\<lambda>e. uid e = uid m) es))) u32_max"
    if "m \<in> set (merge_by_uid is_json es)" for m
    using a that unfolding absorbed_def by (auto simp: image_iff)
  show ?thesis
    by (intro conjI ballI merge_uids first_uids_props[THEN conjunct1])
      (erule held, erule exact[THEN conjunct1], erule exact[THEN conjunct2])
qed

lemma merge_by_uid_lossless_witness:
  "let person = \<lambda>raw conf. entity_new (\<lambda>_ v. to_ascii_lowercase v) (\<lambda>_. []) False 7 entity_kind.Username raw conf ''s'';
       es = [person ''Ada'' (Fin (1 / 2)), person ''ada'' (Fin (3 / 4))]
   in map uid (merge_by_uid (\<lambda>_. False) es) = first_uids es \<and>
     (\<forall>e \<in> set es. \<exists>m \<in> set (merge_by_uid (\<lambda>_. False) es). entity_held e m)"
  unfolding Let_def
  by (intro conjI merge_by_uid_lossless[THEN conjunct1] merge_by_uid_lossless[THEN conjunct2, THEN conjunct2, THEN conjunct1])
    (simp_all add: entity_new_def Let_def)

end
