(* ===== verification/Termination.thy ===== *)
theory Termination
  imports Prelude
begin

text \<open>
  \<open>src/termination.rs\<close>: why a scan stopped. A bound is a reason only when work was left; cancellation
  and a fatal error always are.
\<close>

datatype termination_reason =
  FixedPoint | MaxDepth | TimeLimit | RequestBudget | ProviderBudget | ResourceLimit | MarginalGainLimit
| Cancelled | FatalError

fun reason_as_str :: "termination_reason \<Rightarrow> str" where
  "reason_as_str FixedPoint = ''fixed_point''"
| "reason_as_str MaxDepth = ''max_depth''"
| "reason_as_str TimeLimit = ''time_limit''"
| "reason_as_str RequestBudget = ''request_budget''"
| "reason_as_str ProviderBudget = ''provider_budget''"
| "reason_as_str ResourceLimit = ''resource_limit''"
| "reason_as_str MarginalGainLimit = ''marginal_gain_limit''"
| "reason_as_str Cancelled = ''cancelled''"
| "reason_as_str FatalError = ''fatal_error''"

record frontier_state =
  admissible_work :: nat
  delayed_retry_work :: nat
  in_flight_work :: nat
  derivable_novel_work :: nat

definition frontier_default :: frontier_state where
  "frontier_default =
     \<lparr>admissible_work = 0, delayed_retry_work = 0, in_flight_work = 0, derivable_novel_work = 0\<rparr>"

definition is_fixed_point :: "frontier_state \<Rightarrow> bool" where
  "is_fixed_point f \<longleftrightarrow>
     admissible_work f = 0 \<and> delayed_retry_work f = 0 \<and> in_flight_work f = 0 \<and> derivable_novel_work f = 0"

record termination_signals =
  sig_cancelled :: bool
  sig_fatal_error :: bool
  max_depth_reached :: bool
  time_limit_reached :: bool
  request_budget_exhausted :: bool
  provider_budget_exhausted :: bool
  resource_limit_reached :: bool
  marginal_gain_below_floor :: bool

definition signals_default :: termination_signals where
  "signals_default =
     \<lparr>sig_cancelled = False, sig_fatal_error = False, max_depth_reached = False, time_limit_reached = False,
      request_budget_exhausted = False, provider_budget_exhausted = False, resource_limit_reached = False,
      marginal_gain_below_floor = False\<rparr>"

definition decide_termination :: "frontier_state \<Rightarrow> termination_signals \<Rightarrow> termination_reason option" where
  "decide_termination frontier s =
     (if sig_fatal_error s then Some FatalError
      else if sig_cancelled s then Some Cancelled
      else if is_fixed_point frontier then Some FixedPoint
      else if resource_limit_reached s then Some ResourceLimit
      else if time_limit_reached s then Some TimeLimit
      else if provider_budget_exhausted s then Some ProviderBudget
      else if request_budget_exhausted s then Some RequestBudget
      else if max_depth_reached s then Some MaxDepth
      else if marginal_gain_below_floor s then Some MarginalGainLimit
      else None)"

text \<open>Convergence is never claimed with work left, and an unfinished frontier without a signal is no stop.\<close>

lemma decide_fixed_point:
  "decide_termination f s = Some FixedPoint \<longleftrightarrow> \<not> sig_fatal_error s \<and> \<not> sig_cancelled s \<and> is_fixed_point f"
  by (simp add: decide_termination_def)

lemma decide_none:
  "decide_termination f s = None \<Longrightarrow> \<not> is_fixed_point f \<and> \<not> resource_limit_reached s \<and> \<not> max_depth_reached s"
  by (simp add: decide_termination_def split: if_splits)

end
