(* ===== verification/Recursion.thy ===== *)
theory Recursion
  imports Entities Source_Outcome Termination "HOL-Library.Product_Lexorder"
begin

text \<open>
  \<open>src/recursion.rs\<close>: the bounded recursive crawl. A lookup of a target returns entities, which queue the
  targets of the next generation; the crawl ends when nothing is left or a bound or the operator stops it.

  The routing of values that other modules own (\<open>canonical_selector\<close>, \<open>infer_kind\<close>, the mail domain
  tests, \<open>normalise\<close>, the JSON test) is the record \<open>routing\<close>, and the trait \<open>SelectorCollector\<close> the record
  \<open>collector\<close> over the collector's own state \<open>'c\<close>. Whether the operator asked to stop can change between
  two questions, so asking is a step of that state.
\<close>

section \<open>Targets and policy\<close>

record target =
  t_kind :: scan_kind
  selector :: str

type_synonym key = "str \<times> str"

definition owned_key :: "target \<Rightarrow> key" where
  "owned_key t =
     (command (t_kind t),
      case t_kind t of scan_kind.Username \<Rightarrow> handle_route_key (selector t) | _ \<Rightarrow> selector t)"

record routing =
  canonical_selector :: "scan_kind \<Rightarrow> str \<Rightarrow> str option"
  infer_kind :: "str \<Rightarrow> scan_kind"
  is_infrastructure_email :: "str \<Rightarrow> bool"
  is_noreply_email_domain :: "str \<Rightarrow> bool"
  normalise_value :: "entity_kind \<Rightarrow> str \<Rightarrow> str"
  json_document :: "str \<Rightarrow> bool"

definition selector_identity :: "routing \<Rightarrow> scan_kind \<Rightarrow> str \<Rightarrow> str" where
  "selector_identity R k s =
     (case k of scan_kind.Username \<Rightarrow> normalise_value R entity_kind.Username s | _ \<Rightarrow> s)"

record recursion_policy =
  max_generations :: nat
  expand_confidence_floor :: f64
  max_dispatches :: nat
  max_entities :: nat
  max_frontier_per_generation :: nat
  expose_emails :: bool

definition EXPAND_FLOOR :: f64 where "EXPAND_FLOOR = Fin (1 / 2)"

definition recursion_policy_default :: recursion_policy where
  "recursion_policy_default =
     \<lparr>max_generations = 4, expand_confidence_floor = EXPAND_FLOOR, max_dispatches = 512, max_entities = 4096,
      max_frontier_per_generation = 256, expose_emails = True\<rparr>"

section \<open>What an entity expands into\<close>

fun expansion_kind :: "entity_kind \<Rightarrow> scan_kind option" where
  "expansion_kind entity_kind.Email = Some scan_kind.Email"
| "expansion_kind entity_kind.Username = Some scan_kind.Username"
| "expansion_kind entity_kind.Domain = Some scan_kind.Domain"
| "expansion_kind entity_kind.Phone = Some scan_kind.Phone"
| "expansion_kind IpAddress = Some Ip"
| "expansion_kind MacAddress = Some scan_kind.Network"
| "expansion_kind _ = None"

definition names_a_mailbox_holder :: "routing \<Rightarrow> str \<Rightarrow> bool" where
  "names_a_mailbox_holder R email \<longleftrightarrow> \<not> is_infrastructure_email R email \<and> \<not> is_noreply_email_domain R email"

fun once_per_route :: "str list \<Rightarrow> str list \<Rightarrow> str list" where
  "once_per_route seen [] = []"
| "once_per_route seen (s # ss) =
     (let k = handle_route_key s in
      if List.member seen k then once_per_route seen ss else s # once_per_route (k # seen) ss)"

definition route_selectors :: "routing \<Rightarrow> scan_kind \<Rightarrow> entity \<Rightarrow> f64 \<Rightarrow> str list" where
  "route_selectors R route e at_least =
     (let by_value = (case canonical_selector R route (e_value e) of None \<Rightarrow> [] | Some s \<Rightarrow> [s]) in
      if route = scan_kind.Username \<and> e_kind e = entity_kind.Username then
        (let own = trim_ats (trim (raw_value e));
             ordered = sort_key (\<lambda>(spelling, _). spelling \<noteq> own) (observed_spellings e);
             observed = once_per_route []
               (List.map_filter (\<lambda>(spelling, conf). if f64_le at_least conf then canonical_selector R route spelling else None)
                 ordered)
         in if observed \<noteq> [] \<or> list_ex is_operator_seed (e_evidence e) then observed else by_value)
      else by_value)"

definition expansions :: "routing \<Rightarrow> recursion_policy \<Rightarrow> entity \<Rightarrow> target list" where
  "expansions R P e =
     (if has_tag NAME_SEARCH_LEAD e \<or> has_tag ''wikidata-name-lead'' e then []
      else if f64_less (confidence e) (expand_confidence_floor P) then []
      else
        (case expansion_kind (e_kind e) of
           None \<Rightarrow> []
         | Some route \<Rightarrow>
             if e_kind e = entity_kind.Email \<and> \<not> names_a_mailbox_holder R (e_value e) then []
             else
               (let at_least = expand_confidence_floor P;
                    selectors = route_selectors R route e at_least
                in if selectors = [] then []
                   else map (\<lambda>s. \<lparr>t_kind = route, selector = s\<rparr>) selectors @
                     (if expose_emails P \<and> e_kind e = entity_kind.Email
                      then map (\<lambda>s. \<lparr>t_kind = Exposure, selector = s\<rparr>) (route_selectors R Exposure e at_least)
                      else []))))"

section \<open>The frontier\<close>

record frontier =
  f_seen :: "key list"
  f_queue :: "target list"
  f_per_kind :: "(str \<times> nat) list"

definition frontier_new :: frontier where
  "frontier_new = \<lparr>f_seen = [], f_queue = [], f_per_kind = []\<rparr>"

definition held_per_kind :: "str \<Rightarrow> frontier \<Rightarrow> nat" where
  "held_per_kind k f = (case map_of (f_per_kind f) k of Some n \<Rightarrow> n | None \<Rightarrow> 0)"

definition frontier_push :: "target \<Rightarrow> frontier \<Rightarrow> bool \<times> frontier" where
  "frontier_push t f =
     (if List.member (f_seen f) (owned_key t) then (False, f)
      else
        (True, \<lparr>f_seen = bset_insert (owned_key t) (f_seen f), f_queue = f_queue f @ [t],
          f_per_kind = bmap_insert (command (t_kind t)) (held_per_kind (command (t_kind t)) f + 1) (f_per_kind f)\<rparr>))"

definition push :: "target \<Rightarrow> frontier \<Rightarrow> frontier" where
  "push t f = snd (frontier_push t f)"

definition contains_key :: "key \<Rightarrow> frontier \<Rightarrow> bool" where
  "contains_key k f = List.member (f_seen f) k"

definition full_for :: "str \<Rightarrow> nat \<Rightarrow> frontier \<Rightarrow> bool" where
  "full_for k cap f \<longleftrightarrow> length (f_queue f) \<ge> cap \<or> held_per_kind k f \<ge> max ((cap + 1) div 2) 1"

text \<open>\<open>into_queue\<close>: the targets by kind, each kind at the place of its first target.\<close>

fun by_kind :: "target list \<Rightarrow> (scan_kind \<times> target list) list \<Rightarrow> (scan_kind \<times> target list) list" where
  "by_kind [] g = g"
| "by_kind (t # ts) g =
     by_kind ts
       (if t_kind t \<in> fst ` set g
        then map (\<lambda>(k, q). if k = t_kind t then (k, q @ [t]) else (k, q)) g
        else g @ [(t_kind t, [t])])"

text \<open>One target of each kind in turn; a round that takes nothing ends it.\<close>

definition heads :: "'a list list \<Rightarrow> 'a list" where
  "heads qs = concat (map (take 1) qs)"

function in_turns :: "'a list list \<Rightarrow> 'a list" where
  "in_turns qs = (if heads qs = [] then [] else heads qs @ in_turns (map tl qs))"
  by pat_completeness auto
termination
proof (relation "measure (\<lambda>qs. length (concat qs))")
  fix qs :: "'a list list"
  assume "heads qs \<noteq> []"
  moreover have "length (concat qs) = length (heads qs) + length (concat (map tl qs))"
  proof (induction qs)
    case (Cons q qs)
    then show ?case by (cases q) (simp_all add: heads_def)
  qed (simp add: heads_def)
  ultimately show "(map tl qs, qs) \<in> measure (\<lambda>qs. length (concat qs))" by simp
qed simp

declare in_turns.simps [simp del]

definition into_queue :: "frontier \<Rightarrow> target list" where
  "into_queue f = in_turns (map snd (by_kind (f_queue f) []))"

section \<open>The collector\<close>

record step =
  step_entities :: "entity list"
  step_outcomes :: "execution_outcome list"

record pivot_edge =
  from_kind :: str
  from_selector :: str
  to_kind :: str
  to_value :: str
  edge_generation :: nat

record generation_stat =
  stat_generation :: nat
  dispatched :: nat
  entities_after :: nat

record crawl_progress =
  p_entities :: "entity list"
  p_edges :: "pivot_edge list"
  p_outcomes :: "execution_outcome list"
  p_generation :: nat
  p_dispatches :: nat

record 'c collector =
  collect_batch :: "target list \<Rightarrow> 'c \<Rightarrow> step list \<times> 'c"
  may_batch :: "target list \<Rightarrow> target \<Rightarrow> 'c \<Rightarrow> bool"
  on_batch_contract_error :: "nat \<Rightarrow> 'c \<Rightarrow> 'c"
  ask_cancelled :: "'c \<Rightarrow> bool \<times> 'c"
  progressed :: "crawl_progress \<Rightarrow> 'c \<Rightarrow> 'c"
  unix_now :: "'c \<Rightarrow> u64"

definition missing_batch_step :: "target \<Rightarrow> u64 \<Rightarrow> step" where
  "missing_batch_step t at_unix =
     \<lparr>step_entities = [],
      step_outcomes = [inconclusive ''recursion'' at_unix
        (''collector omitted a '' @ command (t_kind t) @ '' lookup result for '' @ selector t)]\<rparr>"

definition append_outcome :: "execution_outcome \<Rightarrow> step list \<Rightarrow> step list" where
  "append_outcome o1 steps =
     (if steps = [] then []
      else butlast steps @ [(last steps)\<lparr>step_outcomes := step_outcomes (last steps) @ [o1]\<rparr>])"

definition normalize_batch :: "('c, 'x) collector_scheme \<Rightarrow> target list \<Rightarrow> step list \<Rightarrow> 'c \<Rightarrow> step list \<times> 'c" where
  "normalize_batch C batch steps c =
     (let missing = length batch - length steps; excess = length steps - length batch in
      if missing = 0 \<and> excess = 0 then (steps, c)
      else
        (let c' = on_batch_contract_error C (missing + excess) c;
             at_unix = unix_now C c';
             kept = take (length batch) steps;
             filled = kept @ map (\<lambda>t. missing_batch_step t at_unix) (drop (length kept) batch);
             noted = (if excess > 0
               then append_outcome (inconclusive ''recursion'' at_unix
                 (''collector returned '' @ show_nat excess @ '' unsolicited results for a batch of '' @
                  show_nat (length batch) @ '' lookups'')) filled
               else filled)
         in (noted, c')))"

section \<open>Reducing a step\<close>

record crawl_state =
  visited :: "key list"
  followed_at :: "(key \<times> f64) list"
  entities :: "entity list"
  edges :: "pivot_edge list"
  outcomes :: "execution_outcome list"
  generations :: "generation_stat list"
  dispatches :: nat
  resource_limited :: bool
  cancelled :: bool

definition crawl_state_new :: crawl_state where
  "crawl_state_new =
     \<lparr>visited = [], followed_at = [], entities = [], edges = [], outcomes = [], generations = [],
      dispatches = 0, resource_limited = False, cancelled = False\<rparr>"

definition pivot_held_at :: "entity \<Rightarrow> f64 \<Rightarrow> f64" where
  "pivot_held_at e followed =
     (if list_ex is_operator_seed (e_evidence e) then f64_min (confidence e) followed else confidence e)"

definition u32_saturating_add :: "nat \<Rightarrow> nat \<Rightarrow> nat" where
  "u32_saturating_add a b = min (a + b) u32_max"

definition forget_pivot_echo :: "entity \<Rightarrow> f64 \<Rightarrow> bool \<times> entity" where
  "forget_pivot_echo e followed =
     (if \<not> list_ex is_operator_seed (e_evidence e) then (True, e)
      else
        (let held = pivot_held_at e followed;
             echoes = foldl u32_saturating_add 0
               (map (\<lambda>v. 1 + min (length (merged_provenance v)) u32_max) (filter is_operator_seed (e_evidence e)));
             e' = e\<lparr>e_evidence := filter (\<lambda>v. \<not> is_operator_seed v) (e_evidence e),
                    tags := filter (\<lambda>t. t \<noteq> ''seed'') (tags e),
                    confidence := held,
                    corroboration := max (corroboration e - echoes) 1\<rparr>
         in (e_evidence e' \<noteq> [], e')))"

definition follow_at :: "key \<Rightarrow> f64 \<Rightarrow> crawl_state \<Rightarrow> crawl_state" where
  "follow_at k conf st =
     (let held = (case map_of (followed_at st) k of Some h \<Rightarrow> h | None \<Rightarrow> conf)
      in st\<lparr>followed_at := bmap_insert k (f64_max held conf) (followed_at st)\<rparr>)"

fun queue_candidates ::
  "recursion_policy \<Rightarrow> f64 \<Rightarrow> target list \<Rightarrow> crawl_state \<Rightarrow> frontier \<Rightarrow> crawl_state \<times> frontier"
where
  "queue_candidates P held [] st next_f = (st, next_f)"
| "queue_candidates P held (t # ts) st next_f =
     (let k = owned_key t in
      if List.member (visited st) k then queue_candidates P held ts st next_f
      else if contains_key k next_f then queue_candidates P held ts (follow_at k held st) next_f
      else if full_for (command (t_kind t)) (max_frontier_per_generation P) next_f
      then queue_candidates P held ts (st\<lparr>resource_limited := True\<rparr>) next_f
      else queue_candidates P held ts (follow_at k held st) (push t next_f))"

definition queue_expansions ::
  "routing \<Rightarrow> recursion_policy \<Rightarrow> entity \<Rightarrow> f64 \<Rightarrow> crawl_state \<Rightarrow> frontier \<Rightarrow> crawl_state \<times> frontier"
where
  "queue_expansions R P e held st next_f = queue_candidates P held (expansions R P e) st next_f"

definition take_entity ::
  "routing \<Rightarrow> recursion_policy \<Rightarrow> nat \<Rightarrow> target \<Rightarrow> f64 option \<Rightarrow> entity \<Rightarrow> crawl_state \<times> frontier \<Rightarrow> crawl_state \<times> frontier"
where
  "take_entity R P gen t followed e0 = (\<lambda>(st, next_f).
     (let e = e0\<lparr>generation := gen\<rparr>;
          edge = \<lparr>from_kind = command (t_kind t), from_selector = selector t,
                  to_kind = entity_kind_as_str (e_kind e), to_value = e_value e, edge_generation = gen\<rparr>;
          st1 = st\<lparr>edges := edges st @ [edge]\<rparr>;
          held = (case followed of None \<Rightarrow> confidence e | Some f \<Rightarrow> pivot_held_at e f);
          (st2, next2) = queue_expansions R P e held st1 next_f;
          (keep, e') = (case followed of None \<Rightarrow> (True, e) | Some f \<Rightarrow> forget_pivot_echo e f)
      in (if keep then st2\<lparr>entities := entities st2 @ [e']\<rparr> else st2, next2)))"

definition take_step ::
  "routing \<Rightarrow> recursion_policy \<Rightarrow> nat \<Rightarrow> target \<Rightarrow> step \<Rightarrow> crawl_state \<Rightarrow> frontier \<Rightarrow> crawl_state \<times> frontier"
where
  "take_step R P gen t s st next_f =
     (let followed = (if gen > 0
            then Some (case map_of (followed_at st) (owned_key t) of Some f \<Rightarrow> f | None \<Rightarrow> expand_confidence_floor P)
            else None);
          st1 = st\<lparr>dispatches := dispatches st + 1, outcomes := outcomes st @ step_outcomes s\<rparr>
      in fold (take_entity R P gen t followed) (step_entities s) (st1, next_f))"

fun take_steps ::
  "routing \<Rightarrow> recursion_policy \<Rightarrow> nat \<Rightarrow> target list \<Rightarrow> step list \<Rightarrow> crawl_state \<Rightarrow> frontier \<Rightarrow> crawl_state \<times> frontier"
where
  "take_steps R P gen [] steps st next_f = (st, next_f)"
| "take_steps R P gen (t # ts) steps st next_f =
     (let (s, rest) = (case steps of [] \<Rightarrow> (missing_batch_step t 0, []) | s # ss \<Rightarrow> (s, ss));
          (st', next') = take_step R P gen t s st next_f
      in take_steps R P gen ts rest st' next')"

section \<open>One generation\<close>

definition MAX_BATCH :: nat where "MAX_BATCH = 2"

definition budget_spent :: "recursion_policy \<Rightarrow> nat \<Rightarrow> crawl_state \<Rightarrow> bool" where
  "budget_spent P n st \<longleftrightarrow> n \<ge> max_dispatches P \<or> length (entities st) \<ge> max_entities P"

definition visit :: "target \<Rightarrow> crawl_state \<Rightarrow> crawl_state" where
  "visit t st = st\<lparr>visited := bset_insert (owned_key t) (visited st)\<rparr>"

text \<open>The targets that join the first of a wave. The result is the batch, what remains, the state, the
  next frontier, the collector and whether a bound stopped the generation.\<close>

fun fill_batch ::
  "('c, 'x) collector_scheme \<Rightarrow> recursion_policy \<Rightarrow> target list \<Rightarrow> target list \<Rightarrow> crawl_state \<Rightarrow> frontier \<Rightarrow> 'c \<Rightarrow>
    target list \<times> target list \<times> crawl_state \<times> frontier \<times> 'c \<times> bool"
where
  "fill_batch C P batch [] st next_f c = (batch, [], st, next_f, c, False)"
| "fill_batch C P batch (t # rest) st next_f c =
     (if length batch \<ge> MAX_BATCH \<or> \<not> may_batch C batch t c then (batch, t # rest, st, next_f, c, False)
      else
        (let (stop, c1) = ask_cancelled C c in
         if stop then (batch, [], st\<lparr>cancelled := True\<rparr>, fold push (t # rest) next_f, c1, True)
         else if List.member (visited st) (owned_key t) then fill_batch C P batch rest st next_f c1
         else if budget_spent P (dispatches st + length batch) (visit t st)
         then (batch, [], (visit t st)\<lparr>resource_limited := True\<rparr>, fold push (t # rest) next_f, c1, True)
         else fill_batch C P (batch @ [t]) rest (visit t st) next_f c1))"

lemma fill_batch_rest: "length (fst (snd (fill_batch C P batch rest st next_f c))) \<le> length rest"
proof (induction C P batch rest st next_f c rule: fill_batch.induct)
  case (2 C P batch t rest st next_f c)
  obtain stop c1 where ask: "ask_cancelled C c = (stop, c1)" by (cases "ask_cancelled C c")
  show ?case
    using 2 by (auto simp: ask Let_def) (blast intro: le_SucI)+
qed simp

definition progress_of :: "crawl_state \<Rightarrow> nat \<Rightarrow> crawl_progress" where
  "progress_of st gen =
     \<lparr>p_entities = entities st, p_edges = edges st, p_outcomes = outcomes st, p_generation = gen,
      p_dispatches = dispatches st\<rparr>"

text \<open>\<open>batch_done\<close>: the checkpoint, then a stop requested meanwhile.\<close>

definition batch_done ::
  "('c, 'x) collector_scheme \<Rightarrow> nat \<Rightarrow> target list \<Rightarrow> crawl_state \<Rightarrow> frontier \<Rightarrow> 'c \<Rightarrow> bool \<times> crawl_state \<times> frontier \<times> 'c"
where
  "batch_done C gen remaining st next_f c =
     (let (stop, c1) = ask_cancelled C (progressed C (progress_of st gen) c) in
      if stop then (True, st\<lparr>cancelled := True\<rparr>, fold push remaining next_f, c1)
      else (False, st, next_f, c1))"

text \<open>The waves of a generation. The result is the state, the next frontier, the number of lookups, the
  collector and whether the generation was stopped.\<close>

function waves ::
  "routing \<Rightarrow> ('c, 'x) collector_scheme \<Rightarrow> recursion_policy \<Rightarrow> nat \<Rightarrow> target list \<Rightarrow> crawl_state \<Rightarrow> frontier \<Rightarrow> nat \<Rightarrow> 'c \<Rightarrow>
    crawl_state \<times> frontier \<times> nat \<times> 'c \<times> bool"
where
  "waves R C P gen [] st next_f n c = (st, next_f, n, c, False)"
| "waves R C P gen (t # rest) st next_f n c =
     (let (stop, c1) = ask_cancelled C c in
      if stop then (st\<lparr>cancelled := True\<rparr>, fold push (t # rest) next_f, n, c1, True)
      else if List.member (visited st) (owned_key t) then waves R C P gen rest st next_f n c1
      else if budget_spent P (dispatches st) (visit t st)
      then ((visit t st)\<lparr>resource_limited := True\<rparr>, fold push (t # rest) next_f, n, c1, True)
      else
        (case fill_batch C P [t] rest (visit t st) next_f c1 of
           (batch, rest', st2, next2, c2, halted) \<Rightarrow>
             (let (steps0, c3) = collect_batch C batch c2;
                  (steps, c4) = normalize_batch C batch steps0 c3;
                  (st3, next3) = take_steps R P gen batch steps st2 next2;
                  (stop', st4, next4, c5) = batch_done C gen rest' st3 next3 c4
              in if halted \<or> stop' then (st4, next4, n + length batch, c5, True)
                 else waves R C P gen rest' st4 next4 (n + length batch) c5)))"
  by pat_completeness auto
termination
  by (relation "measure (\<lambda>(_, _, _, _, remaining, _). length remaining)") (auto simp: less_Suc_eq_le dest!: arg_cong[where f = "\<lambda>r. length (fst (snd r))"] intro: order_trans[OF _ fill_batch_rest])

definition step_generation ::
  "routing \<Rightarrow> ('c, 'x) collector_scheme \<Rightarrow> recursion_policy \<Rightarrow> nat \<Rightarrow> target list \<Rightarrow> crawl_state \<Rightarrow> 'c \<Rightarrow>
    target list \<times> bool \<times> crawl_state \<times> 'c"
where
  "step_generation R C P gen targets st c =
     (let (st1, next_f, n, c1, halted) = waves R C P gen targets st frontier_new 0 c;
          merged = merge_by_uid (json_document R) (entities st1);
          st2 = st1\<lparr>entities := merged,
                   generations := generations st1 @
                     [\<lparr>stat_generation = gen, dispatched = n, entities_after = length merged\<rparr>]\<rparr>
      in (into_queue next_f, halted, st2, c1))"

section \<open>The crawl\<close>

text \<open>The loop over the generations: what is left, the state, the collector and whether the depth bound
  stopped it.\<close>

function crawl_loop ::
  "routing \<Rightarrow> ('c, 'x) collector_scheme \<Rightarrow> recursion_policy \<Rightarrow> nat \<Rightarrow> target list \<Rightarrow> crawl_state \<Rightarrow> 'c \<Rightarrow>
    target list \<times> crawl_state \<times> 'c \<times> bool"
where
  "crawl_loop R C P gen targets st c =
     (if targets = [] then (targets, st, c, False)
      else if gen > max_generations P then (targets, st, c, True)
      else
        (let (next_t, halted, st1, c1) = step_generation R C P gen targets st c in
         if halted then (next_t, st1, c1, False)
         else crawl_loop R C P (gen + 1) next_t st1 c1))"
  by pat_completeness auto
termination
  by (relation "measure (\<lambda>(_, _, P, gen, _). max_generations P + 1 - gen)") auto

declare crawl_loop.simps [simp del]

record recursion_report =
  accepted_seeds :: "target list"
  rejected_seeds :: "str list"
  r_entities :: "entity list"
  r_edges :: "pivot_edge list"
  r_outcomes :: "execution_outcome list"
  r_generations :: "generation_stat list"
  r_dispatches :: nat
  r_visited :: nat
  r_termination :: termination_reason
  truncated :: bool

definition crawl ::
  "routing \<Rightarrow> ('c, 'x) collector_scheme \<Rightarrow> recursion_policy \<Rightarrow> target list \<Rightarrow> str list \<Rightarrow> target list \<Rightarrow> 'c \<Rightarrow>
    recursion_report \<times> 'c"
where
  "crawl R C P accepted rejected targets c =
     (let (left, st, c1, max_depth) = crawl_loop R C P 0 targets crawl_state_new c;
          signals = signals_default\<lparr>sig_cancelled := cancelled st, resource_limit_reached := resource_limited st,
                                    max_depth_reached := max_depth\<rparr>;
          reason = (case decide_termination (frontier_default\<lparr>admissible_work := length left\<rparr>) signals of
                      Some r \<Rightarrow> r | None \<Rightarrow> FixedPoint)
      in (\<lparr>accepted_seeds = accepted, rejected_seeds = rejected, r_entities = entities st, r_edges = edges st,
           r_outcomes = outcomes st, r_generations = generations st, r_dispatches = dispatches st,
           r_visited = length (visited st), r_termination = reason,
           truncated = (resource_limited st \<or> max_depth \<or> cancelled st)\<rparr>, c1))"

definition target_for_seed :: "routing \<Rightarrow> str \<Rightarrow> target option" where
  "target_for_seed R seed =
     (let kind = infer_kind R seed in
      map_option (\<lambda>s. \<lparr>t_kind = kind, selector = s\<rparr>) (canonical_selector R kind seed))"

fun seed_loop :: "routing \<Rightarrow> str list \<Rightarrow> target list \<Rightarrow> str list \<Rightarrow> frontier \<Rightarrow> target list \<times> str list \<times> frontier" where
  "seed_loop R [] accepted rejected f = (accepted, rejected, f)"
| "seed_loop R (seed # seeds) accepted rejected f =
     (case target_for_seed R seed of
        Some t \<Rightarrow> seed_loop R seeds (accepted @ [t]) rejected (push t f)
      | None \<Rightarrow> seed_loop R seeds accepted (rejected @ [seed]) f)"

definition seed_frontier :: "routing \<Rightarrow> str list \<Rightarrow> target list \<times> str list \<times> target list" where
  "seed_frontier R seeds =
     (let (accepted, rejected, f) = seed_loop R seeds [] [] frontier_new in (accepted, rejected, into_queue f))"

definition run :: "routing \<Rightarrow> ('c, 'x) collector_scheme \<Rightarrow> recursion_policy \<Rightarrow> str list \<Rightarrow> 'c \<Rightarrow> recursion_report \<times> 'c" where
  "run R C P seeds c =
     (let (accepted, rejected, targets) = seed_frontier R seeds in crawl R C P accepted rejected targets c)"

definition run_targets ::
  "routing \<Rightarrow> ('c, 'x) collector_scheme \<Rightarrow> recursion_policy \<Rightarrow> target list \<Rightarrow> 'c \<Rightarrow> recursion_report \<times> 'c"
where
  "run_targets R C P ts c = crawl R C P ts [] (into_queue (fold push ts frontier_new)) c"

end
