(* ===== verification/Recursion_Frontier.thy ===== *)
theory Recursion_Frontier
  imports Recursion "HOL-Library.Multiset"
begin

text \<open>
  The frontier of the crawl: it holds one target per key, its counts are those of its queue, what is
  admitted below the cap stays below it, and the dispatch order takes one target of each kind in turn.
\<close>

section \<open>The invariant\<close>

definition keys_of :: "target list \<Rightarrow> key set" where
  "keys_of ts = owned_key ` set ts"

lemma keys_of_simps [simp]:
  "keys_of [] = {}" "keys_of (t # ts) = insert (owned_key t) (keys_of ts)" "keys_of (ts @ us) = keys_of ts \<union> keys_of us"
  by (auto simp: keys_of_def)

definition of_kind :: "str \<Rightarrow> target list \<Rightarrow> target list" where
  "of_kind k ts = filter (\<lambda>t. command (t_kind t) = k) ts"

definition frontier_ok :: "frontier \<Rightarrow> bool" where
  "frontier_ok f \<longleftrightarrow>
     distinct (map owned_key (f_queue f)) \<and> set (f_seen f) = keys_of (f_queue f) \<and>
     (\<forall>k. held_per_kind k f = length (of_kind k (f_queue f)))"

definition kind_cap :: "nat \<Rightarrow> nat" where
  "kind_cap cap = max ((cap + 1) div 2) 1"

definition below_cap :: "nat \<Rightarrow> frontier \<Rightarrow> bool" where
  "below_cap cap f \<longleftrightarrow> length (f_queue f) \<le> cap \<and> (\<forall>k. held_per_kind k f \<le> kind_cap cap)"

lemma frontier_new_ok [simp]: "frontier_ok frontier_new" "below_cap cap frontier_new" "f_queue frontier_new = []"
  by (simp_all add: frontier_ok_def below_cap_def frontier_new_def held_per_kind_def of_kind_def)

lemma held_push:
  "held_per_kind k (push t f) =
     held_per_kind k f + (if owned_key t \<notin> set (f_seen f) \<and> k = command (t_kind t) then 1 else 0)"
  by (simp add: push_def frontier_push_def held_per_kind_def map_of_bmap_insert)

lemma queue_push:
  "f_queue (push t f) = (if owned_key t \<in> set (f_seen f) then f_queue f else f_queue f @ [t])"
  "set (f_seen (push t f)) = insert (owned_key t) (set (f_seen f))"
  by (auto simp: push_def frontier_push_def)

lemma frontier_ok_push: "frontier_ok f \<Longrightarrow> frontier_ok (push t f) \<and> keys_of (f_queue (push t f)) = insert (owned_key t) (keys_of (f_queue f))"
  by (auto simp: frontier_ok_def queue_push held_push of_kind_def) (auto simp: keys_of_def)

lemma frontier_ok_pushes:
  "frontier_ok f \<Longrightarrow> frontier_ok (fold push ts f) \<and> keys_of (f_queue (fold push ts f)) = keys_of ts \<union> keys_of (f_queue f)"
  by (induction ts arbitrary: f) (auto simp: frontier_ok_push)

lemma queue_pushes: "set (f_queue (fold push ts f)) \<subseteq> set (f_queue f) \<union> set ts"
proof (induction ts arbitrary: f)
  case (Cons t ts)
  then show ?case using Cons.IH[of "push t f"] by (auto simp: queue_push split: if_splits)
qed simp

lemma below_cap_push: "below_cap cap f \<Longrightarrow> \<not> full_for (command (t_kind t)) cap f \<Longrightarrow> below_cap cap (push t f)"
  by (auto simp: below_cap_def full_for_def kind_cap_def queue_push held_push le_Suc_eq not_le split: if_splits)

section \<open>The dispatch order\<close>

definition group_of :: "scan_kind \<Rightarrow> (scan_kind \<times> target list) list \<Rightarrow> target list" where
  "group_of k g = (case map_of g k of Some q \<Rightarrow> q | None \<Rightarrow> [])"

definition groups_ok :: "(scan_kind \<times> target list) list \<Rightarrow> bool" where
  "groups_ok g \<longleftrightarrow> distinct (map fst g) \<and> (\<forall>p \<in> set g. snd p \<noteq> [] \<and> (\<forall>t \<in> set (snd p). t_kind t = fst p))"

definition add_target :: "target \<Rightarrow> (scan_kind \<times> target list) list \<Rightarrow> (scan_kind \<times> target list) list" where
  "add_target t g =
     (if t_kind t \<in> fst ` set g then map (\<lambda>(k, q). if k = t_kind t then (k, q @ [t]) else (k, q)) g
      else g @ [(t_kind t, [t])])"

lemma by_kind_add: "by_kind (t # ts) g = by_kind ts (add_target t g)"
  by (simp add: add_target_def)

lemma map_of_at: "map_of (map (\<lambda>(k, q). if k = a then (k, h q) else (k, q)) g) k = (if k = a then map_option h (map_of g k) else map_of g k)"
  by (induction g) auto

lemma group_of_add: "group_of k (add_target t g) = group_of k g @ (if t_kind t = k then [t] else [])"
proof (cases "t_kind t \<in> fst ` set g")
  case True
  then obtain q where "map_of g (t_kind t) = Some q" by (metis map_of_eq_None_iff option.exhaust)
  then show ?thesis using True by (auto simp: group_of_def add_target_def map_of_at split: option.split)
next
  case False
  then have "map_of g (t_kind t) = None" by (simp add: map_of_eq_None_iff)
  then show ?thesis using False by (auto simp: group_of_def add_target_def map_add_def split: option.split)
qed

lemma fst_add_target: "map fst (add_target t g) = map fst g @ (if t_kind t \<in> fst ` set g then [] else [t_kind t])"
  by (auto simp: add_target_def comp_def)

lemma in_add_target:
  assumes "p \<in> set (add_target t g)"
  obtains "p \<in> set g" | "p = (t_kind t, [t])" | q where "(t_kind t, q) \<in> set g" "p = (t_kind t, q @ [t])"
  using assms by (auto simp: add_target_def split: if_splits)

lemma groups_ok_add: "groups_ok g \<Longrightarrow> groups_ok (add_target t g)"
  unfolding groups_ok_def
proof (elim conjE, intro conjI ballI)
  assume g: "distinct (map fst g)" "\<forall>p \<in> set g. snd p \<noteq> [] \<and> (\<forall>t \<in> set (snd p). t_kind t = fst p)"
  show "distinct (map fst (add_target t g))" using g(1) by (simp add: fst_add_target)
  fix p assume "p \<in> set (add_target t g)"
  then show "snd p \<noteq> []" using g(2) by (cases rule: in_add_target) auto
  fix u assume "u \<in> set (snd p)"
  then show "t_kind u = fst p" using \<open>p \<in> set (add_target t g)\<close> g(2) by (auto elim!: in_add_target)
qed

lemma kinds_add: "fst ` set (add_target t g) = insert (t_kind t) (fst ` set g)"
proof -
  have "set (map fst (add_target t g)) = insert (t_kind t) (set (map fst g))"
    unfolding fst_add_target by auto
  then show ?thesis by simp
qed

lemma by_kind_ok: "groups_ok g \<Longrightarrow> groups_ok (by_kind ts g)"
  by (induction ts arbitrary: g) (simp_all add: by_kind_add groups_ok_add del: by_kind.simps(2))

lemma by_kind_group: "group_of k (by_kind ts g) = group_of k g @ filter (\<lambda>t. t_kind t = k) ts"
  by (induction ts arbitrary: g) (simp_all add: by_kind_add group_of_add del: by_kind.simps(2))

lemma by_kind_kinds: "fst ` set (by_kind ts g) = fst ` set g \<union> t_kind ` set ts"
  by (induction ts arbitrary: g) (simp_all add: by_kind_add kinds_add del: by_kind.simps(2))

lemmas by_kind_groups =
  by_kind_ok[of "[]", simplified groups_ok_def[of "[]"], simplified]
  by_kind_group[of _ _ "[]", simplified group_of_def[of _ "[]"], simplified]
  by_kind_kinds[of _ "[]", simplified]

lemma in_turns_Nil [simp]: "heads qs = [] \<Longrightarrow> in_turns qs = []"
  by (simp add: in_turns.simps)

lemma in_turns_Cons: "heads qs \<noteq> [] \<Longrightarrow> in_turns qs = heads qs @ in_turns (map tl qs)"
  by (simp add: in_turns.simps)

lemma heads_append [simp]: "heads (as @ q # bs) = heads as @ take 1 q @ heads bs"
  by (simp add: heads_def)

lemma set_heads: "set (heads qs) \<subseteq> set (concat qs)"
  by (auto simp: heads_def dest: in_set_takeD)

lemma set_tails: "set (concat (map tl qs)) \<subseteq> set (concat qs)"
  by (auto dest: list.set_sel(2)[rotated] split: list.split) (metis list.sel(2) list.set_sel(2))

lemma set_in_turns: "set (in_turns qs) \<subseteq> set (concat qs)"
proof (induction qs rule: in_turns.induct)
  case (1 qs)
  show ?case
  proof (cases "heads qs = []")
    case False
    then have "set (in_turns qs) = set (heads qs) \<union> set (in_turns (map tl qs))" by (simp add: in_turns_Cons)
    then show ?thesis using 1[OF False] set_heads[of qs] set_tails[of qs] by blast
  qed simp
qed

lemma filter_none: "\<forall>x \<in> set xs. \<not> p x \<Longrightarrow> filter p xs = []"
  by simp

lemma in_turns_filter:
  "\<forall>x \<in> set (concat as) \<union> set (concat bs). \<not> p x \<Longrightarrow> filter p (in_turns (as @ q # bs)) = filter p q"
proof (induction q arbitrary: as bs)
  case Nil
  have "\<forall>x \<in> set (in_turns (as @ [] # bs)). \<not> p x"
    using Nil set_in_turns[of "as @ [] # bs"] by auto
  then show ?case by (metis filter_none filter.simps(1))
next
  case (Cons x q)
  have tails: "\<forall>x \<in> set (concat (map tl as)) \<union> set (concat (map tl bs)). \<not> p x"
    using Cons.prems set_tails[of as] set_tails[of bs] by blast
  have "filter p (heads as) = []" "filter p (heads bs) = []"
    using Cons.prems set_heads[of as] set_heads[of bs] by (auto intro!: filter_none simp del: set_concat)
  then show ?case
    using Cons.IH[OF tails] by (simp add: in_turns_Cons)
qed

lemma groups_split:
  assumes "groups_ok g" "map_of g k = Some q"
  obtains as bs where "map snd g = as @ q # bs" "\<forall>x \<in> set (concat as) \<union> set (concat bs). t_kind x \<noteq> k"
proof -
  obtain g1 g2 where g: "g = g1 @ (k, q) # g2" using map_of_SomeD[OF assms(2)] by (metis split_list)
  show ?thesis
  proof (rule that)
    show "map snd g = map snd g1 @ q # map snd g2" using g by simp
    show "\<forall>x \<in> set (concat (map snd g1)) \<union> set (concat (map snd g2)). t_kind x \<noteq> k"
      using assms(1) unfolding g groups_ok_def by (force simp: image_iff)
  qed
qed

lemma into_queue_kind:
  "filter (\<lambda>t. t_kind t = k) (into_queue f) = filter (\<lambda>t. t_kind t = k) (f_queue f)"
proof -
  let ?g = "by_kind (f_queue f) []"
  note g = by_kind_groups(1)[of "f_queue f"] by_kind_groups(2)[of k "f_queue f"] by_kind_groups(3)[of "f_queue f"]
  show ?thesis
  proof (cases "map_of ?g k")
    case None
    then have none: "\<forall>t \<in> set (f_queue f). t_kind t \<noteq> k" using g by (auto simp: map_of_eq_None_iff)
    have "\<forall>t \<in> set (into_queue f). t_kind t \<noteq> k"
    proof
      fix t assume "t \<in> set (into_queue f)"
      then obtain k' q where "(k', q) \<in> set ?g" "t \<in> set q"
        unfolding into_queue_def using set_in_turns by fastforce
      then have "t_kind t = k'" "k' \<in> fst ` set ?g" using g(1) by (force simp: groups_ok_def)+
      then show "t_kind t \<noteq> k" using None by (auto simp: map_of_eq_None_iff)
    qed
    then show ?thesis using none by simp
  next
    case (Some q)
    obtain as bs where split: "map snd ?g = as @ q # bs"
      and rest: "\<forall>x \<in> set (concat as) \<union> set (concat bs). t_kind x \<noteq> k"
      using groups_split[OF g(1) Some] by blast
    have "filter (\<lambda>t. t_kind t = k) (into_queue f) = filter (\<lambda>t. t_kind t = k) q"
      unfolding into_queue_def split by (rule in_turns_filter[OF rest])
    also have "\<dots> = q"
      using g Some by (auto simp: groups_ok_def intro!: filter_True dest!: map_of_SomeD)
    also have "\<dots> = filter (\<lambda>t. t_kind t = k) (f_queue f)" using g Some by (simp add: group_of_def)
    finally show ?thesis .
  qed
qed

lemma heads_full: "\<forall>q \<in> set qs. q \<noteq> [] \<Longrightarrow> heads qs = map hd qs"
  by (induction qs) (auto simp: heads_def neq_Nil_conv)

lemma first_round:
  assumes "groups_ok g"
  shows "map t_kind (take (length g) (in_turns (map snd g))) = map fst g"
proof -
  have "heads (map snd g) = map (hd \<circ> snd) g"
    using assms by (subst heads_full) (auto simp: groups_ok_def)
  then have "take (length g) (in_turns (map snd g)) = map (hd \<circ> snd) g"
    by (cases "g = []") (simp_all add: in_turns_Cons)
  moreover have "map t_kind (map (hd \<circ> snd) g) = map fst g"
    using assms by (auto simp: groups_ok_def intro: list.set_sel(1))
  ultimately show ?thesis by (simp only:)
qed

lemma set_into_queue [simp]: "set (into_queue f) = set (f_queue f)"
proof -
  have "t \<in> set (into_queue f) \<longleftrightarrow> t \<in> set (f_queue f)" for t
    using arg_cong[OF into_queue_kind[of "t_kind t" f], of "\<lambda>ts. t \<in> set ts"] by simp
  then show ?thesis by blast
qed

lemma keys_into_queue [simp]: "keys_of (into_queue f) = keys_of (f_queue f)"
  by (simp add: keys_of_def)

lemma count_filter: "p t \<Longrightarrow> count (mset (filter p ts)) t = count (mset ts) t"
  by (induction ts) auto

lemma into_queue_mset: "mset (into_queue f) = mset (f_queue f)"
proof (rule multiset_eqI)
  fix t
  have "count (mset (into_queue f)) t = count (mset (filter (\<lambda>u. t_kind u = t_kind t) (into_queue f))) t"
    by (simp add: count_filter)
  also have "\<dots> = count (mset (f_queue f)) t" by (simp add: into_queue_kind count_filter)
  finally show "count (mset (into_queue f)) t = count (mset (f_queue f)) t" .
qed

lemma into_queue_length [simp]: "length (into_queue f) = length (f_queue f)"
  using into_queue_mset by (rule mset_eq_length)

section \<open>Properties\<close>

text \<open>The dispatch order of a frontier keeps the targets of each kind in the order they were queued,
  none lost and none added, and its first round takes one target of every kind the frontier holds
  before any kind has a second.\<close>

theorem into_queue_fair:
  "(\<forall>k. filter (\<lambda>t. t_kind t = k) (into_queue f) = filter (\<lambda>t. t_kind t = k) (f_queue f)) \<and>
   (let first = take (card (t_kind ` set (f_queue f))) (into_queue f)
    in distinct (map t_kind first) \<and> t_kind ` set first = t_kind ` set (f_queue f))"
proof -
  let ?g = "by_kind (f_queue f) []"
  have d: "distinct (map fst ?g)" using by_kind_groups(1) by (simp add: groups_ok_def)
  then have "card (t_kind ` set (f_queue f)) = length ?g"
    using by_kind_groups(3)[of "f_queue f"] by (metis distinct_card length_map list.set_map)
  moreover have "map t_kind (take (length ?g) (into_queue f)) = map fst ?g"
    unfolding into_queue_def by (rule first_round[OF by_kind_groups(1)])
  moreover from this have "t_kind ` set (take (length ?g) (into_queue f)) = t_kind ` set (f_queue f)"
    using by_kind_groups(3)[of "f_queue f"] by (metis list.set_map)
  ultimately show ?thesis using d by (simp add: into_queue_kind)
qed

end
