(* ===== verification/Recursion_Correct.thy ===== *)
theory Recursion_Correct
  imports Recursion_Frontier
begin

text \<open>
  What the crawl guarantees of the lookups it makes. A collector that records what it was asked and what
  it answered is the witness of the lookups; the invariant of the crawl relates its log to the crawl's
  own state at every wave: each lookup is made once and within the budget, and what the answers name is
  visited, queued or still to come unless a bound was recorded.
\<close>

section \<open>The log of a collector\<close>

type_synonym call_log = "(target list \<times> step list) list"

definition recording :: "('c, 'x) collector_scheme \<Rightarrow> ('c \<times> call_log) collector" where
  "recording C =
     \<lparr>collect_batch = (\<lambda>b (c, calls). case collect_batch C b c of (ss, c') \<Rightarrow> (ss, c', calls @ [(b, ss)])),
      may_batch = (\<lambda>b t (c, _). may_batch C b t c),
      on_batch_contract_error = (\<lambda>n (c, calls). (on_batch_contract_error C n c, calls)),
      ask_cancelled = (\<lambda>(c, calls). case ask_cancelled C c of (stop, c') \<Rightarrow> (stop, c', calls)),
      progressed = (\<lambda>p (c, calls). (progressed C p c, calls)),
      unix_now = (\<lambda>(c, _). unix_now C c)\<rparr>"

definition asked :: "call_log \<Rightarrow> target list" where
  "asked calls = concat (map fst calls)"

text \<open>The entities a wave's answers hold; an answer beyond the lookups asked is none.\<close>

definition answered :: "call_log \<Rightarrow> entity list" where
  "answered calls = concat (map (\<lambda>(b, ss). concat (map step_entities (take (length b) ss))) calls)"

lemma asked_simps [simp]: "asked [] = []" "asked (calls @ [(b, ss)]) = asked calls @ b"
  by (simp_all add: asked_def)

lemma answered_simps [simp]:
  "answered [] = []" "answered (calls @ [(b, ss)]) = answered calls @ concat (map step_entities (take (length b) ss))"
  by (simp_all add: answered_def)

lemma recording_simps [simp]:
  "collect_batch (recording C) b cl = (case collect_batch C b (fst cl) of (ss, c') \<Rightarrow> (ss, c', snd cl @ [(b, ss)]))"
  "snd (snd (ask_cancelled (recording C) cl)) = snd cl"
  "snd (progressed (recording C) p cl) = snd cl"
  "snd (on_batch_contract_error (recording C) n cl) = snd cl"
  by (simp_all add: recording_def split: prod.split)

lemma ask_log: "ask_cancelled (recording C) cl = (stop, cl') \<Longrightarrow> snd cl' = snd cl"
  using recording_simps(2)[of C cl] by simp

section \<open>Reducing what was answered\<close>

lemma route_selectors_generation [simp]: "route_selectors R k (e\<lparr>generation := g\<rparr>) fl = route_selectors R k e fl"
proof -
  have "observed_spellings (e\<lparr>generation := g\<rparr>) = observed_spellings e"
    by (auto simp: observed_spellings_def is_observed_def)
  then show ?thesis by (simp add: route_selectors_def Let_def)
qed

lemma expansions_generation [simp]: "expansions R P (e\<lparr>generation := g\<rparr>) = expansions R P e"
  by (simp add: expansions_def has_tag_def cong: option.case_cong if_cong)

text \<open>What reducing the entities \<open>es\<close> does to the state and the next frontier.\<close>

definition reduced ::
  "routing \<Rightarrow> recursion_policy \<Rightarrow> entity list \<Rightarrow> crawl_state \<times> frontier \<Rightarrow> crawl_state \<times> frontier \<Rightarrow> bool"
where
  "reduced R P es = (\<lambda>(st, f) (st', f').
     visited st' = visited st \<and> cancelled st' = cancelled st \<and> generations st' = generations st \<and>
     (resource_limited st \<longrightarrow> resource_limited st') \<and>
     set (f_queue f') \<subseteq> set (f_queue f) \<union> (\<Union>e \<in> set es. set (expansions R P e)) \<and>
     (frontier_ok f \<longrightarrow> frontier_ok f' \<and> keys_of (f_queue f) \<subseteq> keys_of (f_queue f') \<and>
       (below_cap (max_frontier_per_generation P) f \<longrightarrow> below_cap (max_frontier_per_generation P) f') \<and>
       (\<not> resource_limited st' \<longrightarrow>
         (\<forall>e \<in> set es. keys_of (expansions R P e) \<subseteq> set (visited st) \<union> keys_of (f_queue f')))))"

lemma reduced_refl [simp]: "reduced R P [] s s"
  by (simp add: reduced_def split: prod.split)

lemma reduced_trans:
  assumes "reduced R P es s s'" "reduced R P es' s' s''"
  shows "reduced R P (es @ es') s s''"
proof -
  obtain st f st' f' st'' f'' where s: "s = (st, f)" "s' = (st', f')" "s'' = (st'', f'')"
    by (cases s; cases s'; cases s'')
  have a: "set (f_queue f'') \<subseteq> set (f_queue f) \<union> (\<Union>e \<in> set (es @ es'). set (expansions R P e))"
    using assms unfolding s by (auto simp: reduced_def)
  have b: "keys_of (expansions R P e) \<subseteq> set (visited st) \<union> keys_of (f_queue f'')"
    if "frontier_ok f" "\<not> resource_limited st''" "e \<in> set (es @ es')" for e
  proof -
    have "\<not> resource_limited st'" "frontier_ok f'" "visited st' = visited st" "keys_of (f_queue f') \<subseteq> keys_of (f_queue f'')"
      using assms that(1, 2) unfolding s by (auto simp: reduced_def)
    moreover from this have "\<forall>e \<in> set es. keys_of (expansions R P e) \<subseteq> set (visited st) \<union> keys_of (f_queue f')"
      "\<forall>e \<in> set es'. keys_of (expansions R P e) \<subseteq> set (visited st) \<union> keys_of (f_queue f'')"
      using assms that(1, 2) unfolding s by (simp_all add: reduced_def)
    ultimately show ?thesis using that(3) unfolding set_append by blast
  qed
  show ?thesis using assms a b unfolding s by (auto simp: reduced_def)
qed

lemma follow_at_fields [simp]:
  "visited (follow_at k c st) = visited st" "cancelled (follow_at k c st) = cancelled st"
  "generations (follow_at k c st) = generations st" "resource_limited (follow_at k c st) = resource_limited st"
  "dispatches (follow_at k c st) = dispatches st" "entities (follow_at k c st) = entities st"
  by (simp_all add: follow_at_def Let_def)

definition queued ::
  "recursion_policy \<Rightarrow> target list \<Rightarrow> crawl_state \<times> frontier \<Rightarrow> crawl_state \<times> frontier \<Rightarrow> bool"
where
  "queued P ts = (\<lambda>(st, f) (st', f').
     visited st' = visited st \<and> cancelled st' = cancelled st \<and> generations st' = generations st \<and>
     dispatches st' = dispatches st \<and> entities st' = entities st \<and>
     (resource_limited st \<longrightarrow> resource_limited st') \<and>
     set (f_queue f') \<subseteq> set (f_queue f) \<union> set ts \<and>
     (frontier_ok f \<longrightarrow> frontier_ok f' \<and> keys_of (f_queue f) \<subseteq> keys_of (f_queue f') \<and>
       (below_cap (max_frontier_per_generation P) f \<longrightarrow> below_cap (max_frontier_per_generation P) f') \<and>
       (\<not> resource_limited st' \<longrightarrow> keys_of ts \<subseteq> set (visited st) \<union> keys_of (f_queue f'))))"

lemma contains_key_iff: "frontier_ok f \<Longrightarrow> contains_key k f \<longleftrightarrow> k \<in> keys_of (f_queue f)"
  by (simp add: contains_key_def frontier_ok_def)

lemma queue_candidates_queued: "queued P ts (st, f) (queue_candidates P held ts st f)"
proof (induction P held ts st f rule: queue_candidates.induct)
  case (2 P held t ts st f)
  let ?k = "owned_key t"
  consider (seen) "?k \<in> set (visited st)" | (held) "?k \<notin> set (visited st)" "contains_key ?k f"
    | (full) "?k \<notin> set (visited st)" "\<not> contains_key ?k f" "full_for (command (t_kind t)) (max_frontier_per_generation P) f"
    | (new) "?k \<notin> set (visited st)" "\<not> contains_key ?k f" "\<not> full_for (command (t_kind t)) (max_frontier_per_generation P) f"
    by blast
  then show ?case
  proof cases
    case seen
    then show ?thesis using 2(1) by (auto simp: queued_def split: prod.splits)
  next
    case held
    have "queued P ts (follow_at ?k held st, f) (queue_candidates P held ts (follow_at ?k held st) f)"
      using 2(2) held by simp
    then show ?thesis using held by (auto simp: queued_def contains_key_iff split: prod.splits)
  next
    case full
    have "queued P ts (st\<lparr>resource_limited := True\<rparr>, f) (queue_candidates P held ts (st\<lparr>resource_limited := True\<rparr>) f)"
      using 2(3) full by simp
    then show ?thesis using full by (auto simp: queued_def split: prod.splits)
  next
    case new
    have "queued P ts (follow_at ?k held st, push t f) (queue_candidates P held ts (follow_at ?k held st) (push t f))"
      using 2(4) new by simp
    moreover have "set (f_queue (push t f)) \<subseteq> insert t (set (f_queue f))" by (simp add: queue_push subset_insertI)
    ultimately show ?thesis using new frontier_ok_push[of f t] below_cap_push[of "max_frontier_per_generation P" f t]
      by (auto simp: queued_def split: prod.splits)
  qed
qed (simp add: queued_def)

lemma take_entity_reduced:
  "reduced R P [e] s (take_entity R P gen t followed e s) \<and>
   dispatches (fst (take_entity R P gen t followed e s)) = dispatches (fst s)"
proof (cases s)
  case (Pair st f)
  define e' where "e' = e\<lparr>generation := gen\<rparr>"
  define edge where "edge = \<lparr>from_kind = command (t_kind t), from_selector = selector t,
    to_kind = entity_kind_as_str (e_kind e'), to_value = e_value e', edge_generation = gen\<rparr>"
  define held where "held = (case followed of None \<Rightarrow> confidence e' | Some x \<Rightarrow> pivot_held_at e' x)"
  obtain st2 f2 where q: "queue_candidates P held (expansions R P e) (st\<lparr>edges := edges st @ [edge]\<rparr>) f = (st2, f2)"
    by (cases "queue_candidates P held (expansions R P e) (st\<lparr>edges := edges st @ [edge]\<rparr>) f")
  have "expansions R P e' = expansions R P e" by (simp add: e'_def)
  then have take: "take_entity R P gen t followed e s =
      (case (case followed of None \<Rightarrow> (True, e') | Some x \<Rightarrow> forget_pivot_echo e' x) of
        (keep, e'') \<Rightarrow> (if keep then st2\<lparr>entities := entities st2 @ [e'']\<rparr> else st2, f2))"
    using q unfolding held_def edge_def e'_def by (simp add: take_entity_def Pair queue_expansions_def Let_def)
  show ?thesis
    using queue_candidates_queued[of P "expansions R P e" "st\<lparr>edges := edges st @ [edge]\<rparr>" f held]
    unfolding take q by (auto simp: reduced_def queued_def Pair split: prod.split)
qed

lemma take_entities_reduced:
  "reduced R P es s (fold (take_entity R P gen t followed) es s) \<and>
   dispatches (fst (fold (take_entity R P gen t followed) es s)) = dispatches (fst s)"
proof (induction es arbitrary: s)
  case (Cons e es)
  note a = take_entity_reduced[of R P e s gen t followed]
    and b = Cons.IH[of "take_entity R P gen t followed e s"]
  show ?case
    using reduced_trans[OF a[THEN conjunct1] b[THEN conjunct1]] a b by simp
qed simp

lemma take_step_reduced:
  "reduced R P (step_entities s) (st, f) (take_step R P gen t s st f) \<and>
   dispatches (fst (take_step R P gen t s st f)) = dispatches st + 1"
proof -
  let ?st1 = "st\<lparr>dispatches := dispatches st + 1, outcomes := outcomes st @ step_outcomes s\<rparr>"
  let ?fo = "if gen > 0
    then Some (case map_of (followed_at st) (owned_key t) of Some f \<Rightarrow> f | None \<Rightarrow> expand_confidence_floor P) else None"
  have "take_step R P gen t s st f = fold (take_entity R P gen t ?fo) (step_entities s) (?st1, f)"
    by (simp add: take_step_def Let_def)
  then show ?thesis
    using take_entities_reduced[of R P "step_entities s" "(?st1, f)" gen t ?fo]
    by (auto simp: reduced_def split: prod.splits)
qed

lemma take_steps_reduced:
  "length ss = length ts \<Longrightarrow>
   reduced R P (concat (map step_entities ss)) (st, f) (take_steps R P gen ts ss st f) \<and>
   dispatches (fst (take_steps R P gen ts ss st f)) = dispatches st + length ts"
proof (induction ts arbitrary: ss st f)
  case (Cons t ts)
  then obtain s ss' where ss: "ss = s # ss'" "length ss' = length ts" by (cases ss) auto
  obtain st1 f1 where step: "take_step R P gen t s st f = (st1, f1)" by (cases "take_step R P gen t s st f")
  show ?case
    using take_step_reduced[of R P s st f gen t] Cons.IH[OF ss(2), of st1 f1]
      reduced_trans[of R P "step_entities s" "(st, f)" "(st1, f1)"]
    by (simp add: ss step)
qed simp

lemma append_outcome_step [simp]:
  "length (append_outcome x ss) = length ss"
  "concat (map step_entities (append_outcome x ss)) = concat (map step_entities ss)"
proof -
  show "length (append_outcome x ss) = length ss" by (simp add: append_outcome_def)
  have "map step_entities (append_outcome x ss) = map step_entities ss"
    by (cases ss rule: rev_cases) (simp_all add: append_outcome_def)
  then show "concat (map step_entities (append_outcome x ss)) = concat (map step_entities ss)" by (rule arg_cong)
qed

lemma missing_steps_empty: "concat (map step_entities (map (\<lambda>t. missing_batch_step t at_unix) ts)) = []"
  by (induction ts) (simp_all add: missing_batch_step_def)

lemma normalize_batch_answers:
  assumes "normalize_batch (recording C) b ss cl = (ss', cl')"
  shows "length ss' = length b" "concat (map step_entities ss') = concat (map step_entities (take (length b) ss))"
    "snd cl' = snd cl"
  using assms missing_steps_empty unfolding normalize_batch_def Let_def
  by (auto split: if_splits simp: min_def map_append concat_append simp del: map_map)

section \<open>The invariant of the crawl\<close>

definition named :: "routing \<Rightarrow> recursion_policy \<Rightarrow> target list \<Rightarrow> call_log \<Rightarrow> key set" where
  "named R P seeds calls = keys_of seeds \<union> (\<Union>e \<in> set (answered calls). keys_of (expansions R P e))"

definition found_targets :: "routing \<Rightarrow> recursion_policy \<Rightarrow> target list \<Rightarrow> call_log \<Rightarrow> target set" where
  "found_targets R P seeds calls = set seeds \<union> (\<Union>e \<in> set (answered calls). set (expansions R P e))"

text \<open>\<open>b\<close> is the batch being filled and \<open>rem\<close> what the generation has left.\<close>

definition crawl_inv ::
  "routing \<Rightarrow> recursion_policy \<Rightarrow> target list \<Rightarrow> call_log \<Rightarrow> target list \<Rightarrow> crawl_state \<Rightarrow> frontier \<Rightarrow> target list \<Rightarrow> bool"
where
  "crawl_inv R P seeds calls b st f rem \<longleftrightarrow>
     distinct (map owned_key (asked calls @ b)) \<and> keys_of (asked calls @ b) \<subseteq> set (visited st) \<and>
     dispatches st = length (asked calls) \<and> length (asked calls @ b) \<le> max_dispatches P \<and>
     length b \<le> MAX_BATCH \<and> list_all (\<lambda>(b, _). b \<noteq> [] \<and> length b \<le> MAX_BATCH) calls \<and> frontier_ok f \<and>
     set (asked calls @ b) \<union> set (f_queue f) \<union> set rem \<subseteq> found_targets R P seeds calls \<and>
     (\<not> resource_limited st \<longrightarrow>
       set (visited st) = keys_of (asked calls @ b) \<and>
       named R P seeds calls \<subseteq> set (visited st) \<union> keys_of (f_queue f) \<union> keys_of rem)"

lemma visit_fields [simp]:
  "set (visited (visit t st)) = insert (owned_key t) (set (visited st))" "dispatches (visit t st) = dispatches st"
  "resource_limited (visit t st) = resource_limited st" "cancelled (visit t st) = cancelled st"
  "generations (visit t st) = generations st"
  by (simp_all add: visit_def)

lemma inv_cancelled [simp]: "crawl_inv R P seeds calls b (st\<lparr>cancelled := x\<rparr>) f rem = crawl_inv R P seeds calls b st f rem"
  by (simp add: crawl_inv_def)

lemma inv_push: "crawl_inv R P seeds calls b st f rem \<Longrightarrow> crawl_inv R P seeds calls b st (fold push rem f) []"
  using frontier_ok_pushes[of f rem] queue_pushes[of rem f] by (auto simp: crawl_inv_def)

lemma inv_skip:
  "owned_key t \<in> set (visited st) \<Longrightarrow> crawl_inv R P seeds calls b st f (t # rem) \<Longrightarrow> crawl_inv R P seeds calls b st f rem"
  by (auto simp: crawl_inv_def)

lemma inv_join:
  assumes "owned_key t \<notin> set (visited st)" "length b < MAX_BATCH" "dispatches st + length b < max_dispatches P"
    and "crawl_inv R P seeds calls b st f (t # rem)"
  shows "crawl_inv R P seeds calls (b @ [t]) (visit t st) f rem"
  using assms by (auto simp: crawl_inv_def) (auto simp: keys_of_def)

lemma inv_limited:
  "crawl_inv R P seeds calls b st f rem \<Longrightarrow> crawl_inv R P seeds calls b ((visit t st)\<lparr>resource_limited := True\<rparr>) f rem"
  by (auto simp: crawl_inv_def)

lemma inv_collect:
  assumes "crawl_inv R P seeds calls b st f rem" "b \<noteq> []"
    and "length ss' = length b" "concat (map step_entities ss') = concat (map step_entities (take (length b) ss))"
    and "take_steps R P gen b ss' st f = (st', f')"
  shows "crawl_inv R P seeds (calls @ [(b, ss)]) [] st' f' rem"
proof -
  let ?es = "concat (map step_entities ss')"
  have new: "answered (calls @ [(b, ss)]) = answered calls @ ?es" using assms(4) by simp
  have r: "reduced R P ?es (st, f) (st', f')" and d: "dispatches st' = dispatches st + length b"
    using take_steps_reduced[OF assms(3), of R P st f gen] assms(5) by simp_all
  have ok: "frontier_ok f" using assms(1) by (simp add: crawl_inv_def)
  have same: "visited st' = visited st" "resource_limited st \<longrightarrow> resource_limited st'" "frontier_ok f'"
    "keys_of (f_queue f) \<subseteq> keys_of (f_queue f')"
    using r ok by (simp_all add: reduced_def)
  have closed: "named R P seeds (calls @ [(b, ss)]) \<subseteq> set (visited st) \<union> keys_of (f_queue f') \<union> keys_of rem"
    if "\<not> resource_limited st'"
  proof -
    have "\<forall>e \<in> set ?es. keys_of (expansions R P e) \<subseteq> set (visited st) \<union> keys_of (f_queue f')"
      using r ok that by (simp add: reduced_def)
    moreover have "named R P seeds calls \<subseteq> set (visited st) \<union> keys_of (f_queue f) \<union> keys_of rem"
      using that same(2) assms(1) by (auto simp: crawl_inv_def)
    ultimately show ?thesis using same(4) unfolding named_def new set_append UN_Un by blast
  qed
  have "set (f_queue f') \<subseteq> set (f_queue f) \<union> (\<Union>e \<in> set ?es. set (expansions R P e))"
    using r by (simp add: reduced_def)
  moreover have "found_targets R P seeds (calls @ [(b, ss)]) =
      found_targets R P seeds calls \<union> (\<Union>e \<in> set ?es. set (expansions R P e))"
    unfolding found_targets_def new set_append UN_Un by blast
  ultimately have "set (asked calls @ b) \<union> set (f_queue f') \<union> set rem \<subseteq> found_targets R P seeds (calls @ [(b, ss)])"
    using assms(1) unfolding crawl_inv_def by blast
  then show ?thesis
    using assms(1, 2) same closed d unfolding crawl_inv_def by (simp, blast)
qed

lemma fill_batch_inv:
  assumes "fill_batch (recording C) P b rem st f cl = (b', rem', st', f', cl', halted)"
    and "crawl_inv R P seeds (snd cl) b st f rem"
  shows "crawl_inv R P seeds (snd cl') b' st' f' rem' \<and> snd cl' = snd cl \<and> (b \<noteq> [] \<longrightarrow> b' \<noteq> []) \<and>
    dispatches st' = dispatches st \<and> generations st' = generations st \<and>
    (if halted then rem' = [] \<and> (cancelled st' \<or> resource_limited st') else f' = f)"
  using assms
proof (induction "recording C" P b rem st f cl arbitrary: b' rem' st' f' cl' halted rule: fill_batch.induct)
  case (2 P b t rem st f cl)
  obtain stop cl1 where ask: "ask_cancelled (recording C) cl = (stop, cl1)" by (cases "ask_cancelled (recording C) cl")
  note calls = ask_log[OF ask]
  consider (full) "length b \<ge> MAX_BATCH \<or> \<not> may_batch (recording C) b t cl"
    | (stop) "length b < MAX_BATCH" "may_batch (recording C) b t cl" stop
    | (seen) "length b < MAX_BATCH" "may_batch (recording C) b t cl" "\<not> stop" "owned_key t \<in> set (visited st)"
    | (spent) "length b < MAX_BATCH" "may_batch (recording C) b t cl" "\<not> stop" "owned_key t \<notin> set (visited st)"
        "budget_spent P (dispatches st + length b) (visit t st)"
    | (join) "length b < MAX_BATCH" "may_batch (recording C) b t cl" "\<not> stop" "owned_key t \<notin> set (visited st)"
        "\<not> budget_spent P (dispatches st + length b) (visit t st)"
    by (meson not_le)
  then show ?case
  proof cases
    case full
    then show ?thesis using 2(3, 4) by auto
  next
    case stop
    then show ?thesis using 2(3, 4) ask calls inv_push[of R P seeds "snd cl" b st f "t # rem"]
      by (auto simp: Let_def)
  next
    case seen
    then have "fill_batch (recording C) P b rem st f cl1 = (b', rem', st', f', cl', halted)"
      using 2(3) ask by (simp add: Let_def not_le)
    then show ?thesis using 2(1)[OF _ refl ask[symmetric] seen(3)] seen calls inv_skip[OF seen(4) 2(4)] by (auto split: if_splits)
  next
    case spent
    then show ?thesis using 2(3, 4) ask calls inv_push[OF inv_limited, of R P seeds "snd cl" b st f "t # rem" t]
      by (auto simp: Let_def)
  next
    case join
    then have fill: "fill_batch (recording C) P (b @ [t]) rem (visit t st) f cl1 = (b', rem', st', f', cl', halted)"
      using 2(3) ask by (simp add: Let_def not_le)
    have inv: "crawl_inv R P seeds (snd cl1) (b @ [t]) (visit t st) f rem"
      using inv_join[OF join(4, 1) _ 2(4)] join(5) calls by (simp add: budget_spent_def not_le)
    have "crawl_inv R P seeds (snd cl') b' st' f' rem' \<and> snd cl' = snd cl1 \<and> (b @ [t] \<noteq> [] \<longrightarrow> b' \<noteq> []) \<and>
      dispatches st' = dispatches (visit t st) \<and> generations st' = generations (visit t st) \<and>
      (if halted then rem' = [] \<and> (cancelled st' \<or> resource_limited st') else f' = f)"
      by (rule 2(2)[OF _ refl ask[symmetric] join(3) _ join(5) fill inv]) (use join in simp_all)
    then show ?thesis using calls by (auto split: if_splits)
  qed
qed auto

lemma batch_done_inv:
  assumes "batch_done (recording C) gen rem st f cl = (stop, st', f', cl')"
    and "crawl_inv R P seeds (snd cl) [] st f rem"
  shows "crawl_inv R P seeds (snd cl') [] st' f' (if stop then [] else rem) \<and> snd cl' = snd cl \<and>
    dispatches st' = dispatches st \<and> generations st' = generations st \<and>
    (if stop then cancelled st' else st' = st \<and> f' = f) \<and> (resource_limited st \<longrightarrow> resource_limited st')"
proof -
  obtain s cl1 where ask: "ask_cancelled (recording C) (progressed (recording C) (progress_of st gen) cl) = (s, cl1)"
    by (cases "ask_cancelled (recording C) (progressed (recording C) (progress_of st gen) cl)")
  have calls: "snd cl1 = snd cl" using ask_log[OF ask] by simp
  show ?thesis
    using assms(1) inv_push[OF assms(2)] assms(2) calls by (cases s) (auto simp: batch_done_def ask)
qed

definition wave_result ::
  "routing \<Rightarrow> recursion_policy \<Rightarrow> target list \<Rightarrow> crawl_state \<Rightarrow> frontier \<Rightarrow> nat \<Rightarrow>
    crawl_state \<times> frontier \<times> nat \<times> ('c \<times> call_log) \<times> bool \<Rightarrow> bool"
where
  "wave_result R P seeds st f n = (\<lambda>(st', f', n', cl', halted).
     crawl_inv R P seeds (snd cl') [] st' f' [] \<and>
     (if halted then cancelled st' \<or> resource_limited st'
      else below_cap (max_frontier_per_generation P) f \<longrightarrow> below_cap (max_frontier_per_generation P) f') \<and>
     n' + dispatches st = n + dispatches st' \<and> generations st' = generations st)"

lemma waves_inv:
  assumes "crawl_inv R P seeds (snd cl) [] st f rem"
  shows "wave_result R P seeds st f n (waves R (recording C) P gen rem st f n cl)"
  using assms
proof (induction R "recording C" P gen rem st f n cl rule: waves.induct)
  case (2 R P gen t rem st f n cl)
  obtain stop cl1 where ask: "ask_cancelled (recording C) cl = (stop, cl1)" by (cases "ask_cancelled (recording C) cl")
  note calls = ask_log[OF ask]
  consider (stop) stop | (seen) "\<not> stop" "owned_key t \<in> set (visited st)"
    | (spent) "\<not> stop" "owned_key t \<notin> set (visited st)" "budget_spent P (dispatches st) (visit t st)"
    | (new) "\<not> stop" "owned_key t \<notin> set (visited st)" "\<not> budget_spent P (dispatches st) (visit t st)"
    by blast
  then show ?case
  proof cases
    case stop
    then show ?thesis using inv_push[OF 2(3)] calls by (simp add: ask wave_result_def)
  next
    case seen
    have "wave_result R P seeds st f n (waves R (recording C) P gen rem st f n cl1)"
      by (rule 2(1)[OF refl ask[symmetric] seen(1)]) (use seen calls inv_skip[OF seen(2) 2(3)] in simp_all)
    then show ?thesis using seen by (simp add: ask)
  next
    case spent
    then show ?thesis using inv_push[OF inv_limited[OF 2(3)], of t] calls by (simp add: ask wave_result_def)
  next
    case new
    have start: "crawl_inv R P seeds (snd cl1) [t] (visit t st) f rem"
      using inv_join[OF new(2) _ _ 2(3)] new(3) calls by (simp add: budget_spent_def not_le MAX_BATCH_def)
    obtain b rem' st2 f2 cl2 halted where
      fill: "fill_batch (recording C) P [t] rem (visit t st) f cl1 = (b, rem', st2, f2, cl2, halted)"
      by (cases "fill_batch (recording C) P [t] rem (visit t st) f cl1") auto
    note filled = fill_batch_inv[OF fill start]
    obtain ss cl3 where collect: "collect_batch (recording C) b cl2 = (ss, cl3)"
      by (cases "collect_batch (recording C) b cl2")
    have calls3: "snd cl3 = snd cl2 @ [(b, ss)]" using collect by (auto split: prod.splits)
    obtain ss' cl4 where norm: "normalize_batch (recording C) b ss cl3 = (ss', cl4)"
      by (cases "normalize_batch (recording C) b ss cl3")
    note answers = normalize_batch_answers[OF norm]
    obtain st3 f3 where take: "take_steps R P gen b ss' st2 f2 = (st3, f3)" by (cases "take_steps R P gen b ss' st2 f2")
    have collected: "crawl_inv R P seeds (snd cl4) [] st3 f3 rem'"
      using inv_collect[OF filled[THEN conjunct1] _ answers(1, 2) take] filled calls3 answers(3) by simp
    obtain stop' st4 f4 cl5 where ended: "batch_done (recording C) gen rem' st3 f3 cl4 = (stop', st4, f4, cl5)"
      by (cases "batch_done (recording C) gen rem' st3 f3 cl4") auto
    note finished = batch_done_inv[OF ended collected]
    have taken: "reduced R P (concat (map step_entities ss')) (st2, f2) (st3, f3)" "dispatches st3 = dispatches st2 + length b"
      using take_steps_reduced[OF answers(1), of R P st2 f2 gen] take by simp_all
    have ok: "frontier_ok f2" using filled by (simp add: crawl_inv_def)
    have eq: "waves R (recording C) P gen (t # rem) st f n cl =
        (if halted \<or> stop' then (st4, f4, n + length b, cl5, True)
         else waves R (recording C) P gen rem' st4 f4 (n + length b) cl5)"
      using new by (simp add: ask fill collect norm take ended del: recording_simps)
    show ?thesis
    proof (cases "halted \<or> stop'")
      case True
      then show ?thesis
        using filled finished taken unfolding eq wave_result_def by (auto simp: reduced_def split: if_splits)
    next
      case False
      have "wave_result R P seeds st4 f4 (n + length b) (waves R (recording C) P gen rem' st4 f4 (n + length b) cl5)"
        by (rule 2(2)[OF refl ask[symmetric] new(1) _ new(3) fill[symmetric] refl refl refl refl refl
            collect[symmetric]
            refl norm[symmetric] refl take[symmetric] refl ended[symmetric] refl refl])
          (use new(2) False finished[THEN conjunct1] in simp_all)
      moreover have "generations st4 = generations st" "dispatches st4 = dispatches st + length b" "f2 = f" "f4 = f3"
        using False filled finished taken by (simp_all add: reduced_def)
      moreover from this have "below_cap (max_frontier_per_generation P) f \<longrightarrow> below_cap (max_frontier_per_generation P) f4"
        using taken(1) ok by (simp add: reduced_def)
      moreover have "waves R (recording C) P gen (t # rem) st f n cl = waves R (recording C) P gen rem' st4 f4 (n + length b) cl5"
        using eq False by (simp only: if_False simp_thms)
      ultimately show ?thesis by (auto simp: wave_result_def simp del: waves.simps split: prod.splits if_splits)
    qed
  qed
qed (simp add: wave_result_def)

lemma step_generation_inv:
  assumes "crawl_inv R P seeds (snd cl) [] st frontier_new targets"
    and "step_generation R (recording C) P gen targets st cl = (next_t, halted, st', cl')"
  shows "crawl_inv R P seeds (snd cl') [] st' frontier_new next_t \<and>
    (halted \<longrightarrow> cancelled st' \<or> resource_limited st') \<and>
    (\<not> halted \<longrightarrow> length next_t \<le> max_frontier_per_generation P \<and>
      (\<forall>k. length (of_kind k next_t) \<le> kind_cap (max_frontier_per_generation P))) \<and>
    (\<exists>s. generations st' = generations st @ [s] \<and> stat_generation s = gen \<and>
      dispatches st' = dispatches st + dispatched s)"
proof -
  obtain st1 f1 n cl1 h where w: "waves R (recording C) P gen targets st frontier_new 0 cl = (st1, f1, n, cl1, h)"
    by (cases "waves R (recording C) P gen targets st frontier_new 0 cl") auto
  let ?s = "\<lparr>stat_generation = gen, dispatched = n, entities_after = length (merge_by_uid (json_document R) (entities st1))\<rparr>"
  have st': "next_t = into_queue f1" "halted = h" "cl' = cl1"
    "st' = st1\<lparr>entities := merge_by_uid (json_document R) (entities st1), generations := generations st1 @ [?s]\<rparr>"
    using assms(2) w by (simp_all add: step_generation_def Let_def)
  have res: "crawl_inv R P seeds (snd cl1) [] st1 f1 []"
    "if h then cancelled st1 \<or> resource_limited st1 else below_cap (max_frontier_per_generation P) f1"
    "n + dispatches st = dispatches st1" "generations st1 = generations st"
    using waves_inv[OF assms(1), of 0 C gen] w by (simp_all add: wave_result_def)
  have "length (of_kind k (into_queue f1)) = length (of_kind k (f_queue f1))" for k
  proof (cases "\<exists>c. command c = k")
    case True
    then obtain c where "command c = k" by (elim exE)
    then have "of_kind k ts = filter (\<lambda>t. t_kind t = c) ts" for ts
      unfolding of_kind_def by (metis (mono_tags, lifting) command_inj)
    then show ?thesis by (simp add: into_queue_kind)
  next
    case False
    then have "of_kind k ts = []" for ts by (simp add: of_kind_def filter_empty_conv)
    then show ?thesis by simp
  qed
  moreover have "length (into_queue f1) = length (f_queue f1)"
    by (rule into_queue_length)
  ultimately show ?thesis
    using res by (auto simp: st' crawl_inv_def frontier_ok_def[of f1] below_cap_def)
qed

lemma crawl_loop_inv:
  assumes "crawl_inv R P seeds (snd cl) [] st frontier_new targets"
    and "crawl_loop R (recording C) P gen targets st cl = (left, st', cl', deep)"
  shows "crawl_inv R P seeds (snd cl') [] st' frontier_new left \<and>
    (\<not> deep \<and> \<not> cancelled st' \<and> \<not> resource_limited st' \<longrightarrow> left = []) \<and>
    length (generations st') \<le> length (generations st) + (max_generations P + 1 - gen) \<and>
    dispatches st' + sum_list (map dispatched (generations st)) =
      dispatches st + sum_list (map dispatched (generations st'))"
  using assms
proof (induction R "recording C" P gen targets st cl arbitrary: left st' cl' deep rule: crawl_loop.induct)
  case (1 R P gen targets st cl)
  consider (done1) "targets = []" | (deep1) "targets \<noteq> []" "gen > max_generations P"
    | (more) "targets \<noteq> []" "\<not> gen > max_generations P" by blast
  then show ?case
  proof cases
    case more
    obtain next_t halted st1 cl1 where
      gen: "step_generation R (recording C) P gen targets st cl = (next_t, halted, st1, cl1)"
      by (cases "step_generation R (recording C) P gen targets st cl") auto
    note one = step_generation_inv[OF 1(2) gen]
    show ?thesis
    proof (cases halted)
      case True
      then show ?thesis using one 1(3) more gen by (auto simp: crawl_loop.simps[of R "recording C" P gen])
    next
      case False
      then have "crawl_loop R (recording C) P (gen + 1) next_t st1 cl1 = (left, st', cl', deep)"
        using 1(3) more gen by (simp add: crawl_loop.simps[of R "recording C" P gen])
      then show ?thesis
        using 1(1)[OF more refl gen[symmetric] refl refl False] one more by auto
    qed
  qed (use 1 in \<open>auto simp: crawl_loop.simps[of R "recording C" P gen]\<close>)
qed

section \<open>Recording changes nothing\<close>

lemma recording_more:
  "may_batch (recording C) b t cl = may_batch C b t (fst cl)"
  "ask_cancelled C (fst cl) = map_prod id fst (ask_cancelled (recording C) cl)"
  "progressed C p (fst cl) = fst (progressed (recording C) p cl)"
  "collect_batch C b (fst cl) = map_prod id fst (collect_batch (recording C) b cl)"
  "on_batch_contract_error C n (fst cl) = fst (on_batch_contract_error (recording C) n cl)"
  "unix_now C (fst cl) = unix_now (recording C) cl"
  by (cases cl; simp add: recording_def split: prod.split)+

lemma normalize_batch_recording:
  "normalize_batch C b ss (fst cl) = map_prod id fst (normalize_batch (recording C) b ss cl)"
  by (simp add: normalize_batch_def recording_more Let_def)

lemma fill_batch_recording:
  "fill_batch C P b rem st f (fst cl) =
     (case fill_batch (recording C) P b rem st f cl of (b', rem', st', f', cl', h) \<Rightarrow> (b', rem', st', f', fst cl', h))"
proof (induction "recording C" P b rem st f cl rule: fill_batch.induct)
  case (2 P b t rem st f cl)
  obtain stop cl1 where ask: "ask_cancelled (recording C) cl = (stop, cl1)" by (cases "ask_cancelled (recording C) cl")
  then have ask': "ask_cancelled C (fst cl) = (stop, fst cl1)" by (simp add: recording_more)
  note may = recording_more(1)[of C b t cl]
  note seen = 2(1)[OF _ refl ask[symmetric]] and new = 2(2)[OF _ refl ask[symmetric]]
  show ?case
  proof (cases "length b \<ge> MAX_BATCH \<or> \<not> may_batch C b t (fst cl) \<or> stop")
    case True
    then show ?thesis using ask ask' may by (auto simp: Let_def)
  next
    case False
    then show ?thesis
      using seen new may by (cases "owned_key t \<in> set (visited st)") (simp_all add: ask ask' Let_def)
  qed
qed simp

lemma batch_done_recording:
  "batch_done C gen rem st f (fst cl) =
     (case batch_done (recording C) gen rem st f cl of (stop, st', f', cl') \<Rightarrow> (stop, st', f', fst cl'))"
  by (simp add: batch_done_def recording_more Let_def split: prod.split)

lemma waves_recording:
  "waves R C P gen rem st f n (fst cl) =
     (case waves R (recording C) P gen rem st f n cl of (st', f', n', cl', h) \<Rightarrow> (st', f', n', fst cl', h))"
proof (induction R "recording C" P gen rem st f n cl rule: waves.induct)
  case (2 R P gen t rem st f n cl)
  obtain stop cl1 where ask: "ask_cancelled (recording C) cl = (stop, cl1)" by (cases "ask_cancelled (recording C) cl")
  then have ask': "ask_cancelled C (fst cl) = (stop, fst cl1)" by (simp add: recording_more)
  consider (easy) "stop \<or> owned_key t \<notin> set (visited st) \<and> budget_spent P (dispatches st) (visit t st)"
    | (seen) "\<not> stop" "owned_key t \<in> set (visited st)"
    | (new) "\<not> stop" "owned_key t \<notin> set (visited st)" "\<not> budget_spent P (dispatches st) (visit t st)"
    by blast
  then show ?case
  proof cases
    case easy
    then show ?thesis by (auto simp: ask ask')
  next
    case seen
    then show ?thesis using 2(1)[OF refl ask[symmetric]] by (simp add: ask ask')
  next
    case new
    obtain b rem' st2 f2 cl2 halted where
      fill: "fill_batch (recording C) P [t] rem (visit t st) f cl1 = (b, rem', st2, f2, cl2, halted)"
      by (cases "fill_batch (recording C) P [t] rem (visit t st) f cl1") auto
    obtain ss cl3 where collect: "collect_batch (recording C) b cl2 = (ss, cl3)"
      by (cases "collect_batch (recording C) b cl2")
    obtain ss' cl4 where norm: "normalize_batch (recording C) b ss cl3 = (ss', cl4)"
      by (cases "normalize_batch (recording C) b ss cl3")
    obtain st3 f3 where take: "take_steps R P gen b ss' st2 f2 = (st3, f3)" by (cases "take_steps R P gen b ss' st2 f2")
    obtain stop' st4 f4 cl5 where ended: "batch_done (recording C) gen rem' st3 f3 cl4 = (stop', st4, f4, cl5)"
      by (cases "batch_done (recording C) gen rem' st3 f3 cl4") auto
    have "fill_batch C P [t] rem (visit t st) f (fst cl1) = (b, rem', st2, f2, fst cl2, halted)"
      "collect_batch C b (fst cl2) = (ss, fst cl3)" "normalize_batch C b ss (fst cl3) = (ss', fst cl4)"
      "batch_done C gen rem' st3 f3 (fst cl4) = (stop', st4, f4, fst cl5)"
      using fill collect norm ended
      by (simp_all add: fill_batch_recording recording_more normalize_batch_recording batch_done_recording
        del: recording_simps)
    moreover have "\<not> halted \<and> \<not> stop' \<Longrightarrow> waves R C P gen rem' st4 f4 (n + length b) (fst cl5) =
        (case waves R (recording C) P gen rem' st4 f4 (n + length b) cl5 of (st', f', n', cl', h) \<Rightarrow> (st', f', n', fst cl', h))"
      by (rule 2(2)[OF refl ask[symmetric] new(1) _ new(3) fill[symmetric] refl refl refl refl refl
            collect[symmetric] refl norm[symmetric] refl take[symmetric] refl ended[symmetric] refl refl])
        (use new(2) in simp_all)
    ultimately show ?thesis
      using new by (simp add: ask ask' fill collect norm take ended del: recording_simps)
  qed
qed simp

lemma crawl_loop_recording:
  "crawl_loop R C P gen ts st (fst cl) =
     (case crawl_loop R (recording C) P gen ts st cl of (left, st', cl', deep) \<Rightarrow> (left, st', fst cl', deep))"
proof (induction R "recording C" P gen ts st cl rule: crawl_loop.induct)
  case (1 R P gen ts st cl)
  obtain next_t halted st1 cl1 where
    gen: "step_generation R (recording C) P gen ts st cl = (next_t, halted, st1, cl1)"
    by (cases "step_generation R (recording C) P gen ts st cl") auto
  then have "step_generation R C P gen ts st (fst cl) = (next_t, halted, st1, fst cl1)"
    by (auto simp: step_generation_def waves_recording Let_def split: prod.splits)
  then show ?case
    using 1(1)[OF _ _ refl gen[symmetric] refl refl]
    by (simp add: crawl_loop.simps[of R C P gen] crawl_loop.simps[of R "recording C" P gen] gen)
qed

lemma crawl_recording: "crawl R C P acc rej ts (fst cl) = map_prod id fst (crawl R (recording C) P acc rej ts cl)"
  by (simp add: crawl_def crawl_loop_recording Let_def split: prod.split)

lemma crawl_inv_start: "crawl_inv R P ts [] [] crawl_state_new frontier_new ts"
  by (simp add: crawl_inv_def crawl_state_new_def named_def found_targets_def)

section \<open>The echo of a pivot\<close>

definition pivot_kept :: "nat \<Rightarrow> f64 \<Rightarrow> entity \<Rightarrow> entity option" where
  "pivot_kept gen followed e =
     (case forget_pivot_echo (e\<lparr>generation := gen\<rparr>) followed of (keep, e') \<Rightarrow> if keep then Some e' else None)"

lemma entities_take_entity:
  "entities (fst (take_entity R P gen t (Some x) e s)) =
     entities (fst s) @ (case pivot_kept gen x e of Some e' \<Rightarrow> [e'] | None \<Rightarrow> [])"
proof (cases s)
  case (Pair st f)
  have "entities (fst (queue_candidates P held ts st' f')) = entities st'" for held ts st' f'
    using queue_candidates_queued[of P ts st' f' held] by (auto simp: queued_def split: prod.splits)
  note kept = this[of "pivot_held_at (e\<lparr>generation := gen\<rparr>) x" "expansions R P e"]
  show ?thesis
    by (simp add: Pair take_entity_def queue_expansions_def pivot_kept_def Let_def case_prod_beta kept)
qed

lemma entities_take_entities:
  "entities (fst (fold (take_entity R P gen t (Some x)) es s)) = entities (fst s) @ List.map_filter (pivot_kept gen x) es"
  by (induction es arbitrary: s) (auto simp: entities_take_entity map_filter_simps split: option.split)

text \<open>What the crawl keeps of an entity a pivot's lookup returned.\<close>

definition echo_free :: "nat \<Rightarrow> f64 \<Rightarrow> entity \<Rightarrow> entity \<Rightarrow> bool" where
  "echo_free gen followed e e' \<longleftrightarrow>
     (if list_ex is_operator_seed (e_evidence e)
      then uid e' = uid e \<and> e_value e' = e_value e \<and> generation e' = gen \<and>
        e_evidence e' = filter (\<lambda>v. \<not> is_operator_seed v) (e_evidence e) \<and> \<not> has_tag ''seed'' e' \<and>
        confidence e' = f64_min (confidence e) followed \<and>
        1 \<le> corroboration e' \<and> corroboration e' \<le> max (corroboration e) 1
      else e' = e\<lparr>generation := gen\<rparr>)"

definition only_echo :: "entity \<Rightarrow> bool" where
  "only_echo e \<longleftrightarrow> e_evidence e \<noteq> [] \<and> list_all is_operator_seed (e_evidence e)"

lemma pivot_kept_echo_free:
  "case pivot_kept gen x e of Some e' \<Rightarrow> \<not> only_echo e \<and> echo_free gen x e e' | None \<Rightarrow> only_echo e"
proof (cases "list_ex is_operator_seed (e_evidence e)")
  case True
  then have "e_evidence e \<noteq> []" by auto
  moreover have "filter (\<lambda>v. \<not> is_operator_seed v) (e_evidence e) = [] \<longleftrightarrow> list_all is_operator_seed (e_evidence e)"
    by (simp add: filter_empty_conv list_all_iff)
  ultimately show ?thesis
    using True by (simp add: pivot_kept_def forget_pivot_echo_def pivot_held_at_def echo_free_def only_echo_def
      has_tag_def Let_def max.coboundedI1)
next
  case False
  then have "\<not> only_echo e" by (cases "e_evidence e") (auto simp: only_echo_def)
  then show ?thesis using False by (simp add: pivot_kept_def forget_pivot_echo_def echo_free_def)
qed

lemma pivots_kept_echo_free:
  "list_all2 (echo_free gen x) (filter (\<lambda>e. \<not> only_echo e) es) (List.map_filter (pivot_kept gen x) es)"
proof (induction es)
  case (Cons e es)
  then show ?case using pivot_kept_echo_free[of e gen x] by (auto simp: map_filter_simps split: option.splits)
qed (simp add: map_filter_simps)

section \<open>Properties\<close>

text \<open>C3: Whatever the collector answers, a crawl looks every target up at most once, never more than the
  budget of lookups and never more than two at a time; it counts exactly the lookups it made, for each
  generation and in all, runs at most one generation more than the depth bound, and recording its calls
  does not change its report.\<close>

theorem crawl_dispatches_once:
  "let (rep, c', calls) = crawl R (recording C) P acc rej ts (c, [])
   in crawl R C P acc rej ts c = (rep, c') \<and>
     distinct (map owned_key (asked calls)) \<and> length (asked calls) = r_dispatches rep \<and>
     r_dispatches rep \<le> max_dispatches P \<and>
     list_all (\<lambda>(batch, _). batch \<noteq> [] \<and> length batch \<le> MAX_BATCH) calls \<and>
     length (r_generations rep) \<le> max_generations P + 1 \<and>
     sum_list (map dispatched (r_generations rep)) = r_dispatches rep"
proof -
  obtain left st c' calls deep where
    loop: "crawl_loop R (recording C) P 0 ts crawl_state_new (c, []) = (left, st, (c', calls), deep)"
    by (cases "crawl_loop R (recording C) P 0 ts crawl_state_new (c, [])") auto
  obtain rep where rep: "crawl R (recording C) P acc rej ts (c, []) = (rep, c', calls)"
    and fields: "r_dispatches rep = dispatches st" "r_generations rep = generations st"
    by (simp add: crawl_def loop Let_def)
  have "crawl R C P acc rej ts c = (rep, c')"
    using crawl_recording[of R C P acc rej ts "(c, [])"] rep by simp
  moreover have "generations crawl_state_new = []" "dispatches crawl_state_new = 0" by (simp_all add: crawl_state_new_def)
  moreover note crawl_loop_inv[OF _ loop, of ts, simplified, OF crawl_inv_start]
  ultimately show ?thesis
    unfolding rep by (simp add: fields crawl_inv_def)
qed

text \<open>C2: A crawl whose report is not marked truncated is closed: it ends as a fixed point, and it looked up
  every seed and every target that any entity its lookups returned expands into, whether or not the
  entity was kept.\<close>

theorem crawl_fixed_point_closed:
  assumes "crawl R (recording C) P acc rej ts (c, []) = (rep, c', calls)" and "\<not> truncated rep"
  shows "r_termination rep = FixedPoint \<and> keys_of ts \<subseteq> keys_of (asked calls) \<and>
    (\<forall>e \<in> set (answered calls). keys_of (expansions R P e) \<subseteq> keys_of (asked calls))"
proof -
  obtain left st cl deep where
    loop: "crawl_loop R (recording C) P 0 ts crawl_state_new (c, []) = (left, st, cl, deep)"
    by (cases "crawl_loop R (recording C) P 0 ts crawl_state_new (c, [])") auto
  note inv = crawl_loop_inv[OF _ loop, of ts, simplified, OF crawl_inv_start]
  have cl: "cl = (c', calls)" and clear: "\<not> resource_limited st" "\<not> deep" "\<not> cancelled st"
    using assms by (auto simp: crawl_def loop Let_def)
  then have "left = []" using inv by simp
  then have "named R P ts calls \<subseteq> keys_of (asked calls)"
    using inv clear \<open>left = []\<close> by (auto simp: crawl_inv_def cl)
  moreover have "r_termination rep = FixedPoint"
    using assms(1) \<open>left = []\<close> clear
    by (auto simp: crawl_def loop Let_def decide_termination_def is_fixed_point_def frontier_default_def signals_default_def)
  ultimately show ?thesis by (auto simp: named_def)
qed

lemma expansions_admissible:
  assumes "t \<in> set (expansions R P e)"
  shows "\<not> has_tag NAME_SEARCH_LEAD e \<and> \<not> f64_less (confidence e) (expand_confidence_floor P) \<and>
    (e_kind e = entity_kind.Email \<longrightarrow> names_a_mailbox_holder R (e_value e)) \<and>
    (Some (t_kind t) = expansion_kind (e_kind e) \<or>
     t_kind t = Exposure \<and> e_kind e = entity_kind.Email \<and> expose_emails P)"
  using assms by (auto simp: expansions_def Let_def split: if_splits option.splits)

definition admitted_by :: "routing \<Rightarrow> recursion_policy \<Rightarrow> target \<Rightarrow> entity \<Rightarrow> bool" where
  "admitted_by R P t e \<longleftrightarrow>
     List.member (expansions R P e) t \<and> \<not> has_tag NAME_SEARCH_LEAD e \<and>
     \<not> f64_less (confidence e) (expand_confidence_floor P) \<and>
     (e_kind e = entity_kind.Email \<longrightarrow> names_a_mailbox_holder R (e_value e)) \<and>
     (Some (t_kind t) = expansion_kind (e_kind e) \<or>
      t_kind t = Exposure \<and> e_kind e = entity_kind.Email \<and> expose_emails P)"

text \<open>C7: A crawl looks up nothing it was not given or did not find: each target is a seed, or the expansion of
  an entity an earlier answer held, on that entity's own route, whose confidence reaches the floor, which
  no bare name search led to, and which, when it is an e-mail, names the holder of a mailbox.\<close>

theorem crawl_follows_what_it_found:
  "let (rep, c', calls) = crawl R (recording C) P acc rej ts (c, [])
   in list_all (\<lambda>t. List.member ts t \<or> list_ex (admitted_by R P t) (answered calls)) (asked calls)"
proof -
  obtain left st c' calls deep where
    loop: "crawl_loop R (recording C) P 0 ts crawl_state_new (c, []) = (left, st, (c', calls), deep)"
    by (cases "crawl_loop R (recording C) P 0 ts crawl_state_new (c, [])") auto
  have "set (asked calls) \<subseteq> found_targets R P ts calls"
    using crawl_loop_inv[OF _ loop, of ts, simplified, OF crawl_inv_start] by (auto simp: crawl_inv_def)
  moreover have "snd (snd (crawl R (recording C) P acc rej ts (c, []))) = calls"
    by (simp add: crawl_def loop Let_def)
  ultimately show ?thesis
    using expansions_admissible[of _ R P]
    by (fastforce simp: found_targets_def list_all_iff list_ex_iff admitted_by_def split: prod.split)
qed

text \<open>C40: What a pivot's lookup returns is kept without the lookup's echo of its selector: an entity that held
  an echo is kept with the sources' records alone, without the operator's tag, never above the confidence
  the crawl followed the pivot at and with at least one observation; one that held nothing but its echo is
  dropped, and every other entity is kept as it was returned.\<close>

theorem pivot_echo_forgotten:
  "\<exists>kept. entities (fst (take_step R P (Suc gen) t s st f)) = entities st @ kept \<and>
     list_all2
       (echo_free (Suc gen)
         (case map_of (followed_at st) (owned_key t) of Some x \<Rightarrow> x | None \<Rightarrow> expand_confidence_floor P))
       (filter (\<lambda>e. \<not> only_echo e) (step_entities s)) kept"
  by (rule exI, rule conjI[OF _ pivots_kept_echo_free])
    (simp add: take_step_def Let_def entities_take_entities)

text \<open>A crawl of one handle whose lookup names two addresses.\<close>

definition plain_routing :: routing where
  "plain_routing =
     \<lparr>canonical_selector = \<lambda>_ s. Some s, infer_kind = \<lambda>_. scan_kind.Username, is_infrastructure_email = \<lambda>_. False,
      is_noreply_email_domain = \<lambda>_. False, normalise_value = \<lambda>_ s. s, json_document = \<lambda>_. False\<rparr>"

definition bare_entity :: "entity_kind \<Rightarrow> str \<Rightarrow> entity" where
  "bare_entity k v =
     \<lparr>uid = v, e_kind = k, e_value = v, raw_value = v, confidence = Fin 1, corroboration = 1, e_observed_at = 0,
      e_evidence = [], tags = [], e_scan_id = [], generation = 0, spellings = []\<rparr>"

definition scripted :: "(target \<Rightarrow> entity list) \<Rightarrow> unit collector" where
  "scripted answer =
     \<lparr>collect_batch = \<lambda>ts c. (map (\<lambda>t. \<lparr>step_entities = answer t, step_outcomes = []\<rparr>) ts, c),
      may_batch = \<lambda>_ _ _. True, on_batch_contract_error = \<lambda>_ c. c, ask_cancelled = \<lambda>c. (False, c),
      progressed = \<lambda>_ c. c, unix_now = \<lambda>_. 0\<rparr>"

definition ada :: target where
  "ada = \<lparr>t_kind = scan_kind.Username, selector = ''ada''\<rparr>"

definition two_hosts :: "target \<Rightarrow> entity list" where
  "two_hosts t =
     (if t_kind t = scan_kind.Username then [bare_entity IpAddress ''192.0.2.1'', bare_entity IpAddress ''192.0.2.2''] else [])"

definition ada_crawl :: "recursion_policy \<Rightarrow> recursion_report \<times> unit \<times> call_log" where
  "ada_crawl P = crawl plain_routing (recording (scripted two_hosts)) P [ada] [] [ada] ((), [])"

lemma crawl_fixed_point_closed_witness:
  "case ada_crawl recursion_policy_default of (rep, c', calls) \<Rightarrow>
     r_termination rep = FixedPoint \<and> keys_of [ada] \<subseteq> keys_of (asked calls) \<and> length (asked calls) = 3"
proof -
  obtain rep c' calls where run: "ada_crawl recursion_policy_default = (rep, c', calls)"
    by (cases "ada_crawl recursion_policy_default") auto
  have "case ada_crawl recursion_policy_default of (rep, c', calls) \<Rightarrow> \<not> truncated rep \<and> length (asked calls) = 3"
    by code_simp
  then have "\<not> truncated rep" "length (asked calls) = 3" unfolding run by simp_all
  then show ?thesis
    using crawl_fixed_point_closed[OF run[unfolded ada_crawl_def]] unfolding run by simp
qed

text \<open>A target dropped because the next generation is full is recorded only in the report's truncated
  mark: when the rest of the frontier is then followed to its end the crawl reports a fixed point, with an
  address its own lookups named never looked up.\<close>

theorem full_frontier_reported_as_convergence:
  "case ada_crawl (recursion_policy_default\<lparr>max_frontier_per_generation := 1\<rparr>) of (rep, c', calls) \<Rightarrow>
     r_termination rep = FixedPoint \<and> truncated rep \<and>
     list_ex (\<lambda>e. list_ex (\<lambda>t. \<not> List.member (map owned_key (asked calls)) (owned_key t))
       (expansions plain_routing recursion_policy_default e)) (answered calls)"
  by code_simp

end
