(* ===== verification/Pivot_Links.thy ===== *)
theory Pivot_Links
  imports Recursion
begin

text \<open>
  \<open>lineage_links\<close> of \<open>src/recursion.rs\<close>: the crawl's lineage as links between the entities it kept. The maps
  keep the first entity of a key; the property states the links by a plain search of the entities.
\<close>

record lineage_link =
  from_uid :: str
  to_uid :: str
  link_confidence :: f64

text \<open>\<open>entry(key).or_insert(value)\<close>\<close>

definition put_new :: "'k \<Rightarrow> 'v \<Rightarrow> ('k \<times> 'v) list \<Rightarrow> ('k \<times> 'v) list" where
  "put_new k v m = (if map_of m k = None then (k, v) # m else m)"

definition from_identity :: "routing \<Rightarrow> pivot_edge \<Rightarrow> str" where
  "from_identity R edge =
     (case parse_kind (from_kind edge) of
        Inl _ \<Rightarrow> from_selector edge
      | Inr k \<Rightarrow> selector_identity R k (from_selector edge))"

text \<open>The routes an entity answers to: its expansion, and the exposure lookup of an e-mail.\<close>

definition routes_of :: "routing \<Rightarrow> entity \<Rightarrow> key list" where
  "routes_of R e =
     (case expansion_kind (e_kind e) of
        None \<Rightarrow> []
      | Some k \<Rightarrow>
          (case canonical_selector R k (e_value e) of
             None \<Rightarrow> []
           | Some s \<Rightarrow> [(command k, selector_identity R k s)])) @
     (if e_kind e = entity_kind.Email
      then (case canonical_selector R Exposure (e_value e) of None \<Rightarrow> [] | Some s \<Rightarrow> [(command Exposure, s)])
      else [])"

type_synonym link_index = "(key \<times> str) list \<times> (key \<times> str) list \<times> (str \<times> f64) list"

definition index_entity :: "routing \<Rightarrow> entity \<Rightarrow> link_index \<Rightarrow> link_index" where
  "index_entity R e = (\<lambda>(by_value, by_route, conf).
     (put_new (entity_kind_as_str (e_kind e), e_value e) (uid e) by_value,
      fold (\<lambda>k. put_new k (uid e)) (routes_of R e) by_route,
      put_new (uid e) (confidence e) conf))"

definition link_of :: "routing \<Rightarrow> link_index \<Rightarrow> pivot_edge \<Rightarrow> lineage_link option" where
  "link_of R = (\<lambda>(by_value, by_route, conf) edge.
     (case map_of by_route (from_kind edge, from_identity R edge) of
        None \<Rightarrow> None
      | Some from_u \<Rightarrow>
          (case map_of by_value (to_kind edge, to_value edge) of
             None \<Rightarrow> None
           | Some to_u \<Rightarrow>
               if from_u = to_u then None
               else Some \<lparr>from_uid = from_u, to_uid = to_u,
                          link_confidence = (case map_of conf to_u of Some c \<Rightarrow> c | None \<Rightarrow> Fin 0)\<rparr>)))"

definition same_link :: "lineage_link \<Rightarrow> lineage_link \<Rightarrow> bool" where
  "same_link a b \<longleftrightarrow> from_uid a = from_uid b \<and> to_uid a = to_uid b \<and> f64_eq (link_confidence a) (link_confidence b)"

text \<open>\<open>Vec::dedup\<close>\<close>

fun dedup_links :: "lineage_link list \<Rightarrow> lineage_link list" where
  "dedup_links (a # b # ls) = (if same_link a b then dedup_links (a # ls) else a # dedup_links (b # ls))"
| "dedup_links ls = ls"

definition link_pair :: "lineage_link \<Rightarrow> str \<times> str" where
  "link_pair l = (from_uid l, to_uid l)"

definition lineage_links :: "routing \<Rightarrow> recursion_report \<Rightarrow> lineage_link list" where
  "lineage_links R rep =
     (let ix = fold (index_entity R) (r_entities rep) ([], [], [])
      in dedup_links (sort_key link_pair (List.map_filter (link_of R ix) (r_edges rep))))"

section \<open>The index\<close>

definition first_uid :: "(entity \<Rightarrow> bool) \<Rightarrow> entity list \<Rightarrow> str option" where
  "first_uid p es = map_option uid (List.find p es)"

lemma map_of_put_new: "map_of (put_new k v m) k' = (if map_of m k' = None \<and> k' = k then Some v else map_of m k')"
  by (auto simp: put_new_def)

lemma map_of_put_news:
  "map_of (fold (\<lambda>k. put_new k v) ks m) k' = (if map_of m k' = None \<and> k' \<in> set ks then Some v else map_of m k')"
  by (induction ks arbitrary: m) (auto simp: map_of_put_new)

lemma find_append: "List.find p (xs @ ys) = (case List.find p xs of Some x \<Rightarrow> Some x | None \<Rightarrow> List.find p ys)"
  by (induction xs) auto

lemma index_of_entities:
  fixes R es
  defines "ix \<equiv> fold (index_entity R) es ([], [], [])"
  shows "map_of (fst ix) kv = first_uid (\<lambda>e. (entity_kind_as_str (e_kind e), e_value e) = kv) es"
    and "map_of (fst (snd ix)) k = first_uid (\<lambda>e. k \<in> set (routes_of R e)) es"
    and "map_of (snd (snd ix)) u = map_option confidence (List.find (\<lambda>e. uid e = u) es)"
  unfolding ix_def
  by (induction es rule: rev_induct)
    (auto simp: index_entity_def case_prod_beta map_of_put_new map_of_put_news first_uid_def find_append split: option.splits)

lemma dedup_links_pairs: "link_pair ` set (dedup_links ls) = link_pair ` set ls"
  by (induction ls rule: dedup_links.induct) (auto simp: same_link_def link_pair_def)

lemma dedup_links_subset: "set (dedup_links ls) \<subseteq> set ls"
  by (induction ls rule: dedup_links.induct) auto

lemma dedup_links_sorted: "sorted (map link_pair ls) \<Longrightarrow> sorted (map link_pair (dedup_links ls))"
proof (induction ls rule: dedup_links.induct)
  case (1 a b ls)
  have "set (dedup_links (b # ls)) \<subseteq> set (b # ls)" by (rule dedup_links_subset)
  then show ?case using 1 by (auto split: if_splits)
qed simp_all

text \<open>The entities an edge joins, by a search of the report.\<close>

definition joins :: "routing \<Rightarrow> entity list \<Rightarrow> pivot_edge \<Rightarrow> str \<times> str \<Rightarrow> bool" where
  "joins R es edge = (\<lambda>(u, v).
     first_uid (\<lambda>e. List.member (routes_of R e) (from_kind edge, from_identity R edge)) es = Some u \<and>
     first_uid (\<lambda>e. entity_kind_as_str (e_kind e) = to_kind edge \<and> e_value e = to_value edge) es = Some v)"

definition first_confidence :: "entity list \<Rightarrow> str \<Rightarrow> f64 option" where
  "first_confidence es u = map_option confidence (List.find (\<lambda>e. uid e = u) es)"

lemma first_confidence_known: "first_uid p es = Some u \<Longrightarrow> first_confidence es u \<noteq> None"
  by (auto simp: first_uid_def first_confidence_def find_None_iff find_Some_iff) (metis nth_mem)

lemma link_of_index:
  "link_of R (fold (index_entity R) es ([], [], [])) edge = Some l \<longleftrightarrow>
     joins R es edge (link_pair l) \<and> from_uid l \<noteq> to_uid l \<and> first_confidence es (to_uid l) = Some (link_confidence l)"
proof -
  let ?ix = "fold (index_entity R) es ([], [], [])"
  note ix = index_of_entities[where R = R and es = es]
  obtain a b c where abc: "?ix = (a, b, c)" by (cases ?ix)
  have maps: "map_of b (from_kind edge, from_identity R edge) =
      first_uid (\<lambda>e. List.member (routes_of R e) (from_kind edge, from_identity R edge)) es"
    "map_of a (to_kind edge, to_value edge) =
      first_uid (\<lambda>e. entity_kind_as_str (e_kind e) = to_kind edge \<and> e_value e = to_value edge) es"
    "map_of c u = first_confidence es u" for u
    using ix abc by (simp_all add: first_confidence_def)
  show ?thesis
    unfolding abc link_of_def prod.case maps
    using first_confidence_known[of "\<lambda>e. entity_kind_as_str (e_kind e) = to_kind edge \<and> e_value e = to_value edge" es]
    by (cases l) (auto simp: joins_def link_pair_def split: option.split)
qed

section \<open>Property\<close>

text \<open>C20: The links of a crawl are, in order, exactly the pairs of distinct entities its lineage joins: the
  first entity that answers to the route an edge was recorded under, whichever spelling the lookup ran
  on, and the first entity with the kind and value the lookup produced, weighted by the confidence of
  the entity reached.\<close>

theorem lineage_links_exact:
  "sorted (map link_pair (lineage_links R rep)) \<and>
   link_pair ` set (lineage_links R rep) =
     {(u, v). u \<noteq> v \<and> list_ex (\<lambda>edge. joins R (r_entities rep) edge (u, v)) (r_edges rep)} \<and>
   list_all (\<lambda>l. first_confidence (r_entities rep) (to_uid l) = Some (link_confidence l)) (lineage_links R rep)"
proof (intro conjI)
  let ?ls = "List.map_filter (link_of R (fold (index_entity R) (r_entities rep) ([], [], []))) (r_edges rep)"
  have links: "lineage_links R rep = dedup_links (sort_key link_pair ?ls)" by (simp add: lineage_links_def)
  have in_ls: "l \<in> set ?ls \<longleftrightarrow> list_ex (\<lambda>edge. joins R (r_entities rep) edge (link_pair l)) (r_edges rep) \<and>
      from_uid l \<noteq> to_uid l \<and> first_confidence (r_entities rep) (to_uid l) = Some (link_confidence l)" for l
    using link_of_index[of R "r_entities rep" _ l] by (auto simp: List.map_filter_def list_ex_iff image_iff) (metis option.sel option.discI)+
  show "sorted (map link_pair (lineage_links R rep))" unfolding links by (intro dedup_links_sorted sorted_sort_key)
  show "list_all (\<lambda>l. first_confidence (r_entities rep) (to_uid l) = Some (link_confidence l)) (lineage_links R rep)"
    using dedup_links_subset[of "sort_key link_pair ?ls"] unfolding links list_all_iff by (auto simp: in_ls)
  have "link_pair ` set ?ls = {(u, v). u \<noteq> v \<and> list_ex (\<lambda>edge. joins R (r_entities rep) edge (u, v)) (r_edges rep)}"
    (is "_ = ?pairs")
  proof
    show "link_pair ` set ?ls \<subseteq> ?pairs" by (auto simp: in_ls link_pair_def)
    show "?pairs \<subseteq> link_pair ` set ?ls"
    proof (rule subsetI, elim CollectE case_prodE conjE)
      fix p u v assume p: "p = (u, v)" "u \<noteq> v" "list_ex (\<lambda>edge. joins R (r_entities rep) edge (u, v)) (r_edges rep)"
      then obtain edge where "joins R (r_entities rep) edge (u, v)" by (auto simp: list_ex_iff)
      then obtain c where "first_confidence (r_entities rep) v = Some c"
        using first_confidence_known unfolding joins_def by fastforce
      then have "\<lparr>from_uid = u, to_uid = v, link_confidence = c\<rparr> \<in> set ?ls" using p by (simp add: in_ls link_pair_def)
      then show "p \<in> link_pair ` set ?ls" unfolding p by (rule image_eqI[rotated]) (simp add: link_pair_def)
    qed
  qed
  then show "link_pair ` set (lineage_links R rep) = ?pairs" by (simp add: links dedup_links_pairs)
qed

end
