(* ===== verification/Entity_Graph.thy ===== *)
theory Entity_Graph
  imports Entities Identity "HOL-Library.Product_Lexorder"
begin

text \<open>
  \<open>src/graph.rs\<close>: the undirected graph of entities and relations. Nodes are the positions of the sorted
  uids; the maps are association lists, a looked-up \<open>HashMap\<close> by its keys and a \<open>BTreeMap\<close> in the order
  of its keys. A level that was not reached (\<open>UNREACHABLE\<close>, the largest \<open>usize\<close>, which no level of a graph
  that fits in memory equals) is \<open>None\<close>.
\<close>

section \<open>Relations\<close>

datatype relation_kind =
  SameAs | AliasOf | AssociatedWith | LocatedAt | Uses | Owns | MemberOf | MentionedWith | ExposedWith
| Supports | Contradicts

fun relation_as_str :: "relation_kind \<Rightarrow> str" where
  "relation_as_str SameAs = ''same_as''"
| "relation_as_str AliasOf = ''alias_of''"
| "relation_as_str AssociatedWith = ''associated_with''"
| "relation_as_str LocatedAt = ''located_at''"
| "relation_as_str Uses = ''uses''"
| "relation_as_str Owns = ''owns''"
| "relation_as_str MemberOf = ''member_of''"
| "relation_as_str MentionedWith = ''mentioned_with''"
| "relation_as_str ExposedWith = ''exposed_with''"
| "relation_as_str Supports = ''supports''"
| "relation_as_str Contradicts = ''contradicts''"

text \<open>The derived \<open>Ord\<close>: the order of the declaration.\<close>

fun relation_rank :: "relation_kind \<Rightarrow> nat" where
  "relation_rank SameAs = 0"
| "relation_rank AliasOf = 1"
| "relation_rank AssociatedWith = 2"
| "relation_rank LocatedAt = 3"
| "relation_rank Uses = 4"
| "relation_rank Owns = 5"
| "relation_rank MemberOf = 6"
| "relation_rank MentionedWith = 7"
| "relation_rank ExposedWith = 8"
| "relation_rank Supports = 9"
| "relation_rank Contradicts = 10"

lemma relation_rank_inj: "relation_rank k = relation_rank l \<Longrightarrow> k = l"
  by (cases k; cases l; simp)

instantiation relation_kind :: linorder
begin

definition less_eq_relation_kind :: "relation_kind \<Rightarrow> relation_kind \<Rightarrow> bool" where
  "less_eq_relation_kind k l \<longleftrightarrow> relation_rank k \<le> relation_rank l"

definition less_relation_kind :: "relation_kind \<Rightarrow> relation_kind \<Rightarrow> bool" where
  "less_relation_kind k l \<longleftrightarrow> relation_rank k < relation_rank l"

instance
  by standard (auto simp: less_eq_relation_kind_def less_relation_kind_def intro: relation_rank_inj)

end

lemma relation_as_str_inj: "relation_as_str k = relation_as_str l \<Longrightarrow> k = l"
  by (cases k; cases l; simp)

record entity_relation =
  rel_from :: str
  rel_to :: str
  rel_kind :: relation_kind
  rel_confidence :: f64
  rel_label :: "str option"
  rel_evidence :: "evidence list"

definition relation_new :: "str \<Rightarrow> str \<Rightarrow> relation_kind \<Rightarrow> f64 \<Rightarrow> entity_relation" where
  "relation_new u v k conf =
     \<lparr>rel_from = u, rel_to = v, rel_kind = k, rel_confidence = f64_unit conf, rel_label = None, rel_evidence = []\<rparr>"

section \<open>Building the graph\<close>

record graph_edge =
  edge_to :: nat
  edge_kinds :: "relation_kind list"
  max_confidence :: f64

record graph =
  g_uids :: "str list"
  g_index :: "(str \<times> nat) list"
  g_adj :: "nat list list"
  g_edges :: "((nat \<times> nat) \<times> graph_edge) list"

type_synonym pair_map = "((nat \<times> nat) \<times> relation_kind list \<times> f64) list"

definition uids_of :: "entity list \<Rightarrow> str list" where
  "uids_of es = dedup (sort (map uid es))"

definition index_uids :: "str list \<Rightarrow> (str \<times> nat) list" where
  "index_uids us = zip us [0..<length us]"

definition add_relation :: "(str \<times> nat) list \<Rightarrow> entity_relation \<Rightarrow> pair_map \<Rightarrow> pair_map" where
  "add_relation index r pairs =
     (case (map_of index (rel_from r), map_of index (rel_to r)) of
        (Some left, Some right) \<Rightarrow>
          if left = right then pairs
          else
            (let pair = (min left right, max left right);
                 (kinds, conf) = (case map_of pairs pair of Some held \<Rightarrow> held | None \<Rightarrow> ([], Fin 0))
             in bmap_insert pair
                  (bset_insert (rel_kind r) kinds, f64_max conf (f64_unit (rel_confidence r))) pairs)
      | _ \<Rightarrow> pairs)"

definition push_at :: "nat \<Rightarrow> 'a \<Rightarrow> 'a list list \<Rightarrow> 'a list list" where
  "push_at i x xss = xss[i := xss ! i @ [x]]"

text \<open>One pair: both ends' neighbours, and the edge in both directions.\<close>

fun add_pairs ::
  "pair_map \<Rightarrow> nat list list \<times> ((nat \<times> nat) \<times> graph_edge) list \<Rightarrow> nat list list \<times> ((nat \<times> nat) \<times> graph_edge) list"
where
  "add_pairs [] acc = acc"
| "add_pairs (((left, right), (kinds, conf)) # pairs) (adj, edges) =
     (let edge = \<lparr>edge_to = right, edge_kinds = sort_key relation_as_str kinds, max_confidence = conf\<rparr>
      in add_pairs pairs
           (push_at right left (push_at left right adj),
            ((right, left), edge\<lparr>edge_to := left\<rparr>) # ((left, right), edge) # edges))"

definition build :: "entity list \<Rightarrow> entity_relation list \<Rightarrow> graph" where
  "build es rels =
     (let us = uids_of es;
          index = index_uids us;
          pairs = fold (add_relation index) rels [];
          (adj, edges) = add_pairs pairs (replicate (length us) [], [])
      in \<lparr>g_uids = us, g_index = index, g_adj = map sort adj, g_edges = edges\<rparr>)"

definition node_count :: "graph \<Rightarrow> nat" where "node_count G = length (g_uids G)"
definition edge_count :: "graph \<Rightarrow> nat" where "edge_count G = length (g_edges G) div 2"
definition graph_is_empty :: "graph \<Rightarrow> bool" where "graph_is_empty G \<longleftrightarrow> g_uids G = []"
definition node_uid :: "graph \<Rightarrow> nat \<Rightarrow> str" where "node_uid G i = g_uids G ! i"
definition index_of_uid :: "graph \<Rightarrow> str \<Rightarrow> nat option" where "index_of_uid G u = map_of (g_index G) u"
definition neighbours :: "graph \<Rightarrow> nat \<Rightarrow> nat list" where "neighbours G i = g_adj G ! i"
definition degree :: "graph \<Rightarrow> nat \<Rightarrow> nat" where "degree G i = length (g_adj G ! i)"
definition edge :: "graph \<Rightarrow> nat \<Rightarrow> nat \<Rightarrow> graph_edge option" where "edge G u v = map_of (g_edges G) (u, v)"

definition edge_pairs :: "graph \<Rightarrow> (nat \<times> nat) list" where
  "edge_pairs G = sort (filter (\<lambda>(left, right). left < right) (map fst (g_edges G)))"

section \<open>Breadth-first search\<close>

text \<open>The neighbours of one node: each one not reached before gets the next level and joins the queue.
  Every neighbour is a node (\<open>Graph_Correct\<close>), so the bound is never what stops it.\<close>

fun discover :: "nat \<Rightarrow> nat list \<Rightarrow> nat option list \<Rightarrow> nat list \<Rightarrow> nat option list \<times> nat list" where
  "discover d [] levels queue = (levels, queue)"
| "discover d (v # vs) levels queue =
     (if v < length levels \<and> levels ! v = None then discover d vs (levels[v := Some d]) (queue @ [v])
      else discover d vs levels queue)"

definition unreached :: "nat option list \<Rightarrow> nat" where
  "unreached levels = length (filter (\<lambda>d. d = None) levels)"

lemma unreached_update:
  "v < length levels \<Longrightarrow> levels ! v = None \<Longrightarrow> Suc (unreached (levels[v := Some d])) = unreached levels"
proof (induction levels arbitrary: v)
  case (Cons x levels)
  then show ?case by (cases v) (auto simp: unreached_def)
qed simp

lemma discover_measure:
  "discover d vs levels queue = (levels', queue') \<Longrightarrow>
   unreached levels' + length queue' = unreached levels + length queue \<and> length levels' = length levels"
proof (induction d vs levels queue rule: discover.induct)
  case (2 d v vs levels queue)
  then show ?case using unreached_update[of v levels d] by (auto split: if_splits)
qed simp

function bfs_loop :: "(nat \<Rightarrow> nat list) \<Rightarrow> nat list \<Rightarrow> nat option list \<Rightarrow> nat option list" where
  "bfs_loop adj [] levels = levels"
| "bfs_loop adj (u # queue) levels =
     (let (levels', queue') = discover (the (levels ! u) + 1) (adj u) levels queue in bfs_loop adj queue' levels')"
  by pat_completeness auto
termination
  by (relation "measure (\<lambda>(_, queue, levels). unreached levels + length queue)")
    (auto dest: discover_measure[OF sym])

definition bfs_levels :: "graph \<Rightarrow> nat \<Rightarrow> nat option list" where
  "bfs_levels G s =
     (let levels = replicate (node_count G) None in
      if s \<ge> node_count G then levels else bfs_loop (neighbours G) [s] (levels[s := Some 0]))"

end
