(* ===== verification/Graph_Search.thy ===== *)
theory Graph_Search
  imports Entity_Graph
begin

text \<open>
  Breadth-first search over any graph whose neighbours are nodes: the level of a node is the length of a
  shortest walk to it, and a node no walk reaches has none. The graph built from entities and relations
  provides the interface (\<open>Graph_Correct\<close>).
\<close>

text \<open>The nodes at the end of a walk of a given length.\<close>

fun walk_ends :: "(nat \<Rightarrow> nat list) \<Rightarrow> nat \<Rightarrow> nat \<Rightarrow> nat set" where
  "walk_ends adj s 0 = {s}"
| "walk_ends adj s (Suc d) = (\<Union>u \<in> walk_ends adj s d. set (adj u))"

definition distance :: "(nat \<Rightarrow> nat list) \<Rightarrow> nat \<Rightarrow> nat \<Rightarrow> nat \<Rightarrow> bool" where
  "distance adj s v d \<longleftrightarrow> v \<in> walk_ends adj s d \<and> (\<forall>d' < d. v \<notin> walk_ends adj s d')"

lemma distance_unique: "distance adj s v d \<Longrightarrow> distance adj s v d' \<Longrightarrow> d = d'"
  by (metis distance_def linorder_neqE_nat)

lemma distance_exists: "v \<in> walk_ends adj s d \<Longrightarrow> \<exists>d' \<le> d. distance adj s v d'"
proof (induction d rule: less_induct)
  case (less d)
  show ?case
  proof (cases "\<exists>d' < d. v \<in> walk_ends adj s d'")
    case True
    then show ?thesis using less.IH by (meson less_imp_le le_trans)
  next
    case False
    then show ?thesis using less.prems by (auto simp: distance_def)
  qed
qed

lemma discover_effect:
  assumes "discover d vs levels queue = (levels', queue')"
  shows "length levels' = length levels"
    and "v < length levels \<Longrightarrow> levels' ! v = (if levels ! v = None \<and> v \<in> set vs then Some d else levels ! v)"
    and "\<exists>new. queue' = queue @ new \<and> set new = {v \<in> set vs. v < length levels \<and> levels ! v = None}"
  using assms
proof (induction d vs levels queue arbitrary: v rule: discover.induct)
  case (2 d w vs levels queue)
  {
    case 1
    then show ?case using 2 by (auto split: if_splits)
  next
    case 2
    then show ?case using "2.IH" by (auto split: if_splits simp: nth_list_update)
  next
    case 3
    show ?case
    proof (cases "w < length levels \<and> levels ! w = None")
      case True
      then obtain new where "queue' = (queue @ [w]) @ new"
        "set new = {v \<in> set vs. v < length levels \<and> levels[w := Some d] ! v = None}"
        using 3 "2.IH"(3) by auto
      then show ?thesis using True by (intro exI[of _ "w # new"]) (auto simp: nth_list_update)
    next
      case False
      then show ?thesis using 3 "2.IH"(6) by auto
    qed
  }
qed auto

section \<open>The interface of a graph\<close>

locale node_graph =
  fixes n :: nat and adj :: "nat \<Rightarrow> nat list"
  assumes adj_node: "u < n \<Longrightarrow> v \<in> set (adj u) \<Longrightarrow> v < n"
begin

lemma walk_node: "s < n \<Longrightarrow> v \<in> walk_ends adj s d \<Longrightarrow> v < n"
  by (induction d arbitrary: v) (auto intro: adj_node)

definition bfs_inv :: "nat \<Rightarrow> nat list \<Rightarrow> nat option list \<Rightarrow> bool" where
  "bfs_inv s queue levels \<longleftrightarrow>
     length levels = n \<and> s < n \<and> levels ! s = Some 0 \<and>
     (\<forall>v < n. \<forall>d. levels ! v = Some d \<longrightarrow> v \<in> walk_ends adj s d) \<and>
     (\<forall>u \<in> set queue. u < n \<and> levels ! u \<noteq> None) \<and>
     sorted (map (\<lambda>u. the (levels ! u)) queue) \<and>
     (queue \<noteq> [] \<longrightarrow> (\<forall>v < n. \<forall>d. levels ! v = Some d \<longrightarrow> d \<le> the (levels ! hd queue) + 1)) \<and>
     (\<forall>u < n. \<forall>d. levels ! u = Some d \<and> u \<notin> set queue \<longrightarrow>
       (\<forall>v \<in> set (adj u). \<exists>d' \<le> d + 1. levels ! v = Some d'))"

lemma bfs_inv_start: "s < n \<Longrightarrow> bfs_inv s [s] ((replicate n None)[s := Some 0])"
  by (auto simp: bfs_inv_def nth_list_update)

lemma bfs_inv_step:
  assumes inv: "bfs_inv s (u # queue) levels"
    and disc: "discover (the (levels ! u) + 1) (adj u) levels queue = (levels', queue')"
  shows "bfs_inv s queue' levels'"
proof -
  obtain du where du: "levels ! u = Some du" and u: "u < n" using inv by (auto simp: bfs_inv_def)
  have len: "length levels = n" using inv by (simp add: bfs_inv_def)
  note lev = discover_effect(2)[OF disc, unfolded len du option.sel]
  obtain new where q: "queue' = queue @ new" and new: "set new = {v \<in> set (adj u). v < n \<and> levels ! v = None}"
    using discover_effect(3)[OF disc] len by blast
  have keep: "levels' ! v = Some d" if "v < n" "levels ! v = Some d" for v d using lev that by simp
  have old: "\<forall>w \<in> set queue. w < n \<and> levels ! w \<noteq> None" "\<forall>w \<in> set queue. du \<le> the (levels ! w)"
    "sorted (map (\<lambda>u. the (levels ! u)) queue)"
    and bound: "\<forall>v < n. \<forall>d. levels ! v = Some d \<longrightarrow> d \<le> du + 1"
    using inv du by (auto simp: bfs_inv_def)
  have same: "levels' ! w = levels ! w" if "w \<in> set queue" for w using old(1) that keep by auto
  have fresh: "levels' ! w = Some (du + 1)" if "w \<in> set new" for w using that new lev by auto
  have sound: "v \<in> walk_ends adj s d" if "v < n" "levels' ! v = Some d" for v d
  proof (cases "levels ! v = None \<and> v \<in> set (adj u)")
    case True
    then have "d = Suc du" using that lev by simp
    moreover have "u \<in> walk_ends adj s du" using inv u du by (auto simp: bfs_inv_def)
    ultimately show ?thesis using True by auto
  next
    case False
    then show ?thesis using that lev inv by (auto simp: bfs_inv_def)
  qed
  have level_bound: "d \<le> du + 1" if "v < n" "levels' ! v = Some d" for v d
    using that lev bound by (auto split: if_splits)
  have sorted: "sorted (map (\<lambda>u. the (levels' ! u)) queue')"
  proof -
    have "map (\<lambda>u. the (levels' ! u)) queue = map (\<lambda>u. the (levels ! u)) queue" using same by simp
    moreover have "map (\<lambda>u. the (levels' ! u)) new = replicate (length new) (du + 1)"
      using fresh by (simp add: map_replicate_const[symmetric] cong: map_cong)
    moreover have "\<forall>w \<in> set queue. the (levels ! w) \<le> du + 1" using old(1) bound by fastforce
    ultimately show ?thesis using old(3) unfolding q map_append by (auto simp: sorted_append simp del: map_eq_conv)
  qed
  have head: "d \<le> the (levels' ! hd queue') + 1" if "queue' \<noteq> []" "v < n" "levels' ! v = Some d" for v d
  proof -
    have "du \<le> the (levels' ! hd queue')"
    proof (cases queue)
      case Nil
      then have "hd queue' \<in> set new" using that(1) by (simp add: q)
      then show ?thesis using fresh by simp
    next
      case (Cons w ws)
      then show ?thesis using old(2) same[of w] by (simp add: q)
    qed
    then show ?thesis using level_bound[OF that(2, 3)] by simp
  qed
  have done_: "\<exists>d' \<le> d + 1. levels' ! v = Some d'"
    if w: "w < n" "levels' ! w = Some d" "w \<notin> set queue'" and v: "v \<in> set (adj w)" for w d v
  proof -
    have v_node: "v < n" using adj_node[OF w(1) v] .
    have "w \<notin> set new" using w(3) by (simp add: q)
    then have before: "levels ! w = Some d" using w(1, 2) lev[of w] new by (auto split: if_splits)
    show ?thesis
    proof (cases "w = u")
      case True
      then have "levels' ! v = (if levels ! v = None then Some (du + 1) else levels ! v)" using v v_node lev[of v] by simp
      then show ?thesis using True before du bound v_node by (cases "levels ! v") auto
    next
      case False
      then have "w \<notin> set (u # queue)" using w(3) by (simp add: q)
      then have "\<exists>d' \<le> d + 1. levels ! v = Some d'" using inv w(1) before v unfolding bfs_inv_def by blast
      then show ?thesis using keep v_node by blast
    qed
  qed
  show ?thesis
    unfolding bfs_inv_def
  proof (intro conjI ballI allI impI)
    show "length levels' = n" using discover_effect(1)[OF disc] len by simp
    show "s < n" "levels' ! s = Some 0" using inv keep by (auto simp: bfs_inv_def)
    show "w < n" "levels' ! w \<noteq> None" if "w \<in> set queue'" for w
      using that old(1) new fresh same by (auto simp: q)
  qed (use sound sorted head done_ in auto)
qed

lemma bfs_loop_inv: "bfs_inv s queue levels \<Longrightarrow> bfs_inv s [] (bfs_loop adj queue levels)"
proof (induction "unreached levels + length queue" arbitrary: queue levels rule: less_induct)
  case less
  show ?case
  proof (cases queue)
    case (Cons u rest)
    obtain levels' queue' where disc: "discover (the (levels ! u) + 1) (adj u) levels rest = (levels', queue')"
      by (cases "discover (the (levels ! u) + 1) (adj u) levels rest")
    have "unreached levels' + length queue' < unreached levels + length queue"
      using discover_measure[OF disc] Cons by simp
    then have "bfs_inv s [] (bfs_loop adj queue' levels')"
      using less.hyps bfs_inv_step[OF less.prems[unfolded Cons] disc] by blast
    then show ?thesis using Cons disc by simp
  qed (use less.prems in simp)
qed

lemma bfs_levels_distance:
  assumes "s < n" "v < n"
  defines "levels \<equiv> bfs_loop adj [s] ((replicate n None)[s := Some 0])"
  shows "levels ! v = Some d \<longleftrightarrow> distance adj s v d"
proof -
  have inv: "bfs_inv s [] levels" unfolding levels_def by (intro bfs_loop_inv bfs_inv_start assms)
  have reached: "\<exists>d' \<le> d. levels ! v = Some d'" if "v \<in> walk_ends adj s d" for v d
    using that
  proof (induction d arbitrary: v)
    case 0
    then show ?case using inv by (simp add: bfs_inv_def)
  next
    case (Suc d)
    then obtain u where u: "u \<in> walk_ends adj s d" "v \<in> set (adj u)" by auto
    then obtain du where "du \<le> d" "levels ! u = Some du" using Suc.IH by blast
    moreover have "u < n" using walk_node[OF assms(1) u(1)] .
    ultimately obtain d' where "d' \<le> du + 1" "levels ! v = Some d'"
      using inv u(2) unfolding bfs_inv_def by (metis empty_iff list.set(1))
    then show ?case using \<open>du \<le> d\<close> by (intro exI[of _ d']) simp
  qed
  have sound: "v \<in> walk_ends adj s d'" if "levels ! v = Some d'" for d'
    using inv assms(2) that by (simp add: bfs_inv_def)
  show ?thesis
  proof
    assume d: "levels ! v = Some d"
    then show "distance adj s v d" using sound reached by (fastforce simp: distance_def)
  next
    assume d: "distance adj s v d"
    then obtain d' where "d' \<le> d" "levels ! v = Some d'" using reached[of v d] by (auto simp: distance_def)
    moreover from this have "d' = d" using sound d unfolding distance_def by (metis le_neq_implies_less)
    ultimately show "levels ! v = Some d" by simp
  qed
qed

end

end
