(* ===== verification/Graph_Correct.thy ===== *)
theory Graph_Correct
  imports Graph_Search Clusters
begin

text \<open>
  The graph built from entities and relations: one node per uid, two nodes adjacent exactly when some
  relation joins them, each edge with every kind and the highest confidence of its relations, and the
  breadth-first levels of it.
\<close>

section \<open>Nodes\<close>

lemma uids_of_ok: "sorted (uids_of es)" "distinct (uids_of es)" "set (uids_of es) = uid ` set es"
  using dedup_sorted[OF sorted_sort, of "map uid es"] by (simp_all add: uids_of_def)

lemma index_uids_Some:
  assumes "distinct us"
  shows "map_of (index_uids us) u = Some i \<longleftrightarrow> i < length us \<and> us ! i = u"
proof -
  have "map fst (index_uids us) = us" by (simp add: index_uids_def)
  then have "map_of (index_uids us) u = Some i \<longleftrightarrow> (u, i) \<in> set (index_uids us)" using assms by simp
  also have "\<dots> \<longleftrightarrow> i < length us \<and> us ! i = u"
    by (auto simp: index_uids_def in_set_zip)
  finally show ?thesis .
qed

section \<open>Pairs\<close>

text \<open>The relations between two nodes, in either direction.\<close>

definition joining :: "str list \<Rightarrow> nat \<Rightarrow> nat \<Rightarrow> entity_relation list \<Rightarrow> entity_relation list" where
  "joining us i j rels =
     filter (\<lambda>r. rel_from r = us ! i \<and> rel_to r = us ! j \<or> rel_from r = us ! j \<and> rel_to r = us ! i) rels"

definition held_of :: "entity_relation list \<Rightarrow> relation_kind list \<times> f64" where
  "held_of js = (bset_extend [] (map rel_kind js), foldl f64_max (Fin 0) (map (\<lambda>r. f64_unit (rel_confidence r)) js))"

definition pairs_of :: "str list \<Rightarrow> entity_relation list \<Rightarrow> pair_map" where
  "pairs_of us rels = fold (add_relation (index_uids us)) rels []"

lemma bset_extend_snoc: "bset_extend xs (ys @ [y]) = bset_insert y (bset_extend xs ys)"
  by (simp add: bset_extend_def)

lemma add_relation_cases:
  assumes "distinct us"
  shows "add_relation (index_uids us) r pairs = pairs \<and>
      (\<forall>i j. i < j \<and> j < length us \<longrightarrow> joining us i j [r] = []) \<or>
    (\<exists>a b. a < b \<and> b < length us \<and> (\<forall>i j. i < j \<and> j < length us \<longrightarrow> joining us i j [r] = (if (i, j) = (a, b) then [r] else [])) \<and>
      add_relation (index_uids us) r pairs =
        (let (kinds, conf) = (case map_of pairs (a, b) of Some held \<Rightarrow> held | None \<Rightarrow> ([], Fin 0))
         in bmap_insert (a, b) (bset_insert (rel_kind r) kinds, f64_max conf (f64_unit (rel_confidence r))) pairs))"
proof -
  note ix = index_uids_Some[OF assms]
  have inj: "us ! i = us ! j \<longleftrightarrow> i = j" if "i < length us" "j < length us" for i j
    using nth_eq_iff_index_eq[OF assms that] .
  show ?thesis
  proof (cases "\<exists>x y. map_of (index_uids us) (rel_from r) = Some x \<and> map_of (index_uids us) (rel_to r) = Some y \<and> x \<noteq> y")
    case True
    then obtain x y where xy: "map_of (index_uids us) (rel_from r) = Some x"
      "map_of (index_uids us) (rel_to r) = Some y" "x \<noteq> y" by (elim exE conjE)
    then have at: "x < length us" "us ! x = rel_from r" "y < length us" "us ! y = rel_to r" using ix by simp_all
    have "joining us i j [r] = (if (i, j) = (min x y, max x y) then [r] else [])" if "i < j \<and> j < length us" for i j
    proof -
      have "rel_from r = us ! k \<longleftrightarrow> k = x" "rel_to r = us ! k \<longleftrightarrow> k = y" if "k < length us" for k
        using that at inj[of x k] inj[of y k] by auto
      then show ?thesis using that by (auto simp: joining_def min_def max_def)
    qed
    moreover have "min x y < max x y" "max x y < length us" using at xy(3) by (auto simp: min_def max_def)
    moreover have "add_relation (index_uids us) r pairs =
        (let (kinds, conf) = (case map_of pairs (min x y, max x y) of Some held \<Rightarrow> held | None \<Rightarrow> ([], Fin 0))
         in bmap_insert (min x y, max x y) (bset_insert (rel_kind r) kinds, f64_max conf (f64_unit (rel_confidence r))) pairs)"
      using xy by (simp add: add_relation_def Let_def)
    ultimately show ?thesis by blast
  next
    case False
    have "add_relation (index_uids us) r pairs = pairs" using False by (auto simp: add_relation_def split: option.splits)
    moreover have "joining us i j [r] = []" if "i < j \<and> j < length us" for i j
    proof -
      have "map_of (index_uids us) (us ! i) = Some i" "map_of (index_uids us) (us ! j) = Some j"
        using that ix by auto
      then show ?thesis using False that by (auto simp: joining_def)
    qed
    ultimately show ?thesis by blast
  qed
qed

lemma pairs_of_exact:
  assumes "distinct us"
  shows "bmap_ok (pairs_of us rels) \<and> (\<forall>p \<in> fst ` set (pairs_of us rels). fst p < snd p \<and> snd p < length us) \<and>
    (\<forall>i j. i < j \<and> j < length us \<longrightarrow>
      map_of (pairs_of us rels) (i, j) = (if joining us i j rels = [] then None else Some (held_of (joining us i j rels))))"
proof (induction rels rule: rev_induct)
  case (snoc r rels)
  let ?m = "pairs_of us rels"
  have add: "pairs_of us (rels @ [r]) = add_relation (index_uids us) r ?m" by (simp add: pairs_of_def)
  have join: "joining us i j (rels @ [r]) = joining us i j rels @ joining us i j [r]" for i j by (simp add: joining_def)
  show ?case
    using add_relation_cases[OF assms, of r ?m]
  proof (elim disjE exE conjE)
    assume "add_relation (index_uids us) r ?m = ?m" "\<forall>i j. i < j \<and> j < length us \<longrightarrow> joining us i j [r] = []"
    then show ?thesis using snoc by (simp add: add join)
  next
    fix a b
    assume ab: "a < b" "b < length us"
      and only: "\<forall>i j. i < j \<and> j < length us \<longrightarrow> joining us i j [r] = (if (i, j) = (a, b) then [r] else [])"
      and eq: "add_relation (index_uids us) r ?m =
        (let (kinds, conf) = (case map_of ?m (a, b) of Some held \<Rightarrow> held | None \<Rightarrow> ([], Fin 0))
         in bmap_insert (a, b) (bset_insert (rel_kind r) kinds, f64_max conf (f64_unit (rel_confidence r))) ?m)"
    have "(case map_of ?m (a, b) of Some held \<Rightarrow> held | None \<Rightarrow> ([], Fin 0)) = held_of (joining us a b rels)"
      using snoc ab by (auto simp: held_of_def bset_extend_def)
    then have eq': "add_relation (index_uids us) r ?m = bmap_insert (a, b) (held_of (joining us a b rels @ [r])) ?m"
      unfolding eq by (simp add: held_of_def bset_extend_snoc)
    show ?thesis
      using snoc ab only unfolding add eq' join
      by (auto simp: bmap_ok_insert keys_bmap_insert map_of_bmap_insert)
  qed
qed (simp add: pairs_of_def joining_def)

section \<open>Adjacency and edges\<close>

definition pair_keys :: "pair_map \<Rightarrow> (nat \<times> nat) set" where
  "pair_keys pairs = fst ` set pairs"

lemma push_at_simps:
  "length (push_at i x xss) = length xss"
  "i < length xss \<Longrightarrow> push_at i x xss ! j = (if j = i then xss ! i @ [x] else xss ! j)"
  by (simp_all add: push_at_def nth_list_update)

lemma add_pairs_adj:
  assumes "add_pairs pairs (adj, edges) = (adj', edges')"
    and "\<forall>p \<in> pair_keys pairs. fst p < snd p \<and> snd p < length adj" "distinct (map fst pairs)"
    and "\<forall>i < length adj. distinct (adj ! i) \<and> (\<forall>j \<in> set (adj ! i). (min i j, max i j) \<notin> pair_keys pairs)"
  shows "length adj' = length adj \<and> (\<forall>i < length adj. distinct (adj' ! i) \<and>
    set (adj' ! i) = set (adj ! i) \<union> {j. (i, j) \<in> pair_keys pairs \<or> (j, i) \<in> pair_keys pairs})"
  using assms
proof (induction pairs "(adj, edges)" arbitrary: adj edges rule: add_pairs.induct)
  case (2 l r kinds conf pairs adj edges)
  let ?adj = "push_at r l (push_at l r adj)"
  have lr: "l < r" "r < length adj" using 2(3) by (auto simp: pair_keys_def)
  have nth: "?adj ! i = (if i = r then adj ! r @ [l] else if i = l then adj ! l @ [r] else adj ! i)" for i
    using lr by (simp add: push_at_simps)
  have fresh: "(l, r) \<notin> pair_keys pairs" using 2(4) by (simp add: pair_keys_def)
  have keys: "pair_keys (((l, r), (kinds, conf)) # pairs) = insert (l, r) (pair_keys pairs)" by (simp add: pair_keys_def)
  have apart: "\<forall>j \<in> set (adj ! i). (min i j, max i j) \<noteq> (l, r)" if "i < length adj" for i
    using 2(5) that unfolding keys by blast
  have own: "l \<notin> set (adj ! r)" "r \<notin> set (adj ! l)" using apart[of r] apart[of l] lr by (auto simp: min_def max_def)
  have "length adj' = length ?adj \<and> (\<forall>i < length ?adj. distinct (adj' ! i) \<and>
      set (adj' ! i) = set (?adj ! i) \<union> {j. (i, j) \<in> pair_keys pairs \<or> (j, i) \<in> pair_keys pairs})"
  proof (rule "2.hyps"[OF refl])
    show "add_pairs pairs (?adj, ((r, l), \<lparr>edge_to = r, edge_kinds = sort_key relation_as_str kinds, max_confidence = conf\<rparr>\<lparr>edge_to := l\<rparr>) #
        ((l, r), \<lparr>edge_to = r, edge_kinds = sort_key relation_as_str kinds, max_confidence = conf\<rparr>) # edges) = (adj', edges')"
      using 2(2) by (simp add: Let_def)
    show "\<forall>p \<in> pair_keys pairs. fst p < snd p \<and> snd p < length ?adj" using 2(3) unfolding keys by (simp add: push_at_simps)
    show "distinct (map fst pairs)" using 2(4) by simp
    show "\<forall>i < length ?adj. distinct (?adj ! i) \<and> (\<forall>j \<in> set (?adj ! i). (min i j, max i j) \<notin> pair_keys pairs)"
    proof (intro allI impI)
      fix i assume "i < length ?adj"
      then have i: "i < length adj" by (simp add: push_at_simps)
      then have "distinct (adj ! i)" "\<forall>j \<in> set (adj ! i). (min i j, max i j) \<notin> pair_keys pairs"
        using 2(5) unfolding keys by simp_all
      then show "distinct (?adj ! i) \<and> (\<forall>j \<in> set (?adj ! i). (min i j, max i j) \<notin> pair_keys pairs)"
        using fresh own lr
        by (cases "i = l"; cases "i = r") (simp_all add: nth min.absorb3 min.absorb4 max.absorb3 max.absorb4)
    qed
  qed
  then show ?case unfolding keys nth using lr by (auto simp: push_at_simps split: if_splits)
qed (simp add: pair_keys_def)

definition edge_of :: "nat \<Rightarrow> relation_kind list \<times> f64 \<Rightarrow> graph_edge" where
  "edge_of v = (\<lambda>(kinds, conf). \<lparr>edge_to = v, edge_kinds = sort_key relation_as_str kinds, max_confidence = conf\<rparr>)"

lemma map_of_skip: "k \<noteq> k' \<Longrightarrow> map_of ((k, v) # m) k' = map_of m k'"
  by simp

lemma add_pairs_edges:
  assumes "add_pairs pairs (adj, edges) = (adj', edges')"
    and "\<forall>p \<in> pair_keys pairs. fst p < snd p" "distinct (map fst pairs)"
  shows "length edges' = length edges + 2 * length pairs \<and>
    map_of edges' (u, v) =
      (case map_of pairs (min u v, max u v) of Some held \<Rightarrow> Some (edge_of v held) | None \<Rightarrow> map_of edges (u, v))"
  using assms
proof (induction pairs "(adj, edges)" arbitrary: adj edges rule: add_pairs.induct)
  case (2 l r kinds conf pairs adj edges)
  let ?e = "edge_of r (kinds, conf)"
  let ?edges = "((r, l), edge_of l (kinds, conf)) # ((l, r), ?e) # edges"
  have lr: "l < r" using 2(3) by (simp add: pair_keys_def)
  have fresh: "map_of pairs (l, r) = None" using 2(4) by (simp add: map_of_eq_None_iff)
  have ih: "length edges' = length ?edges + 2 * length pairs \<and>
    map_of edges' (u, v) =
      (case map_of pairs (min u v, max u v) of Some held \<Rightarrow> Some (edge_of v held) | None \<Rightarrow> map_of ?edges (u, v))"
  proof -
    let ?r = "\<lparr>edge_to = r, edge_kinds = sort_key relation_as_str kinds, max_confidence = conf\<rparr>"
    have "add_pairs pairs (push_at r l (push_at l r adj), ((r, l), ?r\<lparr>edge_to := l\<rparr>) # ((l, r), ?r) # edges) = (adj', edges')"
      using 2(2) by (simp add: Let_def)
    then show ?thesis using "2.hyps"[OF refl] 2(3, 4) by (simp add: edge_of_def pair_keys_def split: option.split)
  qed
  have key: "(min u v, max u v) = (l, r) \<longleftrightarrow> (u, v) = (l, r) \<or> (u, v) = (r, l)" using lr by (auto simp: min_def max_def)
  show ?case
  proof (cases "(u, v) = (l, r) \<or> (u, v) = (r, l)")
    case True
    then show ?thesis using ih fresh lr by auto
  next
    case False
    then have "(l, r) \<noteq> (min u v, max u v)" "(l, r) \<noteq> (u, v)" "(r, l) \<noteq> (u, v)" using key by metis+
    note skip = this[THEN map_of_skip]
    show ?thesis using ih unfolding skip by simp
  qed
qed simp

lemma build_fields:
  assumes "build es rels = G"
  shows "g_uids G = uids_of es" "g_index G = index_uids (uids_of es)" "length (g_adj G) = node_count G"
    and "u < node_count G \<Longrightarrow> sorted (neighbours G u) \<and> distinct (neighbours G u) \<and>
      set (neighbours G u) = {v. v < node_count G \<and> u \<noteq> v \<and> joining (g_uids G) u v rels \<noteq> []}"
    and "u < node_count G \<Longrightarrow> v < node_count G \<Longrightarrow> edge G u v =
      (if u = v \<or> joining (g_uids G) u v rels = [] then None else Some (edge_of v (held_of (joining (g_uids G) u v rels))))"
    and "edge_count G = length (pairs_of (g_uids G) rels)"
proof -
  let ?us = "uids_of es"
  obtain adj edges where add: "add_pairs (pairs_of ?us rels) (replicate (length ?us) [], []) = (adj, edges)"
    by (cases "add_pairs (pairs_of ?us rels) (replicate (length ?us) [], [])")
  have G: "G = \<lparr>g_uids = ?us, g_index = index_uids ?us, g_adj = map sort adj, g_edges = edges\<rparr>"
    using assms add by (simp add: build_def pairs_of_def Let_def)
  note pairs = pairs_of_exact[OF uids_of_ok(2), of es rels]
  have keys: "\<forall>p \<in> pair_keys (pairs_of ?us rels). fst p < snd p \<and> snd p < length ?us"
    using pairs by (simp add: pair_keys_def)
  have distinct: "distinct (map fst (pairs_of ?us rels))" using pairs by (simp add: bmap_ok_def bset_ok_def)
  have sym: "joining ?us i j rels = joining ?us j i rels" for i j by (auto simp: joining_def intro: filter_cong)
  have key_iff: "(i, j) \<in> pair_keys (pairs_of ?us rels) \<longleftrightarrow> i < j \<and> j < length ?us \<and> joining ?us i j rels \<noteq> []" for i j
  proof (cases "i < j \<and> j < length ?us")
    case True
    then have "(i, j) \<in> pair_keys (pairs_of ?us rels) \<longleftrightarrow> map_of (pairs_of ?us rels) (i, j) \<noteq> None"
      by (simp add: pair_keys_def map_of_eq_None_iff)
    then show ?thesis using pairs True by simp
  next
    case False
    then show ?thesis using keys by fastforce
  qed
  note adj = add_pairs_adj[OF add, unfolded length_replicate, OF keys distinct]
  have adj_eq: "length adj = length ?us \<and> (\<forall>i < length ?us. distinct (adj ! i) \<and>
      set (adj ! i) = {j. (i, j) \<in> pair_keys (pairs_of ?us rels) \<or> (j, i) \<in> pair_keys (pairs_of ?us rels)})"
    using adj by simp
  show "g_uids G = ?us" "g_index G = index_uids ?us" "length (g_adj G) = node_count G"
    using adj_eq by (simp_all add: G node_count_def)
  show "sorted (neighbours G u) \<and> distinct (neighbours G u) \<and>
      set (neighbours G u) = {v. v < node_count G \<and> u \<noteq> v \<and> joining (g_uids G) u v rels \<noteq> []}"
    if "u < node_count G"
    using that adj_eq sym unfolding key_iff by (auto simp: G node_count_def neighbours_def)
  note edges = add_pairs_edges[OF add _ distinct]
  show "edge_count G = length (pairs_of (g_uids G) rels)" using edges keys by (simp add: G edge_count_def)
  show "edge G u v =
      (if u = v \<or> joining (g_uids G) u v rels = [] then None else Some (edge_of v (held_of (joining (g_uids G) u v rels))))"
    if uv: "u < node_count G" "v < node_count G"
  proof -
    have "edge G u v = (case map_of (pairs_of ?us rels) (min u v, max u v) of Some held \<Rightarrow> Some (edge_of v held) | None \<Rightarrow> None)"
      using edges[of u v] keys by (simp add: G edge_def split: option.split)
    moreover have "map_of (pairs_of ?us rels) (min u v, max u v) =
        (if u = v \<or> joining ?us u v rels = [] then None else Some (held_of (joining ?us u v rels)))"
    proof (cases u v rule: linorder_cases)
      case equal
      then show ?thesis using key_iff[of u u] by (auto simp: pair_keys_def map_of_eq_None_iff)
    qed (use pairs uv sym[of u v] in \<open>auto simp: G node_count_def\<close>)
    ultimately show ?thesis by (simp add: G)
  qed
qed

interpretation built: node_graph "node_count (build es rels)" "neighbours (build es rels)" for es rels
  by unfold_locales (simp add: build_fields(4)[OF refl])

section \<open>Properties\<close>

text \<open>C19: The graph of entities and relations has one node for each uid, in the order of the uids; two nodes
  are neighbours, each of the other and listed once in order, exactly when some relation joins their uids in
  either direction; and the edge between them holds every kind of those relations by name and the highest
  of their confidences, clamped.\<close>

theorem graph_build_exact:
  "let G = build es rels; us = g_uids G; nodes = [0..<node_count G]
   in sorted us \<and> distinct us \<and> set us = uid ` set es \<and>
     list_all (\<lambda>u. index_of_uid G (node_uid G u) = Some u \<and> sorted (neighbours G u) \<and> distinct (neighbours G u) \<and>
       list_all (\<lambda>v.
         (List.member (neighbours G u) v \<longleftrightarrow> u \<noteq> v \<and> joining us u v rels \<noteq> []) \<and>
         (List.member (neighbours G u) v \<longleftrightarrow> List.member (neighbours G v) u) \<and>
         edge G u v = (if List.member (neighbours G u) v then Some (edge_of v (held_of (joining us u v rels))) else None)) nodes) nodes"
proof -
  define G where "G = build es rels"
  note b = build_fields[OF G_def[symmetric]]
  have us: "sorted (g_uids G)" "distinct (g_uids G)" "set (g_uids G) = uid ` set es" unfolding b(1) by (rule uids_of_ok)+
  have index: "index_of_uid G (node_uid G u) = Some u" if "u < node_count G" for u
    using that us(2) index_uids_Some[OF uids_of_ok(2), of es] unfolding index_of_uid_def node_uid_def node_count_def b(1, 2)
    by simp
  have sym: "joining (g_uids G) i j rels = joining (g_uids G) j i rels" for i j by (auto simp: joining_def intro: filter_cong)
  show ?thesis
    unfolding Let_def G_def[symmetric] list_all_iff
    using us index b(4, 5) sym by auto
qed

text \<open>C18: The breadth-first levels of a node are the lengths of the shortest walks from it: a node has level
  d exactly when a walk of d edges and none shorter reaches it, and the nodes no walk reaches have no level.\<close>

theorem bfs_levels_shortest:
  "let G = build es rels
   in list_all2 (\<lambda>v level. \<forall>d. level = Some d \<longleftrightarrow> s < node_count G \<and> distance (neighbours G) s v d)
        [0..<node_count G] (bfs_levels G s)"
proof -
  have "length (bfs_levels (build es rels) s) = node_count (build es rels)"
    using built.bfs_loop_inv[OF built.bfs_inv_start, of s es rels]
    by (simp add: bfs_levels_def Let_def built.bfs_inv_def)
  then show ?thesis
    using built.bfs_levels_distance[of s es rels]
    by (simp add: list_all2_conv_all_nth bfs_levels_def Let_def)
qed

end
