(* ===== verification/Pivot_Correct.thy ===== *)
theory Pivot_Correct
  imports Pivot_Reach
begin

text \<open>
  Searching 64 nodes at a time finds what one breadth-first search per node finds: the invariant of a level
  relates each bit of the words to the distance from that bit's source.
\<close>

section \<open>Distances\<close>

lemma distance_0 [simp]: "distance adj s v 0 \<longleftrightarrow> v = s"
  by (auto simp: distance_def)

lemma distance_Suc:
  "distance adj s v (Suc d) \<longleftrightarrow>
     (\<exists>u. distance adj s u d \<and> v \<in> set (adj u)) \<and> \<not> (\<exists>d' \<le> d. distance adj s v d')"
proof
  assume v: "distance adj s v (Suc d)"
  then obtain u where u: "u \<in> walk_ends adj s d" "v \<in> set (adj u)" by (auto simp: distance_def)
  then obtain e where e: "e \<le> d" "distance adj s u e" using distance_exists by blast
  have "v \<in> walk_ends adj s (Suc e)" using e(2) u(2) by (auto simp: distance_def)
  then have "\<not> Suc e < Suc d" using v by (auto simp: distance_def)
  then have "e = d" using e(1) by simp
  moreover have "\<not> (\<exists>d' \<le> d. distance adj s v d')" using v by (auto simp: distance_def)
  ultimately show "(\<exists>u. distance adj s u d \<and> v \<in> set (adj u)) \<and> \<not> (\<exists>d' \<le> d. distance adj s v d')"
    using e(2) u(2) by blast
next
  assume v: "(\<exists>u. distance adj s u d \<and> v \<in> set (adj u)) \<and> \<not> (\<exists>d' \<le> d. distance adj s v d')"
  then have "v \<in> walk_ends adj s (Suc d)" by (auto simp: distance_def)
  moreover have "v \<notin> walk_ends adj s d'" if "d' < Suc d" for d'
    using v that distance_exists[of v adj s d'] by (meson le_trans less_Suc_eq_le)
  ultimately show "distance adj s v (Suc d)" by (auto simp: distance_def)
qed

lemma distance_below: "distance adj s v d \<Longrightarrow> e \<le> d \<Longrightarrow> \<exists>u. distance adj s u e"
proof (induction d arbitrary: v)
  case (Suc d)
  then show ?case by (cases "e = Suc d") (auto simp: distance_Suc)
qed auto

definition sphere :: "nat \<Rightarrow> (nat \<Rightarrow> nat list) \<Rightarrow> nat \<Rightarrow> nat \<Rightarrow> nat set" where
  "sphere n adj s d = {v. v < n \<and> distance adj s v d}"

section \<open>One node, one level\<close>

text \<open>What spreading bits does: \<open>P v i\<close> says some source of bits offers search \<open>i\<close> to node \<open>v\<close>.\<close>

definition spread_ok :: "nat \<Rightarrow> (nat \<Rightarrow> nat \<Rightarrow> bool) \<Rightarrow> reach_state \<Rightarrow> reach_state \<Rightarrow> bool" where
  "spread_ok n P st st' \<longleftrightarrow>
     totals st' = totals st \<and> seen st' = seen st \<and> frontier_bits st' = frontier_bits st \<and> at_level st' = at_level st \<and>
     length (next_bits st') = length (next_bits st) \<and>
     (\<forall>v < n. \<forall>i. bit (next_bits st' ! v) i \<longleftrightarrow> bit (next_bits st ! v) i \<or> P v i \<and> \<not> bit (seen st ! v) i) \<and>
     (distinct (at_next st) \<and> set (at_next st) = {v. v < n \<and> next_bits st ! v \<noteq> 0} \<longrightarrow>
       distinct (at_next st') \<and> set (at_next st') = {v. v < n \<and> next_bits st' ! v \<noteq> 0})"

lemma spread_ok_refl: "(\<And>v i. \<not> P v i) \<Longrightarrow> spread_ok n P st st"
  by (simp add: spread_ok_def)

lemma spread_ok_trans:
  assumes "spread_ok n P st st'" "spread_ok n Q st' st''" "\<And>v i. R v i \<longleftrightarrow> P v i \<or> Q v i"
  shows "spread_ok n R st st''"
  using assms unfolding spread_ok_def by auto

definition spread_one :: "u64 \<Rightarrow> nat \<Rightarrow> reach_state \<Rightarrow> reach_state" where
  "spread_one bits v st =
     (let reached = bits AND NOT (seen st ! v) in
      if reached \<noteq> 0 then
        st\<lparr>at_next := (if next_bits st ! v = 0 then at_next st @ [v] else at_next st),
           next_bits := (next_bits st)[v := next_bits st ! v OR reached]\<rparr>
      else st)"

lemma spread_Cons: "spread bits (v # vs) st = spread bits vs (spread_one bits v st)"
  by (simp add: spread_one_def Let_def)

lemma word_nonzero_bit: "w \<noteq> 0 \<longleftrightarrow> (\<exists>i. bit (w :: u64) i)"
  using bit_word_eqI[of w 0] by auto

lemma spread_one_ok:
  assumes "length (next_bits st) = n" "v < n"
  shows "spread_ok n (\<lambda>w i. w = v \<and> bit bits i) st (spread_one bits v st)"
proof -
  let ?r = "bits AND NOT (seen st ! v)"
  have r: "bit ?r i \<longleftrightarrow> bit bits i \<and> \<not> bit (seen st ! v) i" for i
    by (auto simp: bit_and_iff bit_not_iff dest: bit_imp_le_length)
  show ?thesis
  proof (cases "?r = 0")
    case True
    then have "\<not> (bit bits i \<and> \<not> bit (seen st ! v) i)" for i using r[of i] by simp
    then show ?thesis using True by (auto simp: spread_ok_def spread_one_def)
  next
    case False
    then have "next_bits st ! v OR ?r \<noteq> 0" by (auto simp: word_nonzero_bit bit_or_iff)
    then show ?thesis
      using False assms r by (auto simp: spread_ok_def spread_one_def Let_def nth_list_update bit_or_iff)
  qed
qed

lemma spread_effect:
  "length (next_bits st) = n \<Longrightarrow> \<forall>v \<in> set vs. v < n \<Longrightarrow> spread_ok n (\<lambda>v i. v \<in> set vs \<and> bit bits i) st (spread bits vs st)"
proof (induction vs arbitrary: st)
  case (Cons v vs)
  then have one: "spread_ok n (\<lambda>w i. w = v \<and> bit bits i) st (spread_one bits v st)" by (simp add: spread_one_ok)
  then have "spread_ok n (\<lambda>v i. v \<in> set vs \<and> bit bits i) (spread_one bits v st) (spread bits vs (spread_one bits v st))"
    using Cons by (simp add: spread_ok_def[of _ "\<lambda>w i. w = v \<and> bit bits i"])
  then show ?case unfolding spread_Cons by (rule spread_ok_trans[OF one]) auto
qed (simp add: spread_ok_refl)

lemma expand_effect:
  "length (next_bits st) = n \<Longrightarrow> \<forall>u \<in> set us. \<forall>v \<in> set (adj u). v < n \<Longrightarrow>
   spread_ok n (\<lambda>v i. \<exists>u \<in> set us. v \<in> set (adj u) \<and> bit (frontier_bits st ! u) i) st (expand adj us st)"
proof (induction us arbitrary: st)
  case (Cons u us)
  let ?st = "spread (frontier_bits st ! u) (adj u) st"
  have one: "spread_ok n (\<lambda>v i. v \<in> set (adj u) \<and> bit (frontier_bits st ! u) i) st ?st"
    using Cons.prems by (intro spread_effect) simp_all
  then have same: "length (next_bits ?st) = n" "frontier_bits ?st = frontier_bits st"
    using Cons.prems(1) by (simp_all add: spread_ok_def)
  have "spread_ok n (\<lambda>v i. \<exists>u \<in> set us. v \<in> set (adj u) \<and> bit (frontier_bits st ! u) i) ?st (expand adj us ?st)"
    using Cons.IH[OF same(1)] Cons.prems(2) unfolding same(2) by simp
  then show ?case unfolding expand.simps by (rule spread_ok_trans[OF one]) auto
qed (simp add: spread_ok_refl)

lemma credit_effect:
  assumes "j < length ss"
  shows "length (credit batch level w ss) = length ss \<and>
    credit batch level w ss ! j =
      (if batch \<le> j \<and> bit w (j - batch) then (fst (ss ! j) + 1, snd (ss ! j) + level) else ss ! j)"
  using assms
proof (induction batch level w ss rule: credit.induct)
  case (1 batch level w ss)
  show ?case
  proof (cases "w = 0")
    case False
    let ?k = "trailing_zeros w"
    obtain a b where ab: "ss ! (batch + ?k) = (a, b)" by (cases "ss ! (batch + ?k)")
    let ?ss = "ss[batch + ?k := (a + 1, b + level)]"
    have step: "credit batch level w ss = credit batch level (w AND (w - 1)) ?ss"
      using False ab by (subst credit.simps) (simp add: Let_def)
    have IH: "length (credit batch level (w AND (w - 1)) ?ss) = length ?ss \<and>
      credit batch level (w AND (w - 1)) ?ss ! j =
        (if batch \<le> j \<and> bit (w AND (w - 1)) (j - batch) then (fst (?ss ! j) + 1, snd (?ss ! j) + level) else ?ss ! j)"
      using 1(1)[OF False refl ab[symmetric]] 1(2) by simp
    have low: "bit (w AND (w - 1)) i \<longleftrightarrow> bit w i \<and> i \<noteq> ?k" for i
      using bit_clear_lowest[OF False, of i] trailing_zeros_lowest(2)[OF False] trailing_zeros_lowest(3)[OF False]
      by (metis linorder_neqE_nat)
    show ?thesis
    proof (cases "j = batch + ?k")
      case True
      then show ?thesis using IH ab 1(2) trailing_zeros_lowest(2)[OF False] unfolding step low by simp
    next
      case False
      then have "?ss ! j = ss ! j" "batch \<le> j \<Longrightarrow> j - batch \<noteq> ?k" by auto
      then show ?thesis using IH unfolding step low by auto
    qed
  qed (simp add: credit.simps)
qed

text \<open>The nodes of \<open>vs\<close> that search \<open>i\<close> reached.\<close>

definition reached_by :: "nat \<Rightarrow> u64 list \<Rightarrow> nat list \<Rightarrow> nat list" where
  "reached_by i nb vs = filter (\<lambda>v. bit (nb ! v) i) vs"

definition add_reached :: "nat \<Rightarrow> nat \<Rightarrow> nat \<times> nat \<Rightarrow> nat \<times> nat" where
  "add_reached level k = (\<lambda>(reached, total). (reached + k, total + level * k))"

definition settled :: "nat \<Rightarrow> nat \<Rightarrow> nat \<Rightarrow> nat list \<Rightarrow> reach_state \<Rightarrow> reach_state \<Rightarrow> bool" where
  "settled n batch level vs st st' \<longleftrightarrow>
    length (seen st') = n \<and> length (next_bits st') = n \<and> length (frontier_bits st') = n \<and> length (totals st') = n \<and>
    at_level st' = at_level st \<and> at_next st' = at_next st \<and>
    (\<forall>v < n. next_bits st' ! v = (if v \<in> set vs then 0 else next_bits st ! v)) \<and>
    (\<forall>v < n. seen st' ! v = (if v \<in> set vs then seen st ! v OR next_bits st ! v else seen st ! v)) \<and>
    (\<forall>v < n. frontier_bits st' ! v = (if v \<in> set vs then next_bits st ! v else frontier_bits st ! v)) \<and>
    (\<forall>j < n. totals st' ! j =
      (if batch \<le> j then add_reached level (length (reached_by (j - batch) (next_bits st) vs)) (totals st ! j)
       else totals st ! j))"

definition settle_one :: "nat \<Rightarrow> nat \<Rightarrow> nat \<Rightarrow> reach_state \<Rightarrow> reach_state" where
  "settle_one batch level v st =
     (let reached = next_bits st ! v in
      st\<lparr>next_bits := (next_bits st)[v := 0], seen := (seen st)[v := seen st ! v OR reached],
         frontier_bits := (frontier_bits st)[v := reached], totals := credit batch level reached (totals st)\<rparr>)"

lemma settle_Cons: "settle batch level (v # vs) st = settle batch level vs (settle_one batch level v st)"
  by (simp add: settle_one_def Let_def)

lemma add_reached_add: "add_reached level k (add_reached level l p) = add_reached level (l + k) p"
  by (cases p) (simp add: add_reached_def algebra_simps)

lemma settle_one_settled:
  assumes "length (seen st) = n" "length (next_bits st) = n" "length (frontier_bits st) = n" "length (totals st) = n" "v < n"
  shows "settled n batch level [v] st (settle_one batch level v st)"
proof -
  have "credit batch level (next_bits st ! v) (totals st) ! j =
      (if batch \<le> j then add_reached level (length (reached_by (j - batch) (next_bits st) [v])) (totals st ! j) else totals st ! j)"
    if "j < n" for j
    using credit_effect[of j "totals st" batch level "next_bits st ! v"] that assms(4)
    by (cases "totals st ! j") (simp add: add_reached_def reached_by_def)
  moreover have "length (credit batch level (next_bits st ! v) (totals st)) = n"
    using credit_effect[of v "totals st"] assms(4, 5) by simp
  ultimately show ?thesis using assms by (auto simp: settled_def settle_one_def Let_def nth_list_update)
qed

lemma settled_trans:
  assumes "settled n batch level [v] st st'" "settled n batch level vs st' st''" "v \<notin> set vs" "\<forall>v \<in> set vs. v < n" "v < n"
  shows "settled n batch level (v # vs) st st''"
proof -
  have "reached_by i (next_bits st') vs = reached_by i (next_bits st) vs" for i
    using assms(1, 3, 4) unfolding reached_by_def settled_def by (intro filter_cong) auto
  then have "totals st'' ! j =
      (if batch \<le> j then add_reached level (length (reached_by (j - batch) (next_bits st) (v # vs))) (totals st ! j)
       else totals st ! j)" if "j < n" for j
    using assms(1, 2) that by (simp add: settled_def add_reached_add reached_by_def)
  moreover have "next_bits st'' ! w = (if w \<in> set (v # vs) then 0 else next_bits st ! w)"
    "seen st'' ! w = (if w \<in> set (v # vs) then seen st ! w OR next_bits st ! w else seen st ! w)"
    "frontier_bits st'' ! w = (if w \<in> set (v # vs) then next_bits st ! w else frontier_bits st ! w)" if "w < n" for w
    using assms(1-3) that by (auto simp: settled_def)
  ultimately show ?thesis using assms(1, 2) by (simp add: settled_def)
qed

lemma settle_effect:
  "length (seen st) = n \<Longrightarrow> length (next_bits st) = n \<Longrightarrow> length (frontier_bits st) = n \<Longrightarrow> length (totals st) = n \<Longrightarrow>
   distinct vs \<Longrightarrow> \<forall>v \<in> set vs. v < n \<Longrightarrow> settled n batch level vs st (settle batch level vs st)"
proof (induction vs arbitrary: st)
  case Nil
  then show ?case by (simp add: settled_def add_reached_def reached_by_def)
next
  case (Cons v vs)
  then have one: "settled n batch level [v] st (settle_one batch level v st)" by (intro settle_one_settled) simp_all
  then have "settled n batch level vs (settle_one batch level v st) (settle batch level vs (settle_one batch level v st))"
    using Cons.prems by (intro Cons.IH) (simp_all add: settled_def[of _ _ _ "[v]"])
  then show ?case unfolding settle_Cons using Cons.prems by (intro settled_trans[OF one]) simp_all
qed

section \<open>A level of a batch\<close>

context node_graph
begin

lemma distance_node: "s < n \<Longrightarrow> distance adj s v d \<Longrightarrow> v < n"
  by (auto simp: distance_def intro: walk_node)

lemma distance_less: "s < n \<Longrightarrow> distance adj s v d \<Longrightarrow> d < n"
proof -
  assume s: "s < n" and v: "distance adj s v d"
  then have "\<forall>e \<in> {..d}. \<exists>u. distance adj s u e" using distance_below by blast
  then obtain f where f: "\<forall>e \<in> {..d}. distance adj s (f e) e" by (rule bchoice[THEN exE])
  have "inj_on f {..d}"
  proof (rule inj_onI)
    fix a b assume "a \<in> {..d}" "b \<in> {..d}" "f a = f b"
    then show "a = b" using f distance_unique[of adj s "f a" a b] by metis
  qed
  moreover have "f ` {..d} \<subseteq> {..<n}" using f distance_node[OF s] by auto
  ultimately have "card {..d} \<le> card {..<n}" by (intro card_inj_on_le[of f]) auto
  then show ?thesis by simp
qed

definition search_sum :: "nat \<Rightarrow> nat \<Rightarrow> nat \<times> nat" where
  "search_sum s L = ((\<Sum>d \<le> L. card (sphere n adj s d)), (\<Sum>d \<le> L. d * card (sphere n adj s d)))"

definition level_inv :: "nat \<Rightarrow> (nat \<times> nat) list \<Rightarrow> nat \<Rightarrow> reach_state \<Rightarrow> bool" where
  "level_inv b ts L st \<longleftrightarrow>
     length (seen st) = n \<and> length (next_bits st) = n \<and> length (frontier_bits st) = n \<and> length (totals st) = n \<and>
     (\<forall>v < n. next_bits st ! v = 0) \<and> at_next st = [] \<and>
     (\<forall>v < n. \<forall>i. bit (seen st ! v) i \<longleftrightarrow> i < 64 \<and> b + i < n \<and> (\<exists>d \<le> L. distance adj (b + i) v d)) \<and>
     distinct (at_level st) \<and>
     set (at_level st) = {v. v < n \<and> (\<exists>i < 64. b + i < n \<and> distance adj (b + i) v L)} \<and>
     (\<forall>v \<in> set (at_level st). \<forall>i. bit (frontier_bits st ! v) i \<longleftrightarrow> i < 64 \<and> b + i < n \<and> distance adj (b + i) v L) \<and>
     (\<forall>j < n. totals st ! j = (if b \<le> j \<and> j < b + 64 then search_sum j L else ts ! j))"

lemma next_level_inv:
  assumes inv: "level_inv b ts L st"
  shows "level_inv b ts (Suc L) (next_level adj b (Suc L) st)"
proof -
  define E where "E = expand adj (at_level st) st"
  define S where "S = settle b (Suc L) (at_next E) E"
  have frontier_lt: "\<forall>u \<in> set (at_level st). u < n" using inv by (auto simp: level_inv_def)
  then have nodes: "\<forall>u \<in> set (at_level st). \<forall>v \<in> set (adj u). v < n" using adj_node by blast
  have len: "length (next_bits st) = n" using inv by (simp add: level_inv_def)
  note E = expand_effect[OF len nodes, folded E_def]
  have same: "totals E = totals st" "seen E = seen st" "frontier_bits E = frontier_bits st" "length (next_bits E) = n"
    using E len by (simp_all add: spread_ok_def)
  have bits: "bit (next_bits E ! v) i \<longleftrightarrow> bit (next_bits st ! v) i \<or>
      (\<exists>u \<in> set (at_level st). v \<in> set (adj u) \<and> bit (frontier_bits st ! u) i) \<and> \<not> bit (seen st ! v) i" if "v < n" for v i
    using E that by (simp add: spread_ok_def)
  have empty: "distinct (at_next st) \<and> set (at_next st) = {v. v < n \<and> next_bits st ! v \<noteq> 0}"
    using inv by (auto simp: level_inv_def)
  have E_next: "distinct (at_next E)" "set (at_next E) = {v. v < n \<and> next_bits E ! v \<noteq> 0}"
    using E empty by (simp_all add: spread_ok_def)
  have reached: "bit (next_bits E ! v) i \<longleftrightarrow> i < 64 \<and> b + i < n \<and> distance adj (b + i) v (Suc L)" if v: "v < n" for v i
  proof -
    have "bit (next_bits E ! v) i \<longleftrightarrow>
        (\<exists>u \<in> set (at_level st). v \<in> set (adj u) \<and> bit (frontier_bits st ! u) i) \<and> \<not> bit (seen st ! v) i"
      using bits v inv by (simp add: level_inv_def)
    also have "\<dots> \<longleftrightarrow> i < 64 \<and> b + i < n \<and> (\<exists>u. distance adj (b + i) u L \<and> v \<in> set (adj u)) \<and>
        \<not> (\<exists>d \<le> L. distance adj (b + i) v d)"
    proof -
      have "u \<in> set (at_level st) \<and> bit (frontier_bits st ! u) i \<longleftrightarrow> i < 64 \<and> b + i < n \<and> distance adj (b + i) u L" for u
      proof -
        have "u \<in> set (at_level st) \<longleftrightarrow> u < n \<and> (\<exists>i < 64. b + i < n \<and> distance adj (b + i) u L)"
          using inv by (simp add: level_inv_def)
        moreover have "u \<in> set (at_level st) \<Longrightarrow>
            bit (frontier_bits st ! u) i \<longleftrightarrow> i < 64 \<and> b + i < n \<and> distance adj (b + i) u L"
          using inv by (simp add: level_inv_def)
        ultimately show ?thesis using distance_node[of "b + i" u L] by blast
      qed
      moreover have "bit (seen st ! v) i \<longleftrightarrow> i < 64 \<and> b + i < n \<and> (\<exists>d \<le> L. distance adj (b + i) v d)"
        using inv v by (simp add: level_inv_def)
      ultimately show ?thesis by blast
    qed
    finally show ?thesis by (simp add: distance_Suc)
  qed
  have lens: "length (seen E) = n" "length (next_bits E) = n" "length (frontier_bits E) = n" "length (totals E) = n"
    using same inv by (simp_all add: level_inv_def)
  have below: "\<forall>v \<in> set (at_next E). v < n" using E_next(2) by simp
  note S = settle_effect[OF lens E_next(1) below, of b "Suc L", folded S_def]
  have S_same: "length (seen S) = n" "length (next_bits S) = n" "length (frontier_bits S) = n" "length (totals S) = n"
    "at_next S = at_next E" using S by (simp_all add: settled_def)
  have S_next: "next_bits S ! v = 0" if "v < n" for v
    using S that E_next(2) by (auto simp: settled_def)
  have S_seen: "bit (seen S ! v) i \<longleftrightarrow> bit (seen st ! v) i \<or> bit (next_bits E ! v) i" if "v < n" for v i
    using S that E_next(2) same(2) by (auto simp: settled_def bit_or_iff)
  have S_bits: "frontier_bits S ! v = next_bits E ! v" if "v \<in> set (at_next E)" for v
    using S that below by (simp add: settled_def)
  have S_totals: "totals S ! j =
      (if b \<le> j then add_reached (Suc L) (length (reached_by (j - b) (next_bits E) (at_next E))) (totals st ! j) else totals st ! j)"
    if "j < n" for j
    using S that same(1) by (simp add: settled_def)
  have old_totals: "totals st ! j = (if b \<le> j \<and> j < b + 64 then search_sum j L else ts ! j)" if "j < n" for j
    using inv that by (simp add: level_inv_def)
  have N: "next_level adj b (Suc L) st = S\<lparr>at_level := at_next E, at_next := []\<rparr>"
    by (simp add: next_level_def Let_def S_same(5) flip: E_def S_def)
  have in_next: "v \<in> set (at_next E) \<longleftrightarrow> v < n \<and> (\<exists>i < 64. b + i < n \<and> distance adj (b + i) v (Suc L))" for v
    unfolding E_next(2) using reached by (auto simp: word_nonzero_bit)
  have seen: "bit (seen S ! v) i \<longleftrightarrow> i < 64 \<and> b + i < n \<and> (\<exists>d \<le> Suc L. distance adj (b + i) v d)" if "v < n" for v i
  proof -
    have "bit (seen st ! v) i \<longleftrightarrow> i < 64 \<and> b + i < n \<and> (\<exists>d \<le> L. distance adj (b + i) v d)"
      using inv that by (simp add: level_inv_def)
    then show ?thesis unfolding S_seen[OF that] reached[OF that] by (auto simp: le_Suc_eq)
  qed
  have totals: "totals S ! j = (if b \<le> j \<and> j < b + 64 then search_sum j (Suc L) else ts ! j)" if j: "j < n" for j
  proof (cases "b \<le> j")
    case True
    have "length (reached_by (j - b) (next_bits E) (at_next E)) =
        card {v \<in> set (at_next E). bit (next_bits E ! v) (j - b)}"
      unfolding reached_by_def using E_next(1) by (metis distinct_card distinct_filter set_filter)
    also have "{v \<in> set (at_next E). bit (next_bits E ! v) (j - b)} = (if j < b + 64 then sphere n adj j (Suc L) else {})"
    proof -
      have "bit (next_bits E ! v) (j - b) \<longleftrightarrow> j < b + 64 \<and> distance adj j v (Suc L)" if "v < n" for v
        using reached[OF that, of "j - b"] True j by auto
      then show ?thesis unfolding E_next(2) sphere_def by (auto simp: word_nonzero_bit)
    qed
    finally show ?thesis
      using True unfolding S_totals[OF j] old_totals[OF j] by (simp add: add_reached_def search_sum_def split: prod.split)
  next
    case False
    then show ?thesis unfolding S_totals[OF j] old_totals[OF j] by simp
  qed
  have bits': "bit (frontier_bits S ! v) i \<longleftrightarrow> i < 64 \<and> b + i < n \<and> distance adj (b + i) v (Suc L)"
    if "v \<in> set (at_next E)" for v i
    using that below reached unfolding S_bits[OF that] by blast
  have next': "set (at_next E) = {v. v < n \<and> (\<exists>i < 64. b + i < n \<and> distance adj (b + i) v (Suc L))}"
    using in_next by blast
  show ?thesis
    unfolding N level_inv_def
  proof (intro conjI)
    show "\<forall>v < n. \<forall>i. bit (seen (S\<lparr>at_level := at_next E, at_next := []\<rparr>) ! v) i \<longleftrightarrow>
        i < 64 \<and> b + i < n \<and> (\<exists>d \<le> Suc L. distance adj (b + i) v d)"
      using seen by simp
    show "\<forall>j < n. totals (S\<lparr>at_level := at_next E, at_next := []\<rparr>) ! j =
        (if b \<le> j \<and> j < b + 64 then search_sum j (Suc L) else ts ! j)"
      using totals by simp
    show "\<forall>v \<in> set (at_level (S\<lparr>at_level := at_next E, at_next := []\<rparr>)). \<forall>i.
        bit (frontier_bits (S\<lparr>at_level := at_next E, at_next := []\<rparr>) ! v) i \<longleftrightarrow>
        i < 64 \<and> b + i < n \<and> distance adj (b + i) v (Suc L)"
      using bits' by simp
    show "set (at_level (S\<lparr>at_level := at_next E, at_next := []\<rparr>)) =
        {v. v < n \<and> (\<exists>i < 64. b + i < n \<and> distance adj (b + i) v (Suc L))}"
      using next' by simp
  qed (use S_same S_next E_next(1) in simp_all)
qed

section \<open>A batch\<close>

lemma search_sum_0: "s < n \<Longrightarrow> search_sum s 0 = (1, 0)"
proof -
  assume "s < n"
  then have "sphere n adj s 0 = {s}" by (auto simp: sphere_def)
  then show ?thesis by (simp add: search_sum_def)
qed

lemma search_sum_stable:
  assumes "\<And>d. L \<le> d \<Longrightarrow> sphere n adj s d = {}" "\<And>d. M \<le> d \<Longrightarrow> sphere n adj s d = {}"
  shows "search_sum s L = search_sum s M"
proof -
  have grow: "search_sum s L = search_sum s (max L M)" if "\<And>d. L \<le> d \<Longrightarrow> sphere n adj s d = {}" for L M
  proof -
    have "(\<Sum>d \<le> L. f d * card (sphere n adj s d)) = (\<Sum>d \<le> max L M. f d * card (sphere n adj s d))" for f :: "nat \<Rightarrow> nat"
      using that by (intro sum.mono_neutral_left) auto
    from this[of "\<lambda>_. 1"] this[of "\<lambda>d. d"] show ?thesis by (simp add: search_sum_def)
  qed
  show ?thesis using grow[of L M] grow[of M L] assms by (simp add: max.commute)
qed

lemma sphere_above: "s < n \<Longrightarrow> sphere n adj s L = {} \<Longrightarrow> L \<le> d \<Longrightarrow> sphere n adj s d = {}"
  using distance_below distance_node unfolding sphere_def by blast

lemma sphere_far: "s < n \<Longrightarrow> n \<le> d \<Longrightarrow> sphere n adj s d = {}"
  using distance_less by (fastforce simp: sphere_def)

lemma level_loop_ends:
  "level_inv b ts L st \<Longrightarrow>
   \<exists>st' L'. level_loop adj b L st = Some st' \<and> level_inv b ts L' st' \<and> at_level st' = []"
proof (induction "n - L" arbitrary: L st rule: less_induct)
  case less
  show ?case
  proof (cases "at_level st = []")
    case True
    then show ?thesis using less.prems by (subst level_loop.simps) auto
  next
    case False
    then obtain v where "v \<in> set (at_level st)" by (cases "at_level st") auto
    then have "v \<in> {v. v < n \<and> (\<exists>i < 64. b + i < n \<and> distance adj (b + i) v L)}"
      using less.prems by (simp add: level_inv_def)
    then have "L < n" using distance_less by auto
    then have "n - Suc L < n - L" by simp
    from less.hyps[OF this next_level_inv[OF less.prems]] show ?thesis
      using False by (subst level_loop.simps) simp
  qed
qed

definition ready :: "nat \<Rightarrow> reach_state \<Rightarrow> bool" where
  "ready b st \<longleftrightarrow>
     length (seen st) = n \<and> length (next_bits st) = n \<and> length (frontier_bits st) = n \<and> length (totals st) = n \<and>
     (\<forall>v < n. next_bits st ! v = 0) \<and> at_next st = [] \<and> at_level st = [] \<and>
     (\<forall>j < n. totals st ! j = (if j < b then search_sum j n else (1, 0)))"

lemma start_sources_effect:
  assumes "m \<le> n" "length (seen st) = n" "length (frontier_bits st) = n"
  shows "(let st' = start_sources k [b + k..<m] st in
     totals st' = totals st \<and> next_bits st' = next_bits st \<and> at_next st' = at_next st \<and>
     length (seen st') = n \<and> length (frontier_bits st') = n \<and> at_level st' = at_level st @ [b + k..<m] \<and>
     (\<forall>v < n. seen st' ! v = (if b + k \<le> v \<and> v < m then push_bit (v - b) 1 else seen st ! v) \<and>
       frontier_bits st' ! v = (if b + k \<le> v \<and> v < m then push_bit (v - b) 1 else frontier_bits st ! v)))"
  using assms
proof (induction "m - (b + k)" arbitrary: k st)
  case 0
  then show ?case by (auto simp: Let_def)
next
  case (Suc x)
  let ?s = "b + k"
  let ?st = "st\<lparr>seen := (seen st)[?s := push_bit k 1], frontier_bits := (frontier_bits st)[?s := push_bit k 1],
    at_level := at_level st @ [?s]\<rparr>"
  have lt: "?s < m" and x: "x = m - (b + (k + 1))" using Suc.hyps(2) by simp_all
  then have upt: "[?s..<m] = ?s # [b + (k + 1)..<m]" by (simp add: upt_conv_Cons)
  have n: "?s < n" using lt Suc.prems(1) by simp
  define st0 where "st0 = ?st"
  have st0: "seen st0 = (seen st)[?s := push_bit k 1]" "frontier_bits st0 = (frontier_bits st)[?s := push_bit k 1]"
    "totals st0 = totals st" "next_bits st0 = next_bits st" "at_next st0 = at_next st" "at_level st0 = at_level st @ [?s]"
    by (simp_all add: st0_def)
  have lens: "length (seen st0) = n" "length (frontier_bits st0) = n" using Suc.prems by (simp_all add: st0)
  define fin where "fin = start_sources (k + 1) [b + (k + 1)..<m] st0"
  note IH = Suc.hyps(1)[OF x Suc.prems(1) lens, unfolded Let_def, folded fin_def, unfolded st0]
  have words: "seen fin ! v = (if ?s \<le> v \<and> v < m then push_bit (v - b) 1 else seen st ! v) \<and>
      frontier_bits fin ! v = (if ?s \<le> v \<and> v < m then push_bit (v - b) 1 else frontier_bits st ! v)" if v: "v < n" for v
  proof -
    have at: "seen fin ! v = (if b + (k + 1) \<le> v \<and> v < m then push_bit (v - b) 1 else (seen st)[?s := push_bit k 1] ! v)"
      "frontier_bits fin ! v =
        (if b + (k + 1) \<le> v \<and> v < m then push_bit (v - b) 1 else (frontier_bits st)[?s := push_bit k 1] ! v)"
      using IH v by auto
    consider "v = ?s" | "v \<noteq> ?s" "?s \<le> v" | "\<not> ?s \<le> v" by blast
    then show ?thesis
    proof cases
      case 1
      then show ?thesis unfolding at using n lt Suc.prems by simp
    next
      case 2
      then have "b + (k + 1) \<le> v" by simp
      then show ?thesis unfolding at using 2 by simp
    next
      case 3
      then show ?thesis unfolding at by simp
    qed
  qed
  have "start_sources k [b + k..<m] st = fin" unfolding upt fin_def st0_def by simp
  then show ?case using IH words by (simp add: Let_def upt)
qed

lemma bit_push_one: "bit (push_bit k 1 :: u64) i \<longleftrightarrow> i = k \<and> k < 64"
  by (auto simp: bit_simps)

lemma start_inv:
  assumes "ready b st"
  shows "level_inv b (totals st) 0 (start_sources 0 [b..<min n (b + 64)] (st\<lparr>seen := replicate n 0\<rparr>))"
proof -
  let ?m = "min n (b + 64)"
  let ?st = "st\<lparr>seen := replicate n 0\<rparr>"
  define st' where "st' = start_sources 0 [b..<?m] ?st"
  have len: "length (seen ?st) = n" "length (frontier_bits ?st) = n" using assms by (simp_all add: ready_def)
  note start = start_sources_effect[OF _ len, of ?m 0 b, unfolded Let_def add_0_right, folded st'_def]
  have fields: "totals st' = totals st" "next_bits st' = next_bits st" "at_next st' = []" "length (seen st') = n"
    "length (frontier_bits st') = n" "at_level st' = [b..<?m]"
    using start assms by (simp_all add: ready_def)
  have words: "seen st' ! v = (if b \<le> v \<and> v < ?m then push_bit (v - b) 1 else 0)"
    "b \<le> v \<Longrightarrow> v < ?m \<Longrightarrow> frontier_bits st' ! v = push_bit (v - b) 1" if "v < n" for v
    using start that by simp_all
  have own: "i < 64 \<and> b + i < n \<and> v = b + i \<longleftrightarrow> b \<le> v \<and> v < ?m \<and> i = v - b \<and> v - b < 64" for v i
    by auto
  show ?thesis
    unfolding st'_def[symmetric] level_inv_def
  proof (intro conjI)
    show "\<forall>v < n. \<forall>i. bit (seen st' ! v) i \<longleftrightarrow> i < 64 \<and> b + i < n \<and> (\<exists>d \<le> 0. distance adj (b + i) v d)"
    proof (intro allI impI)
      fix v i assume v: "v < n"
      have "bit (seen st' ! v) i \<longleftrightarrow> b \<le> v \<and> v < ?m \<and> i = v - b \<and> v - b < 64"
        unfolding words(1)[OF v] using bit_push_one[of "v - b" i] by auto
      then show "bit (seen st' ! v) i \<longleftrightarrow> i < 64 \<and> b + i < n \<and> (\<exists>d \<le> 0. distance adj (b + i) v d)"
        unfolding own[of i v, symmetric] by simp
    qed
    show "set (at_level st') = {v. v < n \<and> (\<exists>i < 64. b + i < n \<and> distance adj (b + i) v 0)}"
    proof (rule set_eqI)
      fix v
      have "(\<exists>i < 64. b + i < n \<and> v = b + i) \<longleftrightarrow> b \<le> v \<and> v < ?m"
        by (auto intro: exI[of _ "v - b"])
      then show "v \<in> set (at_level st') \<longleftrightarrow> v \<in> {v. v < n \<and> (\<exists>i < 64. b + i < n \<and> distance adj (b + i) v 0)}"
        unfolding fields(6) by auto
    qed
    show "\<forall>v \<in> set (at_level st'). \<forall>i. bit (frontier_bits st' ! v) i \<longleftrightarrow> i < 64 \<and> b + i < n \<and> distance adj (b + i) v 0"
    proof (intro ballI allI)
      fix v i assume "v \<in> set (at_level st')"
      then have v: "b \<le> v" "v < ?m" "v < n" unfolding fields(6) by auto
      then show "bit (frontier_bits st' ! v) i \<longleftrightarrow> i < 64 \<and> b + i < n \<and> distance adj (b + i) v 0"
        unfolding words(2)[OF v(3, 1, 2)] distance_0 own[of i v] bit_push_one by auto
    qed
    show "\<forall>j < n. totals st' ! j = (if b \<le> j \<and> j < b + 64 then search_sum j 0 else totals st ! j)"
      using assms by (auto simp: fields(1) search_sum_0 ready_def)
  qed (use assms fields in \<open>auto simp: ready_def\<close>)
qed

lemma batch_ends:
  assumes "ready b st"
  shows "\<exists>st'. level_loop adj b 0 (start_sources 0 [b..<min n (b + 64)] (st\<lparr>seen := replicate n 0\<rparr>)) = Some st' \<and>
    ready (b + 64) st'"
proof -
  obtain st' L where st': "level_loop adj b 0 (start_sources 0 [b..<min n (b + 64)] (st\<lparr>seen := replicate n 0\<rparr>)) = Some st'"
    "level_inv b (totals st) L st'" "at_level st' = []"
    using level_loop_ends[OF start_inv[OF assms]] by blast
  have none: "sphere n adj j L = {}" if "b \<le> j" "j < b + 64" "j < n" for j
  proof -
    have "{v. v < n \<and> (\<exists>i < 64. b + i < n \<and> distance adj (b + i) v L)} = {}" using st'(2, 3) by (simp add: level_inv_def)
    moreover have "b + (j - b) = j" "j - b < 64" using that by auto
    ultimately show ?thesis using that(3) unfolding sphere_def by (metis (no_types, lifting) Collect_empty_eq)
  qed
  have "search_sum j L = search_sum j n" if "b \<le> j" "j < b + 64" "j < n" for j
    using sphere_above[OF that(3) none[OF that]] sphere_far[OF that(3)] by (rule search_sum_stable)
  then have "ready (b + 64) st'"
    using st'(2, 3) assms unfolding ready_def level_inv_def by (auto simp: not_less)
  then show ?thesis using st'(1) by blast
qed

end

section \<open>All batches\<close>

lemma run_batches_end:
  assumes "node_graph.ready (node_count G) (neighbours G) (64 * a) st" "a \<le> k" "node_graph (node_count G) (neighbours G)"
  shows "\<exists>st'. run_batches G (map (\<lambda>i. 64 * i) [a..<k]) st = Some st' \<and>
    node_graph.ready (node_count G) (neighbours G) (64 * k) st'"
  using assms
proof (induction "k - a" arbitrary: a st)
  case (Suc x)
  have upt: "[a..<k] = a # [a + 1..<k]" and x: "x = k - (a + 1)" and le: "a + 1 \<le> k"
    using Suc.hyps(2) by (simp_all add: upt_conv_Cons)
  obtain st1 where "run_batch G (64 * a) st = Some st1" "node_graph.ready (node_count G) (neighbours G) (64 * a + 64) st1"
    using node_graph.batch_ends[OF Suc.prems(3, 1)] by (auto simp: run_batch_def Let_def)
  then show ?case using Suc.hyps(1)[OF x _ le Suc.prems(3), of st1] by (simp add: upt algebra_simps)
qed simp

lemma sum_at:
  fixes f :: "nat \<Rightarrow> nat"
  assumes "e \<le> L"
  shows "(\<Sum>d \<le> L. f d * length (filter (\<lambda>l. l = Some d) (Some e # ls))) =
    f e + (\<Sum>d \<le> L. f d * length (filter (\<lambda>l. l = Some d) ls))"
proof -
  have "f d * length (filter (\<lambda>l. l = Some d) (Some e # ls)) =
      (if d = e then f d else 0) + f d * length (filter (\<lambda>l. l = Some d) ls)" for d
    by simp
  then show ?thesis using assms by (simp add: sum.distrib sum.delta')
qed

lemma count_levels:
  assumes "\<And>d. Some d \<in> set ls \<Longrightarrow> d \<le> L"
  shows "length (filter (\<lambda>l. l \<noteq> None) ls) = (\<Sum>d \<le> L. length (filter (\<lambda>l. l = Some d) ls))"
    and "sum_list (map the (filter (\<lambda>l. l \<noteq> None) ls)) = (\<Sum>d \<le> L. d * length (filter (\<lambda>l. l = Some d) ls))"
  using assms
proof (induction ls)
  case (Cons l ls)
  {
    case 1
    then show ?case using Cons.IH(1) sum_at[of _ L "\<lambda>_. 1" ls] by (cases l) simp_all
  next
    case 2
    then show ?case using Cons.IH(2) sum_at[of _ L "\<lambda>d. d" ls] by (cases l) simp_all
  }
qed simp_all

text \<open>What one plain search tells of a node: how many nodes it reaches and the sum of their levels.\<close>

definition full_scan :: "nat option list \<Rightarrow> nat \<times> nat" where
  "full_scan levels =
     (length (filter (\<lambda>l. l \<noteq> None) levels), sum_list (map the (filter (\<lambda>l. l \<noteq> None) levels)))"

lemma search_sum_scan:
  fixes es rels
  defines "G \<equiv> build es rels"
  assumes s: "s < node_count G"
  shows "node_graph.search_sum (node_count G) (neighbours G) s (node_count G) = full_scan (bfs_levels G s)"
proof -
  let ?n = "node_count G" and ?ls = "bfs_levels G s"
  have loop: "?ls = bfs_loop (neighbours G) [s] ((replicate ?n None)[s := Some 0])"
    using s by (simp add: bfs_levels_def Let_def)
  have len: "length ?ls = ?n"
    using built.bfs_loop_inv[OF built.bfs_inv_start, of s es rels] s
    unfolding loop by (simp add: built.bfs_inv_def G_def)
  have lev: "?ls ! v = Some d \<longleftrightarrow> distance (neighbours G) s v d" if "v < ?n" for v d
    using built.bfs_levels_distance[of s es rels v d] s that unfolding loop by (simp add: G_def)
  have "length (filter (\<lambda>l. l = Some d) ?ls) = card (sphere ?n (neighbours G) s d)" for d
    unfolding length_filter_conv_card len sphere_def using lev by (metis (mono_tags, lifting))
  moreover have "d \<le> ?n" if l: "Some d \<in> set ?ls" for d
  proof -
    obtain v where "v < ?n" "?ls ! v = Some d" using l len by (metis in_set_conv_nth)
    then have "distance (neighbours G) s v d" using lev by blast
    then show ?thesis using built.distance_less[of s es rels v d] s by (simp add: G_def)
  qed
  ultimately show ?thesis
    using count_levels[of ?ls ?n] 
    by (simp add: full_scan_def node_graph.search_sum_def[OF built.node_graph_axioms[of es rels, folded G_def]])
qed

section \<open>Property\<close>

text \<open>C9: Searching 64 nodes at a time, one bit of a word each, ends and finds for every node of a graph what
  one breadth-first search from it finds: how many nodes it reaches, itself included, and the sum of their
  levels.\<close>

theorem reach_sums_match_full_scans:
  "let G = build es rels
   in reach_and_distance_sums G = Some (map (\<lambda>s. full_scan (bfs_levels G s)) [0..<node_count G])"
proof -
  define G where "G = build es rels"
  let ?n = "node_count G"
  let ?st = "\<lparr>totals = replicate ?n (1, 0), seen = replicate ?n 0, frontier_bits = replicate ?n 0,
    next_bits = replicate ?n 0, at_level = [], at_next = []\<rparr>"
  have graph: "node_graph ?n (neighbours G)" unfolding G_def by (rule built.node_graph_axioms)
  have "node_graph.ready ?n (neighbours G) (64 * 0) ?st" by (simp add: node_graph.ready_def[OF graph])
  from run_batches_end[OF this _ graph, of "(?n + 63) div 64"]
  obtain st' where st': "run_batches G (map (\<lambda>i. 64 * i) [0..<(?n + 63) div 64]) ?st = Some st'"
    "node_graph.ready ?n (neighbours G) (64 * ((?n + 63) div 64)) st'" by auto
  have "length (totals st') = ?n"
    "totals st' ! j = full_scan (bfs_levels G j)" if "j < ?n" for j
  proof -
    show "length (totals st') = ?n" using st'(2) by (simp add: node_graph.ready_def[OF graph])
    have "j < 64 * ((?n + 63) div 64)" using that by linarith
    then show "totals st' ! j = full_scan (bfs_levels G j)"
      using st'(2) that search_sum_scan[of j es rels] by (simp add: node_graph.ready_def[OF graph] flip: G_def)
  qed
  then have "totals st' = map (\<lambda>s. full_scan (bfs_levels G s)) [0..<?n]"
    using st'(2) by (intro nth_equalityI) (simp_all add: node_graph.ready_def[OF graph])
  then show ?thesis using st'(1) by (simp add: reach_and_distance_sums_def Let_def flip: G_def)
qed

end
