(* ===== verification/Timefmt.thy ===== *)
theory Timefmt
  imports Rust_Str "HOL-Library.Signed_Division" "HOL-Library.Monad_Syntax"
begin

text \<open>
  \<open>src/timefmt.rs\<close>: the proleptic Gregorian calendar in integer arithmetic, the UTC text of an
  instant, and the parsers of timestamps and HTTP dates. An \<open>i32\<close> or \<open>i64\<close> is an \<open>int\<close>; the wrap
  at 64 bits is written out where the operands are not bounded by the types of the parameters
  (\<open>civil_from_days\<close> takes every \<open>i64\<close>), and the wrap at 32 bits where a year is shifted by a
  century. Months and days are \<open>nat\<close>.
\<close>

section \<open>Machine integers\<close>

definition i64 :: "int \<Rightarrow> int" where
  "i64 x = signed_take_bit 63 x"

definition i32 :: "int \<Rightarrow> int" where
  "i32 x = signed_take_bit 31 x"

definition in_i64 :: "int \<Rightarrow> bool" where
  "in_i64 x \<longleftrightarrow> - (2 ^ 63) \<le> x \<and> x < 2 ^ 63"

definition in_i32 :: "int \<Rightarrow> bool" where
  "in_i32 x \<longleftrightarrow> - (2 ^ 31) \<le> x \<and> x < 2 ^ 31"

definition I32_MAX :: nat where
  "I32_MAX = 2147483647"

definition U32_MAX :: nat where
  "U32_MAX = 4294967295"

definition I64_MAX :: nat where
  "I64_MAX = 9223372036854775807"

text \<open>\<open>str::parse::<i32>\<close>: a sign of either kind may lead.\<close>

definition parse_i32 :: "str \<Rightarrow> int option" where
  "parse_i32 s =
     (case s of
        c # r \<Rightarrow>
          if c = CHR ''-'' then
            (if r = [] then None else map_option (\<lambda>n. - int n) (parse_digits (I32_MAX + 1) 0 r))
          else map_option int (parse_unsigned I32_MAX s)
      | [] \<Rightarrow> None)"

section \<open>The calendar\<close>

definition days_from_civil :: "int \<Rightarrow> nat \<Rightarrow> nat \<Rightarrow> int" where
  "days_from_civil y m d =
     (let year = y - (if m \<le> 2 then 1 else 0);
          era = (if year \<ge> 0 then year else year - 399) sdiv 400;
          yoe = year - era * 400;
          month = int m;
          day = int d;
          doy = (153 * (month + (if month > 2 then - 3 else 9)) + 2) div 5 + day - 1;
          doe = yoe * 365 + yoe div 4 - yoe div 100 + doy
      in era * 146097 + doe - 719468)"

definition civil_from_days :: "int \<Rightarrow> int \<times> nat \<times> nat" where
  "civil_from_days days =
     (let era0 = days div 146097;
          shifted = i64 (days mod 146097 + 719468);
          era = i64 (era0 + shifted div 146097);
          doe = shifted mod 146097;
          yoe = (doe - doe div 1460 + doe div 36524 - doe div 146096) div 365;
          year0 = i64 (yoe + i64 (era * 400));
          doy = doe - (365 * yoe + yoe div 4 - yoe div 100);
          mp = (5 * doy + 2) div 153;
          day = doy - (153 * mp + 2) div 5 + 1;
          month = mp + (if mp < 10 then 3 else - 9);
          year = (if month \<le> 2 then i64 (year0 + 1) else year0)
      in (year, nat month, nat day))"

definition is_leap_year :: "int \<Rightarrow> bool" where
  "is_leap_year year \<longleftrightarrow> year mod 4 = 0 \<and> year mod 100 \<noteq> 0 \<or> year mod 400 = 0"

definition month_days :: "int \<Rightarrow> nat \<Rightarrow> nat option" where
  "month_days year month =
     (if month = 2 then Some (if is_leap_year year then 29 else 28)
      else if month \<in> {4, 6, 9, 11} then Some 30
      else if month \<in> {1, 3, 5, 7, 8, 10, 12} then Some 31
      else None)"

definition days_in_month :: "int \<Rightarrow> nat \<Rightarrow> nat" where
  "days_in_month year month = (case month_days year month of Some n \<Rightarrow> n | None \<Rightarrow> 31)"

section \<open>Printing\<close>

text \<open>\<open>{:0w}\<close> of an unsigned and of a signed number.\<close>

definition fmt_pad :: "nat \<Rightarrow> nat \<Rightarrow> str" where
  "fmt_pad w n = (let s = show_nat n in replicate (w - length s) CHR ''0'' @ s)"

definition fmt_signed :: "nat \<Rightarrow> int \<Rightarrow> str" where
  "fmt_signed w n =
     (if n < 0 then CHR ''-'' # fmt_pad (w - 1) (nat (- n)) else fmt_pad w (nat n))"

definition format_unix :: "int \<Rightarrow> str" where
  "format_unix ts =
     (let days = ts div 86400;
          rest = ts mod 86400;
          (year, month, day) = civil_from_days days;
          hour = rest div 3600;
          mins = rest mod 3600 div 60;
          sec = rest mod 60
      in fmt_signed 4 year @ ''-'' @ fmt_pad 2 month @ ''-'' @ fmt_pad 2 day @ ''T''
         @ fmt_pad 2 (nat hour) @ '':'' @ fmt_pad 2 (nat mins) @ '':'' @ fmt_pad 2 (nat sec) @ ''Z'')"

section \<open>Parsing a timestamp\<close>

definition is_digits :: "str \<Rightarrow> bool" where
  "is_digits s \<longleftrightarrow> s \<noteq> [] \<and> list_all is_ascii_digit s"

text \<open>\<open>digits::<T>\<close> for a type with maximum \<open>m\<close>\<close>

definition digits :: "nat \<Rightarrow> str \<Rightarrow> nat option" where
  "digits m s = (if is_digits s then parse_unsigned m s else None)"

fun find_sign :: "str \<Rightarrow> (str \<times> char \<times> str) option" where
  "find_sign [] = None"
| "find_sign (c # s) =
     (if c = CHR ''+'' \<or> c = CHR ''-'' then Some ([], c, s)
      else map_option (\<lambda>(a, sign, b). (c # a, sign, b)) (find_sign s))"

text \<open>The search starts after the first character; the bytes inside a character are no signs.\<close>

definition split_offset :: "str \<Rightarrow> str \<times> (char \<times> str) option" where
  "split_offset time =
     (case time of
        [] \<Rightarrow> (time, None)
      | c # r \<Rightarrow>
          (case find_sign r of
             Some (a, sign, b) \<Rightarrow> (c # a, Some (sign, b))
           | None \<Rightarrow> (time, None)))"

definition two_digits :: "char \<Rightarrow> char \<Rightarrow> int option" where
  "two_digits tens units =
     (if is_ascii_digit tens \<and> is_ascii_digit units
      then Some (int (digit_value tens) * 10 + int (digit_value units)) else None)"

definition hours_minutes :: "char \<Rightarrow> char \<Rightarrow> char \<Rightarrow> char \<Rightarrow> int option" where
  "hours_minutes h1 h2 m1 m2 =
     do { hours \<leftarrow> two_digits h1 h2;
          minutes \<leftarrow> two_digits m1 m2;
          (if hours \<le> 23 \<and> minutes \<le> 59 then Some (hours * 3600 + minutes * 60) else None) }"

definition offset_seconds :: "str \<Rightarrow> int option" where
  "offset_seconds tail =
     (case tail of
        [h1, h2, c, m1, m2] \<Rightarrow> if c = CHR '':'' then hours_minutes h1 h2 m1 m2 else None
      | [h1, h2, m1, m2] \<Rightarrow> hours_minutes h1 h2 m1 m2
      | _ \<Rightarrow> None)"

definition field_or_zero :: "str list \<Rightarrow> nat \<Rightarrow> str" where
  "field_or_zero bits i = (if i < length bits then bits ! i else ''0'')"

text \<open>The date of a timestamp: \<open>YYYY-MM-DD\<close>, and the day exists.\<close>

definition parse_date_part :: "str \<Rightarrow> (int \<times> nat \<times> nat) option" where
  "parse_date_part date_part =
     (case split_on CHR ''-'' date_part of
        y # rest \<Rightarrow>
          do { year \<leftarrow> digits I32_MAX y;
               (case rest of
                  m # rest' \<Rightarrow>
                    do { month \<leftarrow> digits U32_MAX m;
                         (case rest' of
                            d # extra \<Rightarrow>
                              do { day \<leftarrow> digits U32_MAX d;
                                   (if extra \<noteq> [] \<or> \<not> (1 \<le> month \<and> month \<le> 12)
                                       \<or> \<not> (1 \<le> day \<and> day \<le> days_in_month (int year) month)
                                    then None else Some (int year, month, day)) }
                          | [] \<Rightarrow> None) }
                | [] \<Rightarrow> None) }
      | [] \<Rightarrow> None)"

text \<open>The time of a timestamp, as hour, minute, second and the offset to add.\<close>

definition parse_time_part :: "str \<Rightarrow> (int \<times> int \<times> int \<times> int) option" where
  "parse_time_part time =
     (if time = [] then None
      else
        (let (clock, offset_spec) =
               (case strip_suffix ''Z'' time of Some clock \<Rightarrow> (clock, None) | None \<Rightarrow> split_offset time);
             bits = split_on CHR '':'' clock
         in do { hour \<leftarrow> digits I64_MAX (field_or_zero bits 0);
                 mins \<leftarrow> digits I64_MAX (field_or_zero bits 1);
                 let sec_field = field_or_zero bits 2;
                 let (whole, fraction) =
                   (case split_once CHR ''.'' sec_field of
                      Some (w, f) \<Rightarrow> (w, Some f) | None \<Rightarrow> (sec_field, None));
                 (if (case fraction of Some f \<Rightarrow> \<not> is_digits f | None \<Rightarrow> False) then None
                  else
                    do { sec \<leftarrow> digits I64_MAX whole;
                         (if length bits > 3 \<or> \<not> hour \<le> 23 \<or> \<not> mins \<le> 59 \<or> \<not> sec \<le> 59 then None
                          else
                            (case offset_spec of
                               None \<Rightarrow> Some (int hour, int mins, int sec, 0)
                             | Some (sign, tail) \<Rightarrow>
                                 do { seconds \<leftarrow> offset_seconds tail;
                                      Some (int hour, int mins, int sec,
                                        if sign = CHR ''+'' then - seconds else seconds) })) }) }))"

definition slashes_to_dashes :: "str \<Rightarrow> str" where
  "slashes_to_dashes s = map (\<lambda>c. if c = CHR ''/'' then CHR ''-'' else c) s"

definition split_date_time :: "str \<Rightarrow> str \<times> str option" where
  "split_date_time s =
     (case split_once CHR ''T'' s of
        Some (date, time) \<Rightarrow> (date, Some time)
      | None \<Rightarrow>
          (case split_once CHR '' '' s of
             Some (date, time) \<Rightarrow> (date, Some time)
           | None \<Rightarrow> (s, None)))"

definition parse_timestamp_and_iso :: "str \<Rightarrow> (int \<times> str) option" where
  "parse_timestamp_and_iso raw =
     (let trimmed = trim raw in
      if trimmed = [] then None
      else if is_digits trimmed then
        do { n \<leftarrow> parse_unsigned I64_MAX trimmed;
             (if length trimmed \<ge> 13 then Some (int n div 1000, format_unix (int n div 1000))
              else if length trimmed = 4 then
                do { year \<leftarrow> parse_i32 trimmed;
                     Some (days_from_civil year 1 1 * 86400, fmt_signed 4 year @ ''-01-01'') }
              else Some (int n, format_unix (int n))) }
      else
        (let (date_part, time_part) = split_date_time (slashes_to_dashes trimmed) in
         do { (year, month, day) \<leftarrow> parse_date_part date_part;
              (hour, mins, sec, offset) \<leftarrow>
                (case time_part of None \<Rightarrow> Some (0, 0, 0, 0) | Some time \<Rightarrow> parse_time_part time);
              let ts = days_from_civil year month day * 86400 + hour * 3600 + mins * 60 + sec + offset;
              Some (ts,
                if time_part \<noteq> None then format_unix ts
                else fmt_signed 4 year @ ''-'' @ fmt_pad 2 month @ ''-'' @ fmt_pad 2 day) }))"

definition parse_timestamp :: "str \<Rightarrow> int option" where
  "parse_timestamp raw = map_option fst (parse_timestamp_and_iso raw)"

section \<open>Parsing an HTTP date\<close>

definition MONTHS :: "str list" where
  "MONTHS = [''Jan'', ''Feb'', ''Mar'', ''Apr'', ''May'', ''Jun'', ''Jul'', ''Aug'', ''Sep'', ''Oct'',
     ''Nov'', ''Dec'']"

fun position :: "'a \<Rightarrow> 'a list \<Rightarrow> nat option" where
  "position x [] = None"
| "position x (y # ys) = (if y = x then Some 0 else map_option Suc (position x ys))"

definition is_ascii_whitespace :: "char \<Rightarrow> bool" where
  "is_ascii_whitespace c \<longleftrightarrow> of_char c \<in> {0x20, 0x09, 0x0A, 0x0C, 0x0D :: nat}"

fun split_ascii_whitespace_from :: "str \<Rightarrow> str \<Rightarrow> str list" where
  "split_ascii_whitespace_from cur [] = (if cur = [] then [] else [cur])"
| "split_ascii_whitespace_from cur (c # s) =
     (if is_ascii_whitespace c
      then (if cur = [] then split_ascii_whitespace_from [] s
            else cur # split_ascii_whitespace_from [] s)
      else split_ascii_whitespace_from (cur @ [c]) s)"

definition split_ascii_whitespace :: "str \<Rightarrow> str list" where
  "split_ascii_whitespace s = split_ascii_whitespace_from [] s"

text \<open>\<open>raw.split_once([',', ' '])\<close>\<close>

fun split_comma_or_space :: "str \<Rightarrow> (str \<times> str) option" where
  "split_comma_or_space [] = None"
| "split_comma_or_space (c # s) =
     (if c = CHR '','' \<or> c = CHR '' '' then Some ([], s)
      else map_option (\<lambda>(a, b). (c # a, b)) (split_comma_or_space s))"

text \<open>The year an RFC 850 date names with two digits.\<close>

definition two_digit_year :: "int \<Rightarrow> int \<Rightarrow> int" where
  "two_digit_year now_year yy =
     (let year = i32 (i32 (now_year - now_year mod 100) + yy)
      in if year > i32 (now_year + 50) then i32 (year - 100) else year)"

text \<open>The year and the texts of the month, the day and the clock, by the shape of the date.\<close>

definition http_date_fields :: "str \<Rightarrow> str \<Rightarrow> str list \<Rightarrow> nat \<Rightarrow> (int \<times> str \<times> str \<times> str) option" where
  "http_date_fields raw weekday parts now_unix =
     (case parts of
        [a, b, c, d, e] \<Rightarrow>
          if e = ''GMT'' \<and> raw ! 3 = CHR '','' \<and> length c = 4
          then do { year \<leftarrow> parse_i32 c; Some (year, b, a, d) } else None
      | [date, clock, e] \<Rightarrow>
          if e = ''GMT'' \<and> length weekday < length raw \<and> raw ! length weekday = CHR '',''
          then
            (case split_on CHR ''-'' date of
               [day, month, yy] \<Rightarrow>
                 if length yy \<noteq> 2 then None
                 else
                   do { y \<leftarrow> parse_i32 yy;
                        let now_year = fst (civil_from_days (int (now_unix div 86400)));
                        (if in_i32 now_year then Some (two_digit_year now_year y, month, day, clock)
                         else None) }
             | _ \<Rightarrow> None)
          else None
      | [month, day, clock, year] \<Rightarrow>
          if raw ! 3 = CHR '' '' \<and> length year = 4
          then do { y \<leftarrow> parse_i32 year; Some (y, month, day, clock) } else None
      | _ \<Rightarrow> None)"

definition hms_field :: "int \<Rightarrow> str \<Rightarrow> int option" where
  "hms_field maximum text =
     (if length text \<noteq> 2 \<or> \<not> list_all is_ascii_digit text then None
      else
        do { n \<leftarrow> parse_unsigned I64_MAX text;
             (if int n \<le> maximum then Some (int n) else None) })"

definition parse_clock :: "str \<Rightarrow> (int \<times> int \<times> int) option" where
  "parse_clock clock =
     (case split_on CHR '':'' clock of
        [h, m, s] \<Rightarrow>
          do { hour \<leftarrow> hms_field 23 h; minute \<leftarrow> hms_field 59 m; second \<leftarrow> hms_field 60 s;
               Some (hour, minute, second) }
      | _ \<Rightarrow> None)"

definition parse_http_date :: "str \<Rightarrow> nat \<Rightarrow> int option" where
  "parse_http_date text now_unix =
     (let raw = trim text in
      do { (weekday, rest) \<leftarrow> split_comma_or_space raw;
           (if length weekday < 3 \<or> \<not> list_all is_ascii_alphabetic weekday then None
            else
              do { (year, month_name, day_text, clock) \<leftarrow>
                     http_date_fields raw weekday (split_ascii_whitespace rest) now_unix;
                   month0 \<leftarrow> position month_name MONTHS;
                   let month = month0 + 1;
                   (if day_text = [] \<or> length day_text > 2 \<or> \<not> list_all is_ascii_digit day_text then None
                    else
                      do { day \<leftarrow> parse_unsigned U32_MAX day_text;
                           (hour, minute, second) \<leftarrow> parse_clock clock;
                           let days = days_from_civil year month day;
                           (if civil_from_days days \<noteq> (year, month, day) then None
                            else Some (days * 86400 + hour * 3600 + minute * 60 + second)) }) }) })"

end
