(* ===== verification/Timefmt_Calendar.thy ===== *)
theory Timefmt_Calendar
  imports Timefmt
begin

text \<open>
  The calendar arithmetic of \<open>timefmt\<close> against a reference calendar that only counts: the day after a
  date is the next day of its month, or the first of the next month, or the first of the next year.
  A year is taken from March, so that a leap day is its last day; four hundred years are an era of
  146097 days, and a day of an era is three digits (century, four-year group, year) and a day of
  the year.
\<close>

section \<open>The reference calendar\<close>

definition valid_date :: "int \<times> nat \<times> nat \<Rightarrow> bool" where
  "valid_date date =
     (case date of (y, m, d) \<Rightarrow> 1 \<le> m \<and> m \<le> 12 \<and> 1 \<le> d \<and> d \<le> days_in_month y m)"

definition next_day :: "int \<times> nat \<times> nat \<Rightarrow> int \<times> nat \<times> nat" where
  "next_day date =
     (case date of (y, m, d) \<Rightarrow>
        if d < days_in_month y m then (y, m, d + 1)
        else if m < 12 then (y, m + 1, 1)
        else (y + 1, 1, 1))"

section \<open>Widths\<close>

lemma i64_id: "in_i64 x \<Longrightarrow> i64 x = x"
  unfolding i64_def in_i64_def by (rule signed_take_bit_int_eq_self) simp_all

lemma i32_id: "in_i32 x \<Longrightarrow> i32 x = x"
  unfolding i32_def in_i32_def by (rule signed_take_bit_int_eq_self) simp_all

section \<open>Years from March\<close>

definition march_year :: "int \<Rightarrow> nat \<Rightarrow> int" where
  "march_year y m = y - (if m \<le> 2 then 1 else 0)"

definition year_start :: "int \<Rightarrow> int" where
  "year_start y = 365 * y + y div 4 - y div 100 + y div 400"

definition march_month :: "nat \<Rightarrow> int" where
  "march_month m = int m + (if m > 2 then - 3 else 9)"

lemma sdiv_400: "(if y \<ge> 0 then y else y - 399) sdiv (400 :: int) = y div 400"
proof (cases "y \<ge> 0")
  case True
  then show ?thesis by (cases "y = 0") (simp_all add: signed_divide_int_def)
next
  case False
  then have "sgn (y - 399) = -1" "\<bar>y - 399\<bar> = 399 - y" by (auto simp: sgn_if)
  then have "(y - 399) sdiv 400 = - ((399 - y) div 400)" by (simp add: signed_divide_int_def)
  also have "(399 - y) div 400 = - (y div 400)"
  proof -
    have "399 - y = (399 - y mod 400) + (- (y div 400)) * 400" using mod_div_mult_eq[of y 400] by linarith
    then have "(399 - y) div 400 = (399 - y mod 400) div 400 + - (y div 400)"
      by (metis add.commute div_mult_self1 zero_neq_numeral)
    then show ?thesis by (simp add: div_pos_pos_trivial)
  qed
  finally show ?thesis using False by simp
qed

lemma year_start_era:
  assumes "y = 400 * e + q" "0 \<le> q" "q < 400"
  shows "year_start y = 146097 * e + (365 * q + q div 4 - q div 100)"
proof -
  have "y = q + 100 * e * 4" "y = q + 4 * e * 100" "y = q + e * 400" using assms by simp_all
  then have "y div 4 = 100 * e + q div 4" "y div 100 = 4 * e + q div 100" "y div 400 = e + q div 400"
    by (metis add.commute div_mult_self1 zero_neq_numeral)+
  moreover have "q div 400 = 0" using assms(2,3) by simp
  ultimately show ?thesis unfolding year_start_def using assms(1) by linarith
qed

lemma days_from_civil_eq:
  "days_from_civil y m d =
     year_start (march_year y m) + ((153 * march_month m + 2) div 5 + int d - 1) - 719468"
proof -
  let ?y = "march_year y m"
  have "year_start ?y = 146097 * (?y div 400) + (365 * (?y - ?y div 400 * 400)
      + (?y - ?y div 400 * 400) div 4 - (?y - ?y div 400 * 400) div 100)"
    by (rule year_start_era) (simp_all add: minus_div_mult_eq_mod)
  then show ?thesis
    unfolding days_from_civil_def march_year_def[symmetric] Let_def sdiv_400
    by (simp add: march_month_def algebra_simps)
qed

lemma div_plus_one: "0 < k \<Longrightarrow> (y + 1) div k = y div k + (if (y + 1) mod k = 0 then 1 else 0)" for y :: int
proof -
  assume k: "0 < k"
  have y: "y + 1 = (y mod k + 1) + k * (y div k)" by simp
  have d: "(y + 1) div k = (y mod k + 1) div k + y div k" using k unfolding y by (subst div_mult_self2) simp_all
  show ?thesis
  proof (cases "y mod k + 1 = k")
    case True
    then have "(y + 1) mod k = 0" by (metis mod_add_left_eq mod_self)
    with d True k show ?thesis by simp
  next
    case False
    with pos_mod_bound[OF k, of y] pos_mod_sign[OF k, of y] have "0 < y mod k + 1" "y mod k + 1 < k" by linarith+
    then have "(y mod k + 1) mod k \<noteq> 0" "(y mod k + 1) div k = 0" by simp_all
    with d show ?thesis by (simp add: mod_add_left_eq)
  qed
qed

lemma year_start_step:
  "year_start (y + 1) = year_start y + (if is_leap_year (y + 1) then 366 else 365)"
proof -
  have "(y + 1) mod 400 = 0 \<Longrightarrow> (y + 1) mod 100 = 0" "(y + 1) mod 100 = 0 \<Longrightarrow> (y + 1) mod 4 = 0"
    by (simp_all add: mod_eq_0_iff_dvd) (erule dvd_trans[rotated], simp)+
  then show ?thesis
    by (auto simp: year_start_def is_leap_year_def div_plus_one)
qed

section \<open>A day of an era\<close>

lemma era_day_split:
  assumes "0 \<le> (n :: int)" "n < 146097"
  obtains c b a r where "n = 36524 * c + 1461 * b + 365 * a + r"
    "0 \<le> c" "c \<le> 3" "0 \<le> b" "b \<le> 24" "0 \<le> a" "a \<le> 3" "0 \<le> r" "r \<le> 365"
    "r = 365 \<Longrightarrow> a = 3 \<and> (b = 24 \<longrightarrow> c = 3)"
proof -
  define c where "c = min (n div 36524) 3"
  define s where "s = n - 36524 * c"
  define b where "b = s div 1461"
  define t where "t = s mod 1461"
  define a where "a = min (t div 365) 3"
  define r where "r = t - 365 * a"
  have s: "0 \<le> s" "s \<le> 36524" "s = 36524 \<Longrightarrow> c = 3" and c: "0 \<le> c" "c \<le> 3"
    using assms unfolding c_def s_def min_def by (auto split: if_splits)
  have b: "0 \<le> b" "b \<le> 24" and t: "0 \<le> t" "t \<le> 1460" and st: "s = 1461 * b + t"
    using s unfolding b_def t_def by auto
  have a: "0 \<le> a" "a \<le> 3" and r: "0 \<le> r" "r \<le> 365" "r = 365 \<Longrightarrow> a = 3 \<and> t = 1460"
    using t unfolding a_def r_def min_def by (auto split: if_splits)
  have "r = 365 \<Longrightarrow> b = 24 \<Longrightarrow> c = 3" using r(3) s(3) st by simp
  with r(3) have "r = 365 \<Longrightarrow> a = 3 \<and> (b = 24 \<longrightarrow> c = 3)" by blast
  with that[of c b a r] a b c r show thesis unfolding r_def st[symmetric] using st s_def by auto
qed

lemma era_year_of_day:
  assumes "0 \<le> (c :: int)" "c \<le> 3" "0 \<le> b" "b \<le> 24" "0 \<le> a" "a \<le> 3" "0 \<le> r" "r \<le> 365"
    and "r = 365 \<Longrightarrow> a = 3 \<and> (b = 24 \<longrightarrow> c = 3)"
  defines "n \<equiv> 36524 * c + 1461 * b + 365 * a + r"
  shows "(n - n div 1460 + n div 36524 - n div 146096) div 365 = 100 * c + 4 * b + a"
proof (cases "n = 146096")
  case True
  then have "3 \<le> c" "24 \<le> b" "3 \<le> a" using assms(1-8) unfolding n_def by linarith+
  then have "c = 3 \<and> b = 24 \<and> a = 3" using assms(1-8) by simp
  with True show ?thesis by simp
next
  case False
  define t where "t = 365 * a + r"
  have t: "0 \<le> t" "t \<le> 1460" using assms(5-8) by (auto simp: t_def)
  have "n < 146097" using assms(1-8) unfolding n_def by linarith
  with False have "n < 146096" by simp
  have t2: "1461 * b + t < 36524"
  proof (rule ccontr)
    assume "\<not> ?thesis"
    then have "24 \<le> b" "1460 \<le> t" using assms(3,4) t by linarith+
    then have "b = 24" "t = 1460" using assms(4) t by simp_all
    then have "a = 3" "r = 365" using assms(5-8) by (auto simp: t_def)
    with assms(9) \<open>b = 24\<close> False show False by (simp add: n_def)
  qed
  have n: "n = 36524 * c + (1461 * b + t)" by (simp add: n_def t_def)
  have "n div 146096 = 0" using \<open>n < 146096\<close> assms(1-8) by (simp add: n_def)
  moreover have "n div 36524 = c" using t2 assms(3) t(1) unfolding n by simp
  moreover have "n div 1460 = 25 * c + b + (24 * c + b + t) div 1460"
  proof -
    have "n = (24 * c + b + t) + (25 * c + b) * 1460" by (simp add: n)
    then show ?thesis by simp
  qed
  ultimately have "n - n div 1460 + n div 36524 - n div 146096
      = (t - (24 * c + b + t) div 1460) + (100 * c + 4 * b) * 365" using n by algebra
  then have "(n - n div 1460 + n div 36524 - n div 146096) div 365
      = (100 * c + 4 * b) + (t - (24 * c + b + t) div 1460) div 365" by (simp only: div_mult_self1 zero_neq_numeral not_False_eq_True)
  moreover have "(t - (24 * c + b + t) div 1460) div 365 = a"
  proof -
    have k: "24 * c + b + t < 2920" "0 \<le> 24 * c + b + t" using assms(1-4) t by linarith+
    show ?thesis
    proof (cases "24 * c + b + t < 1460")
      case True
      then have "(24 * c + b + t) div 1460 = 0" using k by simp
      moreover have "r \<noteq> 365" using True assms(1-4,9) by (auto simp: t_def)
      ultimately show ?thesis using assms(7,8) by (auto simp: t_def)
    next
      case False
      then have "(24 * c + b + t) div 1460 = 1" using k by simp
      moreover have "1364 \<le> t" using False assms(1-4) by linarith
      moreover have "3 \<le> a" using \<open>1364 \<le> t\<close> assms(7,8) unfolding t_def by linarith
      ultimately show ?thesis using t assms(6) by simp
    qed
  qed
  ultimately show ?thesis by simp
qed


lemma year_start_digits:
  assumes "0 \<le> c" "c \<le> 3" "0 \<le> b" "b \<le> 24" "0 \<le> a" "a \<le> (3 :: int)"
  shows "year_start (400 * e + (100 * c + 4 * b + a)) = 146097 * e + (36524 * c + 1461 * b + 365 * a)"
proof -
  have "(100 * c + 4 * b + a) div 4 = 25 * c + b" "(100 * c + 4 * b + a) div 100 = c"
    using assms by simp_all
  then show ?thesis
    using year_start_era[of "400 * e + (100 * c + 4 * b + a)" e "100 * c + 4 * b + a"] assms by simp
qed

lemma mod_zero_top: "0 < x \<Longrightarrow> x \<le> k \<Longrightarrow> x mod k = 0 \<longleftrightarrow> x = k" for x :: int
  by (cases "x = k") simp_all

lemma leap_year_digits:
  assumes "0 \<le> c" "c \<le> 3" "0 \<le> b" "b \<le> 24" "0 \<le> a" "a \<le> (3 :: int)"
  shows "is_leap_year (400 * e + (100 * c + 4 * b + a) + 1) \<longleftrightarrow> a = 3 \<and> (b = 24 \<longrightarrow> c = 3)"
proof -
  let ?q = "100 * c + 4 * b + a + 1" and ?y = "400 * e + (100 * c + 4 * b + a) + 1"
  have "?y = ?q + (100 * e) * 4" "?y = ?q + (4 * e) * 100" "?y = ?q + e * 400" by simp_all
  then have m: "?y mod 4 = ?q mod 4" "?y mod 100 = ?q mod 100" "?y mod 400 = ?q mod 400"
    by (metis mod_mult_self1)+
  have "?q = (a + 1) + (25 * c + b) * 4" "?q = (4 * b + a + 1) + c * 100" by simp_all
  then have "?q mod 4 = (a + 1) mod 4" "?q mod 100 = (4 * b + a + 1) mod 100" by (metis mod_mult_self1)+
  moreover have "(a + 1) mod 4 = 0 \<longleftrightarrow> a = 3" using assms(5,6) mod_zero_top[of "a + 1" 4] by linarith
  moreover have "(4 * b + a + 1) mod 100 = 0 \<longleftrightarrow> b = 24 \<and> a = 3"
    using assms(3-6) mod_zero_top[of "4 * b + a + 1" 100] by linarith
  moreover have "?q mod 400 = 0 \<longleftrightarrow> c = 3 \<and> b = 24 \<and> a = 3"
    using assms mod_zero_top[of ?q 400] by linarith
  ultimately show ?thesis unfolding is_leap_year_def m by (simp only:) blast
qed

section \<open>A day of a year\<close>

text \<open>The month, counted from March, and the day in it, of a day of the year.\<close>

definition month_of_doy :: "int \<Rightarrow> int" where
  "month_of_doy r = (5 * r + 2) div 153"

definition civil_month :: "int \<Rightarrow> int" where
  "civil_month mp = mp + (if mp < 10 then 3 else - 9)"

definition doy_of :: "int \<Rightarrow> int" where
  "doy_of mp = (153 * mp + 2) div 5"

lemma month_cases:
  assumes "1 \<le> (m :: nat)" "m \<le> 12"
  obtains "m = 1" | "m = 2" | "m = 3" | "m = 4" | "m = 5" | "m = 6" | "m = 7" | "m = 8" | "m = 9"
    | "m = 10" | "m = 11" | "m = 12"
proof -
  have "m = 1 \<or> m = 2 \<or> m = 3 \<or> m = 4 \<or> m = 5 \<or> m = 6 \<or> m = 7 \<or> m = 8 \<or> m = 9
    \<or> m = 10 \<or> m = 11 \<or> m = 12"
    using assms by presburger
  with that show thesis by blast
qed

lemma month_of_doy_of:
  assumes "1 \<le> m" "m \<le> 12" "1 \<le> d" "d \<le> days_in_month y m"
  shows "month_of_doy (doy_of (march_month m) + int d - 1) = march_month m"
proof -
  have d: "1 \<le> d" "d \<le> days_in_month y m" by fact+
  from assms(1,2) show ?thesis
    by (rule month_cases) (use d in \<open>simp_all add: month_of_doy_def doy_of_def march_month_def
        days_in_month_def month_days_def split: if_splits\<close>)
qed

lemma civil_month_march_month: "1 \<le> m \<Longrightarrow> m \<le> 12 \<Longrightarrow> civil_month (march_month m) = int m"
  by (auto simp: civil_month_def march_month_def)

lemma doy_range:
  assumes "1 \<le> m" "m \<le> 12" "1 \<le> d" "d \<le> days_in_month y m"
  shows "0 \<le> doy_of (march_month m) + int d - 1" "doy_of (march_month m) + int d - 1 \<le> 365"
    "doy_of (march_month m) + int d - 1 = 365 \<Longrightarrow> m = 2 \<and> is_leap_year y"
proof -
  have d: "1 \<le> d" "d \<le> days_in_month y m" by fact+
  let ?r = "doy_of (march_month m) + int d - 1"
  from assms(1,2) have "0 \<le> ?r \<and> ?r \<le> 365 \<and> (?r = 365 \<longrightarrow> m = 2 \<and> is_leap_year y)"
    by (rule month_cases) (use d in \<open>simp_all add: doy_of_def march_month_def
        days_in_month_def month_days_def split: if_splits\<close>)
  then show "0 \<le> ?r" "?r \<le> 365" "?r = 365 \<Longrightarrow> m = 2 \<and> is_leap_year y" by blast+
qed


lemma doy_month:
  assumes "0 \<le> r" "r \<le> 365" "r = 365 \<Longrightarrow> is_leap_year (y + 1)"
  defines "mp \<equiv> month_of_doy r"
  defines "m \<equiv> civil_month mp"
  defines "d \<equiv> r - doy_of mp + 1"
  shows "1 \<le> m \<and> m \<le> 12 \<and> march_month (nat m) = mp
    \<and> 1 \<le> d \<and> nat d \<le> days_in_month (y + (if m \<le> 2 then 1 else 0)) (nat m)"
proof -
  have "153 * mp \<le> 5 * r + 2" "5 * r + 2 < 153 * mp + 153"
    unfolding mp_def month_of_doy_def by linarith+
  note bounds = this
  have "mp = 0 \<or> mp = 1 \<or> mp = 2 \<or> mp = 3 \<or> mp = 4 \<or> mp = 5 \<or> mp = 6 \<or> mp = 7 \<or> mp = 8
    \<or> mp = 9 \<or> mp = 10 \<or> mp = 11"
  proof -
    have "0 \<le> mp" "mp \<le> 11" using bounds assms(1,2) by linarith+
    then show ?thesis by presburger
  qed
  moreover have "r \<le> 364 \<or> is_leap_year (y + 1)" using assms(2,3) by linarith
  ultimately show ?thesis
    using bounds assms(1,2) unfolding m_def d_def
    by (elim disjE; simp add: civil_month_def march_month_def doy_of_def days_in_month_def
        month_days_def nat_le_iff)
qed

section \<open>The two functions\<close>

lemma civil_from_days_digits:
  assumes "in_i64 days" "days + 719468 = 146097 * e + (36524 * c + 1461 * b + 365 * a + r)"
    and "0 \<le> (c :: int)" "c \<le> 3" "0 \<le> b" "b \<le> 24" "0 \<le> a" "a \<le> 3" "0 \<le> r" "r \<le> 365"
    and "r = 365 \<Longrightarrow> a = 3 \<and> (b = 24 \<longrightarrow> c = 3)"
  shows "civil_from_days days =
    (400 * e + (100 * c + 4 * b + a) + (if civil_month (month_of_doy r) \<le> 2 then 1 else 0),
     nat (civil_month (month_of_doy r)), nat (r - doy_of (month_of_doy r) + 1))"
proof -
  define n where "n = 36524 * c + 1461 * b + 365 * a + r"
  have n: "0 \<le> n" "n < 146097"
  proof -
    show "0 \<le> n" using assms(3-10) by (simp add: n_def)
    show "n < 146097" using assms(3-10) unfolding n_def by linarith
  qed
  have dm: "0 \<le> days mod 146097" "days mod 146097 < 146097" by simp_all
  have shifted: "i64 (days mod 146097 + 719468) = days mod 146097 + 719468"
    using dm by (intro i64_id) (simp add: in_i64_def)
  have en: "e = days div 146097 + (days mod 146097 + 719468) div 146097
      \<and> (days mod 146097 + 719468) mod 146097 = n"
  proof -
    have "days mod 146097 + 719468 = n + (e - days div 146097) * 146097"
      using assms(2) unfolding n_def[symmetric] minus_div_mult_eq_mod[symmetric] by algebra
    then have "(days mod 146097 + 719468) div 146097 = (e - days div 146097) + n div 146097"
      "(days mod 146097 + 719468) mod 146097 = n mod 146097"
      by (simp_all only: div_mult_self1 mod_mult_self1 zero_neq_numeral not_False_eq_True)
    then show ?thesis using n by (simp only: div_pos_pos_trivial mod_pos_pos_trivial) simp
  qed
  have e: "- 63200000000000 \<le> e" "e \<le> 63200000000000"
    using assms(1,2) n unfolding n_def[symmetric] in_i64_def by simp_all
  have y: "(n - n div 1460 + n div 36524 - n div 146096) div 365 = 100 * c + 4 * b + a"
    unfolding n_def by (rule era_year_of_day) (use assms(3-11) in auto)
  have "(100 * c + 4 * b + a) div 4 = 25 * c + b" "(100 * c + 4 * b + a) div 100 = c"
    using assms(3-8) by simp_all
  then have r: "n - (365 * (100 * c + 4 * b + a) + (100 * c + 4 * b + a) div 4
      - (100 * c + 4 * b + a) div 100) = r" by (simp add: n_def)
  have w: "i64 e = e" "i64 (e * 400) = e * 400"
    "i64 (100 * c + 4 * b + a + e * 400) = 100 * c + 4 * b + a + e * 400"
    "i64 (100 * c + 4 * b + a + e * 400 + 1) = 100 * c + 4 * b + a + e * 400 + 1"
    using e assms(3-8) by (auto intro!: i64_id simp: in_i64_def)
  show ?thesis
    unfolding civil_from_days_def Let_def shifted en[THEN conjunct2] en[THEN conjunct1, symmetric]
      y r w month_of_doy_def[symmetric] doy_of_def[symmetric] civil_month_def[symmetric]
    by simp
qed

lemma days_digits:
  obtains e c b a r :: int where "days + 719468 = 146097 * e + (36524 * c + 1461 * b + 365 * a + r)"
    "0 \<le> c" "c \<le> 3" "0 \<le> b" "b \<le> 24" "0 \<le> a" "a \<le> 3" "0 \<le> r" "r \<le> 365"
    "r = 365 \<Longrightarrow> a = 3 \<and> (b = 24 \<longrightarrow> c = 3)"
proof -
  have "0 \<le> (days + 719468) mod 146097" "(days + 719468) mod 146097 < 146097" by simp_all
  from era_day_split[OF this] obtain c b a r where
    "(days + 719468) mod 146097 = 36524 * c + 1461 * b + 365 * a + r"
    "0 \<le> c" "c \<le> 3" "0 \<le> b" "b \<le> 24" "0 \<le> a" "a \<le> 3" "0 \<le> r" "r \<le> 365"
    "r = 365 \<Longrightarrow> a = 3 \<and> (b = 24 \<longrightarrow> c = 3)" by metis
  note digits = this
  have "days + 719468 = 146097 * ((days + 719468) div 146097) + (36524 * c + 1461 * b + 365 * a + r)"
    unfolding digits(1)[symmetric] by (rule mult_div_mod_eq[symmetric])
  then show thesis by (rule that) (use digits in auto)
qed

lemma march_year_digits:
  obtains e c b a where "y = 400 * e + (100 * c + 4 * b + a)"
    "0 \<le> c" "c \<le> 3" "0 \<le> b" "b \<le> 24" "0 \<le> a" "a \<le> (3 :: int)"
proof -
  have y: "y = 400 * (y div 400) + (100 * (y mod 400 div 100)
      + 4 * (y mod 400 mod 100 div 4) + y mod 400 mod 100 mod 4)" by simp
  show thesis by (rule that[OF y]) simp_all
qed


lemma civil_from_days_inverse:
  assumes "in_i64 days"
  shows "(case civil_from_days days of (y, m, d) \<Rightarrow> valid_date (y, m, d) \<and> days_from_civil y m d = days)"
proof -
  obtain e c b a r where n: "days + 719468 = 146097 * e + (36524 * c + 1461 * b + 365 * a + r)"
    and digit: "0 \<le> c" "c \<le> 3" "0 \<le> b" "b \<le> 24" "0 \<le> a" "a \<le> 3"
    and r: "0 \<le> r" "r \<le> 365" "r = 365 \<Longrightarrow> a = 3 \<and> (b = 24 \<longrightarrow> c = 3)"
    by (rule days_digits[of days]) blast
  let ?y = "400 * e + (100 * c + 4 * b + a)" and ?mp = "month_of_doy r"
  let ?m = "civil_month ?mp" and ?d = "r - doy_of (month_of_doy r) + 1"
  have "r = 365 \<Longrightarrow> is_leap_year (?y + 1)" using r(3) leap_year_digits[OF digit] by blast
  from doy_month[OF r(1,2) this] have m: "1 \<le> ?m" "?m \<le> 12" "march_month (nat ?m) = ?mp" "1 \<le> ?d"
    "nat ?d \<le> days_in_month (?y + (if ?m \<le> 2 then 1 else 0)) (nat ?m)" by blast+
  have civil: "civil_from_days days = (?y + (if ?m \<le> 2 then 1 else 0), nat ?m, nat ?d)"
    by (rule civil_from_days_digits[OF assms n digit r])
  have "march_year (?y + (if ?m \<le> 2 then 1 else 0)) (nat ?m) = ?y"
    by (simp add: march_year_def nat_le_iff)
  then have "days_from_civil (?y + (if ?m \<le> 2 then 1 else 0)) (nat ?m) (nat ?d)
      = 146097 * e + (36524 * c + 1461 * b + 365 * a) + (doy_of ?mp + ?d - 1) - 719468"
    using m(3,4) year_start_digits[OF digit] by (simp add: days_from_civil_eq doy_of_def)
  then have "days_from_civil (?y + (if ?m \<le> 2 then 1 else 0)) (nat ?m) (nat ?d) = days" using n by simp
  with m show ?thesis unfolding civil by (auto simp: valid_date_def nat_le_iff Suc_le_eq)
qed

lemma days_from_civil_inverse:
  assumes "valid_date (y, m, d)" "in_i64 (days_from_civil y m d)"
  shows "civil_from_days (days_from_civil y m d) = (y, m, d)"
proof -
  have m: "1 \<le> m" "m \<le> 12" and d: "1 \<le> d" "d \<le> days_in_month y m"
    using assms(1) by (simp_all add: valid_date_def)
  obtain e c b a where y: "march_year y m = 400 * e + (100 * c + 4 * b + a)"
    and digit: "0 \<le> c" "c \<le> 3" "0 \<le> b" "b \<le> 24" "0 \<le> a" "a \<le> 3"
    by (rule march_year_digits[of "march_year y m"]) blast
  let ?r = "doy_of (march_month m) + int d - 1"
  note r = doy_range[OF m d]
  have leap: "?r = 365 \<Longrightarrow> a = 3 \<and> (b = 24 \<longrightarrow> c = 3)"
  proof -
    assume "?r = 365"
    with r(3) have "m = 2" "is_leap_year y" by blast+
    moreover from \<open>m = 2\<close> have "y = 400 * e + (100 * c + 4 * b + a) + 1" using y by (simp add: march_year_def)
    ultimately show ?thesis using leap_year_digits[OF digit] by blast
  qed
  have n: "days_from_civil y m d + 719468 = 146097 * e + (36524 * c + 1461 * b + 365 * a + ?r)"
    using year_start_digits[OF digit] by (simp add: days_from_civil_eq y doy_of_def)
  have "civil_from_days (days_from_civil y m d) =
    (400 * e + (100 * c + 4 * b + a) + (if civil_month (month_of_doy ?r) \<le> 2 then 1 else 0),
     nat (civil_month (month_of_doy ?r)), nat (?r - doy_of (month_of_doy ?r) + 1))"
    by (rule civil_from_days_digits[OF assms(2) n digit r(1,2) leap])
  then show ?thesis
    using y by (simp add: month_of_doy_of[OF m d] civil_month_march_month[OF m] march_year_def split: if_splits)
qed

lemma next_day_valid: "valid_date (y, m, d) \<Longrightarrow> valid_date (next_day (y, m, d))"
  by (auto simp: valid_date_def next_day_def days_in_month_def month_days_def)

lemma days_of_next_day:
  assumes "valid_date (y, m, d)"
  shows "(case next_day (y, m, d) of (y', m', d') \<Rightarrow> days_from_civil y' m' d' = days_from_civil y m d + 1)"
proof -
  have m: "1 \<le> m" "m \<le> 12" and d: "1 \<le> d" "d \<le> days_in_month y m"
    using assms by (simp_all add: valid_date_def)
  show ?thesis
  proof (cases "d < days_in_month y m")
    case True
    then show ?thesis by (simp add: next_day_def days_from_civil_eq)
  next
    case False
    with d have d: "d = days_in_month y m" by simp
    show ?thesis using m
      by (rule month_cases) (use d year_start_step[of "y - 1"] in \<open>auto simp: next_day_def days_from_civil_eq march_year_def
          march_month_def days_in_month_def month_days_def split: if_splits\<close>)
  qed
qed


section \<open>The calendar is the reference calendar\<close>

text \<open>C15: Counted from 1970-01-01, the dates of \<open>civil_from_days\<close> are the dates of the calendar that only
  steps from a day to the next, over every 64-bit day number and with no overflow, and
  \<open>days_from_civil\<close> is its inverse on the dates that exist.\<close>

theorem calendar_exact:
  "civil_from_days 0 = (1970, 1, 1)
   \<and> (in_i64 n \<and> in_i64 (n + 1) \<longrightarrow> civil_from_days (n + 1) = next_day (civil_from_days n))
   \<and> (in_i64 n \<and> valid_date (y, m, d) \<longrightarrow> (days_from_civil y m d = n \<longleftrightarrow> civil_from_days n = (y, m, d)))"
proof (intro conjI impI)
  show "civil_from_days 0 = (1970, 1, 1)"
    by (simp add: civil_from_days_digits[of 0 4 3 17 1 306] in_i64_def month_of_doy_def civil_month_def doy_of_def)
next
  assume n: "in_i64 n \<and> in_i64 (n + 1)"
  obtain y m d where c: "civil_from_days n = (y, m, d)" by (cases "civil_from_days n")
  with civil_from_days_inverse[of n] n have v: "valid_date (y, m, d)" "days_from_civil y m d = n" by simp_all
  obtain y' m' d' where s: "next_day (y, m, d) = (y', m', d')" by (cases "next_day (y, m, d)")
  with days_of_next_day[OF v(1)] v(2) have "days_from_civil y' m' d' = n + 1" by simp
  moreover from next_day_valid[OF v(1)] s have "valid_date (y', m', d')" by simp
  ultimately show "civil_from_days (n + 1) = next_day (civil_from_days n)"
    using days_from_civil_inverse[of y' m' d'] n by (simp add: c s)
next
  assume a: "in_i64 n \<and> valid_date (y, m, d)"
  show "days_from_civil y m d = n \<longleftrightarrow> civil_from_days n = (y, m, d)"
  proof
    assume "days_from_civil y m d = n"
    with a days_from_civil_inverse[of y m d] show "civil_from_days n = (y, m, d)" by simp
  next
    assume "civil_from_days n = (y, m, d)"
    with a civil_from_days_inverse[of n] show "days_from_civil y m d = n" by simp
  qed
qed

theorem calendar_exact_witness:
  "civil_from_days (11016 + 1) = (2000, 3, 1) \<and> days_from_civil 2000 2 29 = 11016"
proof -
  have "days_from_civil 2000 2 29 = 11016" by (simp add: days_from_civil_def signed_divide_int_def)
  moreover have "valid_date (2000, 2, 29)"
    by (simp add: valid_date_def days_in_month_def month_days_def is_leap_year_def)
  moreover have "next_day (2000, 2, 29) = (2000, 3, 1)"
    by (simp add: next_day_def days_in_month_def month_days_def is_leap_year_def)
  ultimately show ?thesis using calendar_exact[of 11016 2000 2 29] by (simp add: in_i64_def)
qed

end
