(* ===== verification/Ascii_Text.thy ===== *)
theory Ascii_Text
  imports Rust_Str
begin

text \<open>
  Lemmas on texts of ASCII characters that the parsers of dates and addresses share: trimming and
  splitting leave them as they are written, and a number parses back from its digits.
\<close>

section \<open>Texts\<close>

definition ascii :: "str \<Rightarrow> bool" where
  "ascii s \<longleftrightarrow> list_all (\<lambda>c. of_char c < (128 :: nat)) s"

lemma utf8_decode_ascii: "ascii s \<Longrightarrow> utf8_decode s = map of_char s"
  by (induction s) (auto simp: ascii_def Let_def)

lemma utf8_encode_ascii: "ascii s \<Longrightarrow> utf8_encode (map of_char s) = s"
  by (induction s) (auto simp: ascii_def utf8_encode_def byte_def)

lemma dropWhile_hd: "s \<noteq> [] \<Longrightarrow> \<not> P (hd s) \<Longrightarrow> dropWhile P s = s"
  by (cases s) auto

lemma trim_ascii:
  assumes "ascii s" "s \<noteq> []" "\<not> is_whitespace (of_char (hd s))" "\<not> is_whitespace (of_char (last s))"
  shows "trim s = s"
proof -
  have "trim_points (map of_char s) = map of_char s"
    using assms(2-4) by (simp add: trim_points_def dropWhile_hd hd_map hd_rev last_map)
  then show ?thesis using assms(1) by (simp add: trim_def utf8_decode_ascii utf8_encode_ascii)
qed

lemma ascii_append [simp]: "ascii (s @ t) \<longleftrightarrow> ascii s \<and> ascii t"
  and ascii_Cons [simp]: "ascii (c # s) \<longleftrightarrow> of_char c < (128 :: nat) \<and> ascii s"
  and ascii_Nil [simp]: "ascii []"
  by (simp_all add: ascii_def)

lemma digit_point: "is_ascii_digit c \<longleftrightarrow> (48 :: nat) \<le> of_char c \<and> of_char c \<le> (57 :: nat)"
  by (simp add: is_ascii_digit_def less_eq_char_def)

lemma alphabetic_point: "is_ascii_alphabetic c \<longleftrightarrow>
    (97 :: nat) \<le> of_char c \<and> of_char c \<le> (122 :: nat) \<or> (65 :: nat) \<le> of_char c \<and> of_char c \<le> (90 :: nat)"
  by (simp add: is_ascii_alphabetic_def is_ascii_lowercase_def is_ascii_uppercase_def less_eq_char_def)

abbreviation all_digits :: "str \<Rightarrow> bool" where
  "all_digits s \<equiv> list_all is_ascii_digit s"

lemma all_digits_ascii: "all_digits s \<Longrightarrow> ascii s"
  by (auto simp: ascii_def list_all_iff digit_point)

lemma all_digits_notin: "all_digits s \<Longrightarrow> \<not> is_ascii_digit c \<Longrightarrow> c \<notin> set s"
  by (auto simp: list_all_iff)

lemma split_on_none: "d \<notin> set s \<Longrightarrow> split_on d s = [s]"
  by (induction s) auto

lemma split_on_first: "d \<notin> set s \<Longrightarrow> split_on d (s @ d # t) = s # split_on d t"
  by (induction s) auto

lemma split_once_append: "d \<notin> set s \<Longrightarrow> split_once d (s @ d # t) = Some (s, t)"
  by (induction s) auto

section \<open>Numbers\<close>

lemma parse_digits_append:
  "parse_digits m acc (s @ t) = Option.bind (parse_digits m acc s) (\<lambda>a. parse_digits m a t)"
  by (induction m acc s rule: parse_digits.induct) auto

lemma digit_char: "n < 10 \<Longrightarrow> is_ascii_digit (char_of (n + 48)) \<and> digit_value (char_of (n + 48)) = n"
  by (simp add: digit_point digit_value_def)

lemma show_nat_digits: "all_digits (show_nat n) \<and> show_nat n \<noteq> []"
proof (induction n rule: show_nat.induct)
  case (1 n)
  then show ?case
    using digit_char[of n] digit_char[of "n mod 10"] by (subst (1 2) show_nat.simps) auto
qed

lemma parse_show_nat: "n \<le> m \<Longrightarrow> parse_digits m 0 (show_nat n) = Some n"
proof (induction n rule: show_nat.induct)
  case (1 n)
  show ?case
  proof (cases "n < 10")
    case True
    then show ?thesis using digit_char[of n] 1(2) by (subst show_nat.simps) simp
  next
    case False
    then have "parse_digits m 0 (show_nat (n div 10)) = Some (n div 10)" using 1 by simp
    moreover have "n div 10 * 10 + n mod 10 = n" by simp
    ultimately show ?thesis
      using False digit_char[of "n mod 10"] 1(2) by (subst show_nat.simps) (simp add: parse_digits_append)
  qed
qed

lemma parse_digits_zeros: "parse_digits m 0 (replicate k CHR ''0'' @ s) = parse_digits m 0 s"
  by (induction k) (simp_all add: is_ascii_digit_def digit_value_def)

lemma parse_unsigned_digits: "all_digits s \<Longrightarrow> s \<noteq> [] \<Longrightarrow> parse_unsigned m s = parse_digits m 0 s"
  by (cases s) (auto simp: parse_unsigned_def Let_def is_ascii_digit_def)

lemma parse_digits_mono: "parse_digits m acc s = Some k \<Longrightarrow> m \<le> n \<Longrightarrow> parse_digits n acc s = Some k"
  by (induction m acc s rule: parse_digits.induct) (auto split: if_splits)

end
