(* ===== verification/Timefmt_Correct.thy ===== *)
theory Timefmt_Correct
  imports Timefmt_Calendar Ascii_Text
begin

text \<open>
  The parsers of \<open>timefmt\<close> read back what its printers write: the UTC text of an instant, and the
  three forms of an HTTP date. The lemmas are on texts made of digits and separators: what a
  separator splits, what a number prints and parses as, and what trimming leaves.
\<close>

section \<open>Padded numbers\<close>

lemma strip_suffix_append: "strip_suffix t (s @ t) = Some s"
  by (simp add: strip_suffix_def strip_prefix_Some)

lemma fmt_pad_digits: "all_digits (fmt_pad w n)" "fmt_pad w n \<noteq> []" "w \<le> length (fmt_pad w n)"
  using show_nat_digits[of n] by (auto simp: fmt_pad_def Let_def list_all_iff is_ascii_digit_def)

lemma length_fmt_pad: "n < 10 ^ w \<Longrightarrow> 0 < w \<Longrightarrow> length (fmt_pad w n) = w"
  using show_nat_length[of n w] by (simp add: fmt_pad_def Let_def)

lemma parse_digits_fmt_pad: "n \<le> m \<Longrightarrow> parse_digits m 0 (fmt_pad w n) = Some n"
  by (simp add: fmt_pad_def Let_def parse_digits_zeros parse_show_nat)

lemma parse_unsigned_fmt_pad: "n \<le> m \<Longrightarrow> parse_unsigned m (fmt_pad w n) = Some n"
  by (simp add: parse_unsigned_digits fmt_pad_digits parse_digits_fmt_pad)

lemma digits_fmt_pad: "n \<le> m \<Longrightarrow> digits m (fmt_pad w n) = Some n"
  using fmt_pad_digits by (simp add: digits_def is_digits_def parse_unsigned_fmt_pad)

lemma digits_fmt_pad_above: "m < n \<Longrightarrow> digits m (fmt_pad w n) = None"
proof (rule ccontr)
  assume a: "m < n" "digits m (fmt_pad w n) \<noteq> None"
  then obtain k where k: "parse_digits m 0 (fmt_pad w n) = Some k"
    by (auto simp: digits_def is_digits_def fmt_pad_digits parse_unsigned_digits)
  with a parse_digits_mono[OF k, of n] parse_digits_fmt_pad[of n n w] parse_digits_le[OF _ k]
  show False by simp
qed

lemma digits_dash: "digits m (CHR ''-'' # s) = None"
  by (simp add: digits_def is_digits_def is_ascii_digit_def)

section \<open>The UTC text of an instant\<close>

definition clock_text :: "nat \<Rightarrow> nat \<Rightarrow> nat \<Rightarrow> str" where
  "clock_text h m s = fmt_pad 2 h @ '':'' @ fmt_pad 2 m @ '':'' @ fmt_pad 2 s"

definition date_text :: "str \<Rightarrow> nat \<Rightarrow> nat \<Rightarrow> str" where
  "date_text y m d = y @ ''-'' @ fmt_pad 2 m @ ''-'' @ fmt_pad 2 d"

lemma format_unix_eq:
  assumes "civil_from_days (ts div 86400) = (y, m, d)"
  shows "format_unix ts = date_text (fmt_signed 4 y) m d @ CHR ''T'' #
    clock_text (nat (ts mod 86400 div 3600)) (nat (ts mod 86400 mod 3600 div 60)) (nat (ts mod 86400 mod 60)) @ ''Z''"
  by (simp add: format_unix_def assms date_text_def clock_text_def Let_def)

lemma clock_parts: "split_on CHR '':'' (clock_text h m s) = [fmt_pad 2 h, fmt_pad 2 m, fmt_pad 2 s]"
  by (simp add: clock_text_def split_on_first split_on_none all_digits_notin[OF fmt_pad_digits(1)] is_ascii_digit_def)

lemma date_parts:
  "CHR ''-'' \<notin> set y \<Longrightarrow> split_on CHR ''-'' (date_text y m d) = [y, fmt_pad 2 m, fmt_pad 2 d]"
  by (simp add: date_text_def split_on_first split_on_none all_digits_notin[OF fmt_pad_digits(1)] is_ascii_digit_def)

lemma small_digits: "n \<le> 59 \<Longrightarrow> digits I64_MAX (fmt_pad 2 n) = Some n"
  by (simp add: digits_fmt_pad I64_MAX_def)

lemma parse_time_part_text:
  assumes "h \<le> 23" "m \<le> 59" "s \<le> 59"
  shows "parse_time_part (clock_text h m s @ ''Z'') = Some (int h, int m, int s, 0)"
proof -
  have "split_once CHR ''.'' (fmt_pad 2 s) = None"
    by (simp add: split_once_None all_digits_notin[OF fmt_pad_digits(1)] is_ascii_digit_def)
  then show ?thesis
    using assms by (simp add: parse_time_part_def strip_suffix_append clock_parts field_or_zero_def small_digits)
qed

lemma parse_date_part_text:
  assumes "valid_date (y, m, d)"
  shows "parse_date_part (date_text (fmt_signed 4 y) m d)
    = (if 0 \<le> y \<and> y \<le> 2147483647 then Some (y, m, d) else None)"
proof -
  have d: "d \<le> 31" "m \<le> 12"
    using assms by (auto simp: valid_date_def days_in_month_def month_days_def split: if_splits)
  show ?thesis
  proof (cases "y < 0")
    case True
    then show ?thesis
      by (simp add: parse_date_part_def date_text_def fmt_signed_def digits_def is_digits_def)
  next
    case False
    then have y: "fmt_signed 4 y = fmt_pad 4 (nat y)" by (simp add: fmt_signed_def)
    have "CHR ''-'' \<notin> set (fmt_pad 4 (nat y))"
      by (rule all_digits_notin[OF fmt_pad_digits(1)]) (simp add: is_ascii_digit_def)
    note split = date_parts[OF this]
    show ?thesis
    proof (cases "y \<le> 2147483647")
      case True
      with False assms d show ?thesis
        by (simp add: parse_date_part_def y split digits_fmt_pad I32_MAX_def U32_MAX_def valid_date_def nat_le_iff)
    next
      case False
      then have "digits I32_MAX (fmt_pad 4 (nat y)) = None"
        by (intro digits_fmt_pad_above) (simp add: I32_MAX_def)
      with False show ?thesis by (simp add: parse_date_part_def y split)
    qed
  qed
qed


lemma ascii_fmt_pad [simp]: "ascii (fmt_pad w n)"
  by (rule all_digits_ascii[OF fmt_pad_digits(1)])

lemma ascii_fmt_signed [simp]: "ascii (fmt_signed w y)"
  by (simp add: fmt_signed_def)

lemma ascii_texts [simp]: "ascii (date_text (fmt_signed w y) m d)" "ascii (clock_text h mi se)"
  by (simp_all add: date_text_def clock_text_def)

lemma slashes_none: "CHR ''/'' \<notin> set s \<Longrightarrow> slashes_to_dashes s = s"
  by (induction s) (auto simp: slashes_to_dashes_def)

lemma date_text_chars:
  assumes "c \<in> set (date_text (fmt_signed w y) m d)"
  shows "is_ascii_digit c \<or> c = CHR ''-''"
  using assms fmt_pad_digits(1) unfolding date_text_def fmt_signed_def list_all_iff
  by (auto split: if_splits)

lemma clock_text_chars:
  assumes "c \<in> set (clock_text h m s)"
  shows "is_ascii_digit c \<or> c = CHR '':''"
  using assms fmt_pad_digits(1) unfolding clock_text_def list_all_iff by auto

lemma date_text_front:
  "date_text (fmt_signed w y) m d \<noteq> [] \<and> \<not> is_whitespace (of_char (hd (date_text (fmt_signed w y) m d)))"
proof -
  have "date_text (fmt_signed w y) m d \<noteq> []" by (simp add: date_text_def)
  then have "hd (date_text (fmt_signed w y) m d) \<in> set (date_text (fmt_signed w y) m d)" by (rule hd_in_set)
  from date_text_chars[OF this] show ?thesis
    by (auto simp: digit_point is_whitespace_def date_text_def)
qed

text \<open>C16: The UTC text of every instant of a year from 0 to 2147483647 parses back to that instant and to the
  same text; the text of any other instant is refused.\<close>

theorem timestamp_roundtrip:
  assumes "in_i64 ts"
  shows "parse_timestamp_and_iso (format_unix ts) =
    (let y = fst (civil_from_days (ts div 86400)) in
     if 0 \<le> y \<and> y \<le> 2147483647 then Some (ts, format_unix ts) else None)"
proof -
  obtain y m d where c: "civil_from_days (ts div 86400) = (y, m, d)" by (cases "civil_from_days (ts div 86400)")
  have "in_i64 (ts div 86400)" using assms unfolding in_i64_def by linarith
  from civil_from_days_inverse[OF this] c
  have v: "valid_date (y, m, d)" and days: "days_from_civil y m d = ts div 86400" by simp_all
  define h where "h = nat (ts mod 86400 div 3600)"
  define mi where "mi = nat (ts mod 86400 mod 3600 div 60)"
  define se where "se = nat (ts mod 86400 mod 60)"
  have secs: "ts div 86400 * 86400 + int h * 3600 + int mi * 60 + int se = ts"
  proof -
    have "0 \<le> ts mod 86400" by simp
    then have "int h = ts mod 86400 div 3600" "int mi = ts mod 86400 mod 3600 div 60" "int se = ts mod 86400 mod 60"
      unfolding h_def mi_def se_def by (simp_all add: pos_imp_zdiv_nonneg_iff)
    moreover have "ts mod 86400 mod 60 = ts mod 86400 mod 3600 mod 60" by (rule mod_mod_cancel[symmetric]) simp
    ultimately show ?thesis by (metis div_mult_mod_eq add.assoc)
  qed
  have range: "h \<le> 23" "mi \<le> 59" "se \<le> 59"
  proof -
    have "ts mod 86400 < 86400" "ts mod 86400 mod 3600 < 3600" "ts mod 86400 mod 60 < 60" by simp_all
    then have "ts mod 86400 div 3600 \<le> 23" "ts mod 86400 mod 3600 div 60 \<le> 59" "ts mod 86400 mod 60 \<le> 59" by linarith+
    then show "h \<le> 23" "mi \<le> 59" "se \<le> 59" by (simp_all add: h_def mi_def se_def nat_le_iff)
  qed
  let ?date = "date_text (fmt_signed 4 y) m d" and ?clock = "clock_text h mi se @ ''Z''"
  have shape: "format_unix ts = ?date @ CHR ''T'' # ?clock"
    unfolding h_def mi_def se_def by (rule format_unix_eq[OF c])
  have trimmed: "trim (format_unix ts) = format_unix ts"
    using date_text_front[of 4 y m d] unfolding shape
    by (intro trim_ascii) (simp_all add: is_whitespace_def)
  have nodigits: "\<not> is_digits (format_unix ts)" by (simp add: shape is_digits_def is_ascii_digit_def)
  have "CHR ''T'' \<notin> set ?date" "CHR ''/'' \<notin> set ?date" "CHR ''/'' \<notin> set ?clock"
    using date_text_chars[of "CHR ''T''" 4 y m d] date_text_chars[of "CHR ''/''" 4 y m d]
      clock_text_chars[of "CHR ''/''" h mi se] by (auto simp: is_ascii_digit_def)
  then have "slashes_to_dashes (format_unix ts) = format_unix ts"
    "split_date_time (format_unix ts) = (?date, Some ?clock)"
    unfolding shape by (simp_all add: slashes_none split_date_time_def split_once_append)
  then show ?thesis
    using secs by (simp add: parse_timestamp_and_iso_def trimmed nodigits shape[symmetric] c days
        parse_date_part_text[OF v] parse_time_part_text[OF range] Let_def) (simp add: shape)
qed

theorem timestamp_roundtrip_witness:
  "parse_timestamp_and_iso (format_unix 951827696) = Some (951827696, format_unix 951827696)"
proof -
  have "civil_from_days 11016 = (2000, 2, 29)"
    by (simp add: civil_from_days_digits[of 11016 4 3 24 3 365] in_i64_def month_of_doy_def civil_month_def doy_of_def)
  then show ?thesis using timestamp_roundtrip[of 951827696] by (simp add: in_i64_def)
qed


section \<open>HTTP dates\<close>

text \<open>The three forms of RFC 9110.\<close>

definition imf_fixdate :: "str \<Rightarrow> nat \<Rightarrow> nat \<Rightarrow> nat \<Rightarrow> str \<Rightarrow> str" where
  "imf_fixdate wd y m d clock =
     wd @ '', '' @ fmt_pad 2 d @ '' '' @ MONTHS ! (m - 1) @ '' '' @ fmt_pad 4 y @ '' '' @ clock @ '' GMT''"

definition rfc850_date :: "str \<Rightarrow> nat \<Rightarrow> nat \<Rightarrow> nat \<Rightarrow> str \<Rightarrow> str" where
  "rfc850_date wd y m d clock =
     wd @ '', '' @ fmt_pad 2 d @ ''-'' @ MONTHS ! (m - 1) @ ''-'' @ fmt_pad 2 (y mod 100) @ '' '' @ clock @ '' GMT''"

definition asctime_date :: "str \<Rightarrow> nat \<Rightarrow> nat \<Rightarrow> nat \<Rightarrow> str \<Rightarrow> str" where
  "asctime_date wd y m d clock =
     wd @ '' '' @ MONTHS ! (m - 1) @ '' '' @ (if d < 10 then '' '' @ show_nat d else show_nat d)
     @ '' '' @ clock @ '' '' @ fmt_pad 4 y"

definition instant :: "nat \<Rightarrow> nat \<Rightarrow> nat \<Rightarrow> nat \<Rightarrow> nat \<Rightarrow> nat \<Rightarrow> int" where
  "instant y m d h mi se = days_from_civil (int y) m d * 86400 + int h * 3600 + int mi * 60 + int se"

lemma split_whitespace_word:
  assumes "list_all (\<lambda>c. \<not> is_ascii_whitespace c) w"
  shows "split_ascii_whitespace_from cur (w @ s) = split_ascii_whitespace_from (cur @ w) s"
  using assms by (induction w arbitrary: cur) auto

abbreviation solid :: "str \<Rightarrow> bool" where
  "solid w \<equiv> list_all (\<lambda>c. \<not> is_ascii_whitespace c) w"

lemma split_words:
  "w \<noteq> [] \<Longrightarrow> solid w \<Longrightarrow> split_ascii_whitespace (w @ CHR '' '' # s) = w # split_ascii_whitespace s"
  "w \<noteq> [] \<Longrightarrow> solid w \<Longrightarrow> split_ascii_whitespace w = [w]"
  "split_ascii_whitespace (CHR '' '' # s) = split_ascii_whitespace s"
  using split_whitespace_word[of w "[]" "CHR '' '' # s"] split_whitespace_word[of w "[]" "[]"]
  by (simp_all add: split_ascii_whitespace_def is_ascii_whitespace_def)

lemma split_gmt: "split_ascii_whitespace ''GMT'' = [''GMT'']"
  by (rule split_words(2)) (simp_all add: is_ascii_whitespace_def)

lemma split_comma_or_space_word:
  "list_all is_ascii_alphabetic w \<Longrightarrow> c = CHR '','' \<or> c = CHR '' '' \<Longrightarrow>
   split_comma_or_space (w @ c # s) = Some (w, s)"
proof (induction w)
  case (Cons x w)
  then have "x \<noteq> CHR '',''" "x \<noteq> CHR '' ''" by (auto simp: alphabetic_point)
  with Cons show ?case by simp
qed auto

lemma solid_digits: "all_digits s \<Longrightarrow> solid s"
  by (auto simp: list_all_iff digit_point is_ascii_whitespace_def)

lemma solid_fmt_pad [simp]: "solid (fmt_pad w n)"
  by (rule solid_digits[OF fmt_pad_digits(1)])

lemma solid_clock [simp]: "solid (clock_text h m s)" "clock_text h m s \<noteq> []"
  using solid_fmt_pad by (simp_all add: clock_text_def) (simp_all add: is_ascii_whitespace_def)

lemma MONTHS_facts:
  assumes "1 \<le> m" "m \<le> 12"
  shows "position (MONTHS ! (m - 1)) MONTHS = Some (m - 1)" "solid (MONTHS ! (m - 1))"
    "MONTHS ! (m - 1) \<noteq> []" "CHR ''-'' \<notin> set (MONTHS ! (m - 1))" "ascii (MONTHS ! (m - 1))"
  using assms by (rule month_cases; simp add: MONTHS_def is_ascii_whitespace_def)+

lemma days_fit: "0 \<le> y \<Longrightarrow> y \<le> 9999 \<Longrightarrow> m \<le> 12 \<Longrightarrow> d \<le> 31 \<Longrightarrow> in_i64 (days_from_civil y m d)"
proof -
  assume a: "0 \<le> y" "y \<le> 9999" "m \<le> 12" "d \<le> 31"
  define y' where "y' = march_year y m"
  define k where "k = march_month m"
  have y': "- 1 \<le> y'" "y' \<le> 9999" using a by (auto simp: y'_def march_year_def)
  have "0 \<le> k" "k \<le> 11" using a by (auto simp: k_def march_month_def)
  then have k: "0 \<le> (153 * k + 2) div 5" "(153 * k + 2) div 5 \<le> 337" by linarith+
  have "- 1000 \<le> year_start y'" "year_start y' \<le> 4000000"
    using y' unfolding year_start_def by linarith+
  with k a show ?thesis
    unfolding days_from_civil_eq y'_def[symmetric] k_def[symmetric] in_i64_def by (intro conjI) simp_all
qed

lemma parse_clock_text:
  assumes "h \<le> 23" "mi \<le> 59" "se \<le> 60"
  shows "parse_clock (clock_text h mi se) = Some (int h, int mi, int se)"
proof -
  have "hms_field x (fmt_pad 2 n) = Some (int n)" if "n \<le> 99" "int n \<le> x" for n x
    using that fmt_pad_digits(1)[of 2 n] length_fmt_pad[of n 2]
    by (simp add: hms_field_def parse_unsigned_fmt_pad I64_MAX_def)
  with assms show ?thesis by (simp add: parse_clock_def clock_parts)
qed

lemma parse_http_date_fields:
  assumes raw: "trim s = wd @ sep # rest" "sep = CHR '','' \<or> sep = CHR '' ''"
    and wd: "list_all is_ascii_alphabetic wd" "3 \<le> length wd"
    and fields: "http_date_fields (trim s) wd (split_ascii_whitespace rest) now
      = Some (int y, MONTHS ! (m - 1), dt, clock_text h mi se)"
    and date: "valid_date (int y, m, d)" "y \<le> 9999"
    and dt: "dt = fmt_pad 2 d \<or> dt = show_nat d"
    and clock: "h \<le> 23" "mi \<le> 59" "se \<le> 60"
  shows "parse_http_date s now = Some (instant y m d h mi se)"
proof -
  have m: "1 \<le> m" "m \<le> 12" and d: "d \<le> 31"
    using date(1) by (auto simp: valid_date_def days_in_month_def month_days_def split: if_splits)
  have "in_i64 (days_from_civil (int y) m d)" by (rule days_fit) (use date(2) m d in simp_all)
  note civil = days_from_civil_inverse[OF date(1) this]
  have "parse_unsigned U32_MAX dt = Some d" "all_digits dt" "dt \<noteq> []" "length dt \<le> 2"
    using dt d show_nat_digits[of d] fmt_pad_digits[of 2 d] show_nat_length[of d 2] length_fmt_pad[of d 2]
    by (auto simp: parse_digits_fmt_pad parse_unsigned_digits parse_show_nat U32_MAX_def)
  then show ?thesis
    using raw wd fields civil m clock
    by (simp add: parse_http_date_def split_comma_or_space_word MONTHS_facts(1)[OF m, simplified] parse_clock_text instant_def Let_def)
qed


lemma parse_i32_digits:
  "all_digits s \<Longrightarrow> s \<noteq> [] \<Longrightarrow> parse_i32 s = map_option int (parse_unsigned I32_MAX s)"
  by (cases s) (auto simp: parse_i32_def is_ascii_digit_def)

lemma parse_i32_fmt_pad: "n \<le> I32_MAX \<Longrightarrow> parse_i32 (fmt_pad w n) = Some (int n)"
  using fmt_pad_digits by (simp add: parse_i32_digits parse_unsigned_fmt_pad)

lemma two_digit_year_eq:
  assumes "0 \<le> now_year" "now_year \<le> 9999" "y \<le> 9999"
    and "int y div 100 = now_year div 100 \<and> int y \<le> now_year + 50
      \<or> int y div 100 = now_year div 100 - 1 \<and> int y + 100 > now_year + 50"
  shows "two_digit_year now_year (int (y mod 100)) = int y"
proof -
  have base: "now_year - now_year mod 100 = 100 * (now_year div 100)"
    by (simp add: minus_mod_eq_mult_div)
  have y: "int y = 100 * (int y div 100) + int (y mod 100)" by (simp add: of_nat_mod)
  have r: "0 \<le> int (y mod 100)" "int (y mod 100) < 100" by simp_all
  have q: "0 \<le> now_year div 100" "now_year div 100 \<le> 99" using assms(1,2) by linarith+
  have id: "i32 x = x" if "- 1000 \<le> x" "x \<le> 20000" for x
    using that by (intro i32_id) (simp add: in_i32_def)
  show ?thesis
    unfolding two_digit_year_def Let_def base
    using assms y r q by (auto simp: id)
qed

lemma trim_http:
  assumes "list_all is_ascii_alphabetic wd" "wd \<noteq> []" "ascii t" "t \<noteq> []" "\<not> is_whitespace (of_char (last t))"
  shows "trim (wd @ t) = wd @ t"
proof (rule trim_ascii)
  show "ascii (wd @ t)" using assms(1,3) by (auto simp: ascii_def list_all_iff alphabetic_point)
  have "is_ascii_alphabetic (hd wd)" using assms(1,2) by (cases wd) simp_all
  then show "\<not> is_whitespace (of_char (hd (wd @ t)))"
    using assms(2) by (auto simp: alphabetic_point is_whitespace_def)
qed (use assms in auto)

lemma solid_show_nat [simp]: "solid (show_nat n)" "show_nat n \<noteq> []" "ascii (show_nat n)"
  using show_nat_digits[of n] solid_digits[of "show_nat n"] all_digits_ascii[of "show_nat n"] by simp_all

lemma last_digit: "\<not> is_whitespace (of_char (last (fmt_pad w n)))"
proof -
  have "is_ascii_digit (last (fmt_pad w n))"
    using fmt_pad_digits(1,2)[of w n] by (auto simp: list_all_iff)
  then show ?thesis by (auto simp: digit_point is_whitespace_def)
qed

lemma imf_fixdate_parsed:
  assumes wd: "list_all is_ascii_alphabetic wd" "length wd = 3"
    and date: "valid_date (int y, m, d)" "y \<le> 9999"
    and clock: "h \<le> 23" "mi \<le> 59" "se \<le> 60"
  shows "parse_http_date (imf_fixdate wd y m d (clock_text h mi se)) now = Some (instant y m d h mi se)"
proof -
  let ?clock = "clock_text h mi se"
  have m: "1 \<le> m" "m \<le> 12" using date(1) by (simp_all add: valid_date_def)
  note months = MONTHS_facts[OF m, simplified]
  let ?rest = "CHR '' '' # fmt_pad 2 d @ CHR '' '' # MONTHS ! (m - 1) @ CHR '' '' # fmt_pad 4 y @ CHR '' '' # ?clock @ CHR '' '' # ''GMT''"
  have shape: "imf_fixdate wd y m d ?clock = wd @ CHR '','' # ?rest" by (simp add: imf_fixdate_def)
  have trimmed: "trim (wd @ CHR '','' # ?rest) = wd @ CHR '','' # ?rest"
    using months wd by (intro trim_http) (auto simp: is_whitespace_def)
  have parts: "split_ascii_whitespace ?rest = [fmt_pad 2 d, MONTHS ! (m - 1), fmt_pad 4 y, ?clock, ''GMT'']"
    using months by (simp add: split_words fmt_pad_digits(2) split_gmt)
  have third: "(wd @ CHR '','' # ?rest) ! 3 = CHR '',''" using wd(2) by (metis nth_append_length)
  have "http_date_fields (wd @ CHR '','' # ?rest) wd (split_ascii_whitespace ?rest) now
      = Some (int y, MONTHS ! (m - 1), fmt_pad 2 d, ?clock)"
    unfolding parts http_date_fields_def third
    using date(2) length_fmt_pad[of y 4] parse_i32_fmt_pad[of y 4] by (simp add: I32_MAX_def)
  then show ?thesis
    unfolding shape by (intro parse_http_date_fields[where sep = "CHR '',''" and wd = wd and rest = ?rest])
      (use trimmed wd date clock in auto)
qed


lemma rfc850_date_parsed:
  assumes wd: "list_all is_ascii_alphabetic wd" "3 \<le> length wd"
    and date: "valid_date (int y, m, d)" "y \<le> 9999"
    and clock: "h \<le> 23" "mi \<le> 59" "se \<le> 60"
    and now: "now_year = fst (civil_from_days (int (now div 86400)))" "0 \<le> now_year" "now_year \<le> 9999"
    and century: "int y div 100 = now_year div 100 \<and> int y \<le> now_year + 50
      \<or> int y div 100 = now_year div 100 - 1 \<and> int y + 100 > now_year + 50"
  shows "parse_http_date (rfc850_date wd y m d (clock_text h mi se)) now = Some (instant y m d h mi se)"
proof -
  let ?clock = "clock_text h mi se" and ?yy = "fmt_pad 2 (y mod 100)"
  have m: "1 \<le> m" "m \<le> 12" using date(1) by (simp_all add: valid_date_def)
  note months = MONTHS_facts[OF m, simplified]
  let ?date = "fmt_pad 2 d @ CHR ''-'' # MONTHS ! (m - 1) @ CHR ''-'' # ?yy"
  let ?rest = "CHR '' '' # ?date @ CHR '' '' # ?clock @ CHR '' '' # ''GMT''"
  have shape: "rfc850_date wd y m d ?clock = wd @ CHR '','' # ?rest" by (simp add: rfc850_date_def)
  have trimmed: "trim (wd @ CHR '','' # ?rest) = wd @ CHR '','' # ?rest"
    using months wd by (intro trim_http) (auto simp: is_whitespace_def)
  have nodash: "CHR ''-'' \<notin> set (fmt_pad 2 n)" for n
    by (rule all_digits_notin[OF fmt_pad_digits(1)]) (simp add: is_ascii_digit_def)
  have dash: "split_on CHR ''-'' ?date = [fmt_pad 2 d, MONTHS ! (m - 1), ?yy]"
    using months nodash by (simp add: split_on_first split_on_none)
  have "solid ?date" using months by (simp add: is_ascii_whitespace_def[of "CHR ''-''"])
  then have parts: "split_ascii_whitespace ?rest = [?date, ?clock, ''GMT'']"
    using split_words(1)[of ?date "?clock @ CHR '' '' # ''GMT''"] by (simp add: split_words split_gmt)
  have comma: "(wd @ CHR '','' # ?rest) ! length wd = CHR '',''" by (rule nth_append_length)
  have year: "two_digit_year now_year (int (y mod 100)) = int y"
    by (rule two_digit_year_eq[OF now(2,3) date(2) century])
  have "parse_i32 ?yy = Some (int (y mod 100))"
    by (rule parse_i32_fmt_pad) (simp add: I32_MAX_def le_trans[OF mod_le_divisor])
  moreover have "length ?yy = 2" by (rule length_fmt_pad) simp_all
  moreover have "in_i32 now_year" using now(2,3) by (simp add: in_i32_def)
  ultimately have "http_date_fields (wd @ CHR '','' # ?rest) wd (split_ascii_whitespace ?rest) now
      = Some (int y, MONTHS ! (m - 1), fmt_pad 2 d, ?clock)"
    unfolding parts http_date_fields_def using comma dash year now(1) by simp
  then show ?thesis
    unfolding shape by (intro parse_http_date_fields[where sep = "CHR '',''" and wd = wd and rest = ?rest])
      (use trimmed wd date clock in auto)
qed

lemma asctime_date_parsed:
  assumes wd: "list_all is_ascii_alphabetic wd" "length wd = 3"
    and date: "valid_date (int y, m, d)" "y \<le> 9999"
    and clock: "h \<le> 23" "mi \<le> 59" "se \<le> 60"
  shows "parse_http_date (asctime_date wd y m d (clock_text h mi se)) now = Some (instant y m d h mi se)"
proof -
  let ?clock = "clock_text h mi se"
  have m: "1 \<le> m" "m \<le> 12" using date(1) by (simp_all add: valid_date_def)
  note months = MONTHS_facts[OF m, simplified]
  let ?day = "if d < 10 then CHR '' '' # show_nat d else show_nat d"
  let ?rest = "MONTHS ! (m - 1) @ CHR '' '' # ?day @ CHR '' '' # ?clock @ CHR '' '' # fmt_pad 4 y"
  have shape: "asctime_date wd y m d ?clock = wd @ CHR '' '' # ?rest" by (simp add: asctime_date_def)
  have trimmed: "trim (wd @ CHR '' '' # ?rest) = wd @ CHR '' '' # ?rest"
    using months wd last_digit[of 4 y] fmt_pad_digits(2)[of 4 y] by (intro trim_http) auto
  have parts: "split_ascii_whitespace ?rest = [MONTHS ! (m - 1), show_nat d, ?clock, fmt_pad 4 y]"
    using months by (simp add: split_words fmt_pad_digits(2))
  have third: "(wd @ CHR '' '' # ?rest) ! 3 = CHR '' ''" using wd(2) by (metis nth_append_length)
  have "http_date_fields (wd @ CHR '' '' # ?rest) wd (split_ascii_whitespace ?rest) now
      = Some (int y, MONTHS ! (m - 1), show_nat d, ?clock)"
    unfolding parts http_date_fields_def third
    using date(2) length_fmt_pad[of y 4] parse_i32_fmt_pad[of y 4] by (simp add: I32_MAX_def)
  then show ?thesis
    unfolding shape by (intro parse_http_date_fields[where sep = "CHR '' ''" and wd = wd and rest = ?rest])
      (use trimmed wd date clock in auto)
qed

text \<open>C17: The three forms of an HTTP date read as the instant they name, whatever the weekday says: for
  every date that exists in the years 0 to 9999 and every clock time, a leap second included. The
  two-digit year of the RFC 850 form is read in the century that puts it at most fifty years ahead
  of the current year.\<close>

theorem http_dates_exact:
  assumes "list_all is_ascii_alphabetic wd" "length wd = 3"
    and "list_all is_ascii_alphabetic long_wd" "3 \<le> length long_wd"
    and "valid_date (int y, m, d)" "y \<le> 9999" "h \<le> 23" "mi \<le> 59" "se \<le> 60"
    and "now_year = fst (civil_from_days (int (now div 86400)))" "0 \<le> now_year" "now_year \<le> 9999"
  shows "parse_http_date (imf_fixdate wd y m d (clock_text h mi se)) now = Some (instant y m d h mi se)
    \<and> parse_http_date (asctime_date wd y m d (clock_text h mi se)) now = Some (instant y m d h mi se)
    \<and> (int y div 100 = now_year div 100 \<and> int y \<le> now_year + 50
        \<or> int y div 100 = now_year div 100 - 1 \<and> int y + 100 > now_year + 50
       \<longrightarrow> parse_http_date (rfc850_date long_wd y m d (clock_text h mi se)) now = Some (instant y m d h mi se))"
  using imf_fixdate_parsed[OF assms(1,2,5-9)] asctime_date_parsed[OF assms(1,2,5-9)]
    rfc850_date_parsed[OF assms(3-9) assms(10-12)] by blast

theorem http_dates_exact_witness:
  "parse_http_date (rfc850_date ''Sunday'' 1994 11 6 (clock_text 8 49 37)) 1792108800 = Some 784111777"
proof -
  have "civil_from_days (int (1792108800 div 86400)) = (2026, 10, 16)"
    by (simp add: civil_from_days_digits[of 20742 5 0 6 2 229] in_i64_def month_of_doy_def civil_month_def doy_of_def)
  then show ?thesis
    using http_dates_exact[of "''Sun''" "''Sunday''" 1994 11 6 8 49 37 2026 1792108800]
    by (simp add: alphabetic_point valid_date_def days_in_month_def month_days_def instant_def
        days_from_civil_def signed_divide_int_def)
qed


section \<open>Texts outside the documented forms\<close>

text \<open>A sign in front of a year of an HTTP date is read, so \<open>+994\<close> is a four-digit year.\<close>

lemma signed_year_accepted:
  "parse_http_date ''Sun, 06 Nov +994 08:49:37 GMT'' now = Some (instant 994 11 6 8 49 37)"
proof -
  have clock: "clock_text 8 49 37 = ''08:49:37''" and dt: "fmt_pad 2 6 = ''06''"
    by (simp_all add: clock_text_def fmt_pad_def show_nat.simps char_of_def bit_numeral_rec bit_Suc_0_iff)
  have trimmed: "trim ''Sun, 06 Nov +994 08:49:37 GMT'' = ''Sun, 06 Nov +994 08:49:37 GMT''"
    by (rule trim_ascii) (simp_all add: is_whitespace_def)
  have parts: "split_ascii_whitespace '' 06 Nov +994 08:49:37 GMT'' = [''06'', ''Nov'', ''+994'', ''08:49:37'', ''GMT'']"
    by (simp add: split_ascii_whitespace_def is_ascii_whitespace_def)
  have year: "parse_i32 ''+994'' = Some 994"
    by (simp add: parse_i32_def parse_unsigned_def I32_MAX_def is_ascii_digit_def digit_value_def)
  show ?thesis
    by (rule parse_http_date_fields[where wd = "''Sun''" and sep = "CHR '',''" and dt = "''06''"
          and rest = "'' 06 Nov +994 08:49:37 GMT''"])
      (simp_all add: trimmed parts year clock dt http_date_fields_def alphabetic_point MONTHS_def
        valid_date_def days_in_month_def month_days_def)
qed

text \<open>A slash anywhere in a timestamp is read as a dash, so a slash in front of the offset is read as a
  minus sign.\<close>

lemma slash_offset_accepted:
  "parse_timestamp_and_iso ''2024-01-02T10:00/0500'' = parse_timestamp_and_iso ''2024-01-02T10:00-0500''
   \<and> parse_timestamp ''2024-01-02T10:00/0500'' = Some (days_from_civil 2024 1 2 * 86400 + 15 * 3600)"
proof -
  have same: "slashes_to_dashes ''2024-01-02T10:00/0500'' = ''2024-01-02T10:00-0500''"
    "slashes_to_dashes ''2024-01-02T10:00-0500'' = ''2024-01-02T10:00-0500''"
    by (simp_all add: slashes_to_dashes_def)
  have trimmed: "trim ''2024-01-02T10:00/0500'' = ''2024-01-02T10:00/0500''"
    "trim ''2024-01-02T10:00-0500'' = ''2024-01-02T10:00-0500''"
    by (rule trim_ascii; simp add: is_whitespace_def)+
  have nodigits: "\<not> is_digits ''2024-01-02T10:00/0500''" "\<not> is_digits ''2024-01-02T10:00-0500''"
    by (simp_all add: is_digits_def is_ascii_digit_def)
  have split: "split_date_time ''2024-01-02T10:00-0500'' = (''2024-01-02'', Some ''10:00-0500'')"
    by (simp add: split_date_time_def)
  have date: "parse_date_part ''2024-01-02'' = Some (2024, 1, 2)"
    by (simp add: parse_date_part_def digits_def is_digits_def parse_unsigned_def I32_MAX_def U32_MAX_def
        is_ascii_digit_def digit_value_def days_in_month_def month_days_def)
  have time: "parse_time_part ''10:00-0500'' = Some (10, 0, 0, 18000)"
    by (simp add: parse_time_part_def strip_suffix_def split_offset_def field_or_zero_def digits_def
        is_digits_def parse_unsigned_def I64_MAX_def is_ascii_digit_def digit_value_def offset_seconds_def
        hours_minutes_def two_digits_def)
  show ?thesis
    by (simp add: parse_timestamp_def parse_timestamp_and_iso_def trimmed nodigits same split date time Let_def)
qed

end
