(* ===== verification/Net_Parse.thy ===== *)
theory Net_Parse
  imports Std_Net
begin

text \<open>
  The parser of \<open>std::net\<close> that the address modules call (\<open>Ipv4Addr::from_str\<close>,
  \<open>Ipv6Addr::from_str\<close>, \<open>IpAddr::from_str\<close>), and the proof that it reads back what \<open>Display\<close>
  writes. A reader takes the bytes left and answers with a value and the bytes after it; one that
  fails leaves its caller at the bytes it was given, which is what \<open>read_atomically\<close> restores.
\<close>

section \<open>The readers\<close>

definition digit_of :: "nat \<Rightarrow> char \<Rightarrow> nat option" where
  "digit_of radix c =
     (let n = of_char c;
          v = (if 48 \<le> n \<and> n \<le> 57 then n - 48
               else if 97 \<le> n \<and> n \<le> 122 then n - 87
               else if 65 \<le> n \<and> n \<le> 90 then n - 55 else 36)
      in if v < radix then Some v else None)"

definition digits_value :: "nat \<Rightarrow> nat \<Rightarrow> str \<Rightarrow> nat" where
  "digits_value radix acc ds = foldl (\<lambda>v c. v * radix + (case digit_of radix c of Some d \<Rightarrow> d | None \<Rightarrow> 0)) acc ds"

definition read_number :: "nat \<Rightarrow> nat \<Rightarrow> bool \<Rightarrow> nat \<Rightarrow> str \<Rightarrow> (nat \<times> str) option" where
  "read_number radix max_digits zero_prefix maximum s =
     (let ds = takeWhile (\<lambda>c. digit_of radix c \<noteq> None) s;
          rest = dropWhile (\<lambda>c. digit_of radix c \<noteq> None) s;
          v = digits_value radix 0 ds
      in if length ds > max_digits \<or> ds = [] then None
         else if \<not> zero_prefix \<and> hd ds = CHR ''0'' \<and> length ds > 1 then None
         else if v \<le> maximum then Some (v, rest) else None)"

definition read_separated :: "char \<Rightarrow> nat \<Rightarrow> (str \<Rightarrow> ('a \<times> str) option) \<Rightarrow> str \<Rightarrow> ('a \<times> str) option" where
  "read_separated sep i inner s =
     (if i > 0 then (case s of c # r \<Rightarrow> if c = sep then inner r else None | [] \<Rightarrow> None) else inner s)"

fun read_octets :: "nat \<Rightarrow> nat \<Rightarrow> str \<Rightarrow> (nat list \<times> str) option" where
  "read_octets 0 i s = Some ([], s)"
| "read_octets (Suc n) i s =
     (case read_separated CHR ''.'' i (read_number 10 3 False 255) s of
        Some (v, r) \<Rightarrow> map_option (\<lambda>(vs, r'). (v # vs, r')) (read_octets n (i + 1) r)
      | None \<Rightarrow> None)"

definition read_ipv4 :: "str \<Rightarrow> (nat list \<times> str) option" where
  "read_ipv4 s = read_octets 4 0 s"

text \<open>\<open>read_groups\<close> with \<open>n\<close> groups left to fill, the next at index \<open>i\<close>: the groups read, whether the
  last two are an embedded IPv4 address, and the bytes after them.\<close>

fun read_groups :: "nat \<Rightarrow> nat \<Rightarrow> str \<Rightarrow> nat list \<times> bool \<times> str" where
  "read_groups 0 i s = ([], False, s)"
| "read_groups (Suc n) i s =
     (case (if n > 0 then read_separated CHR '':'' i read_ipv4 s else None) of
        Some (os, r) \<Rightarrow> ([os ! 0 * 256 + os ! 1, os ! 2 * 256 + os ! 3], True, r)
      | None \<Rightarrow>
          (case read_separated CHR '':'' i (read_number 16 4 True 65535) s of
             Some (g, r) \<Rightarrow> (let (gs, v4, r') = read_groups n (i + 1) r in (g # gs, v4, r'))
           | None \<Rightarrow> ([], False, s)))"

definition read_ipv6 :: "str \<Rightarrow> (nat list \<times> str) option" where
  "read_ipv6 s =
     (let (head, v4, r) = read_groups 8 0 s in
      if length head = 8 then Some (head, r)
      else if v4 then None
      else
        (case r of
           a # b # r' \<Rightarrow>
             if a = CHR '':'' \<and> b = CHR '':'' then
               (let (tail, _, r'') = read_groups (8 - (length head + 1)) 0 r'
                in Some (head @ replicate (8 - length head - length tail) 0 @ tail, r''))
             else None
         | _ \<Rightarrow> None))"

definition of_parts :: "nat \<Rightarrow> nat list \<Rightarrow> nat" where
  "of_parts b parts = foldl (\<lambda>v p. v * b + p) 0 parts"

definition parse_ipv4 :: "str \<Rightarrow> u32 option" where
  "parse_ipv4 s =
     (if length s > 15 then None
      else (case read_ipv4 s of Some (os, []) \<Rightarrow> Some (of_nat (of_parts 256 os)) | _ \<Rightarrow> None))"

definition parse_ipv6 :: "str \<Rightarrow> 128 word option" where
  "parse_ipv6 s =
     (case read_ipv6 s of Some (gs, []) \<Rightarrow> Some (of_nat (of_parts 65536 gs)) | _ \<Rightarrow> None)"

definition parse_ip :: "str \<Rightarrow> ip_addr option" where
  "parse_ip s =
     (case read_ipv4 s of
        Some (os, r) \<Rightarrow> if r = [] then Some (V4 (of_nat (of_parts 256 os))) else None
      | None \<Rightarrow>
          (case read_ipv6 s of
             Some (gs, r) \<Rightarrow> if r = [] then Some (V6 (of_nat (of_parts 65536 gs))) else None
           | None \<Rightarrow> None))"

section \<open>Numbers read back\<close>

lemma digits_value_append: "digits_value radix acc (s @ t) = digits_value radix (digits_value radix acc s) t"
  by (simp add: digits_value_def)

text \<open>What \<open>Display\<close> writes for a number, in either radix: its digits, with no zero in front.\<close>

definition reads_as :: "nat \<Rightarrow> str \<Rightarrow> nat \<Rightarrow> bool" where
  "reads_as radix s n \<longleftrightarrow> s \<noteq> [] \<and> list_all (\<lambda>c. digit_of radix c \<noteq> None) s \<and> digits_value radix 0 s = n
     \<and> (hd s = CHR ''0'' \<longrightarrow> length s = 1)"

lemma digit_of_decimal: "n < 10 \<Longrightarrow> digit_of 10 (char_of (n + 48)) = Some n"
  by (simp add: digit_of_def)

lemma reads_as_snoc:
  assumes "reads_as radix s n" "0 < n" "digit_of radix c = Some d"
  shows "reads_as radix (s @ [c]) (n * radix + d)"
proof -
  have "hd s \<noteq> CHR ''0''"
  proof
    assume z: "hd s = CHR ''0''"
    with assms(1) have "s = [CHR ''0'']" by (cases s) (auto simp: reads_as_def)
    then have "digits_value radix 0 s = 0" by (simp add: digits_value_def digit_of_def split: option.split)
    with assms(1,2) show False by (simp add: reads_as_def)
  qed
  with assms show ?thesis by (simp add: reads_as_def digits_value_append) (simp add: digits_value_def)
qed

lemma show_nat_reads: "reads_as 10 (show_nat n) n"
proof (induction n rule: show_nat.induct)
  case (1 n)
  show ?case
  proof (cases "n < 10")
    case True
    then show ?thesis
      by (subst show_nat.simps) (simp add: reads_as_def digit_of_decimal digits_value_def)
  next
    case False
    with 1 have "reads_as 10 (show_nat (n div 10)) (n div 10)" by simp
    from reads_as_snoc[OF this _ digit_of_decimal[of "n mod 10"]] False
    show ?thesis by (subst show_nat.simps) simp
  qed
qed

lemma digit_of_hex: "n < 16 \<Longrightarrow> digit_of 16 (''0123456789abcdef'' ! n) = Some n"
proof -
  assume "n < 16"
  then have "n \<in> set [0..<16]" by simp
  then show ?thesis by (simp add: upt_rec digit_of_def) (elim disjE, simp_all)
qed

lemma show_hex_reads: "reads_as 16 (show_hex n) n"
proof (induction n rule: show_hex.induct)
  case (1 n)
  show ?case
  proof (cases "n < 16")
    case True
    then show ?thesis
      by (subst show_hex.simps) (simp add: reads_as_def digit_of_hex digits_value_def)
  next
    case False
    with 1 have "reads_as 16 (show_hex (n div 16)) (n div 16)" by simp
    from reads_as_snoc[OF this _ digit_of_hex[of "n mod 16"]] False
    show ?thesis by (subst show_hex.simps) simp
  qed
qed

lemma length_show_hex: "n < 16 ^ k \<Longrightarrow> 0 < k \<Longrightarrow> length (show_hex n) \<le> k"
proof (induction k arbitrary: n)
  case (Suc k)
  show ?case
  proof (cases "n < 16")
    case False
    then have "n div 16 < 16 ^ k" "0 < k" using Suc.prems by (auto intro: Nat.gr0I)
    from Suc.IH[OF this] False show ?thesis by (subst show_hex.simps) simp
  qed (simp add: show_hex.simps)
qed simp

lemma takeWhile_stop: "list_all P s \<Longrightarrow> r = [] \<or> \<not> P (hd r) \<Longrightarrow> takeWhile P (s @ r) = s \<and> dropWhile P (s @ r) = r"
  by (induction s) (cases r; auto)+

lemma read_number_reads:
  assumes "reads_as radix s n" "length s \<le> k" "n \<le> m" "r = [] \<or> digit_of radix (hd r) = None"
  shows "read_number radix k z m (s @ r) = Some (n, r)"
  using assms takeWhile_stop[of "\<lambda>c. digit_of radix c \<noteq> None" s r]
  by (auto simp: read_number_def reads_as_def Let_def)


section \<open>Parts of a word\<close>

lemma foldl_parts: "foldl (\<lambda>v p. v * b + p) v ps = v * b ^ length ps + foldl (\<lambda>v p. v * b + p) 0 ps" for v b :: nat
proof (induction ps arbitrary: v)
  case (Cons p ps)
  show ?case
    unfolding foldl.simps Cons.IH[of "v * b + p"] Cons.IH[of "0 * b + p"] length_Cons power_Suc
    by (simp add: distrib_right mult.assoc)
qed simp

lemma of_parts_Cons: "of_parts b (p # ps) = p * b ^ length ps + of_parts b ps"
  using foldl_parts[where v = p] by (simp add: of_parts_def)

lemma of_parts_digits: "of_parts b (map (\<lambda>i. x div b ^ i mod b) (rev [0..<k])) = x mod b ^ k"
proof (induction k)
  case (Suc k)
  have "rev [0..<Suc k] = k # rev [0..<k]" by simp
  then have "of_parts b (map (\<lambda>i. x div b ^ i mod b) (rev [0..<Suc k])) = x div b ^ k mod b * b ^ k + x mod b ^ k"
    using Suc by (simp only: list.map of_parts_Cons length_map length_rev length_upt) simp
  also have "\<dots> = x mod (b ^ k * b)" by (simp add: mod_mult2_eq)
  finally show ?case by (simp add: mult.commute)
qed (simp add: of_parts_def)

lemma unat_part: "unat (drop_bit i a AND mask k) = unat a div 2 ^ i mod 2 ^ k" for a :: "'a::len word"
  unfolding take_bit_eq_mask[symmetric] unsigned_take_bit_eq unsigned_drop_bit_eq
  by (simp add: take_bit_eq_mod drop_bit_eq_div)

definition octets :: "u32 \<Rightarrow> nat list" where
  "octets a = map (\<lambda>i. unat (drop_bit i a AND 0xff)) [24, 16, 8, 0]"

lemma octet_le: "unat (drop_bit i a AND 0xff) \<le> 255" for a :: u32
proof -
  have "unat (drop_bit i a AND mask 8) < 2 ^ 8" unfolding unat_part by simp
  then show ?thesis by (simp add: mask_eq_exp_minus_1)
qed

lemma of_parts_octets: "of_nat (of_parts 256 (octets a)) = a"
proof -
  have up: "rev [0..<4] = [3, 2, 1, 0 :: nat]" by (simp add: upt_rec)
  have p: "unat (drop_bit i a AND 0xff) = unat a div 2 ^ i mod 256" for i
    using unat_part[of i a 8] by (simp add: mask_eq_exp_minus_1)
  have "octets a = map (\<lambda>i. unat a div 256 ^ i mod 256) (rev [0..<4])"
    unfolding up by (simp add: octets_def p)
  then have "of_parts 256 (octets a) = unat a mod 256 ^ 4" by (simp only: of_parts_digits)
  also have "unat a < 2 ^ LENGTH(32)" by (rule unsigned_less)
  then have "unat a mod 256 ^ 4 = unat a" by simp
  finally show ?thesis by simp
qed

lemma of_parts_segments: "of_nat (of_parts 65536 (segments a)) = a"
proof -
  have up: "rev [0..<8] = [7, 6, 5, 4, 3, 2, 1, 0 :: nat]" by (simp add: upt_rec)
  have p: "unat (drop_bit i a AND 0xffff) = unat a div 2 ^ i mod 65536" for i
    using unat_part[of i a 16] by (simp add: mask_eq_exp_minus_1)
  have q: "(2 :: nat) ^ (16 * i) = 65536 ^ i" for i by (simp add: power_mult)
  have "segments a = map (\<lambda>i. unat a div 65536 ^ i mod 65536) (rev [0..<8])"
    unfolding up by (simp only: segments_def p q)
  then have "of_parts 65536 (segments a) = unat a mod 65536 ^ 8" by (simp only: of_parts_digits)
  also have "unat a < 2 ^ LENGTH(128)" by (rule unsigned_less)
  then have "unat a mod 65536 ^ 8 = unat a" by simp
  finally show ?thesis by simp
qed

lemma segments_facts: "length (segments a) = 8" "list_all (\<lambda>g. g < 65536) (segments a)"
proof -
  have "unat (drop_bit i a AND mask 16) < 2 ^ 16" for i unfolding unat_part by simp
  then have p: "unat (drop_bit i a AND 0xffff) < 65536" for i by (simp add: mask_eq_exp_minus_1)
  then have "list_all (\<lambda>g. g < 65536) (map (\<lambda>i. unat (drop_bit (16 * i) a AND 0xffff)) is)" for "is"
    by (induction "is") simp_all
  then show "list_all (\<lambda>g. g < 65536) (segments a)" unfolding segments_def by blast
qed (simp add: segments_def)

section \<open>Addresses read back\<close>

lemma read_octet:
  assumes "o1 \<le> 255" "r = [] \<or> digit_of 10 (hd r) = None"
  shows "read_number 10 3 False 255 (show_nat o1 @ r) = Some (o1, r)"
  by (rule read_number_reads[OF show_nat_reads]) (use assms show_nat_length[of o1 3] in auto)

lemma read_ipv4_show:
  assumes "r = [] \<or> digit_of 10 (hd r) = None"
  shows "read_ipv4 (show_ipv4 a @ r) = Some (octets a, r)"
proof -
  have dot: "digit_of 10 (CHR ''.'') = None" by (simp add: digit_of_def)
  have four: "4 = Suc (Suc (Suc (Suc 0)))" by simp
  have "read_octets 4 0 (show_nat o1 @ ''.'' @ show_nat o2 @ ''.'' @ show_nat o3 @ ''.'' @ show_nat o4 @ r)
      = Some ([o1, o2, o3, o4], r)" if "o1 \<le> 255" "o2 \<le> 255" "o3 \<le> 255" "o4 \<le> 255" for o1 o2 o3 o4
    unfolding four using assms that by (simp add: read_separated_def read_octet dot)
  from this[OF octet_le[of 24 a] octet_le[of 16 a] octet_le[of 8 a] octet_le[of 0 a]] show ?thesis
    unfolding read_ipv4_def show_ipv4_def octets_def list.map join.simps append_assoc .
qed

lemma no_dot_no_ipv4: "CHR ''.'' \<notin> set s \<Longrightarrow> read_ipv4 s = None"
proof -
  assume dot: "CHR ''.'' \<notin> set s"
  have four: "4 = Suc (Suc (Suc (Suc 0)))" by simp
  show ?thesis
  proof (cases "read_number 10 3 False 255 s")
    case (Some vr)
    then obtain v r where vr: "read_number 10 3 False 255 s = Some (v, r)" by (cases vr) auto
    then have "r = dropWhile (\<lambda>c. digit_of 10 c \<noteq> None) s" by (auto simp: read_number_def Let_def split: if_splits)
    then have "CHR ''.'' \<notin> set r" using dot by (auto dest: set_dropWhileD)
    then have "read_separated CHR ''.'' (Suc 0) (read_number 10 3 False 255) r = None"
      by (auto simp: read_separated_def split: list.split)
    then show ?thesis unfolding read_ipv4_def four by (simp add: read_separated_def[of _ 0] vr)
  qed (simp add: read_ipv4_def four read_separated_def)
qed


text \<open>What ends a run of groups: the end of the text, or a colon no group follows.\<close>

definition ends_groups :: "str \<Rightarrow> bool" where
  "ends_groups r \<longleftrightarrow> r = [] \<or> (\<exists>t. r = CHR '':'' # t \<and> (t = [] \<or> hd t = CHR '':''))"

lemma read_number_colon: "s = [] \<or> hd s = CHR '':'' \<Longrightarrow> read_number radix k z m s = None" if "radix \<le> 36"
  using that by (cases s) (auto simp: read_number_def digit_of_def)

lemma read_groups_end:
  assumes "ends_groups r" "CHR ''.'' \<notin> set r"
  shows "read_groups n i r = ([], False, r)"
proof (cases n)
  case (Suc k)
  from assms(1) consider "r = []" | t where "r = CHR '':'' # t" "t = [] \<or> hd t = CHR '':''"
    by (auto simp: ends_groups_def)
  then have "read_separated CHR '':'' i (read_number 16 4 True 65535) r = None"
    by cases (auto simp: read_separated_def read_number_colon)
  moreover have "read_separated CHR '':'' i read_ipv4 r = None"
    using assms(2) no_dot_no_ipv4 by (auto simp: read_separated_def split: list.split)
  ultimately show ?thesis using Suc by simp
qed simp

lemma read_group:
  assumes "g < 65536" "r = [] \<or> digit_of 16 (hd r) = None"
  shows "read_number 16 4 True 65535 (show_hex g @ r) = Some (g, r)"
  by (rule read_number_reads[OF show_hex_reads]) (use assms length_show_hex[of g 4] in auto)

definition colon_groups :: "nat list \<Rightarrow> str" where
  "colon_groups gs = concat (map (\<lambda>g. CHR '':'' # show_hex g) gs)"

lemma show_segments_Cons: "show_segments (g # gs) = show_hex g @ colon_groups gs"
proof (induction gs arbitrary: g)
  case (Cons h gs)
  then show ?case by (simp add: show_segments_def colon_groups_def)
qed (simp add: show_segments_def colon_groups_def)

lemma hex_digit_no_dot: "CHR ''.'' \<notin> set (show_hex g)"
  using show_hex_reads[of g] by (auto simp: reads_as_def list_all_iff digit_of_def)

lemma colon_groups_no_dot: "CHR ''.'' \<notin> set (colon_groups gs)"
  by (induction gs) (auto simp: colon_groups_def hex_digit_no_dot)

lemma colon_not_hex: "digit_of 16 (CHR '':'') = None"
  by (simp add: digit_of_def)

lemma groups_hd: "ends_groups r \<Longrightarrow> colon_groups gs @ r = [] \<or> digit_of 16 (hd (colon_groups gs @ r)) = None"
  by (cases gs) (auto simp: colon_groups_def ends_groups_def colon_not_hex)

lemma read_groups_colon:
  assumes "list_all (\<lambda>g. g < 65536) gs" "length gs \<le> n" "0 < i" "ends_groups r" "CHR ''.'' \<notin> set r"
  shows "read_groups n i (colon_groups gs @ r) = (gs, False, r)"
  using assms(1-3)
proof (induction gs arbitrary: n i)
  case Nil
  then show ?case using assms(4,5) by (simp add: colon_groups_def read_groups_end)
next
  case (Cons g gs)
  then obtain k where n: "n = Suc k" "length gs \<le> k" by (cases n) auto
  let ?s = "colon_groups gs @ r"
  have shape: "colon_groups (g # gs) @ r = CHR '':'' # show_hex g @ ?s" by (simp add: colon_groups_def)
  have "read_ipv4 (show_hex g @ ?s) = None"
    using assms(5) by (intro no_dot_no_ipv4) (simp add: hex_digit_no_dot colon_groups_no_dot)
  moreover have "read_number 16 4 True 65535 (show_hex g @ ?s) = Some (g, ?s)"
    using Cons.prems(1) groups_hd[OF assms(4)] by (intro read_group) simp_all
  moreover have "read_groups k (i + 1) ?s = (gs, False, r)"
    using Cons.prems(1) n(2) by (intro Cons.IH) simp_all
  ultimately show ?case unfolding shape using Cons.prems(3) n
    by (auto simp: read_separated_def colon_groups_def)
qed

lemma read_groups_show:
  assumes "list_all (\<lambda>g. g < 65536) gs" "length gs \<le> n" "ends_groups r" "CHR ''.'' \<notin> set r"
  shows "read_groups n 0 (show_segments gs @ r) = (gs, False, r)"
proof (cases gs)
  case Nil
  then show ?thesis using assms(3,4) by (simp add: show_segments_def read_groups_end)
next
  case (Cons g gs')
  then obtain k where n: "n = Suc k" "length gs' \<le> k" using assms(2) by (cases n) auto
  let ?s = "colon_groups gs' @ r"
  have "read_ipv4 (show_hex g @ ?s) = None"
    using assms(4) by (intro no_dot_no_ipv4) (simp add: hex_digit_no_dot colon_groups_no_dot)
  moreover have "read_number 16 4 True 65535 (show_hex g @ ?s) = Some (g, ?s)"
    using assms(1) Cons groups_hd[OF assms(3)] by (intro read_group) simp_all
  moreover have "read_groups k 1 ?s = (gs', False, r)"
    using assms n(2) Cons by (intro read_groups_colon) simp_all
  ultimately show ?thesis
    unfolding Cons show_segments_Cons append_assoc using n
    by (auto simp: read_separated_def colon_groups_def)
qed

lemma show_segments_no_dot: "CHR ''.'' \<notin> set (show_segments gs)"
proof (cases gs)
  case (Cons g gs')
  then show ?thesis unfolding Cons show_segments_Cons by (simp add: hex_digit_no_dot colon_groups_no_dot)
qed (simp add: show_segments_def)

text \<open>The run \<open>Display\<close> compresses is a run of zeros inside the segments.\<close>

definition zeros_at :: "nat list \<Rightarrow> nat \<times> nat \<Rightarrow> bool" where
  "zeros_at ss run = (case run of (s, l) \<Rightarrow> s + l \<le> length ss \<and> take l (drop s ss) = replicate l 0)"

lemma zeros_at_append: "zeros_at xs run \<Longrightarrow> zeros_at (xs @ ys) run"
  by (auto simp: zeros_at_def)

lemma zero_run_zeros:
  assumes "zeros_at (pre @ ss) (ls, ll)" "cl > 0 \<longrightarrow> cs + cl = length pre \<and> zeros_at pre (cs, cl)"
  shows "zeros_at (pre @ ss) (zero_run (length pre) ss (cs, cl) (ls, ll))"
  using assms
proof (induction ss arbitrary: pre ls ll cs cl)
  case (Cons x ss)
  have IH: "zeros_at (pre @ x # ss) (zero_run (Suc (length pre)) ss (cs', cl') (ls', ll'))"
    if "zeros_at (pre @ x # ss) (ls', ll')" "cl' > 0 \<longrightarrow> cs' + cl' = Suc (length pre) \<and> zeros_at (pre @ [x]) (cs', cl')"
    for ls' ll' cs' cl' using Cons.IH[of "pre @ [x]" ls' ll' cl' cs'] that by simp
  show ?case
  proof (cases "x = 0")
    case False
    then show ?thesis using IH[of ls ll 0 0] Cons.prems(1) by simp
  next
    case True
    define c where "c = (if cl = 0 then length pre else cs)"
    have run: "c + (cl + 1) = Suc (length pre)" "zeros_at (pre @ [x]) (c, cl + 1)"
    proof -
      show "c + (cl + 1) = Suc (length pre)" using Cons.prems(2) by (auto simp: c_def)
      have "take cl (drop c pre) = replicate cl 0" "c + cl = length pre"
        using Cons.prems(2) by (auto simp: c_def zeros_at_def)
      then show "zeros_at (pre @ [x]) (c, cl + 1)"
        using True by (simp add: zeros_at_def replicate_append_same[symmetric])
    qed
    have "zeros_at (pre @ x # ss) (c, cl + 1)" using zeros_at_append[OF run(2), of ss] by simp
    with Cons.prems(1) IH[OF _ ] run True show ?thesis
      by (simp add: Let_def c_def[symmetric])
  qed
qed simp


lemma zero_run_segments: "zeros_at ss (zero_run 0 ss (0, 0) (0, 0))"
  using zero_run_zeros[of "[]" ss 0 0 0 0] by (simp add: zeros_at_def)

lemma read_ipv6_full:
  assumes "list_all (\<lambda>g. g < 65536) gs" "length gs = 8"
  shows "read_ipv6 (show_segments gs) = Some (gs, [])"
  using read_groups_show[of gs 8 "[]"] assms by (simp add: read_ipv6_def ends_groups_def)

lemma read_ipv6_compressed:
  assumes "list_all (\<lambda>g. g < 65536) front" "list_all (\<lambda>g. g < 65536) rear"
    and "length front + length rear + 1 < 8"
  shows "read_ipv6 (show_segments front @ ''::'' @ show_segments rear)
    = Some (front @ replicate (8 - length front - length rear) 0 @ rear, [])"
proof -
  have dots: "CHR ''.'' \<notin> set (show_segments rear)" by (rule show_segments_no_dot)
  have "read_groups 8 0 (show_segments front @ ''::'' @ show_segments rear) = (front, False, ''::'' @ show_segments rear)"
    using assms dots by (intro read_groups_show) (auto simp: ends_groups_def)
  moreover have "read_groups (8 - (length front + 1)) 0 (show_segments rear) = (rear, False, [])"
    using read_groups_show[of rear "8 - (length front + 1)" "[]"] assms by (simp add: ends_groups_def)
  ultimately show ?thesis using assms(3) by (simp add: read_ipv6_def)
qed

lemma read_ipv6_mapped:
  "read_ipv6 (''::ffff:'' @ show_ipv4 a)
    = Some ([0, 0, 0, 0, 0, 0xffff, octets a ! 0 * 256 + octets a ! 1, octets a ! 2 * 256 + octets a ! 3], [])"
proof -
  have no: "read_number 10 3 False 255 (CHR ''f'' # s) = None" for s by (simp add: read_number_def digit_of_def)
  have four: "4 = Suc (Suc (Suc (Suc 0)))" and seven: "7 = Suc (Suc 5)" and eight: "8 = Suc 7" by simp_all
  have no4: "read_ipv4 (CHR ''f'' # s) = None" "read_ipv4 (CHR '':'' # s) = None" for s
    using read_number_colon[of 10 "CHR '':'' # s"]
    unfolding read_ipv4_def four by (simp_all add: read_separated_def no)
  have "read_groups 8 0 (''::ffff:'' @ show_ipv4 a) = ([], False, ''::ffff:'' @ show_ipv4 a)"
    unfolding eight read_groups.simps by (simp add: read_separated_def no4 read_number_colon)
  moreover have "read_number 16 4 True 65535 (''ffff:'' @ s) = Some (0xffff, CHR '':'' # s)" for s
    by (simp add: read_number_def digit_of_def digits_value_def)
  then have "read_groups 7 0 (''ffff:'' @ show_ipv4 a)
      = ([0xffff, octets a ! 0 * 256 + octets a ! 1, octets a ! 2 * 256 + octets a ! 3], True, [])"
    using read_ipv4_show[of "[]" a] unfolding seven read_groups.simps
    by (simp add: read_separated_def no4)
  moreover have "replicate 5 (0 :: nat) = [0, 0, 0, 0, 0]" by (simp add: numeral_eq_Suc)
  ultimately show ?thesis by (simp add: read_ipv6_def)
qed

lemma two_octets:
  "x div 65536 mod 65536 = (x mod 4294967296 div 16777216 mod 256) * 256 + x mod 4294967296 div 65536 mod 256"
  "x mod 65536 = (x mod 4294967296 div 256 mod 256) * 256 + x mod 4294967296 mod 256" for x :: nat
proof -
  have y: "x mod 4294967296 = 65536 * (x div 65536 mod 65536) + x mod 65536"
    using mod_mult2_eq[of x 65536 65536] by simp
  have l: "x mod 65536 = 256 * (x div 256 mod 256) + x mod 256" using mod_mult2_eq[of x 256 256] by simp
  have h: "x mod 4294967296 div 65536 = x div 65536 mod 65536" unfolding y by simp
  have "x mod 4294967296 div 16777216 = x div 65536 mod 65536 div 256"
    unfolding h[symmetric] by (simp flip: div_mult2_eq)
  moreover have "x div 65536 mod 65536 div 256 < 256" by (simp add: less_mult_imp_div_less)
  ultimately show "x div 65536 mod 65536 = (x mod 4294967296 div 16777216 mod 256) * 256 + x mod 4294967296 div 65536 mod 256"
    unfolding h by simp
  have "x mod 4294967296 mod 256 = x mod 256" "x mod 4294967296 mod 65536 = x mod 65536"
    by (rule mod_mod_cancel; simp)+
  moreover have "x mod 4294967296 div 256 mod 256 = x mod 4294967296 mod 65536 div 256"
    using mod_mult2_eq[of "x mod 4294967296" 256 256] by simp
  moreover have "x mod 65536 div 256 = x div 256 mod 256" by (subst l) simp
  ultimately show "x mod 65536 = (x mod 4294967296 div 256 mod 256) * 256 + x mod 4294967296 mod 256"
    using l by simp
qed

lemma mapped_segments:
  assumes "take 6 (segments a) = [0, 0, 0, 0, 0, 0xffff]"
  shows "segments a = [0, 0, 0, 0, 0, 0xffff, octets (ucast a) ! 0 * 256 + octets (ucast a) ! 1,
    octets (ucast a) ! 2 * 256 + octets (ucast a) ! 3]"
proof -
  have u: "unat (ucast a :: u32) = unat a mod 2 ^ 32"
    by (simp add: unsigned_ucast_eq take_bit_eq_mod)
  have p: "unat (drop_bit i b AND 0xff) = unat b div 2 ^ i mod 256" for i and b :: u32
    using unat_part[of i b 8] by (simp add: mask_eq_exp_minus_1)
  have q: "unat (drop_bit i a AND 0xffff) = unat a div 2 ^ i mod 65536" for i
    using unat_part[of i a 16] by (simp add: mask_eq_exp_minus_1)
  have s: "segments a ! 6 = unat a div 2 ^ 16 mod 65536" "segments a ! 7 = unat a div 2 ^ 0 mod 65536"
    using q[of 16] q[of 0] by (simp_all add: segments_def)
  have o: "octets (ucast a) = [unat a mod 2 ^ 32 div 2 ^ 24 mod 256, unat a mod 2 ^ 32 div 2 ^ 16 mod 256,
      unat a mod 2 ^ 32 div 2 ^ 8 mod 256, unat a mod 2 ^ 32 div 2 ^ 0 mod 256]"
    unfolding octets_def list.map p u ..
  have "segments a = take 6 (segments a) @ [segments a ! 6, segments a ! 7]"
    by (simp add: segments_def)
  also have "segments a ! 6 = octets (ucast a) ! 0 * 256 + octets (ucast a) ! 1" unfolding s o using two_octets(1) by simp
  also have "segments a ! 7 = octets (ucast a) ! 2 * 256 + octets (ucast a) ! 3" unfolding s o using two_octets(2) by simp
  finally show ?thesis using assms by simp
qed


section \<open>The parsers on what Display writes\<close>

lemma split_zeros:
  assumes "zeros_at ss (s, l)" "length ss = 8"
  shows "ss = take s ss @ replicate (8 - length (take s ss) - length (drop (s + l) ss)) 0 @ drop (s + l) ss"
proof -
  have "s + l \<le> 8" "take l (drop s ss) = replicate l 0" using assms by (simp_all add: zeros_at_def)
  moreover have "ss = take s ss @ take l (drop s ss) @ drop (s + l) ss"
    by (metis add.commute append_take_drop_id drop_drop)
  moreover have "8 - length (take s ss) - length (drop (s + l) ss) = l" using \<open>s + l \<le> 8\<close> assms(2) by simp
  ultimately show ?thesis by metis
qed

lemma read_ipv6_show: "read_ipv6 (show_ipv6 a) = Some (segments a, [])"
proof (cases "take 6 (segments a) = [0, 0, 0, 0, 0, 0xffff]")
  case True
  then show ?thesis using read_ipv6_mapped[of "ucast a"] mapped_segments[OF True] by (simp add: show_ipv6_def Let_def)
next
  case False
  obtain s l where run: "zero_run 0 (segments a) (0, 0) (0, 0) = (s, l)" by (cases "zero_run 0 (segments a) (0, 0) (0, 0)")
  have small: "list_all (\<lambda>g. g < 65536) (segments a)" "length (segments a) = 8" using segments_facts by auto
  show ?thesis
  proof (cases "l > 1")
    case l: True
    have z: "zeros_at (segments a) (s, l)" using zero_run_segments[of "segments a"] run by simp
    then have "s + l \<le> 8" using small(2) by (simp add: zeros_at_def)
    moreover have "list_all (\<lambda>g. g < 65536) (take s (segments a))" "list_all (\<lambda>g. g < 65536) (drop (s + l) (segments a))"
      using small(1) by (auto simp: list_all_iff dest: in_set_takeD in_set_dropD)
    ultimately show ?thesis
      using read_ipv6_compressed[of "take s (segments a)" "drop (s + l) (segments a)"] split_zeros[OF z small(2)] l small(2) False run
      by (simp add: show_ipv6_def Let_def)
  next
    case l: False
    then show ?thesis using read_ipv6_full[OF small] False run by (simp add: show_ipv6_def Let_def)
  qed
qed

lemma show_ipv4_length: "length (show_ipv4 a) \<le> 15"
proof -
  have "length (show_nat (unat (drop_bit i a AND 0xff))) \<le> 3" for i
    using octet_le[of i a] by (intro show_nat_length) simp_all
  from this[of 24] this[of 16] this[of 8] this[of 0] show ?thesis by (simp add: show_ipv4_def)
qed

lemma parse_ipv4_show: "parse_ipv4 (show_ipv4 a) = Some a"
  using read_ipv4_show[of "[]" a] show_ipv4_length[of a] by (simp add: parse_ipv4_def of_parts_octets)

lemma parse_ipv6_show: "parse_ipv6 (show_ipv6 a) = Some a"
  by (simp add: parse_ipv6_def read_ipv6_show of_parts_segments)

lemma read_ipv4_show_ipv6: "read_ipv4 (show_ipv6 a) = None"
proof (cases "take 6 (segments a) = [0, 0, 0, 0, 0, 0xffff]")
  case True
  have four: "4 = Suc (Suc (Suc (Suc 0)))" by simp
  have "read_ipv4 (CHR '':'' # s) = None" for s
    using read_number_colon[of 10 "CHR '':'' # s"] unfolding read_ipv4_def four by (simp add: read_separated_def)
  with True show ?thesis by (simp add: show_ipv6_def Let_def)
next
  case False
  then have "CHR ''.'' \<notin> set (show_ipv6 a)"
    by (simp add: show_ipv6_def Let_def show_segments_no_dot split: prod.split)
  then show ?thesis by (rule no_dot_no_ipv4)
qed

lemma parse_ip_show: "parse_ip (show_ip a) = Some a"
proof (cases a)
  case (V4 w)
  then show ?thesis using read_ipv4_show[of "[]" w] by (simp add: parse_ip_def of_parts_octets)
next
  case (V6 w)
  then show ?thesis by (simp add: parse_ip_def read_ipv4_show_ipv6 read_ipv6_show of_parts_segments)
qed

end
