(* ===== verification/Netblock.thy ===== *)
theory Netblock
  imports Net_Parse
begin

text \<open>
  \<open>src/netblock.rs\<close>: address blocks in CIDR form. An address is its number, a \<open>u32\<close> or a \<open>u128\<close>; a
  prefix length is a \<open>nat\<close>, which every parser bounds by the width of the address. The private
  fields of a block are only written by its parsers.
\<close>

section \<open>Blocks of one family\<close>

record ipv4_cidr =
  addr4 :: u32
  prefix4 :: nat

record ipv6_cidr =
  addr6 :: "128 word"
  prefix6 :: nat

text \<open>\<open>raw.split_once('/').unwrap_or((raw, "32"))\<close>\<close>

definition address_and_prefix :: "str \<Rightarrow> str \<Rightarrow> str \<times> str" where
  "address_and_prefix raw whole = (case split_once CHR ''/'' raw of Some ap \<Rightarrow> ap | None \<Rightarrow> (raw, whole))"

definition ipv4_parse :: "str \<Rightarrow> ipv4_cidr option" where
  "ipv4_parse raw =
     (let (addr_raw, prefix_raw) = address_and_prefix raw ''32'' in
      case parse_ipv4 (trim addr_raw) of
        None \<Rightarrow> None
      | Some a \<Rightarrow>
          (case parse_unsigned 255 (trim prefix_raw) of
             None \<Rightarrow> None
           | Some p \<Rightarrow> if p \<le> 32 then Some \<lparr>addr4 = a, prefix4 = p\<rparr> else None))"

definition mask4 :: "ipv4_cidr \<Rightarrow> u32" where
  "mask4 b = (if prefix4 b = 0 then 0 else push_bit (32 - prefix4 b) (- 1))"

definition contains4 :: "ipv4_cidr \<Rightarrow> u32 \<Rightarrow> bool" where
  "contains4 b ip \<longleftrightarrow> ip AND mask4 b = addr4 b AND mask4 b"

definition network4 :: "ipv4_cidr \<Rightarrow> u32" where
  "network4 b = addr4 b AND mask4 b"

definition ipv6_parse :: "str \<Rightarrow> ipv6_cidr option" where
  "ipv6_parse raw =
     (let (addr_raw, prefix_raw) = address_and_prefix raw ''128'' in
      case parse_ipv6 (trim addr_raw) of
        None \<Rightarrow> None
      | Some a \<Rightarrow>
          (case parse_unsigned 255 (trim prefix_raw) of
             None \<Rightarrow> None
           | Some p \<Rightarrow> if p \<le> 128 then Some \<lparr>addr6 = a, prefix6 = p\<rparr> else None))"

definition mask6 :: "ipv6_cidr \<Rightarrow> 128 word" where
  "mask6 b = (if prefix6 b = 0 then 0 else push_bit (128 - prefix6 b) (- 1))"

definition contains6 :: "ipv6_cidr \<Rightarrow> 128 word \<Rightarrow> bool" where
  "contains6 b ip \<longleftrightarrow> ip AND mask6 b = addr6 b AND mask6 b"

definition network6 :: "ipv6_cidr \<Rightarrow> 128 word" where
  "network6 b = addr6 b AND mask6 b"

section \<open>A block of either family\<close>

datatype netblock = Block4 ipv4_cidr | Block6 ipv6_cidr

definition netblock_parse :: "str \<Rightarrow> netblock option" where
  "netblock_parse raw =
     (case split_once CHR ''/'' (trim raw) of
        None \<Rightarrow> None
      | Some (addr, prefix_raw) \<Rightarrow>
          (case parse_unsigned 255 (trim prefix_raw) of
             None \<Rightarrow> None
           | Some p \<Rightarrow>
               (case parse_ip (trim addr) of
                  None \<Rightarrow> None
                | Some (V4 a) \<Rightarrow>
                    if p \<le> 32 then Some (Block4 \<lparr>addr4 = network4 \<lparr>addr4 = a, prefix4 = p\<rparr>, prefix4 = p\<rparr>) else None
                | Some (V6 a) \<Rightarrow>
                    if p \<le> 128 then Some (Block6 \<lparr>addr6 = network6 \<lparr>addr6 = a, prefix6 = p\<rparr>, prefix6 = p\<rparr>) else None)))"

fun network :: "netblock \<Rightarrow> ip_addr" where
  "network (Block4 b) = V4 (network4 b)"
| "network (Block6 b) = V6 (network6 b)"

fun prefix_len :: "netblock \<Rightarrow> nat" where
  "prefix_len (Block4 b) = prefix4 b"
| "prefix_len (Block6 b) = prefix6 b"

fun host_bits :: "netblock \<Rightarrow> nat" where
  "host_bits (Block4 b) = 32 - prefix4 b"
| "host_bits (Block6 b) = 128 - prefix6 b"

fun netblock_contains :: "netblock \<Rightarrow> ip_addr \<Rightarrow> bool" where
  "netblock_contains (Block4 b) (V4 ip) = contains4 b ip"
| "netblock_contains (Block6 b) (V6 ip) = contains6 b ip"
| "netblock_contains _ _ = False"

text \<open>An offset is below \<open>1 << bits\<close>, which fits a \<open>u32\<close> as \<open>bits < 32\<close>.\<close>

fun addresses :: "netblock \<Rightarrow> nat \<Rightarrow> ip_addr list option" where
  "addresses (Block4 b) max_host_bits =
     (let bits = host_bits (Block4 b) in
      if bits > max_host_bits \<or> bits \<ge> 32 then None
      else Some (map (\<lambda>offset. V4 (network4 b + of_nat offset)) [0..<2 ^ bits]))"
| "addresses (Block6 b) max_host_bits =
     (let bits = host_bits (Block6 b) in
      if bits > max_host_bits \<or> bits \<ge> 32 then None
      else Some (map (\<lambda>offset. V6 (network6 b + of_nat offset)) [0..<2 ^ bits]))"

definition netblock_show :: "netblock \<Rightarrow> str" where
  "netblock_show b = show_ip (network b) @ ''/'' @ show_nat (prefix_len b)"

end
