(* ===== verification/Netblock_Correct.thy ===== *)
theory Netblock_Correct
  imports Netblock Ascii_Text
begin

text \<open>
  What a block holds and lists, over the numbers of the addresses, and that the canonical text of a
  block parses back to it. The facts on masks are for words of any width and used at 32 and 128 bits.
\<close>

section \<open>Masks\<close>

lemma and_high_bits: "x AND push_bit k (- 1) = push_bit k (drop_bit k x)" for x :: "'a::len word"
  by (rule bit_word_eqI) (auto simp: bit_simps)

lemma unat_high_bits: "unat (push_bit k (drop_bit k x)) = unat x div 2 ^ k * 2 ^ k" for x :: "'a::len word"
proof -
  have "unat x div 2 ^ k * 2 ^ k \<le> unat x" by simp
  also have "\<dots> < 2 ^ LENGTH('a)" by (rule unsigned_less)
  finally have "unat x div 2 ^ k * 2 ^ k < 2 ^ LENGTH('a)" .
  then show ?thesis
    unfolding unsigned_push_bit_eq unsigned_drop_bit_eq
    by (simp add: push_bit_eq_mult drop_bit_eq_div take_bit_nat_eq_self)
qed

lemma high_bits_eq_iff:
  "push_bit k (drop_bit k x) = push_bit k (drop_bit k y) \<longleftrightarrow> unat x div 2 ^ k = unat y div 2 ^ k" for x y :: "'a::len word"
  by (simp add: word_unat_eq_iff unat_high_bits)

lemma same_block_iff: "i div 2 ^ k = a div 2 ^ k \<longleftrightarrow> a div 2 ^ k * 2 ^ k \<le> i \<and> i < a div 2 ^ k * 2 ^ k + 2 ^ k" for i a k :: nat
proof
  assume "i div 2 ^ k = a div 2 ^ k"
  then have "a div 2 ^ k * 2 ^ k + i mod 2 ^ k = i" by (metis div_mult_mod_eq)
  then show "a div 2 ^ k * 2 ^ k \<le> i \<and> i < a div 2 ^ k * 2 ^ k + 2 ^ k"
    by (metis add_less_cancel_left le_add1 mod_less_divisor pos2 zero_less_power)
next
  assume "a div 2 ^ k * 2 ^ k \<le> i \<and> i < a div 2 ^ k * 2 ^ k + 2 ^ k"
  then show "i div 2 ^ k = a div 2 ^ k"
    by (metis add.commute div_nat_eqI mult.commute mult_Suc)
qed

lemma unat_block_add:
  fixes x :: "'a::len word"
  assumes "off < 2 ^ k" "k \<le> LENGTH('a)"
  shows "unat (push_bit k (drop_bit k x) + of_nat off) = unat x div 2 ^ k * 2 ^ k + off"
proof -
  have "unat x < 2 ^ (LENGTH('a) - k) * 2 ^ k"
    using unsigned_less[of x, where 'a = nat] assms(2) by (simp flip: power_add)
  then have "unat x div 2 ^ k < 2 ^ (LENGTH('a) - k)" by (rule less_mult_imp_div_less)
  then have "unat x div 2 ^ k * 2 ^ k + 2 ^ k \<le> 2 ^ (LENGTH('a) - k) * 2 ^ k"
    by (metis Suc_leI add.commute mult_Suc mult_le_mono1)
  then have "unat x div 2 ^ k * 2 ^ k + off < 2 ^ LENGTH('a)"
    using assms by (simp flip: power_add)
  moreover from this have "unat (of_nat off :: 'a word) = off"
    by (simp add: unat_of_nat take_bit_nat_eq_self)
  ultimately show ?thesis by (simp add: unat_word_ariths unat_high_bits)
qed

section \<open>Blocks\<close>

text \<open>What the parsers guarantee of a block.\<close>

fun block_ok :: "netblock \<Rightarrow> bool" where
  "block_ok (Block4 b) = (prefix4 b \<le> 32)"
| "block_ok (Block6 b) = (prefix6 b \<le> 128)"

fun ip_number :: "ip_addr \<Rightarrow> nat" where
  "ip_number (V4 a) = unat a"
| "ip_number (V6 a) = unat a"

fun same_family :: "netblock \<Rightarrow> ip_addr \<Rightarrow> bool" where
  "same_family (Block4 _) (V4 _) = True"
| "same_family (Block6 _) (V6 _) = True"
| "same_family _ _ = False"

lemma and_mask4: "prefix4 b \<le> 32 \<Longrightarrow> x AND mask4 b = push_bit (32 - prefix4 b) (drop_bit (32 - prefix4 b) x)"
  by (cases "prefix4 b = 0") (auto simp: mask4_def and_high_bits intro!: bit_word_eqI simp: bit_simps)

lemma and_mask6: "prefix6 b \<le> 128 \<Longrightarrow> x AND mask6 b = push_bit (128 - prefix6 b) (drop_bit (128 - prefix6 b) x)"
  by (cases "prefix6 b = 0") (auto simp: mask6_def and_high_bits intro!: bit_word_eqI simp: bit_simps)

lemma contains_range:
  assumes "block_ok b"
  shows "netblock_contains b ip \<longleftrightarrow> same_family b ip
    \<and> ip_number (network b) \<le> ip_number ip \<and> ip_number ip < ip_number (network b) + 2 ^ host_bits b"
proof (cases b)
  case (Block4 c)
  with assms show ?thesis
    by (cases ip) (auto simp: contains4_def network4_def and_mask4 high_bits_eq_iff unat_high_bits same_block_iff)
next
  case (Block6 c)
  with assms show ?thesis
    by (cases ip) (auto simp: contains6_def network6_def and_mask6 high_bits_eq_iff unat_high_bits same_block_iff)
qed

lemma addresses_numbers:
  assumes "block_ok b" "addresses b k = Some xs"
  shows "map ip_number xs = [ip_number (network b)..<ip_number (network b) + 2 ^ host_bits b]
    \<and> list_all (same_family b) xs"
proof (cases b)
  case (Block4 c)
  let ?h = "32 - prefix4 c"
  have xs: "xs = map (\<lambda>offset. V4 (network4 c + of_nat offset)) [0..<2 ^ ?h]"
    using assms Block4 by (auto simp: Let_def split: if_splits)
  have "map ip_number xs = map (\<lambda>off. unat (addr4 c) div 2 ^ ?h * 2 ^ ?h + off) [0..<2 ^ ?h]"
    using assms(1) Block4 by (simp add: xs network4_def and_mask4 unat_block_add)
  moreover have "ip_number (network b) = unat (addr4 c) div 2 ^ ?h * 2 ^ ?h"
    using assms(1) Block4 by (simp add: network4_def and_mask4 unat_high_bits)
  ultimately show ?thesis by (simp add: Block4 xs map_add_upt list_all_iff add.commute)
next
  case (Block6 c)
  let ?h = "128 - prefix6 c"
  have xs: "xs = map (\<lambda>offset. V6 (network6 c + of_nat offset)) [0..<2 ^ ?h]"
    using assms Block6 by (auto simp: Let_def split: if_splits)
  have "map ip_number xs = map (\<lambda>off. unat (addr6 c) div 2 ^ ?h * 2 ^ ?h + off) [0..<2 ^ ?h]"
    using assms(1) Block6 by (simp add: xs network6_def and_mask6 unat_block_add)
  moreover have "ip_number (network b) = unat (addr6 c) div 2 ^ ?h * 2 ^ ?h"
    using assms(1) Block6 by (simp add: network6_def and_mask6 unat_high_bits)
  ultimately show ?thesis by (simp add: Block6 xs map_add_upt list_all_iff add.commute)
qed

lemma same_address: "same_family b x \<Longrightarrow> same_family b y \<Longrightarrow> ip_number x = ip_number y \<Longrightarrow> x = y"
  by (cases b; cases x; cases y) (auto simp: word_unat_eq_iff)

lemma parse_block_ok: "netblock_parse raw = Some b \<Longrightarrow> block_ok b"
  by (auto simp: netblock_parse_def split: option.splits ip_addr.splits if_splits)

text \<open>C25: A parsed block lists its addresses exactly when it has at most the allowed host bits (and fewer
  than 32); the list is every address the block contains, once each, in consecutive order from its
  first address, and no addition of an offset wraps around.\<close>

theorem netblock_addresses_exact:
  assumes "netblock_parse raw = Some b"
  shows "(addresses b k = None \<longleftrightarrow> k < host_bits b \<or> 32 \<le> host_bits b)
    \<and> (addresses b k = Some xs \<longrightarrow>
         map ip_number xs = [ip_number (network b)..<ip_number (network b) + 2 ^ host_bits b]
         \<and> (ip \<in> set xs \<longleftrightarrow> netblock_contains b ip))"
proof (intro conjI impI)
  show "addresses b k = None \<longleftrightarrow> k < host_bits b \<or> 32 \<le> host_bits b"
    by (cases b) (auto simp: Let_def)
next
  assume "addresses b k = Some xs"
  from addresses_numbers[OF parse_block_ok[OF assms] this]
  have n: "map ip_number xs = [ip_number (network b)..<ip_number (network b) + 2 ^ host_bits b]"
    and f: "list_all (same_family b) xs" by blast+
  then show "map ip_number xs = [ip_number (network b)..<ip_number (network b) + 2 ^ host_bits b]" by blast
  have "ip \<in> set xs \<longleftrightarrow> same_family b ip \<and> ip_number ip \<in> set (map ip_number xs)"
  proof
    assume "same_family b ip \<and> ip_number ip \<in> set (map ip_number xs)"
    then obtain x where "x \<in> set xs" "ip_number x = ip_number ip" "same_family b ip" by auto
    moreover from this f have "same_family b x" by (auto simp: list_all_iff)
    ultimately have "x = ip" using same_address by blast
    with \<open>x \<in> set xs\<close> show "ip \<in> set xs" by simp
  qed (use f in \<open>auto simp: list_all_iff\<close>)
  then show "ip \<in> set xs \<longleftrightarrow> netblock_contains b ip"
    unfolding n contains_range[OF parse_block_ok[OF assms]] by auto
qed

section \<open>The canonical text\<close>

definition address_char :: "char \<Rightarrow> bool" where
  "address_char c \<longleftrightarrow> digit_of 16 c \<noteq> None \<or> c = CHR '':'' \<or> c = CHR ''.''"

lemma address_char_facts:
  "address_char c \<Longrightarrow> of_char c < (128 :: nat) \<and> \<not> is_whitespace (of_char c) \<and> c \<noteq> CHR ''/''"
  by (auto simp: address_char_def digit_of_def is_whitespace_def Let_def split: if_splits)

lemma show_nat_address: "list_all address_char (show_nat n)"
proof -
  have "address_char c" if "digit_of 10 c \<noteq> None" for c
    using that by (auto simp: address_char_def digit_of_def Let_def split: if_splits)
  then show ?thesis using show_nat_reads[of n] by (auto simp: reads_as_def list_all_iff)
qed

lemma show_hex_address: "list_all address_char (show_hex n)"
  using show_hex_reads[of n] by (auto simp: reads_as_def list_all_iff address_char_def)

lemma show_ipv4_address: "list_all address_char (show_ipv4 a)"
  using show_nat_address by (simp add: show_ipv4_def address_char_def)

lemma show_segments_address: "list_all address_char (show_segments gs)"
proof (cases gs)
  case (Cons g gs')
  have "list_all address_char (colon_groups hs)" for hs
    using show_hex_address by (induction hs) (auto simp: colon_groups_def address_char_def)
  then show ?thesis unfolding Cons show_segments_Cons using show_hex_address by simp
qed (simp add: show_segments_def)

lemma show_ip_address: "list_all address_char (show_ip ip) \<and> show_ip ip \<noteq> []"
proof (cases ip)
  case (V4 a)
  then show ?thesis using show_ipv4_address[of a] by (simp add: show_ipv4_def)
next
  case (V6 a)
  have "list_all address_char ''::ffff:''" "list_all address_char ''::''"
    by (simp_all add: address_char_def digit_of_def)
  then have "list_all address_char (show_ipv6 a)"
  proof (cases "take 6 (segments a) = [0, 0, 0, 0, 0, 0xffff]")
    case False
    obtain s l where "zero_run 0 (segments a) (0, 0) (0, 0) = (s, l)" by (cases "zero_run 0 (segments a) (0, 0) (0, 0)")
    with False \<open>list_all address_char ''::''\<close> show_segments_address show ?thesis
      by (simp add: show_ipv6_def Let_def)
  qed (simp add: show_ipv6_def Let_def show_ipv4_address)
  moreover have "show_ipv6 a \<noteq> []"
  proof
    assume "show_ipv6 a = []"
    with read_ipv6_show[of a] have "read_ipv6 [] = Some (segments a, [])" by simp
    then show False by (simp add: read_ipv6_def read_groups_end[of "[]"] ends_groups_def)
  qed
  ultimately show ?thesis using V6 by simp
qed

lemma address_ascii: "list_all address_char s \<Longrightarrow> ascii s"
  unfolding ascii_def list_all_iff using address_char_facts by blast

lemma address_ends: "list_all address_char s \<Longrightarrow> s \<noteq> [] \<Longrightarrow> address_char (hd s) \<and> address_char (last s)"
  by (simp add: list_all_iff)

lemma trim_address: "list_all address_char s \<Longrightarrow> s \<noteq> [] \<Longrightarrow> trim s = s"
  by (rule trim_ascii) (simp_all add: address_ascii address_ends address_char_facts)

lemma masked_network:
  "network4 \<lparr>addr4 = network4 \<lparr>addr4 = a, prefix4 = p\<rparr>, prefix4 = p\<rparr> = network4 \<lparr>addr4 = a, prefix4 = p\<rparr>"
  "network6 \<lparr>addr6 = network6 \<lparr>addr6 = c, prefix6 = p\<rparr>, prefix6 = p\<rparr> = network6 \<lparr>addr6 = c, prefix6 = p\<rparr>"
  by (simp_all add: network4_def network6_def mask4_def mask6_def and.assoc)

lemma parsed_shape:
  assumes "netblock_parse raw = Some b"
  shows "(\<exists>a p. p \<le> 32 \<and> b = Block4 \<lparr>addr4 = network4 \<lparr>addr4 = a, prefix4 = p\<rparr>, prefix4 = p\<rparr>)
    \<or> (\<exists>a p. p \<le> 128 \<and> b = Block6 \<lparr>addr6 = network6 \<lparr>addr6 = a, prefix6 = p\<rparr>, prefix6 = p\<rparr>)"
proof -
  obtain addr prefix_raw where s: "split_once CHR ''/'' (trim raw) = Some (addr, prefix_raw)"
    using assms by (cases "split_once CHR ''/'' (trim raw)") (auto simp: netblock_parse_def)
  obtain p where p: "parse_unsigned 255 (trim prefix_raw) = Some p"
    using assms s by (cases "parse_unsigned 255 (trim prefix_raw)") (simp_all add: netblock_parse_def)
  obtain ip where ip: "parse_ip (trim addr) = Some ip"
    using assms s p by (cases "parse_ip (trim addr)") (simp_all add: netblock_parse_def)
  show ?thesis
  proof (cases ip)
    case (V4 a)
    with assms s p ip have "p \<le> 32 \<and> b = Block4 \<lparr>addr4 = network4 \<lparr>addr4 = a, prefix4 = p\<rparr>, prefix4 = p\<rparr>"
      by (simp add: netblock_parse_def split: if_splits)
    then show ?thesis by blast
  next
    case (V6 a)
    with assms s p ip have "p \<le> 128 \<and> b = Block6 \<lparr>addr6 = network6 \<lparr>addr6 = a, prefix6 = p\<rparr>, prefix6 = p\<rparr>"
      by (simp add: netblock_parse_def split: if_splits)
    then show ?thesis by blast
  qed
qed

text \<open>C26: The canonical text of a parsed block parses back to the block, so two texts name the same block
  exactly when their canonical texts are equal.\<close>

theorem netblock_roundtrip:
  assumes "netblock_parse raw = Some b"
  shows "netblock_parse (netblock_show b) = Some b"
proof -
  let ?ip = "show_ip (network b)" and ?p = "show_nat (prefix_len b)"
  have ip: "list_all address_char ?ip" "?ip \<noteq> []" using show_ip_address by blast+
  have p: "list_all address_char ?p" "?p \<noteq> []" using show_nat_address show_nat_digits by blast+
  have bound: "prefix_len b \<le> 128" using parse_block_ok[OF assms] by (cases b) auto
  have slash: "CHR ''/'' \<notin> set ?ip" using ip(1) by (auto simp: list_all_iff dest: address_char_facts)
  have "trim (netblock_show b) = netblock_show b"
    unfolding netblock_show_def using ip p
    by (intro trim_ascii) (simp_all add: address_ascii address_ends address_char_facts)
  moreover have "split_once CHR ''/'' (netblock_show b) = Some (?ip, ?p)"
    using split_once_append[OF slash, of ?p] by (simp add: netblock_show_def)
  moreover have "parse_unsigned 255 ?p = Some (prefix_len b)"
    using bound show_nat_digits[of "prefix_len b"] by (simp add: parse_unsigned_digits parse_show_nat)
  ultimately have parse: "netblock_parse (netblock_show b) = (case network b of
      V4 a \<Rightarrow> if prefix_len b \<le> 32
        then Some (Block4 \<lparr>addr4 = network4 \<lparr>addr4 = a, prefix4 = prefix_len b\<rparr>, prefix4 = prefix_len b\<rparr>) else None
    | V6 a \<Rightarrow> if prefix_len b \<le> 128
        then Some (Block6 \<lparr>addr6 = network6 \<lparr>addr6 = a, prefix6 = prefix_len b\<rparr>, prefix6 = prefix_len b\<rparr>) else None)"
    using ip p by (simp add: netblock_parse_def trim_address parse_ip_show)
  show ?thesis unfolding parse using parsed_shape[OF assms]
    by (elim disjE exE conjE) (simp_all add: masked_network)
qed

section \<open>An example\<close>

definition example_block :: netblock where
  "example_block = Block4 \<lparr>addr4 = 0xC0000204, prefix4 = 30\<rparr>"

lemma mask_30: "mask4 \<lparr>addr4 = a, prefix4 = 30\<rparr> = 0xFFFFFFFC"
proof -
  have "push_bit 2 (- 1 :: u32) = 0xFFFFFFFC" by code_simp
  then show ?thesis by (simp only: mask4_def ipv4_cidr.simps) simp
qed

lemma example_parsed: "netblock_parse ''192.0.2.7/30'' = Some example_block"
proof -
  have four: "4 = Suc (Suc (Suc (Suc 0)))" by simp
  have t: "trim ''192.0.2.7/30'' = ''192.0.2.7/30''" "trim ''192.0.2.7'' = ''192.0.2.7''" "trim ''30'' = ''30''"
    by (rule trim_ascii; simp add: is_whitespace_def)+
  have "read_ipv4 ''192.0.2.7'' = Some ([192, 0, 2, 7], [])"
    unfolding read_ipv4_def four
    by (simp add: read_separated_def read_number_def digit_of_def digits_value_def)
  then have "parse_ip ''192.0.2.7'' = Some (V4 0xC0000207)" by (simp add: parse_ip_def of_parts_def)
  moreover have "parse_unsigned 255 ''30'' = Some 30"
    by (simp add: parse_unsigned_def is_ascii_digit_def digit_value_def)
  moreover have "network4 \<lparr>addr4 = 0xC0000207, prefix4 = 30\<rparr> = 0xC0000204"
    by (simp add: network4_def mask_30)
  ultimately show ?thesis by (simp add: netblock_parse_def t example_block_def)
qed

theorem netblock_addresses_exact_witness:
  "netblock_contains example_block (V4 0xC0000206) \<and> \<not> netblock_contains example_block (V4 0xC0000208)"
proof -
  obtain xs where xs: "addresses example_block 8 = Some xs"
    using netblock_addresses_exact[OF example_parsed, of 8] by (auto simp: example_block_def)
  have "map ip_number xs = [0xC0000204, 0xC0000205, 0xC0000206, 0xC0000207]"
    using netblock_addresses_exact[OF example_parsed, of 8 xs] xs
    by (simp add: example_block_def network4_def mask_30 upt_rec)
  then show ?thesis
    by (simp add: example_block_def contains4_def mask_30)
qed

theorem netblock_roundtrip_witness:
  "netblock_parse (netblock_show example_block) = Some example_block"
  by (rule netblock_roundtrip[OF example_parsed])

end
