(* ===== verification/Au_Id.thy ===== *)
theory Au_Id
  imports Ascii_Text Errors
begin

text \<open>
  \<open>src/au_id.rs\<close>: Australian business identifiers. A \<open>Vec<u8>\<close> of digits is a list of numbers; the
  weighted sums stay far below the bound of a \<open>u32\<close>. Upper-casing and the class of alphanumeric
  characters are tables of the standard library and arguments of the one function that uses them.
\<close>

section \<open>Digits\<close>

text \<open>The loop over the bytes, with the flag for "after a separator".\<close>

fun grouped_loop :: "bool \<Rightarrow> str \<Rightarrow> nat list option" where
  "grouped_loop after_sep [] = (if after_sep then None else Some [])"
| "grouped_loop after_sep (b # s) =
     (if is_ascii_digit b then map_option ((#) (digit_value b)) (grouped_loop False s)
      else if (b = CHR '' '' \<or> b = CHR ''-'') \<and> \<not> after_sep then grouped_loop True s
      else None)"

definition grouped_digits :: "str \<Rightarrow> nat list option" where
  "grouped_digits raw = grouped_loop True (trim raw)"

definition digits_to_string :: "nat list \<Rightarrow> str" where
  "digits_to_string ds = map (\<lambda>d. char_of (48 + d)) ds"

section \<open>Checksums\<close>

definition ABN_WEIGHTS :: "nat list" where
  "ABN_WEIGHTS = [10, 1, 3, 5, 7, 9, 11, 13, 15, 17, 19]"

definition ACN_WEIGHTS :: "nat list" where
  "ACN_WEIGHTS = [8, 7, 6, 5, 4, 3, 2, 1]"

definition abn_sum :: "nat list \<Rightarrow> nat" where
  "abn_sum d = sum_list (map (\<lambda>(i, w, x). w * (x - (if i = 0 then 1 else 0))) (zip [0..<11] (zip ABN_WEIGHTS d)))"

definition abn_ok :: "nat list \<Rightarrow> bool" where
  "abn_ok d = (if length d \<noteq> 11 \<or> d ! 0 = 0 then False else 89 dvd abn_sum d)"

definition acn_sum :: "nat list \<Rightarrow> nat" where
  "acn_sum d = sum_list (map (\<lambda>(w, x). w * x) (zip ACN_WEIGHTS d))"

definition acn_ok :: "nat list \<Rightarrow> bool" where
  "acn_ok d = (if length d \<noteq> 9 then False else d ! 8 = (10 - acn_sum d mod 10) mod 10)"

definition is_valid_abn :: "str \<Rightarrow> bool" where
  "is_valid_abn raw = (case grouped_digits raw of Some d \<Rightarrow> abn_ok d | None \<Rightarrow> False)"

definition is_valid_acn :: "str \<Rightarrow> bool" where
  "is_valid_acn raw = (case grouped_digits raw of Some d \<Rightarrow> acn_ok d | None \<Rightarrow> False)"

definition normalise_abn :: "str \<Rightarrow> str option" where
  "normalise_abn raw =
     (case grouped_digits raw of
        Some d \<Rightarrow> if abn_ok d then Some (digits_to_string d) else None
      | None \<Rightarrow> None)"

definition derive_acn :: "str \<Rightarrow> str option" where
  "derive_acn raw =
     (case grouped_digits raw of
        Some d \<Rightarrow>
          if abn_ok d then
            (let tail = drop 2 d in if acn_ok tail then Some (digits_to_string tail) else None)
          else None
      | None \<Rightarrow> None)"

section \<open>Company names\<close>

definition COMPANY_SUFFIXES :: "str list" where
  "COMPANY_SUFFIXES = ['' PTY LTD '', '' LIMITED '', '' LTD '', '' PTY '', '' INCORPORATED '', '' INC '',
     '' NL '', '' & CO '', '' AND CO '']"

definition padded_words :: "str list \<Rightarrow> str" where
  "padded_words ws = '' '' @ join '' '' ws @ '' ''"

definition looks_like_company :: "(nat list \<Rightarrow> nat list) \<Rightarrow> (nat \<Rightarrow> bool) \<Rightarrow> str \<Rightarrow> bool" where
  "looks_like_company upper alphanumeric name =
     (let folded = map (\<lambda>c. if alphanumeric c \<or> c = 38 then c else 32) (upper (utf8_decode name));
          padded = padded_words (split_whitespace (utf8_encode folded))
      in list_ex (\<lambda>suffix. contains suffix padded) COMPANY_SUFFIXES)"

section \<open>Bank branches\<close>

definition bsb_shape :: "str \<Rightarrow> bool" where
  "bsb_shape raw =
     (if length raw = 6 then list_all is_ascii_digit raw
      else if length raw = 7 then
        (raw ! 3 = CHR ''-'' \<or> raw ! 3 = CHR '' '')
        \<and> list_all is_ascii_digit (take 3 raw) \<and> list_all is_ascii_digit (drop 4 raw)
      else False)"

definition normalise_bsb :: "str \<Rightarrow> str option" where
  "normalise_bsb raw =
     (let r = trim raw in if bsb_shape r then Some (filter is_ascii_digit r) else None)"

definition INSTITUTIONS :: "(str \<times> str) list" where
  "INSTITUTIONS =
     [(''182'', ''Macquarie Bank''), (''183'', ''Macquarie Bank''), (''193'', ''Bank of Melbourne''),
      (''105'', ''BankSA''), (''124'', ''Bank of Queensland''), (''484'', ''Suncorp Bank''),
      (''923'', ''ING''), (''939'', ''AMP Bank''), (''01'', ''ANZ''), (''03'', ''Westpac''),
      (''06'', ''Commonwealth Bank''), (''08'', ''NAB''), (''11'', ''St George Bank''),
      (''30'', ''Bankwest''), (''63'', ''Bendigo Bank'')]"

definition bsb_institution :: "str \<Rightarrow> str option" where
  "bsb_institution raw =
     (case normalise_bsb raw of
        None \<Rightarrow> None
      | Some bsb \<Rightarrow> map_option snd (find (\<lambda>(prefix, _). starts_with prefix bsb) INSTITUTIONS))"

section \<open>Classifying a token\<close>

datatype au_identifier =
    Abn str "str option"
  | Acn str
  | Bsb str "str option"

definition au_classify :: "str \<Rightarrow> error + au_identifier" where
  "au_classify raw =
     (case normalise_abn raw of
        Some bare \<Rightarrow> Inr (Abn bare (derive_acn bare))
      | None \<Rightarrow>
          (case (case grouped_digits raw of Some d \<Rightarrow> if acn_ok d then Some d else None | None \<Rightarrow> None) of
             Some d \<Rightarrow> Inr (Acn (digits_to_string d))
           | None \<Rightarrow>
               (case normalise_bsb raw of
                  Some bare \<Rightarrow> Inr (Bsb bare (bsb_institution bare))
                | None \<Rightarrow> Inl (Invalid ''not a valid ABN, ACN, or BSB''))))"

end
