(* ===== verification/Au_Id_Correct.thy ===== *)
theory Au_Id_Correct
  imports Au_Id
begin

text \<open>
  What the checksums of \<open>au_id\<close> detect, and that the bare form of an identifier classifies as the
  identifier it came from.
\<close>

section \<open>The checksums as linear sums\<close>

abbreviation digit_list :: "nat list \<Rightarrow> bool" where
  "digit_list d \<equiv> list_all (\<lambda>x. x \<le> 9) d"

definition weighted :: "nat list \<Rightarrow> nat list \<Rightarrow> int" where
  "weighted ws d = sum_list (map2 (\<lambda>w x. int w * int x) ws d)"

lemma weighted_update:
  "i < length ws \<Longrightarrow> length ws \<le> length d \<Longrightarrow>
   weighted ws (d[i := y]) = weighted ws d + int (ws ! i) * (int y - int (d ! i))"
proof (induction ws arbitrary: d i)
  case (Cons w ws)
  then obtain x d' where d: "d = x # d'" by (cases d) auto
  with Cons show ?case by (cases i) (auto simp: weighted_def algebra_simps)
qed simp

lemma weighted_swap:
  assumes "i < length ws" "j < length ws" "i \<noteq> j" "length ws \<le> length d"
  shows "weighted ws (d[i := d ! j, j := d ! i])
    = weighted ws d + (int (ws ! i) - int (ws ! j)) * (int (d ! j) - int (d ! i))"
  using assms by (simp add: weighted_update algebra_simps)

lemma abn_sum_weighted:
  assumes "length d = 11" "d ! 0 \<noteq> 0"
  shows "int (abn_sum d) = weighted ABN_WEIGHTS d - 10"
proof -
  obtain d0 d1 d2 d3 d4 d5 d6 d7 d8 d9 d10 where d: "d = [d0, d1, d2, d3, d4, d5, d6, d7, d8, d9, d10]"
    using assms(1) by (auto simp: numeral_eq_Suc length_Suc_conv)
  have up: "[0..<11] = [0, 1, 2, 3, 4, 5, 6, 7, 8, 9, 10 :: nat]" by (simp add: upt_rec)
  have "0 < d0" using assms(2) d by simp
  then show ?thesis
    unfolding abn_sum_def up ABN_WEIGHTS_def weighted_def d by simp
qed

lemma abn_ok_weighted: "length d = 11 \<Longrightarrow> abn_ok d \<longleftrightarrow> d ! 0 \<noteq> 0 \<and> 89 dvd weighted ABN_WEIGHTS d - 10"
  using abn_sum_weighted[of d] int_dvd_int_iff[of 89 "abn_sum d"] by (auto simp: abn_ok_def)

lemma acn_sum_weighted:
  assumes "length d = 9"
  shows "int (acn_sum d) = weighted ACN_WEIGHTS d"
proof -
  obtain d0 d1 d2 d3 d4 d5 d6 d7 d8 where d: "d = [d0, d1, d2, d3, d4, d5, d6, d7, d8]"
    using assms(1) by (auto simp: numeral_eq_Suc length_Suc_conv)
  show ?thesis unfolding acn_sum_def ACN_WEIGHTS_def weighted_def d by simp
qed

lemma acn_ok_weighted:
  assumes "length d = 9" "d ! 8 \<le> 9"
  shows "acn_ok d \<longleftrightarrow> 10 dvd weighted ACN_WEIGHTS d + int (d ! 8)"
proof -
  have "d ! 8 = (10 - acn_sum d mod 10) mod 10 \<longleftrightarrow> (acn_sum d + d ! 8) mod 10 = 0"
  proof -
    define r where "r = acn_sum d mod 10"
    have r: "r < 10" by (simp add: r_def)
    have "d ! 8 = (10 - r) mod 10 \<longleftrightarrow> (r + d ! 8) mod 10 = 0"
    proof (cases "r + d ! 8 < 10")
      case True
      then show ?thesis by (cases "r = 0") auto
    next
      case False
      then have "(r + d ! 8) mod 10 = r + d ! 8 - 10" using r assms(2) by (simp add: mod_if)
      then show ?thesis using False r assms(2) by (cases "r = 0") auto
    qed
    then show ?thesis unfolding r_def by (simp add: mod_add_left_eq)
  qed
  also have "\<dots> \<longleftrightarrow> 10 dvd int (acn_sum d + d ! 8)" using int_dvd_int_iff[of 10 "acn_sum d + d ! 8"] by auto
  finally show ?thesis using acn_sum_weighted[OF assms(1)] assms(1) by (simp add: acn_ok_def)
qed

section \<open>Errors the checksums detect\<close>

lemma no_multiple_of_89:
  assumes "89 dvd v * (x :: int)" "\<bar>v\<bar> \<le> 19" "\<bar>x\<bar> \<le> 9" "v \<noteq> 0"
  shows "x = 0"
proof -
  have "\<bar>v\<bar> \<in> {1..19}" using assms(2,4) by auto
  then have v: "\<bar>v\<bar> \<in> set [1..19]" by simp
  have "list_all (\<lambda>w. list_all (\<lambda>y. \<not> 89 dvd w * y) [1..9]) [1..(19 :: int)]" by code_simp
  then have "\<not> 89 dvd \<bar>v\<bar> * y" if "y \<in> set [1..9]" for y using v that unfolding list_all_iff by blast
  moreover have "89 dvd \<bar>v\<bar> * \<bar>x\<bar>" using assms(1) by (simp flip: abs_mult)
  ultimately have "\<bar>x\<bar> \<notin> set [1..9]" by blast
  with assms(3) show ?thesis by auto
qed

lemma abn_weights_distinct: "distinct ABN_WEIGHTS" "length ABN_WEIGHTS = 11" "list_all (\<lambda>w. 1 \<le> w \<and> w \<le> 19) ABN_WEIGHTS"
  by (simp_all add: ABN_WEIGHTS_def)

lemma abn_weight: "i < 11 \<Longrightarrow> 1 \<le> ABN_WEIGHTS ! i \<and> ABN_WEIGHTS ! i \<le> 19"
  using abn_weights_distinct(2,3) by (simp add: list_all_length)

lemma abn_substitution:
  assumes d: "abn_ok d" "digit_list d" and i: "i < 11" "y \<le> 9" "y \<noteq> d ! i"
  shows "\<not> abn_ok (d[i := y])"
proof
  assume e: "abn_ok (d[i := y])"
  have l: "length d = 11" using d(1) by (simp add: abn_ok_def split: if_splits)
  have "89 dvd int (ABN_WEIGHTS ! i) * (int y - int (d ! i))"
  proof -
    have "89 dvd (weighted ABN_WEIGHTS (d[i := y]) - 10) - (weighted ABN_WEIGHTS d - 10)"
      by (rule dvd_diff) (use d(1) e l in \<open>simp_all add: abn_ok_weighted\<close>)
    then show ?thesis using l i(1) by (simp add: weighted_update abn_weights_distinct)
  qed
  moreover have "d ! i \<le> 9" using d(2) l i(1) by (simp add: list_all_length)
  ultimately have "int y - int (d ! i) = 0"
    using i abn_weight[OF i(1)] by (intro no_multiple_of_89[of "int (ABN_WEIGHTS ! i)"]) auto
  with i(3) show False by simp
qed

lemma abn_transposition:
  assumes d: "abn_ok d" "digit_list d" and i: "i < 11" "j < 11" "d ! i \<noteq> d ! j"
  shows "\<not> abn_ok (d[i := d ! j, j := d ! i])"
proof
  assume e: "abn_ok (d[i := d ! j, j := d ! i])"
  have l: "length d = 11" using d(1) by (simp add: abn_ok_def split: if_splits)
  have ij: "i \<noteq> j" using i(3) by auto
  have "89 dvd (int (ABN_WEIGHTS ! i) - int (ABN_WEIGHTS ! j)) * (int (d ! j) - int (d ! i))"
  proof -
    have "89 dvd (weighted ABN_WEIGHTS (d[i := d ! j, j := d ! i]) - 10) - (weighted ABN_WEIGHTS d - 10)"
      by (rule dvd_diff) (use d(1) e l in \<open>simp_all add: abn_ok_weighted\<close>)
    then show ?thesis using l i(1,2) ij by (simp add: weighted_swap abn_weights_distinct)
  qed
  moreover have "d ! i \<le> 9" "d ! j \<le> 9" using d(2) l i(1,2) by (simp_all add: list_all_length)
  moreover have "ABN_WEIGHTS ! i \<noteq> ABN_WEIGHTS ! j"
    using abn_weights_distinct i(1,2) ij by (simp add: nth_eq_iff_index_eq)
  ultimately have "int (d ! j) - int (d ! i) = 0"
    using abn_weight[OF i(1)] abn_weight[OF i(2)]
    by (intro no_multiple_of_89[of "int (ABN_WEIGHTS ! i) - int (ABN_WEIGHTS ! j)"]) auto
  with i(3) show False by simp
qed

lemma acn_substitution:
  assumes d: "acn_ok d" "digit_list d" and i: "i < 8" "y \<le> 9"
  shows "acn_ok (d[i := y]) \<longleftrightarrow> 10 dvd int (ACN_WEIGHTS ! i) * (int y - int (d ! i))"
proof -
  have l: "length d = 9" using d(1) by (simp add: acn_ok_def split: if_splits)
  then have d8: "d ! 8 \<le> 9" using d(2) by (simp add: list_all_length)
  have "length ACN_WEIGHTS = 8" by (simp add: ACN_WEIGHTS_def)
  then have "weighted ACN_WEIGHTS (d[i := y]) + int (d[i := y] ! 8)
      = (weighted ACN_WEIGHTS d + int (d ! 8)) + int (ACN_WEIGHTS ! i) * (int y - int (d ! i))"
    using l i by (simp add: weighted_update)
  moreover have "10 dvd weighted ACN_WEIGHTS d + int (d ! 8)" using d(1) acn_ok_weighted[OF l d8] by blast
  moreover have "acn_ok (d[i := y]) \<longleftrightarrow> 10 dvd weighted ACN_WEIGHTS (d[i := y]) + int (d[i := y] ! 8)"
    by (rule acn_ok_weighted) (use l i d8 in simp_all)
  ultimately show ?thesis by (simp only: dvd_add_right_iff)
qed

lemma acn_check_digit:
  assumes "acn_ok d" "y \<noteq> d ! 8"
  shows "\<not> acn_ok (d[8 := y])"
proof
  assume e: "acn_ok (d[8 := y])"
  have l: "length d = 9" using assms(1) by (simp add: acn_ok_def split: if_splits)
  obtain d0 d1 d2 d3 d4 d5 d6 d7 d8 where d: "d = [d0, d1, d2, d3, d4, d5, d6, d7, d8]"
    using l by (auto simp: numeral_eq_Suc length_Suc_conv)
  have "acn_sum (d[8 := y]) = acn_sum d" unfolding d acn_sum_def ACN_WEIGHTS_def by simp
  with assms e l show False by (simp add: acn_ok_def)
qed

text \<open>The surviving replacements of a digit, by its weight.\<close>

definition survivors :: "nat \<Rightarrow> nat \<Rightarrow> nat" where
  "survivors w a = length (filter (\<lambda>y. y \<noteq> a \<and> 10 dvd int w * (int y - int a)) [0..<10])"

lemma survivors_by_weight:
  "list_all (\<lambda>a. map (\<lambda>w. survivors w a) ACN_WEIGHTS = [1, 0, 1, 4, 1, 0, 1, 0]) [0..<10]"
  by code_simp

lemma acn_surviving_substitutions:
  assumes "acn_ok d" "digit_list d"
  shows "map (\<lambda>i. length (filter (\<lambda>y. y \<noteq> d ! i \<and> acn_ok (d[i := y])) [0..<10])) [0..<8] = [1, 0, 1, 4, 1, 0, 1, 0]"
proof -
  have l: "length d = 9" using assms(1) by (simp add: acn_ok_def split: if_splits)
  have "length (filter (\<lambda>y. y \<noteq> d ! i \<and> acn_ok (d[i := y])) [0..<10]) = survivors (ACN_WEIGHTS ! i) (d ! i)" if "i < 8" for i
    unfolding survivors_def using acn_substitution[OF assms that] by (intro arg_cong[of _ _ length] filter_cong) auto
  moreover have "map (\<lambda>w. survivors w (d ! i)) ACN_WEIGHTS = [1, 0, 1, 4, 1, 0, 1, 0]" if "i < 8" for i
  proof -
    have "d ! i \<le> 9" using assms(2) l that by (simp add: list_all_length)
    then have "d ! i \<in> set [0..<10]" by simp
    with survivors_by_weight show ?thesis unfolding list_all_iff by blast
  qed
  then have "survivors (ACN_WEIGHTS ! i) (d ! i) = [1, 0, 1, 4, 1, 0, 1, 0] ! i" if "i < 8" for i
  proof -
    have "length ACN_WEIGHTS = 8" by (simp add: ACN_WEIGHTS_def)
    then have "survivors (ACN_WEIGHTS ! i) (d ! i) = map (\<lambda>w. survivors w (d ! i)) ACN_WEIGHTS ! i" using that by simp
    then show ?thesis using \<open>\<And>i. i < 8 \<Longrightarrow> map (\<lambda>w. survivors w (d ! i)) ACN_WEIGHTS = [1, 0, 1, 4, 1, 0, 1, 0]\<close> that by simp
  qed
  ultimately have "map (\<lambda>i. length (filter (\<lambda>y. y \<noteq> d ! i \<and> acn_ok (d[i := y])) [0..<10])) [0..<8]
      = map (\<lambda>i. [1, 0, 1, 4, 1, 0, 1, 0] ! i) [0..<8]" by simp
  also have "\<dots> = [1, 0, 1, 4, 1, 0, 1, 0]" by (simp add: upt_rec)
  finally show ?thesis .
qed

text \<open>C28: The checksum of an ABN detects the change of any one digit and the exchange of any two different
  digits. The check digit of an ACN detects any change of itself, and of the replacements of one of
  the eight digits it is computed from exactly one survives at digits 1, 3, 5 and 7, four at digit 4,
  and none at digits 2, 6 and 8.\<close>

theorem check_digits_exact:
  assumes "digit_list d"
  shows "(abn_ok d \<and> i < 11 \<and> y \<le> 9 \<and> y \<noteq> d ! i \<longrightarrow> \<not> abn_ok (d[i := y]))
    \<and> (abn_ok d \<and> i < 11 \<and> j < 11 \<and> d ! i \<noteq> d ! j \<longrightarrow> \<not> abn_ok (d[i := d ! j, j := d ! i]))
    \<and> (acn_ok d \<and> y \<noteq> d ! 8 \<longrightarrow> \<not> acn_ok (d[8 := y]))
    \<and> (acn_ok d \<longrightarrow>
         map (\<lambda>i. length (filter (\<lambda>y. y \<noteq> d ! i \<and> acn_ok (d[i := y])) [0..<10])) [0..<8]
         = [1, 0, 1, 4, 1, 0, 1, 0])"
  using abn_substitution[OF _ assms] abn_transposition[OF _ assms] acn_check_digit acn_surviving_substitutions[OF _ assms]
  by blast

theorem check_digits_exact_witness:
  "abn_ok [5, 1, 8, 2, 4, 7, 5, 3, 5, 5, 6] \<and> \<not> abn_ok [5, 7, 8, 2, 4, 1, 5, 3, 5, 5, 6]
   \<and> acn_ok [0, 0, 4, 0, 8, 5, 6, 1, 6] \<and> \<not> acn_ok [0, 0, 4, 0, 8, 5, 6, 1, 7]"
proof -
  have abn: "abn_ok [5, 1, 8, 2, 4, 7, 5, 3, 5, 5, 6]"
    by (simp add: abn_ok_def abn_sum_def ABN_WEIGHTS_def upt_rec)
  have acn: "acn_ok [0, 0, 4, 0, 8, 5, 6, 1, 6]" by (simp add: acn_ok_def acn_sum_def ACN_WEIGHTS_def)
  show ?thesis
    using abn acn check_digits_exact[of "[5, 1, 8, 2, 4, 7, 5, 3, 5, 5, 6]" 1 0 5]
      check_digits_exact[of "[0, 0, 4, 0, 8, 5, 6, 1, 6]" 0 7 0] by simp
qed

section \<open>Bare forms\<close>

fun bare :: "au_identifier \<Rightarrow> str" where
  "bare (Abn b _) = b"
| "bare (Acn b) = b"
| "bare (Bsb b _) = b"

lemma grouped_loop_digits: "grouped_loop flag s = Some d \<Longrightarrow> digit_list d"
proof (induction flag s arbitrary: d rule: grouped_loop.induct)
  case (2 flag b s)
  then show ?case by (auto simp: digit_point digit_value_def split: if_splits)
qed (auto split: if_splits)

lemma grouped_digits_list: "grouped_digits raw = Some d \<Longrightarrow> digit_list d"
  unfolding grouped_digits_def by (rule grouped_loop_digits)

lemma digit_of_string: "x \<le> 9 \<Longrightarrow> is_ascii_digit (char_of (48 + x)) \<and> digit_value (char_of (48 + x)) = x" for x :: nat
  using digit_char[of x] by (simp add: add.commute)

lemma all_digits_string: "digit_list d \<Longrightarrow> all_digits (digits_to_string d)"
  using digit_of_string by (auto simp: digits_to_string_def list_all_iff)

lemma trim_digits: "all_digits s \<Longrightarrow> trim s = s"
proof (cases "s = []")
  case False
  assume d: "all_digits s"
  with False have "is_ascii_digit (hd s)" "is_ascii_digit (last s)" by (auto simp: list_all_iff)
  then show ?thesis
    using d False by (intro trim_ascii) (auto simp: all_digits_ascii digit_point is_whitespace_def)
qed (simp add: trim_def trim_points_def)

lemma grouped_loop_string: "digit_list d \<Longrightarrow> grouped_loop False (digits_to_string d) = Some d"
  using digit_of_string by (induction d) (auto simp: digits_to_string_def)

lemma grouped_digits_string:
  assumes "digit_list d" "d \<noteq> []"
  shows "grouped_digits (digits_to_string d) = Some d"
proof -
  obtain x d' where d: "d = x # d'" using assms(2) by (cases d) auto
  have "grouped_loop True (digits_to_string d) = grouped_loop False (digits_to_string d)"
    using assms(1) digit_of_string by (auto simp: d digits_to_string_def)
  then show ?thesis
    using assms grouped_loop_string trim_digits[OF all_digits_string] by (simp add: grouped_digits_def)
qed

lemma grouped_loop_all: "all_digits s \<Longrightarrow> grouped_loop False (s @ t) = map_option (\<lambda>d. map digit_value s @ d) (grouped_loop False t)"
  by (induction s; cases "grouped_loop False t") auto

lemma grouped_loop_first: "all_digits s \<Longrightarrow> s \<noteq> [] \<Longrightarrow> grouped_loop True (s @ t) = grouped_loop False (s @ t)"
  by (cases s) auto

text \<open>What a branch number is: six digits, which the strict reading of grouped digits reads too.\<close>

lemma bsb_bare:
  assumes "normalise_bsb raw = Some b"
  shows "all_digits b \<and> length b = 6 \<and> grouped_digits raw = Some (map digit_value b)"
proof -
  define r where "r = trim raw"
  have shape: "bsb_shape r" "b = filter is_ascii_digit r"
    using assms by (auto simp: normalise_bsb_def r_def[symmetric] Let_def split: if_splits)
  then have d: "all_digits b" by (simp add: list_all_iff)
  from shape(1) consider "length r = 6" "all_digits r"
    | "length r = 7" "r ! 3 = CHR ''-'' \<or> r ! 3 = CHR '' ''" "all_digits (take 3 r)" "all_digits (drop 4 r)"
    by (auto simp: bsb_shape_def split: if_splits)
  then show ?thesis
  proof cases
    case 1
    then have "b = r" using shape(2) by (simp add: filter_id_conv list_all_iff)
    moreover have "r \<noteq> []" using 1(1) by auto
    ultimately show ?thesis
      using 1 grouped_loop_first[of r "[]"] grouped_loop_all[of r "[]"]
      by (simp add: grouped_digits_def r_def[symmetric])
  next
    case 2
    define s where "s = take 3 r"
    define t where "t = drop 4 r"
    have r: "r = s @ r ! 3 # t" using id_take_nth_drop[of 3 r] 2(1) by (simp add: s_def t_def)
    have st: "all_digits s" "all_digits t" "length s = 3" "length t = 3" using 2 by (simp_all add: s_def t_def)
    have "\<not> is_ascii_digit (r ! 3)" using 2(2) by (auto simp: is_ascii_digit_def)
    moreover have "filter is_ascii_digit r = filter is_ascii_digit (s @ r ! 3 # t)" using r by simp
    ultimately have b: "b = s @ t"
      using shape(2) st(1,2) by (simp add: filter_id_conv list_all_iff)
    have ne: "s \<noteq> []" "t \<noteq> []" using st by auto
    have "grouped_loop True t = Some (map digit_value t)"
      using grouped_loop_first[OF st(2) ne(2), of "[]"] grouped_loop_all[OF st(2), of "[]"] by simp
    then have "grouped_loop False (r ! 3 # t) = Some (map digit_value t)"
      using 2(2) \<open>\<not> is_ascii_digit (r ! 3)\<close> by auto
    then have "grouped_loop True (s @ r ! 3 # t) = Some (map digit_value (s @ t))"
      using grouped_loop_first[OF st(1) ne(1)] grouped_loop_all[OF st(1)] by simp
    then have "grouped_loop True r = Some (map digit_value b)" unfolding b using r by simp
    then show ?thesis using d b st by (simp add: grouped_digits_def r_def[symmetric])
  qed
qed

lemma normalise_bsb_bare: "all_digits b \<Longrightarrow> length b = 6 \<Longrightarrow> normalise_bsb b = Some b"
  by (simp add: normalise_bsb_def trim_digits bsb_shape_def filter_id_conv list_all_iff)

lemma abn_length: "abn_ok d \<Longrightarrow> length d = 11" and acn_length: "acn_ok d \<Longrightarrow> length d = 9"
  by (auto simp: abn_ok_def acn_ok_def split: if_splits)

lemma abn_not_acn: "abn_ok d \<Longrightarrow> \<not> acn_ok d"
  using abn_length[of d] acn_length[of d] by auto

lemma bare_abn:
  assumes "grouped_digits raw = Some d" "abn_ok d"
  shows "grouped_digits (digits_to_string d) = Some d" "normalise_abn (digits_to_string d) = Some (digits_to_string d)"
proof -
  have "d \<noteq> []" using abn_length[OF assms(2)] by auto
  then show "grouped_digits (digits_to_string d) = Some d"
    by (rule grouped_digits_string[OF grouped_digits_list[OF assms(1)]])
  then show "normalise_abn (digits_to_string d) = Some (digits_to_string d)"
    using assms(2) by (simp add: normalise_abn_def)
qed

text \<open>No text is two identifiers: the three shapes exclude each other, a text is refused exactly when it
  is none of them, and the bare form of an identifier classifies as the same identifier, institution
  and embedded company number included.\<close>

theorem au_classify_unambiguous:
  "(au_classify raw = Inl (Invalid ''not a valid ABN, ACN, or BSB'')
      \<longleftrightarrow> \<not> is_valid_abn raw \<and> \<not> is_valid_acn raw \<and> normalise_bsb raw = None)
   \<and> \<not> (is_valid_abn raw \<and> is_valid_acn raw)
   \<and> \<not> (is_valid_abn raw \<and> normalise_bsb raw \<noteq> None)
   \<and> \<not> (is_valid_acn raw \<and> normalise_bsb raw \<noteq> None)
   \<and> (case au_classify raw of Inr x \<Rightarrow> au_classify (bare x) = Inr x | Inl _ \<Rightarrow> True)"
proof (intro conjI)
  show "au_classify raw = Inl (Invalid ''not a valid ABN, ACN, or BSB'')
      \<longleftrightarrow> \<not> is_valid_abn raw \<and> \<not> is_valid_acn raw \<and> normalise_bsb raw = None"
    by (auto simp: au_classify_def is_valid_abn_def is_valid_acn_def normalise_abn_def split: option.splits if_splits)
  show "\<not> (is_valid_abn raw \<and> is_valid_acn raw)"
    by (auto simp: is_valid_abn_def is_valid_acn_def dest: abn_not_acn split: option.splits)
  have six: "length d = 6" if "normalise_bsb raw \<noteq> None" "grouped_digits raw = Some d" for d
    using that bsb_bare by force
  show "\<not> (is_valid_abn raw \<and> normalise_bsb raw \<noteq> None)"
    using six abn_length by (fastforce simp: is_valid_abn_def split: option.splits)
  show "\<not> (is_valid_acn raw \<and> normalise_bsb raw \<noteq> None)"
    using six acn_length by (fastforce simp: is_valid_acn_def split: option.splits)
  show "case au_classify raw of Inr x \<Rightarrow> au_classify (bare x) = Inr x | Inl _ \<Rightarrow> True"
  proof (cases "au_classify raw")
    case (Inr x)
    consider d where "grouped_digits raw = Some d" "abn_ok d" "x = Abn (digits_to_string d) (derive_acn (digits_to_string d))"
      | d where "grouped_digits raw = Some d" "acn_ok d" "x = Acn (digits_to_string d)"
      | b where "normalise_bsb raw = Some b" "x = Bsb b (bsb_institution b)"
      using Inr by (auto simp: au_classify_def normalise_abn_def split: option.splits if_splits)
    then have "au_classify (bare x) = Inr x"
    proof cases
      case 1
      then show ?thesis using bare_abn[OF 1(1,2)] by (simp add: au_classify_def)
    next
      case 2
      have "d \<noteq> []" using acn_length[OF 2(2)] by auto
      then have "grouped_digits (digits_to_string d) = Some d"
        by (rule grouped_digits_string[OF grouped_digits_list[OF 2(1)]])
      moreover have "\<not> abn_ok d" using acn_length[OF 2(2)] abn_length by fastforce
      ultimately show ?thesis using 2 by (simp add: au_classify_def normalise_abn_def)
    next
      case 3
      from bsb_bare[OF 3(1)] have b: "all_digits b" "length b = 6" by blast+
      note bsb = normalise_bsb_bare[OF b]
      from bsb_bare[OF bsb] have g: "grouped_digits b = Some (map digit_value b)" by blast
      have "\<not> abn_ok (map digit_value b)" "\<not> acn_ok (map digit_value b)"
        using b(2) abn_length[of "map digit_value b"] acn_length[of "map digit_value b"] by auto
      with g bsb 3 show ?thesis by (simp add: au_classify_def normalise_abn_def)
    qed
    with Inr show ?thesis by simp
  qed simp
qed

end
