(* ===== verification/Geohash.thy ===== *)
theory Geohash
  imports Ascii_Text Float64 Errors
begin

text \<open>
  \<open>src/geohash.rs\<close> without the great-circle distance: the cells of a geohash, encoding and decoding,
  and the coordinate checks. A bound of a cell is the rational its \<open>f64\<close> denotes: every bound is a
  whole multiple of 45 / 2^28, at most 2^30 of them (\<open>cell_grid\<close> below), so it has at most 36 significant
  bits and the sums and halvings of \<open>f64::midpoint\<close> are exact. Reading an \<open>f64\<close> from text and the debug text of a character
  are the arguments \<open>parse_f64\<close> and \<open>debug\<close>.
\<close>

definition BASE32 :: str where
  "BASE32 = ''0123456789bcdefghjkmnpqrstuvwxyz''"

definition MAX_PRECISION :: nat where
  "MAX_PRECISION = 12"

record geo_cell =
  lat_min :: rat
  lat_max :: rat
  lon_min :: rat
  lon_max :: rat

definition midpoint :: "rat \<Rightarrow> rat \<Rightarrow> rat" where
  "midpoint a b = (a + b) / 2"

definition center :: "geo_cell \<Rightarrow> rat \<times> rat" where
  "center c = (midpoint (lat_min c) (lat_max c), midpoint (lon_min c) (lon_max c))"

definition cell_contains :: "geo_cell \<Rightarrow> f64 \<Rightarrow> f64 \<Rightarrow> bool" where
  "cell_contains c lat lon \<longleftrightarrow>
     f64_le (Fin (lat_min c)) lat \<and> f64_le lat (Fin (lat_max c))
     \<and> f64_le (Fin (lon_min c)) lon \<and> f64_le lon (Fin (lon_max c))"

definition world :: geo_cell where
  "world = \<lparr>lat_min = - 90, lat_max = 90, lon_min = - 180, lon_max = 180\<rparr>"

text \<open>The halves of a cell along the longitude (\<open>even\<close>) or the latitude; \<open>upper\<close> keeps the upper one.\<close>

definition split_mid :: "bool \<Rightarrow> geo_cell \<Rightarrow> rat" where
  "split_mid ev c = (if ev then midpoint (lon_min c) (lon_max c) else midpoint (lat_min c) (lat_max c))"

definition keep_half :: "bool \<Rightarrow> bool \<Rightarrow> geo_cell \<Rightarrow> geo_cell" where
  "keep_half ev upper c =
     (let mid = split_mid ev c in
      if ev then (if upper then c\<lparr>lon_min := mid\<rparr> else c\<lparr>lon_max := mid\<rparr>)
      else (if upper then c\<lparr>lat_min := mid\<rparr> else c\<lparr>lat_max := mid\<rparr>))"

fun encode_bits :: "nat \<Rightarrow> f64 \<Rightarrow> f64 \<Rightarrow> nat \<Rightarrow> bool \<Rightarrow> geo_cell \<Rightarrow> nat \<times> bool \<times> geo_cell" where
  "encode_bits 0 lat lon idx ev c = (idx, ev, c)"
| "encode_bits (Suc n) lat lon idx ev c =
     (let value = (if ev then lon else lat);
          upper = f64_le (Fin (split_mid ev c)) value
      in encode_bits n lat lon (2 * idx + (if upper then 1 else 0)) (\<not> ev) (keep_half ev upper c))"

fun encode_chars :: "nat \<Rightarrow> f64 \<Rightarrow> f64 \<Rightarrow> bool \<Rightarrow> geo_cell \<Rightarrow> str" where
  "encode_chars 0 lat lon ev c = []"
| "encode_chars (Suc n) lat lon ev c =
     (let (idx, ev', c') = encode_bits 5 lat lon 0 ev c
      in BASE32 ! idx # encode_chars n lat lon ev' c')"

definition geohash_encode :: "f64 \<Rightarrow> f64 \<Rightarrow> nat \<Rightarrow> error + str" where
  "geohash_encode lat lon precision =
     (if \<not> (f64_le (Fin (- 90)) lat \<and> f64_le lat (Fin 90))
         \<or> \<not> (f64_le (Fin (- 180)) lon \<and> f64_le lon (Fin 180))
      then Inl (Invalid ''coordinate out of range'')
      else if \<not> (1 \<le> precision \<and> precision \<le> MAX_PRECISION)
      then Inl (Invalid ''geohash precision must be 1..=12'')
      else Inr (encode_chars precision lat lon True world))"

fun char_position :: "char \<Rightarrow> str \<Rightarrow> nat option" where
  "char_position x [] = None"
| "char_position x (c # cs) = (if c = x then Some 0 else map_option Suc (char_position x cs))"

text \<open>The bits of a character, from the highest of \<open>n\<close> down.\<close>

fun decode_bits_of :: "nat \<Rightarrow> nat \<Rightarrow> bool \<Rightarrow> geo_cell \<Rightarrow> bool \<times> geo_cell" where
  "decode_bits_of 0 idx ev c = (ev, c)"
| "decode_bits_of (Suc k) idx ev c =
     decode_bits_of k idx (\<not> ev) (keep_half ev (idx div 2 ^ k mod 2 = 1) c)"

fun decode_chars :: "(char \<Rightarrow> str) \<Rightarrow> str \<Rightarrow> bool \<Rightarrow> geo_cell \<Rightarrow> error + geo_cell" where
  "decode_chars debug [] ev c = Inr c"
| "decode_chars debug (b # hash) ev c =
     (case char_position b BASE32 of
        None \<Rightarrow> Inl (Invalid (''not a geohash character: '' @ debug b))
      | Some idx \<Rightarrow> (let (ev', c') = decode_bits_of 5 idx ev c in decode_chars debug hash ev' c'))"

definition geohash_decode :: "(char \<Rightarrow> str) \<Rightarrow> str \<Rightarrow> error + geo_cell" where
  "geohash_decode debug hash =
     (if hash = [] \<or> length hash > MAX_PRECISION
      then Inl (Invalid ''geohash length must be 1..=12'')
      else decode_chars debug hash True world)"

section \<open>Coordinates\<close>

definition valid_coordinate :: "f64 \<Rightarrow> f64 \<Rightarrow> bool" where
  "valid_coordinate lat lon \<longleftrightarrow>
     f64_is_finite lat \<and> f64_is_finite lon
     \<and> f64_le (Fin (- 90)) lat \<and> f64_le lat (Fin 90)
     \<and> f64_le (Fin (- 180)) lon \<and> f64_le lon (Fin 180)"

definition valid_fix :: "f64 \<Rightarrow> f64 \<Rightarrow> bool" where
  "valid_fix lat lon \<longleftrightarrow> valid_coordinate lat lon \<and> \<not> (f64_eq lat (Fin 0) \<and> f64_eq lon (Fin 0))"

definition parse_coords :: "(str \<Rightarrow> f64 option) \<Rightarrow> str \<Rightarrow> (f64 \<times> f64) option" where
  "parse_coords parse_f64 value =
     (case split_once CHR '','' value of
        None \<Rightarrow> None
      | Some (lat_raw, lon_raw) \<Rightarrow>
          (case parse_f64 (trim lat_raw) of
             None \<Rightarrow> None
           | Some lat \<Rightarrow>
               (case parse_f64 (trim lon_raw) of
                  None \<Rightarrow> None
                | Some lon \<Rightarrow> if \<not> valid_coordinate lat lon then None else Some (lat, lon))))"

section \<open>What encoding decides, decoding follows\<close>

fun halves :: "bool \<Rightarrow> bool list \<Rightarrow> geo_cell \<Rightarrow> geo_cell" where
  "halves ev [] c = c"
| "halves ev (b # bs) c = halves (\<not> ev) bs (keep_half ev b c)"

fun even_after :: "bool \<Rightarrow> nat \<Rightarrow> bool" where
  "even_after ev 0 = ev"
| "even_after ev (Suc n) = even_after (\<not> ev) n"

definition bits_value :: "nat \<Rightarrow> bool list \<Rightarrow> nat" where
  "bits_value idx bs = foldl (\<lambda>i b. 2 * i + (if b then 1 else 0)) idx bs"

text \<open>The choices encoding makes for a point, and when a list of choices are the ones it makes.\<close>

fun choices :: "nat \<Rightarrow> f64 \<Rightarrow> f64 \<Rightarrow> bool \<Rightarrow> geo_cell \<Rightarrow> bool list" where
  "choices 0 lat lon ev c = []"
| "choices (Suc n) lat lon ev c =
     (let upper = f64_le (Fin (split_mid ev c)) (if ev then lon else lat)
      in upper # choices n lat lon (\<not> ev) (keep_half ev upper c))"

lemma length_choices [simp]: "length (choices n lat lon ev c) = n"
  by (induction n arbitrary: ev c) (simp_all add: Let_def)

lemma encode_bits_eq:
  "encode_bits n lat lon idx ev c =
     (bits_value idx (choices n lat lon ev c), even_after ev n, halves ev (choices n lat lon ev c) c)"
  by (induction n arbitrary: idx ev c) (simp_all add: Let_def bits_value_def)

lemma bits_value_bound: "bits_value idx bs < (idx + 1) * 2 ^ length bs"
proof (induction bs arbitrary: idx)
  case (Cons b bs)
  have "bits_value idx (b # bs) = bits_value (2 * idx + (if b then 1 else 0)) bs" by (simp add: bits_value_def)
  also have "\<dots> < (2 * idx + (if b then 1 else 0) + 1) * 2 ^ length bs" by (rule Cons.IH)
  also have "\<dots> \<le> (2 * idx + 2) * 2 ^ length bs" by (rule mult_le_mono1) simp
  finally show ?case by simp
qed (simp add: bits_value_def)

lemma bits_value_split: "bits_value idx bs = idx * 2 ^ length bs + bits_value 0 bs"
proof (induction bs arbitrary: idx)
  case (Cons b bs)
  have "bits_value idx (b # bs) = (2 * idx + (if b then 1 else 0)) * 2 ^ length bs + bits_value 0 bs"
    using Cons.IH[of "2 * idx + (if b then 1 else 0)"] by (simp add: bits_value_def)
  moreover have "bits_value 0 (b # bs) = (if b then 1 else 0) * 2 ^ length bs + bits_value 0 bs"
    using Cons.IH[of "if b then 1 else 0"] by (simp add: bits_value_def)
  ultimately show ?case by (simp add: algebra_simps)
qed (simp add: bits_value_def)

lemma decode_bits_eq:
  "decode_bits_of (length bs) (k * 2 ^ length bs + bits_value 0 bs) ev c = (even_after ev (length bs), halves ev bs c)"
proof (induction bs arbitrary: k ev c)
  case (Cons b bs)
  have v: "bits_value 0 (b # bs) = (if b then 1 else 0) * 2 ^ length bs + bits_value 0 bs"
    using bits_value_split[of "if b then 1 else 0" bs] by (simp add: bits_value_def)
  have small: "bits_value 0 bs < 2 ^ length bs" using bits_value_bound[of 0 bs] by simp
  define N where "N = k * 2 ^ length (b # bs) + bits_value 0 (b # bs)"
  have n: "N = (2 * k + (if b then 1 else 0)) * 2 ^ length bs + bits_value 0 bs"
    unfolding N_def v by (simp add: algebra_simps)
  have "N div 2 ^ length bs = 2 * k + (if b then 1 else 0)" unfolding n using small by simp
  then have "(N div 2 ^ length bs mod 2 = 1) = b" by simp
  moreover have "decode_bits_of (length bs) N (\<not> ev) (keep_half ev b c)
      = (even_after (\<not> ev) (length bs), halves (\<not> ev) bs (keep_half ev b c))"
    unfolding n by (rule Cons.IH)
  ultimately have "decode_bits_of (length (b # bs)) N ev c = (even_after ev (length (b # bs)), halves ev (b # bs) c)" by simp
  then show ?case unfolding N_def .
qed (simp add: bits_value_def)

lemma decode_bits_choices:
  "decode_bits_of 5 (bits_value 0 (choices 5 lat lon ev c)) ev c
    = (even_after ev 5, halves ev (choices 5 lat lon ev c) c)"
  using decode_bits_eq[of "choices 5 lat lon ev c" 0 ev c] by simp

lemma char_position_Some: "char_position x cs = Some i \<Longrightarrow> i < length cs \<and> cs ! i = x"
  by (induction cs arbitrary: i) (auto split: if_splits)

lemma char_position_nth: "distinct cs \<Longrightarrow> i < length cs \<Longrightarrow> char_position (cs ! i) cs = Some i"
proof (induction cs arbitrary: i)
  case (Cons c cs)
  then show ?case by (cases i) auto
qed simp

lemma BASE32_facts: "length BASE32 = 32" "distinct BASE32"
  by (simp_all add: BASE32_def)

lemma choice_char: "char_position (BASE32 ! bits_value 0 (choices 5 lat lon ev c)) BASE32
    = Some (bits_value 0 (choices 5 lat lon ev c))"
  using bits_value_bound[of 0 "choices 5 lat lon ev c"] by (intro char_position_nth) (simp_all add: BASE32_facts)

section \<open>Points and cells\<close>

text \<open>The point belongs to the cell and to no other of its size: the upper bounds are excluded.\<close>

definition inside :: "geo_cell \<Rightarrow> rat \<Rightarrow> rat \<Rightarrow> bool" where
  "inside c lat lon \<longleftrightarrow> lat_min c \<le> lat \<and> lat < lat_max c \<and> lon_min c \<le> lon \<and> lon < lon_max c"

definition proper :: "geo_cell \<Rightarrow> bool" where
  "proper c \<longleftrightarrow> lat_min c < lat_max c \<and> lon_min c < lon_max c"

lemma midpoint_between: "a < b \<Longrightarrow> a < midpoint a b \<and> midpoint a b < b"
  by (simp add: midpoint_def field_simps)

lemma keep_half_proper: "proper c \<Longrightarrow> proper (keep_half ev b c)"
  using midpoint_between by (auto simp: proper_def keep_half_def split_mid_def Let_def)

lemma keep_half_within:
  assumes "proper c" "inside (keep_half ev b c) lat lon"
  shows "inside c lat lon" "b \<longleftrightarrow> split_mid ev c \<le> (if ev then lon else lat)"
  using assms midpoint_between[of "lat_min c" "lat_max c"] midpoint_between[of "lon_min c" "lon_max c"]
  by (cases ev; cases b; auto simp: inside_def proper_def keep_half_def split_mid_def Let_def)+

lemma halves_within: "proper c \<Longrightarrow> inside (halves ev bs c) lat lon \<Longrightarrow>
    inside c lat lon \<and> choices (length bs) (Fin lat) (Fin lon) ev c = bs"
proof (induction bs arbitrary: ev c)
  case (Cons b bs)
  then have h: "inside (keep_half ev b c) lat lon"
    "choices (length bs) (Fin lat) (Fin lon) (\<not> ev) (keep_half ev b c) = bs"
    using keep_half_proper by simp_all
  from keep_half_within[OF Cons.prems(1) h(1)] h(2) show ?case by (cases ev) (simp_all add: Let_def)
qed simp

lemma halves_proper: "proper c \<Longrightarrow> proper (halves ev bs c)"
  by (induction bs arbitrary: ev c) (simp_all add: keep_half_proper)

lemma choices_contain: "cell_contains c (Fin lat) (Fin lon) \<Longrightarrow>
    cell_contains (halves ev (choices n (Fin lat) (Fin lon) ev c) c) (Fin lat) (Fin lon)"
proof (induction n arbitrary: ev c)
  case (Suc n)
  let ?b = "f64_le (Fin (split_mid ev c)) (if ev then Fin lon else Fin lat)"
  have "cell_contains (keep_half ev ?b c) (Fin lat) (Fin lon)"
    using Suc.prems by (cases ev) (auto simp: cell_contains_def keep_half_def Let_def split_mid_def)
  from Suc.IH[OF this] show ?case by (simp add: Let_def)
qed simp

lemma encoded_decodes:
  "cell_contains c (Fin lat) (Fin lon) \<Longrightarrow> proper c \<Longrightarrow>
   \<exists>c'. decode_chars debug (encode_chars n (Fin lat) (Fin lon) ev c) ev c = Inr c'
     \<and> cell_contains c' (Fin lat) (Fin lon)"
proof (induction n arbitrary: ev c)
  case (Suc n)
  let ?c = "halves ev (choices 5 (Fin lat) (Fin lon) ev c) c"
  have "cell_contains ?c (Fin lat) (Fin lon)" "proper ?c"
    using Suc.prems by (auto intro: choices_contain halves_proper)
  from Suc.IH[OF this, of "even_after ev 5"] show ?case
    by (simp add: encode_bits_eq choice_char decode_bits_choices Let_def)
qed simp

lemma length_encode_chars [simp]: "length (encode_chars n lat lon ev c) = n"
  by (induction n arbitrary: ev c) (simp_all add: Let_def split: prod.split)

lemma bits_exist: "idx < 2 ^ n \<Longrightarrow> \<exists>bs. length bs = n \<and> bits_value 0 bs = idx"
proof (induction n arbitrary: idx)
  case (Suc n)
  have "idx mod 2 ^ n < 2 ^ n" by simp
  from Suc.IH[OF this] obtain bs where bs: "length bs = n" "bits_value 0 bs = idx mod 2 ^ n" by blast
  define q where "q = idx div 2 ^ n"
  have "q < 2" using Suc.prems by (simp add: q_def less_mult_imp_div_less)
  then have q: "(if q = 1 then 1 else 0) = q" by (cases q) auto
  have "bits_value 0 ((q = 1) # bs) = (if q = 1 then 1 else 0) * 2 ^ n + idx mod 2 ^ n"
    using bits_value_split[of "if q = 1 then 1 else 0" bs] bs by (simp add: bits_value_def)
  also have "\<dots> = idx" unfolding q by (simp only: q_def div_mult_mod_eq)
  finally show ?case using bs(1) by (intro exI[of _ "(q = 1) # bs"]) simp
qed (simp add: bits_value_def)

lemma decoded_char:
  assumes "char_position b BASE32 = Some idx"
  obtains bs where "length bs = 5" "BASE32 ! bits_value 0 bs = b"
    "decode_bits_of 5 idx ev c = (even_after ev 5, halves ev bs c)"
proof -
  have "idx < 32" "BASE32 ! idx = b" using char_position_Some[OF assms] BASE32_facts by auto
  then obtain bs where bs: "length bs = 5" "bits_value 0 bs = idx" using bits_exist[of idx 5] by auto
  then show thesis
    using that[of bs] decode_bits_eq[of bs 0 ev c] \<open>BASE32 ! idx = b\<close> by simp
qed

lemma decoded_encodes:
  "proper c \<Longrightarrow> decode_chars debug hash ev c = Inr c' \<Longrightarrow> inside c' lat lon \<Longrightarrow>
   inside c lat lon \<and> encode_chars (length hash) (Fin lat) (Fin lon) ev c = hash"
proof (induction hash arbitrary: ev c)
  case (Cons b hash)
  from Cons.prems(2) obtain idx where idx: "char_position b BASE32 = Some idx" by (auto split: option.splits)
  from decoded_char[OF idx, of ev c] obtain bs where
    bs: "length bs = 5" "BASE32 ! bits_value 0 bs = b"
      "decode_bits_of 5 idx ev c = (even_after ev 5, halves ev bs c)" by blast
  have "decode_chars debug hash (even_after ev 5) (halves ev bs c) = Inr c'"
    using Cons.prems(2) idx bs(3) by simp
  from Cons.IH[OF halves_proper[OF Cons.prems(1)] this Cons.prems(3)]
  have rest: "inside (halves ev bs c) lat lon"
    "encode_chars (length hash) (Fin lat) (Fin lon) (even_after ev 5) (halves ev bs c) = hash" by blast+
  from halves_within[OF Cons.prems(1) rest(1)] bs(1)
  have "inside c lat lon" "choices 5 (Fin lat) (Fin lon) ev c = bs" by auto
  with rest(2) bs(2) show ?case by (simp add: encode_bits_eq)
qed simp

section \<open>Widths and the grid\<close>

text \<open>A cell whose longitude was halved \<open>a\<close> times and whose latitude \<open>b\<close> times.\<close>

definition on_grid :: "nat \<Rightarrow> nat \<Rightarrow> geo_cell \<Rightarrow> bool" where
  "on_grid a b c \<longleftrightarrow>
     (\<exists>i j. i < (2 :: nat) ^ a \<and> j < (2 :: nat) ^ b
       \<and> lon_min c = - 180 + of_nat i * (360 / 2 ^ a) \<and> lon_max c = lon_min c + 360 / 2 ^ a
       \<and> lat_min c = - 90 + of_nat j * (180 / 2 ^ b) \<and> lat_max c = lat_min c + 180 / 2 ^ b)"

lemma half_step:
  fixes lo w :: rat
  assumes "lo = s + of_nat i * (w / 2 ^ a)"
  shows "lo = s + of_nat (2 * i) * (w / 2 ^ Suc a)"
    "midpoint lo (lo + w / 2 ^ a) = s + of_nat (2 * i + 1) * (w / 2 ^ Suc a)"
    "midpoint lo (lo + w / 2 ^ a) = lo + w / 2 ^ Suc a"
    "lo + w / 2 ^ a = midpoint lo (lo + w / 2 ^ a) + w / 2 ^ Suc a"
  using assms by (simp_all add: midpoint_def field_simps)

lemma keep_half_grid_lon:
  assumes "on_grid a b c"
  shows "on_grid (Suc a) b (keep_half True u c)"
proof -
  from assms obtain i j where g: "i < 2 ^ a" "j < 2 ^ b" "lon_min c = - 180 + of_nat i * (360 / 2 ^ a)"
    "lon_max c = lon_min c + 360 / 2 ^ a" "lat_min c = - 90 + of_nat j * (180 / 2 ^ b)"
    "lat_max c = lat_min c + 180 / 2 ^ b" by (auto simp: on_grid_def)
  note h = half_step[OF g(3)]
  let ?i = "2 * i + (if u then 1 else 0)"
  have "?i < 2 ^ Suc a" using g(1) by simp
  moreover have "lon_min (keep_half True u c) = - 180 + of_nat ?i * (360 / 2 ^ Suc a)"
    "lon_max (keep_half True u c) = lon_min (keep_half True u c) + 360 / 2 ^ Suc a"
    using h g(4) by (cases u; simp add: keep_half_def split_mid_def)+
  moreover have "lat_min (keep_half True u c) = lat_min c" "lat_max (keep_half True u c) = lat_max c"
    by (simp_all add: keep_half_def Let_def)
  ultimately show ?thesis unfolding on_grid_def using g by metis
qed

lemma keep_half_grid_lat:
  assumes "on_grid a b c"
  shows "on_grid a (Suc b) (keep_half False u c)"
proof -
  from assms obtain i j where g: "i < 2 ^ a" "j < 2 ^ b" "lon_min c = - 180 + of_nat i * (360 / 2 ^ a)"
    "lon_max c = lon_min c + 360 / 2 ^ a" "lat_min c = - 90 + of_nat j * (180 / 2 ^ b)"
    "lat_max c = lat_min c + 180 / 2 ^ b" by (auto simp: on_grid_def)
  note h = half_step[OF g(5)]
  let ?j = "2 * j + (if u then 1 else 0)"
  have "?j < 2 ^ Suc b" using g(2) by simp
  moreover have "lat_min (keep_half False u c) = - 90 + of_nat ?j * (180 / 2 ^ Suc b)"
    "lat_max (keep_half False u c) = lat_min (keep_half False u c) + 180 / 2 ^ Suc b"
    using h g(6) by (cases u; simp add: keep_half_def split_mid_def)+
  moreover have "lon_min (keep_half False u c) = lon_min c" "lon_max (keep_half False u c) = lon_max c"
    by (simp_all add: keep_half_def Let_def)
  ultimately show ?thesis unfolding on_grid_def using g by metis
qed

fun turns :: "bool \<Rightarrow> nat \<Rightarrow> nat \<times> nat" where
  "turns ev 0 = (0, 0)"
| "turns ev (Suc n) = (let (a, b) = turns (\<not> ev) n in if ev then (Suc a, b) else (a, Suc b))"

lemma halves_grid:
  "on_grid a b c \<Longrightarrow> on_grid (a + fst (turns ev (length bs))) (b + snd (turns ev (length bs))) (halves ev bs c)"
proof (induction bs arbitrary: a b ev c)
  case (Cons u bs)
  show ?case
  proof (cases ev)
    case True
    with Cons.IH[OF keep_half_grid_lon[OF Cons.prems], of False u] show ?thesis by (simp add: Let_def split_beta)
  next
    case False
    with Cons.IH[OF keep_half_grid_lat[OF Cons.prems], of True u] show ?thesis by (simp add: Let_def split_beta)
  qed
qed simp

lemma turns_eq: "turns ev n = (if ev then ((n + 1) div 2, n div 2) else (n div 2, (n + 1) div 2))"
  by (induction n arbitrary: ev) (auto simp: Let_def)

lemma even_after_eq: "even_after ev n = (if even n then ev else \<not> ev)"
  by (induction n arbitrary: ev) auto

lemma decoded_grid:
  "on_grid a b c \<Longrightarrow> decode_chars debug hash ev c = Inr c' \<Longrightarrow>
   on_grid (a + fst (turns ev (5 * length hash))) (b + snd (turns ev (5 * length hash))) c'"
proof (induction hash arbitrary: a b ev c)
  case (Cons d hash)
  from Cons.prems(2) obtain idx where idx: "char_position d BASE32 = Some idx" by (auto split: option.splits)
  from decoded_char[OF idx, of ev c] obtain bs where
    bs: "length bs = 5" "decode_bits_of 5 idx ev c = (even_after ev 5, halves ev bs c)" by blast
  have rest: "decode_chars debug hash (even_after ev 5) (halves ev bs c) = Inr c'"
    using Cons.prems(2) idx bs(2) by simp
  have "on_grid (a + fst (turns ev 5)) (b + snd (turns ev 5)) (halves ev bs c)"
    using halves_grid[OF Cons.prems(1), where ev = ev and bs = bs] bs(1) by simp
  from Cons.IH[OF this rest]
  have "on_grid (a + fst (turns ev 5) + fst (turns (\<not> ev) (5 * length hash)))
      (b + snd (turns ev 5) + snd (turns (\<not> ev) (5 * length hash))) c'" by (simp add: even_after_eq)
  moreover have "fst (turns ev (5 * length (d # hash))) = fst (turns ev 5) + fst (turns (\<not> ev) (5 * length hash))"
    "snd (turns ev (5 * length (d # hash))) = snd (turns ev 5) + snd (turns (\<not> ev) (5 * length hash))"
    by (cases ev; simp add: turns_eq; presburger)+
  ultimately show ?case by (simp only: add.assoc)
qed simp

text \<open>Every bound of a cell of at most twelve characters is a multiple of 360 / 2^30 or of 180 / 2^30 from
  the edge of the world, so it and the sum of two of them are exact in an \<open>f64\<close>.\<close>

lemma cell_grid:
  assumes "geohash_decode debug hash = Inr c"
  shows "on_grid ((5 * length hash + 1) div 2) (5 * length hash div 2) c"
proof -
  have "on_grid 0 0 world" by (simp add: on_grid_def world_def)
  moreover have "decode_chars debug hash True world = Inr c"
    using assms by (simp add: geohash_decode_def split: if_splits)
  ultimately show ?thesis using decoded_grid[of 0 0 world debug hash True c] by (simp add: turns_eq)
qed

text \<open>C27: An encoded coordinate decodes to a cell that contains it; every coordinate of a decoded cell,
  its two upper bounds apart, encodes at that length to the same geohash, so the geohashes of one
  length name disjoint cells; and a cell is 360 degrees by 180 degrees halved as often as the length
  says.\<close>

theorem geohash_exact:
  "(case geohash_encode lat lon p of
      Inr h \<Rightarrow> length h = p
        \<and> (case geohash_decode debug h of Inr c \<Rightarrow> cell_contains c lat lon | Inl _ \<Rightarrow> False)
    | Inl _ \<Rightarrow> True)
   \<and> (case geohash_decode debug hash of
        Inr c \<Rightarrow> (inside c x y \<longrightarrow> geohash_encode (Fin x) (Fin y) (length hash) = Inr hash)
          \<and> lon_max c - lon_min c = 360 / 2 ^ ((5 * length hash + 1) div 2)
          \<and> lat_max c - lat_min c = 180 / 2 ^ (5 * length hash div 2)
      | Inl _ \<Rightarrow> True)"
proof (rule conjI)
  have proper: "proper world" by (simp add: proper_def world_def)
  show "case geohash_encode lat lon p of
      Inr h \<Rightarrow> length h = p
        \<and> (case geohash_decode debug h of Inr c \<Rightarrow> cell_contains c lat lon | Inl _ \<Rightarrow> False)
    | Inl _ \<Rightarrow> True"
  proof (cases "geohash_encode lat lon p")
    case (Inr h)
    then have p: "1 \<le> p" "p \<le> MAX_PRECISION" and h: "h = encode_chars p lat lon True world"
      and r: "cell_contains world lat lon"
      by (auto simp: geohash_encode_def cell_contains_def world_def split: if_splits)
    from r obtain qa qo where q: "lat = Fin qa" "lon = Fin qo" unfolding cell_contains_def by (cases lat; cases lon; simp)
    have l: "length h = p" using h by simp
    then have "h \<noteq> []" using p(1) by auto
    moreover obtain c where "decode_chars debug h True world = Inr c" "cell_contains c lat lon"
      using encoded_decodes[of world qa qo debug p True] r proper unfolding h q by blast
    ultimately show ?thesis using Inr p l by (simp add: geohash_decode_def)
  qed simp
  show "case geohash_decode debug hash of
        Inr c \<Rightarrow> (inside c x y \<longrightarrow> geohash_encode (Fin x) (Fin y) (length hash) = Inr hash)
          \<and> lon_max c - lon_min c = 360 / 2 ^ ((5 * length hash + 1) div 2)
          \<and> lat_max c - lat_min c = 180 / 2 ^ (5 * length hash div 2)
      | Inl _ \<Rightarrow> True"
  proof (cases "geohash_decode debug hash")
    case (Inr c)
    then have d: "decode_chars debug hash True world = Inr c" "1 \<le> length hash" "length hash \<le> MAX_PRECISION"
      by (auto simp: geohash_decode_def Suc_le_eq split: if_splits)
    have "geohash_encode (Fin x) (Fin y) (length hash) = Inr hash" if "inside c x y"
      using decoded_encodes[OF proper d(1) that] d(2,3)
      by (simp add: geohash_encode_def inside_def world_def)
    then show ?thesis using Inr cell_grid[OF Inr] by (auto simp: on_grid_def)
  qed simp
qed

theorem geohash_exact_witness:
  "geohash_encode (Fin 44) (Fin 1) 1 = Inr ''s''"
proof -
  have "geohash_decode (\<lambda>b. [b]) ''s'' = Inr \<lparr>lat_min = 0, lat_max = 45, lon_min = 0, lon_max = 45\<rparr>"
    by code_simp
  then show ?thesis using geohash_exact[where debug = "\<lambda>b. [b]" and hash = "''s''" and x = 44 and y = 1] by (simp add: inside_def)
qed

end
