(* ===== verification/Float_Arith.thy ===== *)
theory Float_Arith
  imports Float64 "HOL-Library.Log_Nat"
begin

text \<open>
  The arithmetic of \<open>f64\<close>: IEEE 754 binary64 with the rounding to nearest, ties to even, that Rust
  guarantees for \<open>+\<close>, \<open>-\<close>, \<open>*\<close> and \<open>mul_add\<close>. The value of an operation is the exact rational result
  rounded once. A finite double is its value, so the two zeros are one, which no operation modelled
  here tells apart: there is no division. The bound of the rounding error and the ranges that the
  error analysis of a formula needs follow the definitions.
\<close>

section \<open>Rounding\<close>

text \<open>The exponent of the leading binary digit: \<open>2 ^ e \<le> q < 2 ^ (e + 1)\<close>.\<close>

definition leading_exponent :: "rat \<Rightarrow> int" where
  "leading_exponent q =
     (let (a, b) = quotient_of q;
          e = bitlen a - bitlen b
      in if 2 powi e \<le> q then e else e - 1)"

definition nearest_even :: "rat \<Rightarrow> int" where
  "nearest_even x =
     (let f = \<lfloor>x\<rfloor>; d = x - of_int f
      in if d < 1 / 2 \<or> d = 1 / 2 \<and> even f then f else f + 1)"

text \<open>The distance of the doubles about \<open>q\<close>: 53 significant bits, and none below \<open>2 ^ - 1074\<close>.\<close>

definition spacing :: "rat \<Rightarrow> rat" where
  "spacing q = 2 powi (max (leading_exponent \<bar>q\<bar> - 52) (- 1074))"

definition to_grid :: "rat \<Rightarrow> rat" where
  "to_grid q = (if q = 0 then 0 else of_int (nearest_even (q / spacing q)) * spacing q)"

definition f64_round :: "rat \<Rightarrow> f64" where
  "f64_round q =
     (let r = to_grid q
      in if r \<ge> 2 ^ 1024 then PosInf else if r \<le> - (2 ^ 1024) then NegInf else Fin r)"

section \<open>Operations\<close>

fun f64_neg :: "f64 \<Rightarrow> f64" where
  "f64_neg NaN = NaN"
| "f64_neg PosInf = NegInf"
| "f64_neg NegInf = PosInf"
| "f64_neg (Fin q) = Fin (- q)"

fun f64_add :: "f64 \<Rightarrow> f64 \<Rightarrow> f64" where
  "f64_add NaN _ = NaN"
| "f64_add _ NaN = NaN"
| "f64_add PosInf NegInf = NaN"
| "f64_add NegInf PosInf = NaN"
| "f64_add PosInf _ = PosInf"
| "f64_add _ PosInf = PosInf"
| "f64_add NegInf _ = NegInf"
| "f64_add _ NegInf = NegInf"
| "f64_add (Fin a) (Fin b) = f64_round (a + b)"

definition f64_sub :: "f64 \<Rightarrow> f64 \<Rightarrow> f64" where
  "f64_sub a b = f64_add a (f64_neg b)"

text \<open>Signs for the products with an infinity.\<close>

fun f64_sign :: "f64 \<Rightarrow> rat" where
  "f64_sign NaN = 0"
| "f64_sign PosInf = 1"
| "f64_sign NegInf = - 1"
| "f64_sign (Fin q) = sgn q"

definition f64_infinite :: "rat \<Rightarrow> f64" where
  "f64_infinite s = (if s = 0 then NaN else if s > 0 then PosInf else NegInf)"

fun f64_mul :: "f64 \<Rightarrow> f64 \<Rightarrow> f64" where
  "f64_mul (Fin a) (Fin b) = f64_round (a * b)"
| "f64_mul a b = f64_infinite (f64_sign a * f64_sign b)"

text \<open>\<open>a.mul_add(b, c)\<close>: one rounding of the exact \<open>a * b + c\<close>.\<close>

definition f64_mul_add :: "f64 \<Rightarrow> f64 \<Rightarrow> f64 \<Rightarrow> f64" where
  "f64_mul_add a b c =
     (case (a, b, c) of
        (Fin x, Fin y, Fin z) \<Rightarrow> f64_round (x * y + z)
      | (Fin _, Fin _, _) \<Rightarrow> c
      | _ \<Rightarrow> f64_add (f64_mul a b) c)"

text \<open>\<open>x.clamp(lo, hi)\<close>; it panics unless \<open>lo \<le> hi\<close>, which its callers show.\<close>

definition f64_clamp :: "f64 \<Rightarrow> f64 \<Rightarrow> f64 \<Rightarrow> f64" where
  "f64_clamp x lo hi = (if f64_less x lo then lo else if f64_less hi x then hi else x)"

section \<open>The leading exponent\<close>

lemma powi_le_iff: "(2::rat) powi i \<le> 2 powi j \<longleftrightarrow> i \<le> j"
  by (meson linorder_not_le one_less_numeral_iff power_int_strict_increasing power_int_increasing
      semiring_norm(76) one_le_numeral order_less_le)

lemma powi_pos [simp]: "0 < (2::rat) powi i"
  by (simp add: zero_less_power_int)

lemma powi_add: "(2::rat) powi (i + j) = 2 powi i * 2 powi j"
  by (simp add: power_int_add)

lemma bitlen_powi:
  assumes "0 < a"
  shows "(2::rat) powi (bitlen a - 1) \<le> of_int a" "of_int a < (2::rat) powi bitlen a"
proof -
  have b: "1 \<le> bitlen a" using assms by (auto simp: bitlen_alt_def)
  have "(2::rat) powi (bitlen a - 1) = of_int (2 ^ nat (bitlen a - 1))"
    "(2::rat) powi bitlen a = of_int (2 ^ nat (bitlen a))"
    using b by (simp_all add: power_int_def)
  then show "(2::rat) powi (bitlen a - 1) \<le> of_int a" "of_int a < (2::rat) powi bitlen a"
    using bitlen_bounds[OF assms] by (simp_all only: of_int_le_iff of_int_less_iff)
qed

lemma leading_exponent_bounds:
  assumes "0 < q"
  shows "2 powi leading_exponent q \<le> q \<and> q < 2 powi (leading_exponent q + 1)"
proof -
  obtain a b where ab: "quotient_of q = (a, b)" by (cases "quotient_of q")
  have q: "q = of_int a / of_int b" and b: "0 < b"
    using ab quotient_of_div quotient_of_denom_pos by blast+
  have a: "0 < a" using assms b unfolding q by (simp add: zero_less_divide_iff)
  let ?e = "bitlen a - bitlen b"
  have "q < 2 powi bitlen a / 2 powi (bitlen b - 1)"
    unfolding q using bitlen_powi[OF a] bitlen_powi[OF b] a b by (intro frac_less) auto
  also have "\<dots> = 2 powi (?e + 1)" by (simp add: power_int_diff power_int_add)
  finally have up: "q < 2 powi (?e + 1)" .
  have "2 powi (bitlen a - 1) / 2 powi bitlen b \<le> q"
    unfolding q using bitlen_powi[OF a] bitlen_powi[OF b] a b by (intro frac_le) auto
  moreover have "2 powi (bitlen a - 1) / 2 powi bitlen b = (2::rat) powi (?e - 1)"
    by (simp add: power_int_diff)
  ultimately have lo: "2 powi (?e - 1) \<le> q" by simp
  show ?thesis using up lo by (auto simp: leading_exponent_def ab Let_def)
qed

section \<open>The rounding error\<close>

lemma nearest_even_error: "\<bar>of_int (nearest_even x) - x\<bar> \<le> 1 / 2"
proof -
  have "of_int \<lfloor>x\<rfloor> \<le> x" "x < of_int \<lfloor>x\<rfloor> + 1" by linarith+
  then show ?thesis by (auto simp: nearest_even_def Let_def)
qed

lemma nearest_even_int [simp]: "nearest_even (of_int i) = i"
  by (simp add: nearest_even_def)

lemma nearest_even_range: "of_int i \<le> x \<Longrightarrow> x \<le> of_int j \<Longrightarrow> i \<le> nearest_even x \<and> nearest_even x \<le> j"
proof -
  assume a: "of_int i \<le> x" "x \<le> of_int j"
  have "i \<le> \<lfloor>x\<rfloor>" using a(1) by (simp add: le_floor_iff)
  moreover have "\<lfloor>x\<rfloor> < j \<or> x = of_int j" using a(2) by (auto simp: floor_less_iff)
  ultimately show ?thesis by (auto simp: nearest_even_def Let_def)
qed

lemma spacing_pos [simp]: "0 < spacing q"
  by (simp add: spacing_def)

text \<open>Half a spacing is at most the value's last bit, or half the least double.\<close>

lemma to_grid_error: "\<bar>to_grid q - q\<bar> \<le> spacing q / 2"
proof (cases "q = 0")
  case False
  have "to_grid q - q = (of_int (nearest_even (q / spacing q)) - q / spacing q) * spacing q"
    using False spacing_pos[of q] by (simp add: to_grid_def left_diff_distrib less_imp_neq[symmetric] del: spacing_pos)
  then have "\<bar>to_grid q - q\<bar> = \<bar>of_int (nearest_even (q / spacing q)) - q / spacing q\<bar> * spacing q"
    using spacing_pos[of q] by (simp only: abs_mult abs_of_pos)
  also have "\<dots> \<le> 1 / 2 * spacing q"
    by (intro mult_right_mono nearest_even_error) (simp add: order_less_imp_le)
  finally show ?thesis by simp
qed (simp add: to_grid_def order_less_imp_le)

lemma to_grid_exact: "q = of_int m * spacing q \<Longrightarrow> to_grid q = q"
proof -
  assume q: "q = of_int m * spacing q"
  have "spacing q \<noteq> 0" using spacing_pos[of q] by linarith
  then have "q / spacing q = of_int m" using q by (metis nonzero_eq_divide_eq)
  then show ?thesis using q by (simp add: to_grid_def)
qed

lemma spacing_le:
  assumes "q \<noteq> 0" "\<bar>q\<bar> \<le> 2 powi k" "- 1022 \<le> k"
  shows "spacing q \<le> 2 powi (k - 52)"
proof -
  have "2 powi leading_exponent \<bar>q\<bar> \<le> (2::rat) powi k"
    using leading_exponent_bounds[of "\<bar>q\<bar>"] assms(1,2) by linarith
  then show ?thesis using assms(3) unfolding spacing_def powi_le_iff by auto
qed


lemma f64_round_close:
  assumes "\<bar>q\<bar> \<le> 2 powi k" "- 1022 \<le> k" "k \<le> 1000"
  shows "\<exists>r. f64_round q = Fin r \<and> \<bar>r - q\<bar> \<le> 2 powi (k - 53)"
proof -
  have err: "\<bar>to_grid q - q\<bar> \<le> 2 powi (k - 53)"
  proof (cases "q = 0")
    case False
    have "(2::rat) powi (k - 52) = 2 * 2 powi (k - 53)" using powi_add[of 1 "k - 53"] by simp
    then show ?thesis using to_grid_error[of q] spacing_le[OF False assms(1,2)] by linarith
  qed (simp add: to_grid_def order_less_imp_le)
  have "(2::rat) powi k \<le> 2 powi 1000" "(2::rat) powi (k - 53) \<le> 2 powi 1000"
    unfolding powi_le_iff using assms by simp_all
  then have "\<bar>to_grid q\<bar> \<le> 2 * 2 ^ 1000" using err assms(1) by simp
  then have "\<bar>to_grid q\<bar> < 2 ^ 1024" by (rule order_le_less_trans) simp
  then show ?thesis using err by (auto simp: f64_round_def Let_def)
qed

lemma to_grid_unit:
  assumes "0 \<le> q" "q \<le> 1"
  shows "0 \<le> to_grid q \<and> to_grid q \<le> 1"
proof (cases "q = 0 \<or> q = 1")
  case True
  have "leading_exponent 1 = 0" by (simp add: leading_exponent_def)
  then have one: "spacing 1 = 2 powi (- 52)" by (simp add: spacing_def)
  have "to_grid 1 = 1" by (rule to_grid_exact[of 1 "2 ^ 52"]) (simp add: one power_int_def power_one_over)
  then show ?thesis using True by (auto simp: to_grid_def)
next
  case False
  then have q: "0 < q" "q < 1" using assms by auto
  let ?k = "max (leading_exponent q - 52) (- 1074)"
  have "2 powi leading_exponent q \<le> q" using leading_exponent_bounds[OF q(1)] by blast
  then have "\<not> (2::rat) powi 0 \<le> 2 powi leading_exponent q" using q(2) by simp
  then have k: "?k \<le> 0" unfolding powi_le_iff by simp
  have sp: "spacing q = 2 powi ?k" using q by (simp add: spacing_def)
  define N :: int where "N = 2 ^ nat (- ?k)"
  have inv: "of_int N * spacing q = 1"
    using k unfolding sp N_def by (simp add: power_int_def power_one_over)
  have "q / spacing q \<le> of_int N"
    using q(2) inv spacing_pos[of q] by (simp add: pos_divide_le_eq)
  moreover have "of_int 0 \<le> q / spacing q" using q(1) by (simp add: order_less_imp_le)
  ultimately have "0 \<le> nearest_even (q / spacing q)" "nearest_even (q / spacing q) \<le> N"
    using nearest_even_range by blast+
  moreover from this(2) have "of_int (nearest_even (q / spacing q)) * spacing q \<le> of_int N * spacing q"
    by (intro mult_right_mono) (simp_all add: order_less_imp_le)
  ultimately show ?thesis using False inv by (simp add: to_grid_def order_less_imp_le)
qed

lemma f64_round_unit: "0 \<le> q \<Longrightarrow> q \<le> 1 \<Longrightarrow> \<exists>r. f64_round q = Fin r \<and> 0 \<le> r \<and> r \<le> 1"
  using to_grid_unit[of q] by (auto simp: f64_round_def Let_def intro: order.trans)

lemma f64_round_nat:
  assumes "n < 2 ^ 53"
  shows "f64_round (of_nat n) = Fin (of_nat n)"
proof (cases "n = 0")
  case False
  let ?e = "leading_exponent (of_nat n)"
  have b: "2 powi ?e \<le> (of_nat n :: rat)" "(of_nat n :: rat) < 2 powi (?e + 1)"
    using leading_exponent_bounds[of "of_nat n"] False by simp_all
  have "(of_nat n :: rat) < of_nat (2 ^ 53)" using assms by (simp only: of_nat_less_iff)
  then have "\<not> (2::rat) powi 53 \<le> 2 powi ?e" using b(1) by simp
  then have e: "?e \<le> 52" unfolding powi_le_iff by simp
  have "(2::rat) powi 0 \<le> of_nat n" using False by simp
  then have "\<not> (2::rat) powi (?e + 1) \<le> 2 powi 0" using b(2) by linarith
  then have "0 \<le> ?e" unfolding powi_le_iff by simp
  then have sp: "spacing (of_nat n) = 2 powi (?e - 52)" by (simp add: spacing_def)
  have "(2::rat) ^ nat (52 - ?e) * 2 powi (?e - 52) = 1"
    using e powi_add[of "52 - ?e" "?e - 52"] by (simp add: power_int_def)
  then have "to_grid (of_nat n) = of_nat n"
    by (intro to_grid_exact[of _ "int n * 2 ^ nat (52 - ?e)"]) (simp add: sp mult.assoc)
  moreover have "(of_nat n :: rat) < 2 ^ 1024"
    using \<open>of_nat n < of_nat (2 ^ 53)\<close> by (rule order.strict_trans) simp
  ultimately show ?thesis by (simp add: f64_round_def)
qed (simp add: f64_round_def to_grid_def)

lemma f64_clamp_range:
  "lo \<le> hi \<Longrightarrow> f64_clamp (Fin x) (Fin lo) (Fin hi) = Fin (max lo (min x hi))"
  by (auto simp: f64_clamp_def)

end
