(* ===== verification/Confidence.thy ===== *)
theory Confidence
  imports Graph_Invariant Float_Arith
begin

text \<open>
  \<open>src/confidence.rs\<close>: the effective confidence of a claim from its corroboration, the classes of it
  and the decay with depth, in the arithmetic of \<open>f64\<close> (\<open>Float_Arith\<close>). The standard library leaves
  the precision of \<open>ln\<close>, \<open>powf\<close> and \<open>powi\<close> open, so these functions are arguments of the model, and the
  properties hold of every choice of them or in terms of how far they are off. \<open>exact_effective\<close> is
  the formula over the reals, the specification the code's result is compared with.
\<close>

section \<open>Classes\<close>

definition VERIFIED_MIN :: rat where
  "VERIFIED_MIN = 3 / 4"

definition PROBABLE_MIN :: rat where
  "PROBABLE_MIN = 3602879701896397 / 9007199254740992"

datatype classification = Candidate | Probable | Verified

definition from_effective :: "f64 \<Rightarrow> classification" where
  "from_effective c_eff =
     (if \<not> f64_is_finite c_eff then Candidate
      else if f64_le (Fin VERIFIED_MIN) c_eff then Verified
      else if f64_le (Fin PROBABLE_MIN) c_eff then Probable
      else Candidate)"

fun classification_rank :: "classification \<Rightarrow> nat" where
  "classification_rank Candidate = 0"
| "classification_rank Probable = 1"
| "classification_rank Verified = 2"

fun classification_str :: "classification \<Rightarrow> str" where
  "classification_str Candidate = ''CANDIDATE''"
| "classification_str Probable = ''PROBABLE''"
| "classification_str Verified = ''VERIFIED''"

section \<open>Effective confidence\<close>

text \<open>The doubles 0.15 and 0.65.\<close>

definition CORROBORATION_COEFF :: rat where
  "CORROBORATION_COEFF = 5404319552844595 / 2 ^ 55"

definition CORROBORATION_DOUBT_DECAY :: rat where
  "CORROBORATION_DOUBT_DECAY = 5854679515581645 / 2 ^ 53"

text \<open>\<open>if x.is_nan() { 0.0 } else { x.clamp(0.0, 1.0) }\<close>\<close>

fun unit_confidence :: "f64 \<Rightarrow> rat" where
  "unit_confidence NaN = 0"
| "unit_confidence NegInf = 0"
| "unit_confidence PosInf = 1"
| "unit_confidence (Fin q) = (if q < 0 then 0 else if q > 1 then 1 else q)"

definition effective :: "(f64 \<Rightarrow> f64) \<Rightarrow> (f64 \<Rightarrow> f64 \<Rightarrow> f64) \<Rightarrow> f64 \<Rightarrow> nat \<Rightarrow> f64" where
  "effective ln64 powf64 confidence sources =
     (let c = Fin (unit_confidence confidence);
          n = Fin (of_nat (max sources 1));
          multiplicative = f64_mul c (f64_mul_add (Fin CORROBORATION_COEFF) (ln64 n) (Fin 1));
          decay = f64_max (Fin CORROBORATION_DOUBT_DECAY) (f64_sub (Fin 1) c);
          agreement = f64_sub (Fin 1) (f64_mul (f64_sub (Fin 1) c) (powf64 decay (f64_sub n (Fin 1))))
      in f64_clamp (f64_max multiplicative agreement) c (Fin 1))"

definition DEFAULT_SEARCH_STATES :: nat where
  "DEFAULT_SEARCH_STATES = 4096"

definition effective_from_ancestry ::
  "(f64 \<Rightarrow> f64) \<Rightarrow> (f64 \<Rightarrow> f64 \<Rightarrow> f64) \<Rightarrow> f64 \<Rightarrow> ancestry_graph \<Rightarrow> str list \<Rightarrow> ancestry_error + f64"
where
  "effective_from_ancestry ln64 powf64 confidence g support =
     (case proven_independent_route_count g support (max (length support) 1) DEFAULT_SEARCH_STATES of
        Inl e \<Rightarrow> Inl e
      | Inr routes \<Rightarrow>
          Inr (effective ln64 powf64 confidence (if proven routes < 2 ^ 32 then proven routes else 2 ^ 32 - 1)))"

definition depth_decayed :: "(f64 \<Rightarrow> nat \<Rightarrow> f64) \<Rightarrow> f64 \<Rightarrow> f64 \<Rightarrow> nat \<Rightarrow> f64 option" where
  "depth_decayed powi64 c_eff base generation =
     (if \<not> (f64_less (Fin 0) base \<and> f64_le base (Fin 1)) then None
      else Some (f64_clamp (f64_mul (Fin (unit_confidence c_eff))
        (powi64 base (if generation < 2 ^ 31 then generation else 2 ^ 31 - 1))) (Fin 0) (Fin 1)))"

section \<open>The range\<close>

lemma unit_confidence_range: "0 \<le> unit_confidence x \<and> unit_confidence x \<le> 1"
  by (cases x) auto

text \<open>Whatever the library functions answer, the result is in range or no number.\<close>

lemma clamped_range:
  "lo \<le> hi \<Longrightarrow> f64_clamp v (Fin lo) (Fin hi) = NaN \<or>
    f64_le (Fin lo) (f64_clamp v (Fin lo) (Fin hi)) \<and> f64_le (f64_clamp v (Fin lo) (Fin hi)) (Fin hi)"
  by (cases v) (auto simp: f64_clamp_def)

lemma effective_range:
  "effective ln64 powf64 x n = NaN \<or>
    f64_le (Fin (unit_confidence x)) (effective ln64 powf64 x n) \<and> f64_le (effective ln64 powf64 x n) (Fin 1)"
  unfolding effective_def Let_def using unit_confidence_range by (intro clamped_range) blast

lemma effective_one_source: "n \<le> 1 \<Longrightarrow> effective ln64 powf64 x n = effective ln64 powf64 x 1"
  by (simp add: effective_def max_def)

lemma depth_decayed_range:
  "depth_decayed powi64 x b g = Some r \<Longrightarrow> r = NaN \<or> f64_le (Fin 0) r \<and> f64_le r (Fin 1)"
  using clamped_range[of 0 1] by (auto simp: depth_decayed_def split: if_splits)

section \<open>Confidence from ancestry\<close>

section \<open>The formula over the reals\<close>

abbreviation unit_real :: "f64 \<Rightarrow> real" where
  "unit_real x \<equiv> real_of_rat (unit_confidence x)"

abbreviation real_coeff :: real where
  "real_coeff \<equiv> real_of_rat CORROBORATION_COEFF"

abbreviation real_decay :: real where
  "real_decay \<equiv> real_of_rat CORROBORATION_DOUBT_DECAY"

text \<open>The specification: the greater of the logarithmic boost and the agreement, between \<open>c\<close> and 1.\<close>

definition log_boost :: "real \<Rightarrow> nat \<Rightarrow> real" where
  "log_boost c n = c * (real_coeff * ln (real n) + 1)"

definition agreement :: "real \<Rightarrow> nat \<Rightarrow> real" where
  "agreement c n = 1 - (1 - c) * max real_decay (1 - c) ^ (n - 1)"

definition exact_effective :: "real \<Rightarrow> nat \<Rightarrow> real" where
  "exact_effective c n = max c (min 1 (max (log_boost c n) (agreement c n)))"

lemma unit_real_range: "0 \<le> unit_real x" "unit_real x \<le> 1"
  using unit_confidence_range[of x] of_rat_less_eq[of "unit_confidence x" 1, where 'a = real] by auto

lemma coeff_value: "real_coeff = 5404319552844595 / 2 ^ 55"
  by (simp add: CORROBORATION_COEFF_def of_rat_divide of_rat_power)

lemma decay_value: "real_decay = 5854679515581645 / 2 ^ 53"
  by (simp add: CORROBORATION_DOUBT_DECAY_def of_rat_divide of_rat_power)

lemma coeff_nonneg: "0 \<le> real_coeff"
  by (simp add: coeff_value)

lemma coeff_le: "real_coeff * \<bar>y\<bar> \<le> \<bar>y\<bar>"
  by (simp add: coeff_value)

lemma decay_range:
  assumes "0 \<le> c" "c \<le> 1"
  shows "0 \<le> max real_decay (1 - c)" "max real_decay (1 - c) \<le> 1"
  using assms by (auto simp: decay_value)

lemma exact_effective_mono:
  assumes c: "0 \<le> c" "c \<le> 1" and kn: "1 \<le> k" "k \<le> n"
  shows "exact_effective c k \<le> exact_effective c n"
proof -
  have "ln (real k) \<le> ln (real n)" using kn by simp
  then have "log_boost c k \<le> log_boost c n"
    unfolding log_boost_def using c by (intro mult_left_mono) (simp_all add: coeff_value)
  moreover have "max real_decay (1 - c) ^ (n - 1) \<le> max real_decay (1 - c) ^ (k - 1)"
    using kn decay_range[OF c] by (intro power_decreasing) auto
  then have "agreement c k \<le> agreement c n"
    unfolding agreement_def using c by (simp add: mult_left_mono)
  ultimately show ?thesis unfolding exact_effective_def by (intro max.mono min.mono) auto
qed

text \<open>The doubt of \<open>n\<close> sources is no less than the product of their doubts.\<close>

lemma exact_effective_doubt:
  assumes c: "0 \<le> c" "c \<le> 1" and n: "1 \<le> n"
  shows "exact_effective c n \<le> max (log_boost c n) (1 - (1 - c) ^ n)"
proof -
  have "(1 - c) ^ (n - 1) \<le> max real_decay (1 - c) ^ (n - 1)" using c by (intro power_mono) auto
  then have "(1 - c) * (1 - c) ^ (n - 1) \<le> (1 - c) * max real_decay (1 - c) ^ (n - 1)"
    using c by (intro mult_left_mono) auto
  moreover have "(1 - c) ^ n = (1 - c) * (1 - c) ^ (n - 1)" using n by (cases n) auto
  ultimately have "agreement c n \<le> 1 - (1 - c) ^ n" by (simp add: agreement_def)
  moreover have "c \<le> log_boost c n"
    unfolding log_boost_def using c n mult_left_mono[of 1 "real_coeff * ln (real n) + 1" c] by (simp add: coeff_value)
  ultimately show ?thesis unfolding exact_effective_def by linarith
qed

lemma exact_effective_one: "0 \<le> c \<Longrightarrow> c \<le> 1 \<Longrightarrow> exact_effective c 1 = c"
  by (simp add: exact_effective_def log_boost_def agreement_def)

section \<open>The rounding of the formula\<close>

declare abs_of_rat [simp del]

lemma f64_round_real:
  assumes "\<bar>real_of_rat q\<bar> \<le> 2 ^ k" "k \<le> 1000"
  shows "\<exists>r. f64_round q = Fin r \<and> \<bar>real_of_rat r - real_of_rat q\<bar> \<le> 2 ^ k / 2 ^ 53"
proof -
  have "real_of_rat \<bar>q\<bar> \<le> real_of_rat (2 ^ k)" using assms(1) by (simp add: of_rat_power abs_of_rat)
  then have "\<bar>q\<bar> \<le> 2 powi int k" by (simp only: of_rat_less_eq power_int_of_nat)
  from f64_round_close[OF this] assms(2) obtain r where
    r: "f64_round q = Fin r" "\<bar>r - q\<bar> \<le> 2 powi (int k - 53)" by auto
  have "real_of_rat \<bar>r - q\<bar> \<le> real_of_rat (2 ^ k / 2 ^ 53)"
    using r(2) by (simp only: of_rat_less_eq) (simp add: power_int_diff)
  then show ?thesis using r(1) by (simp add: of_rat_diff of_rat_divide of_rat_power flip: abs_of_rat)
qed

lemma off_trans:
  fixes a b c :: real
  shows "\<bar>a - b\<bar> \<le> \<epsilon> \<Longrightarrow> \<bar>b - c\<bar> \<le> \<eta> \<Longrightarrow> \<bar>a - c\<bar> \<le> \<epsilon> + \<eta>"
  by linarith

lemma ln_u32: "1 \<le> n \<Longrightarrow> n < 2 ^ 32 \<Longrightarrow> 0 \<le> ln (real n) \<and> ln (real n) \<le> 32"
proof -
  assume n: "1 \<le> n" "n < 2 ^ 32"
  have "ln (real n) \<le> ln ((2::real) ^ 32)" using n by simp
  also have "\<dots> = 32 * ln 2" by (simp only: ln_realpow)
  finally show ?thesis using n ln_2_less_1 by simp
qed

text \<open>The logarithmic term, rounded twice.\<close>

lemma log_boost_rounded:
  assumes n: "1 \<le> n" "n < 2 ^ 32" and l: "\<bar>real_of_rat l - ln (real n)\<bar> \<le> \<delta>" "\<delta> \<le> 1"
    and c: "0 \<le> c" "c \<le> 1"
  shows "\<exists>m. f64_mul (Fin c) (f64_mul_add (Fin CORROBORATION_COEFF) (Fin l) (Fin 1)) = Fin m
    \<and> \<bar>real_of_rat m - log_boost (real_of_rat c) n\<bar> \<le> \<delta> + 16 / 2 ^ 53"
proof -
  let ?c = "real_of_rat c" and ?l = "real_of_rat l"
  have rc: "0 \<le> ?c" "?c \<le> 1" using c by simp_all
  let ?v = "real_of_rat (CORROBORATION_COEFF * l + 1)"
  have v: "?v = real_coeff * ?l + 1" by (simp add: of_rat_add of_rat_mult)
  have "-1 \<le> ?l" "?l \<le> 33" using ln_u32[OF n] l by linarith+
  then have "\<bar>?v\<bar> \<le> 2 ^ 3" unfolding v by (simp add: coeff_value)
  from f64_round_real[OF this] obtain w where
    w: "f64_round (CORROBORATION_COEFF * l + 1) = Fin w" "\<bar>real_of_rat w - ?v\<bar> \<le> 2 ^ 3 / 2 ^ 53" by auto
  have "\<bar>real_of_rat (c * w)\<bar> \<le> 1 * \<bar>real_of_rat w\<bar>"
    unfolding of_rat_mult abs_mult using rc by (intro mult_right_mono) auto
  moreover have "\<bar>?v\<bar> \<le> 6" unfolding v using \<open>-1 \<le> ?l\<close> \<open>?l \<le> 33\<close> by (simp add: coeff_value)
  moreover have "\<bar>real_of_rat w - ?v\<bar> \<le> 1" by (rule order.trans[OF w(2)]) simp
  ultimately have "\<bar>real_of_rat (c * w)\<bar> \<le> 8" by linarith
  then have "\<bar>real_of_rat (c * w)\<bar> \<le> 2 ^ 3" by simp
  from f64_round_real[OF this] obtain m where
    m: "f64_round (c * w) = Fin m" "\<bar>real_of_rat m - real_of_rat (c * w)\<bar> \<le> 2 ^ 3 / 2 ^ 53" by auto
  have "real_of_rat w - (real_coeff * ln (real n) + 1) = (real_of_rat w - ?v) + real_coeff * (?l - ln (real n))"
    unfolding v by (simp add: algebra_simps)
  then have "\<bar>real_of_rat w - (real_coeff * ln (real n) + 1)\<bar> \<le> \<bar>real_of_rat w - ?v\<bar> + real_coeff * \<bar>?l - ln (real n)\<bar>"
    using abs_triangle_ineq[of "real_of_rat w - ?v" "real_coeff * (?l - ln (real n))"]
    by (simp only: abs_mult abs_of_nonneg[OF coeff_nonneg])
  also have "\<dots> \<le> 8 / 2 ^ 53 + \<delta>"
    using w(2) order.trans[OF coeff_le l(1)] by (intro add_mono) simp_all
  finally have d: "\<bar>real_of_rat w - (real_coeff * ln (real n) + 1)\<bar> \<le> 8 / 2 ^ 53 + \<delta>" .
  have "real_of_rat (c * w) - log_boost ?c n = ?c * (real_of_rat w - (real_coeff * ln (real n) + 1))"
    by (simp add: log_boost_def of_rat_mult right_diff_distrib)
  then have "\<bar>real_of_rat (c * w) - log_boost ?c n\<bar> \<le> 8 / 2 ^ 53 + \<delta>"
    using d rc mult_mono[of ?c 1 "\<bar>real_of_rat w - (real_coeff * ln (real n) + 1)\<bar>" "8 / 2 ^ 53 + \<delta>"]
    by (simp add: abs_mult)
  then have "\<bar>real_of_rat m - log_boost ?c n\<bar> \<le> \<delta> + 16 / 2 ^ 53"
    using off_trans[OF m(2)] by fastforce
  then show ?thesis using m(1) w(1) by (auto simp: f64_mul_add_def)
qed


text \<open>A power of at most 1 is as far off as its base is, once for every factor.\<close>

lemma power_off:
  fixes a b :: real
  assumes "0 \<le> a" "a \<le> 1" "0 \<le> b" "b \<le> 1" "\<bar>a - b\<bar> \<le> \<epsilon>"
  shows "\<bar>a ^ k - b ^ k\<bar> \<le> real k * \<epsilon>"
proof -
  have "norm (a ^ k - b ^ k) \<le> real k * norm (a - b)" using assms by (intro norm_power_diff) auto
  also have "\<dots> \<le> real k * \<epsilon>" using assms(5) by (intro mult_left_mono) auto
  finally show ?thesis by simp
qed

lemma product_off:
  fixes a b x y :: real
  assumes "0 \<le> a" "a \<le> 1" "0 \<le> y" "y \<le> 1" "\<bar>a - b\<bar> \<le> \<epsilon>" "\<bar>x - y\<bar> \<le> \<eta>"
  shows "\<bar>a * x - b * y\<bar> \<le> \<epsilon> + \<eta>"
proof -
  have "a * x - b * y = a * (x - y) + (a - b) * y" by (simp add: algebra_simps)
  then have "\<bar>a * x - b * y\<bar> \<le> a * \<bar>x - y\<bar> + \<bar>a - b\<bar> * y"
    using assms abs_triangle_ineq[of "a * (x - y)" "(a - b) * y"] by (simp add: abs_mult)
  also have "\<dots> \<le> 1 * \<eta> + \<epsilon> * 1" using assms by (intro add_mono mult_mono) auto
  finally show ?thesis by simp
qed

lemma max_off:
  fixes a b r :: real
  shows "\<bar>a - b\<bar> \<le> \<epsilon> \<Longrightarrow> \<bar>max r a - max r b\<bar> \<le> \<epsilon>"
  by linarith

text \<open>How far the library's \<open>ln\<close> of \<open>n\<close>, and its \<open>k\<close>-th powers of the doubles up to 1, are off.\<close>

definition ln_within :: "(f64 \<Rightarrow> f64) \<Rightarrow> real \<Rightarrow> nat \<Rightarrow> bool" where
  "ln_within ln64 \<delta> n \<longleftrightarrow>
     (\<exists>l. ln64 (Fin (of_nat n)) = Fin l \<and> \<bar>real_of_rat l - ln (real n)\<bar> \<le> \<delta>)"

definition pow_within :: "(f64 \<Rightarrow> f64 \<Rightarrow> f64) \<Rightarrow> real \<Rightarrow> nat \<Rightarrow> bool" where
  "pow_within powf64 \<delta> k \<longleftrightarrow>
     (\<forall>d. 0 \<le> d \<and> d \<le> 1 \<longrightarrow>
       (\<exists>p. powf64 (Fin d) (Fin (of_nat k)) = Fin p \<and> \<bar>real_of_rat p - real_of_rat d ^ k\<bar> \<le> \<delta>))"

text \<open>The agreement of \<open>k + 1\<close> sources, rounded four times, with a power that is off by \<open>\<delta>\<close>.\<close>

lemma agreement_rounded:
  assumes pow: "pow_within powf64 \<delta> k" and \<delta>: "\<delta> \<le> 1"
    and c: "0 \<le> c" "c \<le> 1"
  shows "\<exists>a. f64_sub (Fin 1) (f64_mul (f64_sub (Fin 1) (Fin c))
      (powf64 (f64_max (Fin CORROBORATION_DOUBT_DECAY) (f64_sub (Fin 1) (Fin c))) (Fin (of_nat k)))) = Fin a
    \<and> \<bar>real_of_rat a - agreement (real_of_rat c) (Suc k)\<bar> \<le> \<delta> + (real k + 8) / 2 ^ 53"
proof -
  let ?c = "real_of_rat c" and ?u = "1 / 2 ^ 53 :: real"
  let ?D = "max real_decay (1 - ?c)"
  have rc: "0 \<le> ?c" "?c \<le> 1" using c by simp_all
  have D: "0 \<le> ?D" "?D \<le> 1" by (rule decay_range[OF rc])+
  have one: "real_of_rat (1 + - c) = 1 - ?c" by (simp add: of_rat_diff)
  from f64_round_unit[of "1 + - c"] c obtain s where
    s: "f64_round (1 + - c) = Fin s" "0 \<le> s" "s \<le> 1" by auto
  from f64_round_real[of "1 + - c" 0] s(1) rc have so: "\<bar>real_of_rat s - (1 - ?c)\<bar> \<le> ?u"
    unfolding one by auto
  have rs: "0 \<le> real_of_rat s" "real_of_rat s \<le> 1" using s(2,3) by simp_all
  define d where "d = (if CORROBORATION_DOUBT_DECAY \<le> s then s else CORROBORATION_DOUBT_DECAY)"
  have dmax: "f64_max (Fin CORROBORATION_DOUBT_DECAY) (Fin s) = Fin d" by (simp add: f64_max_def d_def)
  have d: "0 \<le> d" "d \<le> 1" using s(2,3) by (auto simp: d_def CORROBORATION_DOUBT_DECAY_def)
  have "real_of_rat d = max real_decay (real_of_rat s)" by (auto simp: d_def of_rat_less_eq)
  then have "\<bar>real_of_rat d - ?D\<bar> \<le> ?u" using max_off[OF so, of real_decay] by simp
  from power_off[OF _ _ D this, of k] d have dk: "\<bar>real_of_rat d ^ k - ?D ^ k\<bar> \<le> real k * ?u" by simp
  from pow d obtain p where p: "powf64 (Fin d) (Fin (of_nat k)) = Fin p" "\<bar>real_of_rat p - real_of_rat d ^ k\<bar> \<le> \<delta>"
    unfolding pow_within_def by blast
  have "\<bar>real_of_rat p - ?D ^ k\<bar> \<le> \<delta> + real k * ?u" using dk p(2) by linarith
  moreover have Dk: "0 \<le> ?D ^ k" "?D ^ k \<le> 1" using D by (auto intro: power_le_one)
  ultimately have sp: "\<bar>real_of_rat (s * p) - (1 - ?c) * ?D ^ k\<bar> \<le> ?u + (\<delta> + real k * ?u)"
    unfolding of_rat_mult using product_off[OF rs Dk so] by blast
  have dk1: "0 \<le> real_of_rat d ^ k" "real_of_rat d ^ k \<le> 1" using d by (auto intro: power_le_one)
  then have pb: "\<bar>real_of_rat p\<bar> \<le> 2" using p(2) \<delta> by linarith
  have "\<bar>real_of_rat (s * p)\<bar> \<le> 1 * \<bar>real_of_rat p\<bar>"
    unfolding of_rat_mult abs_mult using rs by (intro mult_right_mono) auto
  then have b: "\<bar>real_of_rat (s * p)\<bar> \<le> 2 ^ 1" using pb by simp
  from f64_round_real[OF b] obtain t where
    t: "f64_round (s * p) = Fin t" "\<bar>real_of_rat t - real_of_rat (s * p)\<bar> \<le> 2 * ?u" by auto
  have "2 * ?u \<le> 1" by simp
  then have tb: "\<bar>real_of_rat t\<bar> \<le> 3" using b t(2) unfolding power_one_right by linarith
  have one': "real_of_rat (1 + - t) = 1 - real_of_rat t" by (simp add: of_rat_diff)
  have "\<bar>real_of_rat (1 + - t)\<bar> \<le> 2 ^ 2" unfolding one' using tb by simp
  from f64_round_real[OF this] obtain a where
    a: "f64_round (1 + - t) = Fin a" "\<bar>real_of_rat a - (1 - real_of_rat t)\<bar> \<le> 4 * ?u" unfolding one' by auto
  have "(real k + 8) / 2 ^ 53 = real k * ?u + 8 * ?u" by (simp add: add_divide_distrib)
  then have "\<bar>real_of_rat a - agreement ?c (Suc k)\<bar> \<le> \<delta> + (real k + 8) / 2 ^ 53"
    using a(2) t(2) sp unfolding agreement_def diff_Suc_1 by linarith
  then show ?thesis using s(1) t(1) a(1) p(1) by (auto simp: f64_sub_def dmax)
qed

text \<open>The greater of two values, clamped, is no further off than they are.\<close>

lemma clamp_off:
  fixes a b x y :: real
  assumes "\<bar>a - x\<bar> \<le> \<epsilon>" "\<bar>b - y\<bar> \<le> \<epsilon>"
  shows "\<bar>max lo (min 1 (max a b)) - max lo (min 1 (max x y))\<bar> \<le> \<epsilon>"
  using assms by linarith

lemma of_rat_max: "real_of_rat (max a b) = max (real_of_rat a) (real_of_rat b)"
  by (simp add: max_def of_rat_less_eq)

lemma of_rat_min: "real_of_rat (min a b) = min (real_of_rat a) (real_of_rat b)"
  by (simp add: min_def of_rat_less_eq)

definition rounding_loss :: "nat \<Rightarrow> real" where
  "rounding_loss n = (real n + 15) / 2 ^ 53"

lemma rounding_loss_1: "rounding_loss 1 = 1 / 2 ^ 49"
  by (simp add: rounding_loss_def)

lemma effective_close:
  assumes n: "1 \<le> n" "n < 2 ^ 32" and \<delta>: "\<delta> \<le> 1"
    and lib: "ln_within ln64 \<delta> n" "pow_within powf64 \<delta> (n - 1)"
  shows "\<exists>e. effective ln64 powf64 x n = Fin e \<and> unit_confidence x \<le> e \<and> e \<le> 1
    \<and> \<bar>real_of_rat e - exact_effective (unit_real x) n\<bar> \<le> \<delta> + rounding_loss n"
proof -
  let ?c = "unit_confidence x"
  have c: "0 \<le> ?c" "?c \<le> 1" using unit_confidence_range by blast+
  from lib(1) obtain l where l: "ln64 (Fin (of_nat n)) = Fin l" "\<bar>real_of_rat l - ln (real n)\<bar> \<le> \<delta>"
    unfolding ln_within_def by blast
  from log_boost_rounded[OF n l(2) \<delta> c] obtain m where
    m: "f64_mul (Fin ?c) (f64_mul_add (Fin CORROBORATION_COEFF) (Fin l) (Fin 1)) = Fin m"
      "\<bar>real_of_rat m - log_boost (unit_real x) n\<bar> \<le> \<delta> + 16 / 2 ^ 53" by blast
  have Suc: "Suc (n - 1) = n" "real (n - 1) = real n - 1" using n(1) by auto
  from agreement_rounded[OF lib(2) \<delta> c] obtain a where
    a: "f64_sub (Fin 1) (f64_mul (f64_sub (Fin 1) (Fin ?c))
        (powf64 (f64_max (Fin CORROBORATION_DOUBT_DECAY) (f64_sub (Fin 1) (Fin ?c))) (Fin (of_nat (n - 1))))) = Fin a"
      "\<bar>real_of_rat a - agreement (unit_real x) n\<bar> \<le> \<delta> + (7 + real n) / 2 ^ 53" unfolding Suc by auto
  have "f64_sub (Fin (of_nat n)) (Fin 1) = Fin (of_nat (n - 1))"
    using f64_round_nat[of "n - 1"] n by (simp add: f64_sub_def of_nat_diff)
  then have e: "effective ln64 powf64 x n = Fin (max ?c (min 1 (max m a)))"
    using n(1) l(1) m(1) a(1) f64_clamp_range[OF c(2), of "max m a"]
    by (simp add: effective_def max_absorb1 f64_max_def max_def[of m a] min.commute split: if_splits)
  have "16 / 2 ^ 53 \<le> rounding_loss n" "(7 + real n) / 2 ^ 53 \<le> rounding_loss n"
    using n(1) unfolding rounding_loss_def by (intro divide_right_mono; simp)+
  with m(2) a(2) have "\<bar>real_of_rat m - log_boost (unit_real x) n\<bar> \<le> \<delta> + rounding_loss n"
    "\<bar>real_of_rat a - agreement (unit_real x) n\<bar> \<le> \<delta> + rounding_loss n" by linarith+
  then have "\<bar>real_of_rat (max ?c (min 1 (max m a))) - exact_effective (unit_real x) n\<bar> \<le> \<delta> + rounding_loss n"
    unfolding of_rat_max of_rat_min exact_effective_def of_rat_1 by (rule clamp_off)
  with e c show ?thesis by auto
qed

lemma one_source_close:
  assumes "ln64 (Fin 1) = Fin 0" "\<forall>d. powf64 (Fin d) (Fin 0) = Fin 1"
  shows "\<exists>q. effective ln64 powf64 x 1 = Fin q \<and> unit_confidence x \<le> q \<and> real_of_rat q \<le> unit_real x + 1 / 2 ^ 49"
proof -
  have "\<exists>e. effective ln64 powf64 x 1 = Fin e \<and> unit_confidence x \<le> e \<and> e \<le> 1
    \<and> \<bar>real_of_rat e - exact_effective (unit_real x) 1\<bar> \<le> 0 + rounding_loss 1"
    by (rule effective_close) (simp_all add: assms ln_within_def pow_within_def)
  then obtain e where e: "effective ln64 powf64 x 1 = Fin e" "unit_confidence x \<le> e"
    "\<bar>real_of_rat e - unit_real x\<bar> \<le> 0 + 1 / 2 ^ 49"
    unfolding rounding_loss_1 exact_effective_one[OF unit_real_range] by blast
  then have "real_of_rat e \<le> unit_real x + 1 / 2 ^ 49" by linarith
  with e show ?thesis by blast
qed

text \<open>C35: In the arithmetic of doubles, where the library's \<open>ln\<close> of the number of sources and its powers of
  a doubt are within \<open>\<delta>\<close> of the real ones: the effective confidence is a number, at least the
  confidence and at most one; it is the formula over the reals up to \<open>\<delta>\<close> and a rounding loss of
  \<open>n + 15\<close> units of \<open>2 ^ - 53\<close>. Up to that, a further source never lowers it, and weak sources cannot
  compound beyond the doubt of \<open>n\<close> independent ones or the logarithmic term; one source, with exact
  library values, leaves the confidence as it is up to \<open>2 ^ - 49\<close>.\<close>

theorem effective_confidence_sound:
  assumes "1 \<le> n" "n < 2 ^ 32" "\<delta> \<le> 1"
    and "ln_within ln64 \<delta> n" "pow_within powf64 \<delta> (n - 1)"
  shows "\<exists>e. effective ln64 powf64 x n = Fin e \<and> unit_confidence x \<le> e \<and> e \<le> 1
    \<and> \<bar>real_of_rat e - exact_effective (unit_real x) n\<bar> \<le> \<delta> + rounding_loss n
    \<and> (1 \<le> k \<and> k \<le> n \<longrightarrow> exact_effective (unit_real x) k \<le> real_of_rat e + \<delta> + rounding_loss n)
    \<and> real_of_rat e \<le> max (log_boost (unit_real x) n) (1 - (1 - unit_real x) ^ n) + \<delta> + rounding_loss n
    \<and> (n = 1 \<and> \<delta> = 0 \<longrightarrow> real_of_rat e \<le> unit_real x + 1 / 2 ^ 49)"
proof -
  from effective_close[OF assms] obtain e where
    e: "effective ln64 powf64 x n = Fin e" "unit_confidence x \<le> e" "e \<le> 1"
      "\<bar>real_of_rat e - exact_effective (unit_real x) n\<bar> \<le> \<delta> + rounding_loss n" by blast
  note c = unit_real_range[of x]
  have "exact_effective (unit_real x) k \<le> real_of_rat e + \<delta> + rounding_loss n" if "1 \<le> k \<and> k \<le> n"
    using exact_effective_mono[OF c, of k n] that e(4) by linarith
  moreover have "real_of_rat e \<le> max (log_boost (unit_real x) n) (1 - (1 - unit_real x) ^ n) + \<delta> + rounding_loss n"
    using exact_effective_doubt[OF c assms(1)] e(4) by linarith
  moreover have "real_of_rat e \<le> unit_real x + 1 / 2 ^ 49" if "n = 1 \<and> \<delta> = 0"
  proof -
    have "\<bar>real_of_rat e - unit_real x\<bar> \<le> 0 + 1 / 2 ^ 49"
      using e(4) that by (simp only: exact_effective_one[OF c] rounding_loss_1)
    then show ?thesis by linarith
  qed
  ultimately show ?thesis using e by blast
qed

text \<open>A library exact at one source: \<open>ln 1 = 0\<close> and the power 0 of anything is 1.\<close>

theorem effective_confidence_sound_witness:
  "\<exists>e. effective (\<lambda>_. Fin 0) (\<lambda>_ _. Fin 1) (Fin (5404319552844595 / 2 ^ 54)) 1 = Fin e
     \<and> 5404319552844595 / 2 ^ 54 \<le> e \<and> real_of_rat e \<le> 5404319552844595 / 2 ^ 54 + 1 / 2 ^ 49"
  using effective_confidence_sound[of 1 0 "\<lambda>_. Fin 0" "\<lambda>_ _. Fin 1" "Fin (5404319552844595 / 2 ^ 54)" 1]
  by (auto simp: of_rat_divide of_rat_power ln_within_def pow_within_def)

section \<open>Confidence from ancestry\<close>

lemma ancestry_routes:
  assumes "effective_from_ancestry ln64 powf64 x g support = Inr e"
  shows "\<exists>R \<subseteq> supporting_roots g support. mutually_recorded g R \<and> e = effective ln64 powf64 x (card R)"
proof -
  obtain rc where rc: "proven_independent_route_count g support (max (length support) 1) DEFAULT_SEARCH_STATES = Inr rc"
    and e: "e = effective ln64 powf64 x (if proven rc < 2 ^ 32 then proven rc else 2 ^ 32 - 1)"
    using assms by (auto simp: effective_from_ancestry_def split: sum.splits)
  from route_count_total(2)[OF rc] obtain R where R: "R \<subseteq> supporting_roots g support" "card R = proven rc" "mutually_recorded g R"
    by (auto simp: route_count_ok_def)
  define k where "k = (if proven rc < 2 ^ 32 then proven rc else 2 ^ 32 - 1)"
  have "k \<le> card R" unfolding k_def R(2) by simp
  from obtain_subset_with_card_n[OF this] obtain S where S: "S \<subseteq> R" "card S = k" by blast
  have "S \<subseteq> supporting_roots g support" "mutually_recorded g S"
    using S(1) R(1) mutually_recorded_subset[OF R(3) S(1)] by auto
  with S(2) e show ?thesis unfolding k_def[symmetric] by blast
qed

text \<open>C8: The confidence a support earns is the effective confidence of a number of its observed roots that
  are pairwise recorded as independent, whatever the library's \<open>ln\<close> and \<open>powf\<close> answer. So without a
  record between two of its roots, however many sources the support names, it earns exactly what one
  source does, which with exact library values is its confidence up to \<open>2 ^ - 49\<close>; and support with a
  missing node or a cycle in its ancestry is an error.\<close>

theorem ancestry_confidence_sound:
  "case effective_from_ancestry ln64 powf64 x g support of
     Inl _ \<Rightarrow> \<exists>i \<in> set support. \<not> sound_ancestry (nodes g) i
   | Inr e \<Rightarrow> list_all (sound_ancestry (nodes g)) support
       \<and> (e = NaN \<or> f64_le (Fin (unit_confidence x)) e \<and> f64_le e (Fin 1))
       \<and> (\<exists>R. R \<subseteq> supporting_roots g support \<and> mutually_recorded g R \<and> e = effective ln64 powf64 x (card R))
       \<and> ((\<nexists>r s. r \<in> supporting_roots g support \<and> s \<in> supporting_roots g support \<and> r \<noteq> s \<and> recorded g r s)
          \<longrightarrow> e = effective ln64 powf64 x 1
            \<and> (ln64 (Fin 1) = Fin 0 \<and> (\<forall>d. powf64 (Fin d) (Fin 0) = Fin 1)
               \<longrightarrow> (\<exists>q. e = Fin q \<and> unit_confidence x \<le> q \<and> real_of_rat q \<le> unit_real x + 1 / 2 ^ 49)))"
proof (cases "effective_from_ancestry ln64 powf64 x g support")
  case (Inl e)
  then have "\<not> (\<exists>rc. proven_independent_route_count g support (max (length support) 1) DEFAULT_SEARCH_STATES = Inr rc)"
    by (auto simp: effective_from_ancestry_def split: sum.splits)
  then show ?thesis using route_count_total(1)[of g support "max (length support) 1" DEFAULT_SEARCH_STATES] Inl by auto
next
  case (Inr e)
  then obtain rc where "proven_independent_route_count g support (max (length support) 1) DEFAULT_SEARCH_STATES = Inr rc"
    by (auto simp: effective_from_ancestry_def split: sum.splits)
  then have sound: "list_all (sound_ancestry (nodes g)) support"
    using route_count_total(1)[of g support "max (length support) 1" DEFAULT_SEARCH_STATES] by (auto simp: list_all_iff)
  from ancestry_routes[OF Inr] obtain R where
    R: "R \<subseteq> supporting_roots g support" "mutually_recorded g R" "e = effective ln64 powf64 x (card R)" by blast
  have "e = effective ln64 powf64 x 1"
    if none: "\<nexists>r s. r \<in> supporting_roots g support \<and> s \<in> supporting_roots g support \<and> r \<noteq> s \<and> recorded g r s"
  proof -
    have "r = s" if "r \<in> R" "s \<in> R" for r s
      using that R(1,2) none unfolding mutually_recorded_def by blast
    then have "card R \<le> 1"
      by (cases "finite R") (simp_all add: card_le_Suc0_iff_eq)
    then show ?thesis unfolding R(3) by (rule effective_one_source)
  qed
  with Inr sound R effective_range[of ln64 powf64 x "card R"] one_source_close[of ln64 powf64 x]
  show ?thesis by auto
qed

theorem ancestry_confidence_sound_witness:
  "case effective_from_ancestry (\<lambda>_. Fin 0) (\<lambda>_ _. Fin 1) (Fin (1 / 2)) demo [''mirror''] of
     Inl _ \<Rightarrow> False
   | Inr e \<Rightarrow> list_all (sound_ancestry (nodes demo)) [''mirror''] \<and> f64_le (Fin (1 / 2)) e \<and> f64_le e (Fin 1)"
proof -
  have routes: "proven_independent_route_count demo [''mirror''] 1 4096 = Inr \<lparr>proven = 1, incomplete = False\<rparr>" by code_simp
  obtain q where q: "effective (\<lambda>_. Fin 0) (\<lambda>_ _. Fin 1) (Fin (1 / 2)) 1 = Fin q"
    using one_source_close[of "\<lambda>_. Fin 0" "\<lambda>_ _. Fin 1" "Fin (1 / 2)"] by auto
  have "effective_from_ancestry (\<lambda>_. Fin 0) (\<lambda>_ _. Fin 1) (Fin (1 / 2)) demo [''mirror''] = Inr (Fin q)"
    using routes q by (simp add: effective_from_ancestry_def DEFAULT_SEARCH_STATES_def)
  then show ?thesis
    using ancestry_confidence_sound[where ?ln64.0 = "\<lambda>_. Fin 0" and ?powf64.0 = "\<lambda>_ _. Fin 1" and x = "Fin (1 / 2)"
        and g = demo and support = "[''mirror'']"] by simp
qed

end
