(* ===== verification/Mail_Policy.thy ===== *)
theory Mail_Policy
  imports Netblock
begin

text \<open>
  \<open>src/spf.rs\<close> and \<open>src/dmarc.rs\<close>: parsing and analysis of a domain's mail policies, with the two
  readers of \<open>src/value_syntax.rs\<close> they use. Each parser is a fold of one step over the terms or tags
  of the record.
\<close>

section \<open>Tags\<close>

definition record_tag :: "str \<Rightarrow> (str \<times> str) option" where
  "record_tag raw =
     (case split_once CHR ''='' (trim raw) of
        None \<Rightarrow> None
      | Some (name, value) \<Rightarrow>
          (if trim name = [] then None else Some (to_ascii_lowercase (trim name), trim value)))"

text \<open>A slice at seven bytes that reads as the scheme ends at a character.\<close>

definition mailbox_of :: "str \<Rightarrow> str option" where
  "mailbox_of entry =
     (let trimmed = trim entry in
      if length trimmed < 7 \<or> \<not> eq_ignore_ascii_case (take 7 trimmed) ''mailto:'' then None
      else
        (let addr = trim (hd (split_on CHR ''!'' (drop 7 trimmed))) in
         if CHR ''@'' \<in> set addr \<and> length addr \<ge> 5 then Some addr else None))"

definition parse_mailto_list :: "str \<Rightarrow> str list" where
  "parse_mailto_list raw = List.map_filter mailbox_of (split_on CHR '','' raw)"

section \<open>SPF\<close>

definition is_spf :: "str \<Rightarrow> bool" where
  "is_spf txt \<longleftrightarrow>
     (length txt \<ge> 6 \<and> eq_ignore_ascii_case (take 6 txt) ''v=spf1'')
     \<and> (length txt > 6 \<longrightarrow> txt ! 6 = CHR '' '')"

datatype qualifier = QPass | QFail | QSoftFail | QNeutral

datatype mechanism =
    M_all | M_include str | M_a "str option" | M_mx "str option" | M_ptr "str option" | M_exists str
  | M_ip4 ipv4_cidr | M_ip6 ipv6_cidr

datatype all_policy_verdict = HardFail | SoftFail | Neutral | PassAll | Redirect | ImplicitNeutral

fun all_policy_tag :: "all_policy_verdict \<Rightarrow> str" where
  "all_policy_tag HardFail = ''spf:hardfail''"
| "all_policy_tag SoftFail = ''spf:softfail''"
| "all_policy_tag Neutral = ''spf:neutral''"
| "all_policy_tag PassAll = ''spf:pass-all''"
| "all_policy_tag Redirect = ''spf:redirect-policy''"
| "all_policy_tag ImplicitNeutral = ''spf:implicit-neutral''"

datatype spf_issue =
    OpenPolicy | WeakPolicy | ExceedsLookupLimit nat | DeprecatedPtr | MacrosPresent
  | UnreachableMechanisms nat | SyntaxErrors nat

fun spf_issue_tag :: "spf_issue \<Rightarrow> str" where
  "spf_issue_tag OpenPolicy = ''spf:open-policy''"
| "spf_issue_tag WeakPolicy = ''spf:weak-policy''"
| "spf_issue_tag (ExceedsLookupLimit _) = ''spf:too-many-lookups''"
| "spf_issue_tag DeprecatedPtr = ''spf:deprecated-ptr''"
| "spf_issue_tag MacrosPresent = ''spf:macros''"
| "spf_issue_tag (UnreachableMechanisms _) = ''spf:unreachable-mechanisms''"
| "spf_issue_tag (SyntaxErrors _) = ''spf:syntax-error''"

record spf_record =
  directives :: "(qualifier \<times> mechanism) list"
  redirect :: "str option"
  explanation :: "str option"
  has_macros :: bool
  unknown_modifiers :: nat
  invalid_terms :: "str list"

definition spf_default :: spf_record where
  "spf_default = \<lparr>directives = [], redirect = None, explanation = None, has_macros = False,
     unknown_modifiers = 0, invalid_terms = []\<rparr>"

definition ci_strip :: "str \<Rightarrow> str \<Rightarrow> str option" where
  "ci_strip value prefix =
     (if length value \<ge> length prefix \<and> eq_ignore_ascii_case (take (length prefix) value) prefix
      then Some (drop (length prefix) value) else None)"

definition tail_domain :: "str \<Rightarrow> str option" where
  "tail_domain rest =
     (case strip_prefix '':'' rest of
        None \<Rightarrow> None
      | Some d \<Rightarrow> (let domain = hd (split_on CHR ''/'' d) in if domain = [] then None else Some domain))"

definition ends_or_starts :: "char list \<Rightarrow> str \<Rightarrow> bool" where
  "ends_or_starts cs rest = (case rest of [] \<Rightarrow> True | c # _ \<Rightarrow> c \<in> set cs)"

text \<open>The arms for \<open>mx\<close>, \<open>ptr\<close> and \<open>a\<close>, which fall through when something else follows the name.\<close>

definition named_mechanism :: "str \<Rightarrow> char list \<Rightarrow> (str option \<Rightarrow> mechanism) \<Rightarrow> str \<Rightarrow> mechanism option" where
  "named_mechanism name follow build_mech raw =
     (case ci_strip raw name of
        Some rest \<Rightarrow> if ends_or_starts follow rest then Some (build_mech (tail_domain rest)) else None
      | None \<Rightarrow> None)"

definition parse_mechanism :: "str \<Rightarrow> mechanism option" where
  "parse_mechanism raw =
     (if eq_ignore_ascii_case raw ''all'' then Some M_all
      else case ci_strip raw ''include:'' of
        Some value \<Rightarrow> if value \<noteq> [] then Some (M_include value) else None
      | None \<Rightarrow> (case ci_strip raw ''exists:'' of
        Some value \<Rightarrow> if value \<noteq> [] then Some (M_exists value) else None
      | None \<Rightarrow> (case ci_strip raw ''ip4:'' of
        Some value \<Rightarrow> map_option M_ip4 (ipv4_parse value)
      | None \<Rightarrow> (case ci_strip raw ''ip6:'' of
        Some value \<Rightarrow> map_option M_ip6 (ipv6_parse value)
      | None \<Rightarrow> (case named_mechanism ''mx'' '':/'' M_mx raw of
        Some m \<Rightarrow> Some m
      | None \<Rightarrow> (case named_mechanism ''ptr'' '':'' M_ptr raw of
        Some m \<Rightarrow> Some m
      | None \<Rightarrow> named_mechanism ''a'' '':/'' M_a raw))))))"

text \<open>A term that reads as a modifier.\<close>

definition modifier_of :: "str \<Rightarrow> (str \<times> str) option" where
  "modifier_of term =
     (case record_tag term of
        Some (name, value) \<Rightarrow>
          if name \<noteq> [] \<and> list_all (\<lambda>b. is_ascii_alphanumeric b \<or> b = CHR ''-'' \<or> b = CHR ''_'') name
          then Some (name, value) else None
      | None \<Rightarrow> None)"

definition qualifier_of :: "str \<Rightarrow> qualifier \<times> str" where
  "qualifier_of term =
     (case term of
        c # r \<Rightarrow>
          if c = CHR ''+'' then (QPass, r)
          else if c = CHR ''-'' then (QFail, r)
          else if c = CHR ''~'' then (QSoftFail, r)
          else if c = CHR ''?'' then (QNeutral, r)
          else (QPass, term)
      | [] \<Rightarrow> (QPass, term))"

definition spf_term :: "str \<Rightarrow> spf_record \<Rightarrow> spf_record" where
  "spf_term term rec =
     (case modifier_of term of
        Some (name, value) \<Rightarrow>
          (let rec1 = (if CHR ''%'' \<in> set value then rec\<lparr>has_macros := True\<rparr> else rec);
               key = to_ascii_lowercase name
           in if key = ''redirect'' then rec1\<lparr>redirect := Some value\<rparr>
              else if key = ''exp'' then rec1\<lparr>explanation := Some value\<rparr>
              else rec1\<lparr>unknown_modifiers := unknown_modifiers rec1 + 1\<rparr>)
      | None \<Rightarrow>
          (let (q, text) = qualifier_of term;
               rec1 = (if CHR ''%'' \<in> set text then rec\<lparr>has_macros := True\<rparr> else rec)
           in case parse_mechanism text of
                Some m \<Rightarrow> rec1\<lparr>directives := directives rec1 @ [(q, m)]\<rparr>
              | None \<Rightarrow> rec1\<lparr>invalid_terms := invalid_terms rec1 @ [term]\<rparr>))"

definition spf_parse :: "str \<Rightarrow> spf_record option" where
  "spf_parse txt =
     (if \<not> is_spf txt then None else Some (fold spf_term (drop 1 (split_whitespace txt)) spf_default))"

fun first_all :: "(qualifier \<times> mechanism) list \<Rightarrow> qualifier option" where
  "first_all [] = None"
| "first_all ((q, m) # ds) = (if m = M_all then Some q else first_all ds)"

definition all_policy :: "spf_record \<Rightarrow> all_policy_verdict" where
  "all_policy r =
     (case first_all (directives r) of
        Some QPass \<Rightarrow> PassAll
      | Some QFail \<Rightarrow> HardFail
      | Some QSoftFail \<Rightarrow> SoftFail
      | Some QNeutral \<Rightarrow> Neutral
      | None \<Rightarrow> if redirect r \<noteq> None then Redirect else ImplicitNeutral)"

fun needs_lookup :: "mechanism \<Rightarrow> bool" where
  "needs_lookup (M_include _) = True"
| "needs_lookup (M_a _) = True"
| "needs_lookup (M_mx _) = True"
| "needs_lookup (M_ptr _) = True"
| "needs_lookup (M_exists _) = True"
| "needs_lookup _ = False"

definition dns_lookup_count :: "spf_record \<Rightarrow> nat" where
  "dns_lookup_count r =
     length (filter (\<lambda>(_, m). needs_lookup m) (directives r)) + (if redirect r \<noteq> None then 1 else 0)"

fun is_ptr :: "mechanism \<Rightarrow> bool" where
  "is_ptr (M_ptr _) = True"
| "is_ptr _ = False"

fun all_position :: "(qualifier \<times> mechanism) list \<Rightarrow> nat option" where
  "all_position [] = None"
| "all_position ((_, m) # ds) = (if m = M_all then Some 0 else map_option Suc (all_position ds))"

definition spf_issues :: "spf_record \<Rightarrow> spf_issue list" where
  "spf_issues r =
     (case all_policy r of
        PassAll \<Rightarrow> [OpenPolicy]
      | Neutral \<Rightarrow> [WeakPolicy]
      | ImplicitNeutral \<Rightarrow> [WeakPolicy]
      | _ \<Rightarrow> [])
     @ (if dns_lookup_count r > 10 then [ExceedsLookupLimit (dns_lookup_count r)] else [])
     @ (if list_ex (\<lambda>(_, m). is_ptr m) (directives r) then [DeprecatedPtr] else [])
     @ (if has_macros r then [MacrosPresent] else [])
     @ (case all_position (directives r) of
          Some index \<Rightarrow>
            (let after = length (directives r) - (index + 1)
             in if after > 0 then [UnreachableMechanisms after] else [])
        | None \<Rightarrow> [])
     @ (if invalid_terms r \<noteq> [] then [SyntaxErrors (length (invalid_terms r))] else [])"

section \<open>DMARC\<close>

definition is_dmarc :: "str \<Rightarrow> bool" where
  "is_dmarc txt =
     (case record_tag (hd (split_on CHR '';'' txt)) of
        Some (name, value) \<Rightarrow> name = ''v'' \<and> eq_ignore_ascii_case value ''DMARC1''
      | None \<Rightarrow> False)"

datatype dmarc_policy = PolicyNone | Quarantine | Reject

fun dmarc_policy_tag :: "dmarc_policy \<Rightarrow> str" where
  "dmarc_policy_tag PolicyNone = ''dmarc:none''"
| "dmarc_policy_tag Quarantine = ''dmarc:quarantine''"
| "dmarc_policy_tag Reject = ''dmarc:reject''"

definition parse_policy :: "str \<Rightarrow> dmarc_policy option" where
  "parse_policy raw =
     (let s = to_ascii_lowercase (trim raw) in
      if s = ''none'' then Some PolicyNone
      else if s = ''quarantine'' then Some Quarantine
      else if s = ''reject'' then Some Reject
      else None)"

datatype alignment_mode = Relaxed | Strict

definition parse_alignment :: "str \<Rightarrow> alignment_mode option" where
  "parse_alignment raw =
     (let s = to_ascii_lowercase (trim raw) in
      if s = ''r'' then Some Relaxed else if s = ''s'' then Some Strict else None)"

datatype dmarc_issue =
    NoEnforcement | PartialCoverage nat | SubdomainUnprotected | NoAggregateReports | MissingPolicy

fun dmarc_issue_tag :: "dmarc_issue \<Rightarrow> str" where
  "dmarc_issue_tag NoEnforcement = ''dmarc:no-enforcement''"
| "dmarc_issue_tag (PartialCoverage _) = ''dmarc:partial-coverage''"
| "dmarc_issue_tag SubdomainUnprotected = ''dmarc:subdomain-unprotected''"
| "dmarc_issue_tag NoAggregateReports = ''dmarc:no-aggregate-reports''"
| "dmarc_issue_tag MissingPolicy = ''dmarc:missing-policy''"

record dmarc_record =
  dpolicy :: "dmarc_policy option"
  sp :: "dmarc_policy option"
  pct :: nat
  adkim :: alignment_mode
  aspf :: alignment_mode
  rua :: "str list"
  ruf :: "str list"
  fo :: "str option"
  ri :: nat
  rf :: "str option"

definition dmarc_default :: dmarc_record where
  "dmarc_default = \<lparr>dpolicy = None, sp = None, pct = 100, adkim = Relaxed, aspf = Relaxed, rua = [],
     ruf = [], fo = None, ri = 86400, rf = None\<rparr>"

text \<open>A tag whose first valid value is kept: skipped once seen, and seen once a value parsed.\<close>

definition keep_valid :: "str \<Rightarrow> 'a option \<Rightarrow> ('a \<Rightarrow> dmarc_record \<Rightarrow> dmarc_record)
    \<Rightarrow> dmarc_record \<times> str list \<Rightarrow> dmarc_record \<times> str list" where
  "keep_valid name parsed set_field st =
     (case st of (rec, seen) \<Rightarrow>
        if List.member seen name then st
        else (case parsed of Some v \<Rightarrow> (set_field v rec, bset_insert name seen) | None \<Rightarrow> st))"

definition parse_pct :: "str \<Rightarrow> nat option" where
  "parse_pct value =
     (case parse_unsigned 255 (trim value) of Some n \<Rightarrow> if n \<le> 100 then Some n else None | None \<Rightarrow> None)"

definition parse_ri :: "str \<Rightarrow> nat option" where
  "parse_ri value = parse_unsigned (2 ^ 32 - 1) (trim value)"

text \<open>One tag, by its name.\<close>

definition dmarc_named :: "str \<Rightarrow> str \<Rightarrow> dmarc_record \<times> str list \<Rightarrow> dmarc_record \<times> str list" where
  "dmarc_named name value st =
     (if name = ''v'' then (fst st, bset_insert name (snd st))
      else if name = ''p'' then keep_valid name (parse_policy value) (\<lambda>v. dpolicy_update (\<lambda>_. Some v)) st
      else if name = ''sp'' then keep_valid name (parse_policy value) (\<lambda>v. sp_update (\<lambda>_. Some v)) st
      else if name = ''pct'' then keep_valid name (parse_pct value) (\<lambda>v. pct_update (\<lambda>_. v)) st
      else if name = ''adkim'' then keep_valid name (parse_alignment value) (\<lambda>v. adkim_update (\<lambda>_. v)) st
      else if name = ''aspf'' then keep_valid name (parse_alignment value) (\<lambda>v. aspf_update (\<lambda>_. v)) st
      else if name = ''rua'' then keep_valid name (Some (parse_mailto_list value)) (\<lambda>v. rua_update (\<lambda>_. v)) st
      else if name = ''ruf'' then keep_valid name (Some (parse_mailto_list value)) (\<lambda>v. ruf_update (\<lambda>_. v)) st
      else if name = ''fo'' then keep_valid name (Some (trim value)) (\<lambda>v. fo_update (\<lambda>_. Some v)) st
      else if name = ''ri'' then keep_valid name (parse_ri value) (\<lambda>v. ri_update (\<lambda>_. v)) st
      else if name = ''rf'' then keep_valid name (Some (trim value)) (\<lambda>v. rf_update (\<lambda>_. Some v)) st
      else st)"

definition dmarc_tag :: "str \<Rightarrow> dmarc_record \<times> str list \<Rightarrow> dmarc_record \<times> str list" where
  "dmarc_tag raw_tag st =
     (case record_tag raw_tag of None \<Rightarrow> st | Some (name, value) \<Rightarrow> dmarc_named name value st)"

definition dmarc_parse :: "str \<Rightarrow> dmarc_record option" where
  "dmarc_parse txt =
     (if \<not> is_dmarc txt then None
      else Some (fst (fold dmarc_tag (split_on CHR '';'' txt) (dmarc_default, []))))"

definition dmarc_issues :: "dmarc_record \<Rightarrow> dmarc_issue list" where
  "dmarc_issues r =
     (case dpolicy r of
        None \<Rightarrow> [MissingPolicy]
      | Some PolicyNone \<Rightarrow>
          NoEnforcement # (if sp r = None \<or> sp r = Some PolicyNone then [SubdomainUnprotected] else [])
      | Some _ \<Rightarrow> if sp r = Some PolicyNone then [SubdomainUnprotected] else [])
     @ (if pct r < 100 then [PartialCoverage (pct r)] else [])
     @ (if rua r = [] then [NoAggregateReports] else [])"

end
