(* ===== verification/Mail_Policy_Correct.thy ===== *)
theory Mail_Policy_Correct
  imports Mail_Policy
begin

text \<open>
  The parsers of the mail policies against declarative readings of the record: every term of an SPF
  record is a directive, a modifier or an invalid term, and the verdicts follow from the first
  \<open>all\<close>; every field of a DMARC record is its first valid tag.
\<close>

section \<open>SPF terms\<close>

definition directive_of :: "str \<Rightarrow> (qualifier \<times> mechanism) option" where
  "directive_of term =
     (if modifier_of term \<noteq> None then None
      else map_option (Pair (fst (qualifier_of term))) (parse_mechanism (snd (qualifier_of term))))"

definition is_invalid_term :: "str \<Rightarrow> bool" where
  "is_invalid_term term \<longleftrightarrow> modifier_of term = None \<and> directive_of term = None"

definition named_modifier :: "str \<Rightarrow> str \<Rightarrow> str option" where
  "named_modifier key term =
     (case modifier_of term of
        Some (name, value) \<Rightarrow> if to_ascii_lowercase name = key then Some value else None
      | None \<Rightarrow> None)"

definition last_of :: "'a list \<Rightarrow> 'a option" where
  "last_of xs = (if xs = [] then None else Some (last xs))"

definition is_unknown_modifier :: "str \<Rightarrow> bool" where
  "is_unknown_modifier term \<longleftrightarrow> modifier_of term \<noteq> None
     \<and> named_modifier ''redirect'' term = None \<and> named_modifier ''exp'' term = None"

lemma map_filter_snoc: "List.map_filter f (xs @ [x]) = List.map_filter f xs @ (case f x of Some y \<Rightarrow> [y] | None \<Rightarrow> [])"
  by (simp add: map_filter_def split: option.split)

lemma spf_term_mod:
  assumes "modifier_of t = Some (name, value)"
  shows "directives (spf_term t r) = directives r" "invalid_terms (spf_term t r) = invalid_terms r"
    "redirect (spf_term t r) = (if to_ascii_lowercase name = ''redirect'' then Some value else redirect r)"
    "explanation (spf_term t r) = (if to_ascii_lowercase name = ''exp'' then Some value else explanation r)"
    "unknown_modifiers (spf_term t r) = unknown_modifiers r
       + (if to_ascii_lowercase name = ''redirect'' \<or> to_ascii_lowercase name = ''exp'' then 0 else 1)"
  using assms by (simp_all add: spf_term_def Let_def)

lemma spf_term_dir:
  assumes "modifier_of t = None"
  shows "directives (spf_term t r) = directives r @ (case directive_of t of Some d \<Rightarrow> [d] | None \<Rightarrow> [])"
    "invalid_terms (spf_term t r) = invalid_terms r @ (if directive_of t = None then [t] else [])"
    "redirect (spf_term t r) = redirect r" "explanation (spf_term t r) = explanation r"
    "unknown_modifiers (spf_term t r) = unknown_modifiers r"
  using assms by (auto simp: spf_term_def directive_of_def Let_def split: prod.split option.split)

lemma spf_fold:
  "directives (fold spf_term ts spf_default) = List.map_filter directive_of ts
   \<and> invalid_terms (fold spf_term ts spf_default) = filter is_invalid_term ts
   \<and> redirect (fold spf_term ts spf_default) = last_of (List.map_filter (named_modifier ''redirect'') ts)
   \<and> explanation (fold spf_term ts spf_default) = last_of (List.map_filter (named_modifier ''exp'') ts)
   \<and> unknown_modifiers (fold spf_term ts spf_default) = length (filter is_unknown_modifier ts)"
proof (induction ts rule: rev_induct)
  case Nil
  then show ?case by (simp add: spf_default_def map_filter_def last_of_def)
next
  case (snoc t ts)
  show ?case
  proof (cases "modifier_of t")
    case None
    then have "named_modifier k t = None" for k by (simp add: named_modifier_def)
    with None snoc spf_term_dir[OF None] show ?thesis
      by (simp add: map_filter_snoc is_invalid_term_def is_unknown_modifier_def)
  next
    case (Some nv)
    obtain nm vl where m: "modifier_of t = Some (nm, vl)" using Some by (cases nv) auto
    then have "directive_of t = None" by (simp add: directive_of_def)
    with m snoc spf_term_mod[OF m] show ?thesis
      by (simp add: map_filter_snoc is_invalid_term_def is_unknown_modifier_def named_modifier_def last_of_def)
  qed
qed

lemma split_at_all:
  assumes "m \<noteq> M_all"
  shows "(\<exists>pre q post. (p, m) # ds = pre @ (q, M_all) # post \<and> M_all \<notin> snd ` set pre \<and> R (length pre) q post)
    \<longleftrightarrow> (\<exists>pre q post. ds = pre @ (q, M_all) # post \<and> M_all \<notin> snd ` set pre \<and> R (Suc (length pre)) q post)"
proof (intro iffI; elim exE conjE)
  fix pre q post
  assume h: "(p, m) # ds = pre @ (q, M_all) # post" "M_all \<notin> snd ` set pre" "R (length pre) q post"
  then obtain pre' where "pre = (p, m) # pre'" using assms by (cases pre) auto
  with h show "\<exists>pre q post. ds = pre @ (q, M_all) # post \<and> M_all \<notin> snd ` set pre \<and> R (Suc (length pre)) q post"
    by (intro exI[of _ pre'] exI[of _ q] exI[of _ post]) simp
next
  fix pre q post
  assume "ds = pre @ (q, M_all) # post" "M_all \<notin> snd ` set pre" "R (Suc (length pre)) q post"
  with assms show "\<exists>pre q post. (p, m) # ds = pre @ (q, M_all) # post \<and> M_all \<notin> snd ` set pre \<and> R (length pre) q post"
    by (intro exI[of _ "(p, m) # pre"] exI[of _ q] exI[of _ post]) auto
qed

lemma split_at_first_all:
  "(\<exists>pre q post. (p, M_all) # ds = pre @ (q, M_all) # post \<and> M_all \<notin> snd ` set pre \<and> R (length pre) q post) \<longleftrightarrow> R 0 p ds"
proof (intro iffI; (elim exE conjE)?)
  fix pre q post
  assume h: "(p, M_all) # ds = pre @ (q, M_all) # post" "M_all \<notin> snd ` set pre" "R (length pre) q post"
  then have "pre = []" by (cases pre) auto
  with h show "R 0 p ds" by simp
next
  assume "R 0 p ds"
  then show "\<exists>pre q post. (p, M_all) # ds = pre @ (q, M_all) # post \<and> M_all \<notin> snd ` set pre \<and> R (length pre) q post"
    by (intro exI[of _ "[]"] exI[of _ p] exI[of _ ds]) simp
qed

lemma first_all_split:
  "first_all ds = Some k \<longleftrightarrow> (\<exists>pre q post. ds = pre @ (q, M_all) # post \<and> M_all \<notin> snd ` set pre \<and> q = k)"
proof (induction ds)
  case (Cons d ds)
  obtain p m where d: "d = (p, m)" by (cases d)
  show ?case
  proof (cases "m = M_all")
    case True
    then show ?thesis using split_at_first_all[of p ds "\<lambda>_ q _. q = k"] by (simp add: d)
  next
    case False
    then show ?thesis using Cons split_at_all[OF False, of p ds "\<lambda>_ q _. q = k"] by (simp add: d)
  qed
qed simp

lemma first_all_iff: "first_all ds = Some q \<longleftrightarrow> (\<exists>pre post. ds = pre @ (q, M_all) # post \<and> M_all \<notin> snd ` set pre)"
  using first_all_split[of ds q] by blast

lemma all_position_iff:
  "all_position ds = Some i \<longleftrightarrow> (\<exists>pre q post. ds = pre @ (q, M_all) # post \<and> M_all \<notin> snd ` set pre \<and> length pre = i)"
proof (induction ds arbitrary: i)
  case (Cons d ds)
  obtain p m where d: "d = (p, m)" by (cases d)
  show ?case
  proof (cases "m = M_all")
    case True
    then show ?thesis using split_at_first_all[of p ds "\<lambda>n _ _. n = i"] by (auto simp: d)
  next
    case False
    then have "all_position (d # ds) = Some i \<longleftrightarrow> (\<exists>k. i = Suc k \<and> all_position ds = Some k)" using d by auto
    also have "\<dots> \<longleftrightarrow> (\<exists>pre q post. ds = pre @ (q, M_all) # post \<and> M_all \<notin> snd ` set pre \<and> Suc (length pre) = i)"
      unfolding Cons.IH by auto
    finally show ?thesis using split_at_all[OF False, of p ds "\<lambda>n _ _. n = i"] by (simp add: d)
  qed
qed simp

text \<open>C36: No term of an SPF record is lost or read twice: the directives and the invalid terms are those of
  its terms in order, the last redirect and explanation win, and directives, invalid terms and
  modifiers add up to the terms. A record is reported as open exactly when its first \<open>all\<close> passes,
  and the mechanisms reported as unreachable are exactly those after the first \<open>all\<close>.\<close>

theorem spf_record_exact:
  assumes "spf_parse txt = Some r"
  shows "directives r = List.map_filter directive_of (drop 1 (split_whitespace txt))
    \<and> invalid_terms r = filter is_invalid_term (drop 1 (split_whitespace txt))
    \<and> redirect r = last_of (List.map_filter (named_modifier ''redirect'') (drop 1 (split_whitespace txt)))
    \<and> explanation r = last_of (List.map_filter (named_modifier ''exp'') (drop 1 (split_whitespace txt)))
    \<and> length (directives r) + length (invalid_terms r)
        + length (filter (\<lambda>t. modifier_of t \<noteq> None) (drop 1 (split_whitespace txt)))
      = length (drop 1 (split_whitespace txt))
    \<and> (OpenPolicy \<in> set (spf_issues r)
       \<longleftrightarrow> (\<exists>pre post. directives r = pre @ (QPass, M_all) # post \<and> M_all \<notin> snd ` set pre))
    \<and> (UnreachableMechanisms n \<in> set (spf_issues r)
       \<longleftrightarrow> 0 < n \<and> (\<exists>pre q post. directives r = pre @ (q, M_all) # post \<and> M_all \<notin> snd ` set pre \<and> n = length post))"
proof -
  define ts where "ts = drop 1 (split_whitespace txt)"
  have r: "r = fold spf_term ts spf_default" using assms by (simp add: spf_parse_def ts_def split: if_splits)
  note fields = spf_fold[of ts, folded r]
  have "length (List.map_filter directive_of ts) + length (filter is_invalid_term ts)
      + length (filter (\<lambda>t. modifier_of t \<noteq> None) ts) = length ts"
  proof (induction ts)
    case (Cons t ts)
    have "modifier_of t \<noteq> None \<Longrightarrow> directive_of t = None" by (simp add: directive_of_def)
    then show ?case using Cons
      by (cases "modifier_of t = None"; cases "directive_of t"; simp add: is_invalid_term_def map_filter_simps)
  qed (simp add: map_filter_simps)
  moreover have "OpenPolicy \<in> set (spf_issues r) \<longleftrightarrow> first_all (directives r) = Some QPass"
    by (auto simp: spf_issues_def all_policy_def Let_def split: option.splits qualifier.splits)
  moreover have "UnreachableMechanisms n \<in> set (spf_issues r)
      \<longleftrightarrow> (\<exists>i. all_position (directives r) = Some i \<and> n = length (directives r) - (i + 1) \<and> 0 < n)"
    by (cases "all_position (directives r)"; cases "all_policy r") (auto simp: spf_issues_def Let_def)
  moreover have "(\<exists>i. all_position (directives r) = Some i \<and> n = length (directives r) - (i + 1) \<and> 0 < n)
      \<longleftrightarrow> 0 < n \<and> (\<exists>pre q post. directives r = pre @ (q, M_all) # post \<and> M_all \<notin> snd ` set pre \<and> n = length post)"
    unfolding all_position_iff by (auto 4 4)
  ultimately show ?thesis using fields first_all_iff[of "directives r" QPass] unfolding ts_def[symmetric] by simp
qed

definition example_spf :: spf_record where
  "example_spf = \<lparr>directives = [(QPass, M_all), (QFail, M_mx None)], redirect = None, explanation = None,
     has_macros = False, unknown_modifiers = 0, invalid_terms = [''x'']\<rparr>"

lemma example_spf_parsed: "spf_parse ''v=spf1 +all -mx x'' = Some example_spf"
proof -
  have terms: "split_whitespace ''v=spf1 +all -mx x'' = [''v=spf1'', ''+all'', ''-mx'', ''x'']" by code_simp
  have mods: "modifier_of ''+all'' = None" "modifier_of ''-mx'' = None" "modifier_of ''x'' = None" by code_simp+
  note mech = parse_mechanism_def eq_ignore_ascii_case_def to_ascii_lowercase_def ascii_lower_def
    is_ascii_uppercase_def ci_strip_def named_mechanism_def ends_or_starts_def tail_domain_def
  have "parse_mechanism ''all'' = Some M_all" "parse_mechanism ''mx'' = Some (M_mx None)" "parse_mechanism ''x'' = None"
    by (simp_all add: mech)
  moreover have "is_spf ''v=spf1 +all -mx x''" by (simp add: is_spf_def eq_ignore_ascii_case_def)
  ultimately show ?thesis
    by (simp add: spf_parse_def terms spf_term_def mods qualifier_of_def spf_default_def example_spf_def)
qed

theorem spf_record_exact_witness:
  "OpenPolicy \<in> set (spf_issues example_spf) \<and> UnreachableMechanisms 1 \<in> set (spf_issues example_spf)"
proof -
  have d: "directives example_spf = [] @ (QPass, M_all) # [(QFail, M_mx None)]" by (simp add: example_spf_def)
  have "M_all \<notin> snd ` set ([] :: (qualifier \<times> mechanism) list)" by simp
  then have "\<exists>pre post. directives example_spf = pre @ (QPass, M_all) # post \<and> M_all \<notin> snd ` set pre"
    "(0 :: nat) < 1 \<and> (\<exists>pre q post. directives example_spf = pre @ (q, M_all) # post \<and> M_all \<notin> snd ` set pre \<and> 1 = length post)"
    using d by (metis, metis length_Cons list.size(3) One_nat_def zero_less_one)
  then show ?thesis using spf_record_exact[OF example_spf_parsed, of 1] by blast
qed

section \<open>DMARC tags\<close>

text \<open>The first value of a tag that parses.\<close>

fun first_valid :: "str \<Rightarrow> (str \<Rightarrow> 'a option) \<Rightarrow> (str \<times> str) list \<Rightarrow> 'a option" where
  "first_valid key parse [] = None"
| "first_valid key parse ((name, value) # tags) =
     (if name = key then (case parse value of Some v \<Rightarrow> Some v | None \<Rightarrow> first_valid key parse tags)
      else first_valid key parse tags)"

definition or_else :: "'a option \<Rightarrow> 'a \<Rightarrow> 'a" where
  "or_else x d = (case x of Some v \<Rightarrow> v | None \<Rightarrow> d)"

lemma first_valid_append:
  "first_valid key parse (xs @ ys) = (case first_valid key parse xs of Some v \<Rightarrow> Some v | None \<Rightarrow> first_valid key parse ys)"
  by (induction key parse xs rule: first_valid.induct) (auto split: option.split)

definition fields_of :: "(str \<times> str) list \<Rightarrow> dmarc_record" where
  "fields_of tags = \<lparr>
     dpolicy = first_valid ''p'' parse_policy tags,
     sp = first_valid ''sp'' parse_policy tags,
     pct = or_else (first_valid ''pct'' parse_pct tags) 100,
     adkim = or_else (first_valid ''adkim'' parse_alignment tags) Relaxed,
     aspf = or_else (first_valid ''aspf'' parse_alignment tags) Relaxed,
     rua = or_else (first_valid ''rua'' (\<lambda>v. Some (parse_mailto_list v)) tags) [],
     ruf = or_else (first_valid ''ruf'' (\<lambda>v. Some (parse_mailto_list v)) tags) [],
     fo = first_valid ''fo'' (\<lambda>v. Some (trim v)) tags,
     ri = or_else (first_valid ''ri'' parse_ri tags) 86400,
     rf = first_valid ''rf'' (\<lambda>v. Some (trim v)) tags\<rparr>"

definition seen_iff :: "(str \<times> str) list \<Rightarrow> str list \<Rightarrow> bool" where
  "seen_iff tags seen \<longleftrightarrow>
     (''p'' \<in> set seen \<longleftrightarrow> first_valid ''p'' parse_policy tags \<noteq> None)
     \<and> (''sp'' \<in> set seen \<longleftrightarrow> first_valid ''sp'' parse_policy tags \<noteq> None)
     \<and> (''pct'' \<in> set seen \<longleftrightarrow> first_valid ''pct'' parse_pct tags \<noteq> None)
     \<and> (''adkim'' \<in> set seen \<longleftrightarrow> first_valid ''adkim'' parse_alignment tags \<noteq> None)
     \<and> (''aspf'' \<in> set seen \<longleftrightarrow> first_valid ''aspf'' parse_alignment tags \<noteq> None)
     \<and> (''rua'' \<in> set seen \<longleftrightarrow> first_valid ''rua'' (\<lambda>v. Some (parse_mailto_list v)) tags \<noteq> None)
     \<and> (''ruf'' \<in> set seen \<longleftrightarrow> first_valid ''ruf'' (\<lambda>v. Some (parse_mailto_list v)) tags \<noteq> None)
     \<and> (''fo'' \<in> set seen \<longleftrightarrow> first_valid ''fo'' (\<lambda>v. Some (trim v)) tags \<noteq> None)
     \<and> (''ri'' \<in> set seen \<longleftrightarrow> first_valid ''ri'' parse_ri tags \<noteq> None)
     \<and> (''rf'' \<in> set seen \<longleftrightarrow> first_valid ''rf'' (\<lambda>v. Some (trim v)) tags \<noteq> None)"

lemma first_valid_snoc:
  "first_valid key parse (tags @ [(name, value)])
    = (if name = key then (case first_valid key parse tags of Some v \<Rightarrow> Some v | None \<Rightarrow> parse value)
       else first_valid key parse tags)"
  by (auto simp: first_valid_append split: option.split)

lemma dmarc_step:
  assumes "fst st = fields_of tags" "seen_iff tags (snd st)"
  shows "fst (dmarc_named nm vl st) = fields_of (tags @ [(nm, vl)]) \<and> seen_iff (tags @ [(nm, vl)]) (snd (dmarc_named nm vl st))"
proof -
  obtain rec seen where st: "st = (rec, seen)" by (cases st)
  have rec: "rec = fields_of tags" and seen: "seen_iff tags seen" using assms st by simp_all
  note defs = dmarc_named_def keep_valid_def List.member_iff seen_iff_def fields_of_def first_valid_snoc or_else_def
  consider "nm = ''v''" | "nm = ''p''" | "nm = ''sp''" | "nm = ''pct''" | "nm = ''adkim''" | "nm = ''aspf''" | "nm = ''rua''"
    | "nm = ''ruf''" | "nm = ''fo''" | "nm = ''ri''" | "nm = ''rf''"
    | "nm \<notin> {''v'', ''p'', ''sp'', ''pct'', ''adkim'', ''aspf'', ''rua'', ''ruf'', ''fo'', ''ri'', ''rf''}" by auto
  then show ?thesis
  proof cases
    case 1
    then show ?thesis using seen unfolding st rec by (simp add: defs)
  next
    case 2
    then show ?thesis using seen unfolding st rec
      by (cases "first_valid ''p'' parse_policy tags"; cases "parse_policy vl"; simp add: defs)
  next
    case 3
    then show ?thesis using seen unfolding st rec
      by (cases "first_valid ''sp'' parse_policy tags"; cases "parse_policy vl"; simp add: defs)
  next
    case 4
    then show ?thesis using seen unfolding st rec
      by (cases "first_valid ''pct'' parse_pct tags"; cases "parse_pct vl"; simp add: defs)
  next
    case 5
    then show ?thesis using seen unfolding st rec
      by (cases "first_valid ''adkim'' parse_alignment tags"; cases "parse_alignment vl"; simp add: defs)
  next
    case 6
    then show ?thesis using seen unfolding st rec
      by (cases "first_valid ''aspf'' parse_alignment tags"; cases "parse_alignment vl"; simp add: defs)
  next
    case 7
    then show ?thesis using seen unfolding st rec
      by (cases "first_valid ''rua'' (\<lambda>v. Some (parse_mailto_list v)) tags"; simp add: defs)
  next
    case 8
    then show ?thesis using seen unfolding st rec
      by (cases "first_valid ''ruf'' (\<lambda>v. Some (parse_mailto_list v)) tags"; simp add: defs)
  next
    case 9
    then show ?thesis using seen unfolding st rec
      by (cases "first_valid ''fo'' (\<lambda>v. Some (trim v)) tags"; simp add: defs)
  next
    case 10
    then show ?thesis using seen unfolding st rec
      by (cases "first_valid ''ri'' parse_ri tags"; cases "parse_ri vl"; simp add: defs)
  next
    case 11
    then show ?thesis using seen unfolding st rec
      by (cases "first_valid ''rf'' (\<lambda>v. Some (trim v)) tags"; simp add: defs)
  next
    case 12
    then show ?thesis using seen unfolding st rec by (simp add: defs)
  qed
qed

lemma dmarc_fold:
  "fst (fold dmarc_tag raws (dmarc_default, [])) = fields_of (List.map_filter record_tag raws)
   \<and> seen_iff (List.map_filter record_tag raws) (snd (fold dmarc_tag raws (dmarc_default, [])))"
proof (induction raws rule: rev_induct)
  case Nil
  then show ?case by (simp add: dmarc_default_def fields_of_def seen_iff_def or_else_def map_filter_simps)
next
  case (snoc raw raws)
  show ?case
  proof (cases "record_tag raw")
    case None
    with snoc show ?thesis by (simp add: dmarc_tag_def[of raw] map_filter_snoc)
  next
    case (Some nv)
    obtain nm vl where "nv = (nm, vl)" by (cases nv)
    with Some snoc dmarc_step[of "fold dmarc_tag raws (dmarc_default, [])" "List.map_filter record_tag raws" nm vl]
    show ?thesis by (simp add: dmarc_tag_def[of raw] map_filter_snoc)
  qed
qed

text \<open>C37: Every field of a parsed DMARC record is the first value of its tag that is valid: a later
  duplicate and an invalid value before it change nothing, and a field with no valid tag has its
  default. A record is parsed exactly when its first tag is the version \<open>DMARC1\<close>.\<close>

theorem dmarc_first_valid_wins:
  "dmarc_parse txt =
     (if is_dmarc txt then Some (fields_of (List.map_filter record_tag (split_on CHR '';'' txt))) else None)"
  using dmarc_fold[of "split_on CHR '';'' txt"] by (simp add: dmarc_parse_def)

end
