(* ===== verification/Spec2Isabelle.thy ===== *)
theory Spec2Isabelle
  imports Lineage_Correct Circuit_Correct Source_Outcome Evidence Textnorm Rate_Limit Base64 Dns_Correct
    Sha256 Ledger Pattern_Search Pattern_Total Entity_Merge Recursion_Correct Pivot_Links Pivot_Correct
    Timefmt_Correct Netblock_Correct Au_Id_Correct Geohash Confidence Mail_Policy_Correct
begin

text \<open>
  A verification development for the Huntsman search engine, the Rust crate under \<open>src/src\<close>.

  \<^bold>\<open>The program.\<close> Huntsman asks many public sources about a subject and keeps what they answer. The parts
  that decide what an answer is worth are pure or keep a small state, and are modelled here: whether a
  response is evidence at all, how requests are paced, how records of one observation are merged, which
  records descend from which observations, when two identities may be merged, how a claim is sealed
  into a ledger, and the routines under them (text, hashes, wire formats, patterns).

  \<^bold>\<open>How the parts interact.\<close> A request to a host passes the breaker table and the rate limiter
  (\<open>circuit.rs\<close>, \<open>rate_limit.rs\<close>); its response is classified (\<open>classify.rs\<close>) into a typed outcome
  (\<open>source_outcome.rs\<close>), whose errors are those of \<open>error.rs\<close>. An accepted response becomes entities with
  evidence records (\<open>entity.rs\<close>), each record merged with those of the same observation and each entity
  with those of the same uid. The crawl (\<open>recursion.rs\<close>) looks the selectors of entities up again, along the
  routes of \<open>scan_route.rs\<close>, until a reason of \<open>termination.rs\<close> ends it; its lineage becomes links of the
  entity graph (\<open>graph.rs\<close>), whose nodes \<open>pivot.rs\<close> measures. \<open>lineage.rs\<close> reads the upstream
  of each record, under the canonical family of its label (\<open>evidence_ancestry/lookalike.rs\<close>), and
  builds an ancestry graph (\<open>evidence_ancestry.rs\<close>). The merge gate (\<open>identity_resolution.rs\<close>) counts the
  independent routes of the graph, and \<open>resolve.rs\<close> joins the uids of the accepted merges in a
  union-find (\<open>union_find.rs\<close>). Claims are chained in \<open>ledger.rs\<close> by \<open>sha256.rs\<close>. The correlation rules
  match with \<open>pattern.rs\<close>, the resolver speaks \<open>dns_wire.rs\<close>. The support of a claim earns its confidence
  through the same independent routes (\<open>confidence.rs\<close>). Values are read by \<open>timefmt.rs\<close> (dates, also of
  \<open>Retry-After\<close>), \<open>netblock.rs\<close>, \<open>au_id.rs\<close>, \<open>geohash.rs\<close>, and the mail policies of a domain by \<open>spf.rs\<close>
  and \<open>dmarc.rs\<close>.

  \<^bold>\<open>Theories.\<close> One theory models a source file, or a part of one; those that only hold proofs say so.

    \<^item> \<open>Prelude\<close>, \<open>Rust_Str\<close>, \<open>Std_Net\<close>: ordered lists for \<open>BTreeSet\<close> and \<open>BTreeMap\<close>, searches, the string
      functions of the standard library on UTF-8 bytes, slices, big-endian words, IP addresses as text.
    \<^item> \<open>Canonical_Family\<close>: \<open>canonical_family\<close> with the tables of \<open>lookalike.rs\<close>.
    \<^item> \<open>Union_Find\<close>: \<open>UnionFind\<close>; \<open>find\<close> with path halving, union by rank, \<open>groups\<close>. The forest keeps an
      invariant by which \<open>find\<close> terminates; the groups are the partition of the joined pairs.
    \<^item> \<open>Evidence_Ancestry\<close> (data, insertions, loading), \<open>Ancestry_Walk\<close> (the walk to the observed roots),
      \<open>Independence\<close> (the bounded search for independent routes), \<open>Graph_Invariant\<close> (properties).
    \<^item> \<open>Identity\<close> (the policy, the hold reasons, the gate) and \<open>Clusters\<close> (\<open>automatic_clusters\<close>), with what
      opens the gate and what the clusters are.
    \<^item> \<open>Lineage\<close> and \<open>Lineage_Correct\<close>: upstreams, the lineage graph, assessment and saved resolutions.
    \<^item> \<open>Evidence\<close>: provenance, attributes and \<open>merge_evidence\<close> of \<open>entity.rs\<close>.
    \<^item> \<open>Entities\<close> (with the doubles of \<open>Float64\<close>) and \<open>Entity_Merge\<close>: entities, the counting of their sources,
      the spellings of a handle, and the merge by uid, which loses nothing.
    \<^item> \<open>Termination\<close>, \<open>Scan_Route\<close>, \<open>Recursion\<close>: why a scan stops, the lookup kinds, and the whole crawl
      over a collector that is a parameter. \<open>Recursion_Frontier\<close> (the frontier keeps one target per key and
      is dispatched fairly), \<open>Recursion_Correct\<close> (a recording collector relates the crawl's state to the
      lookups really made) and \<open>Pivot_Links\<close> (the lineage as links) hold the properties.
    \<^item> \<open>Entity_Graph\<close>, \<open>Graph_Search\<close>, \<open>Graph_Correct\<close>: relations, the built graph, breadth-first levels as a
      locale over any graph, interpreted on the built one. \<open>Pivot_Reach\<close> and \<open>Pivot_Correct\<close>: the searches
      of 64 nodes at once by word operations find what single searches find.
    \<^item> \<open>Textnorm\<close>: escaping for HTML and for terminals, character references.
    \<^item> \<open>Bounded_Store\<close>, \<open>Circuit\<close>, \<open>Circuit_Correct\<close>: a bounded table with eviction as a locale, interpreted on
      the breaker table and the response cache; breakers, retry delays; traces of reports and probes.
    \<^item> \<open>Classify\<close>, \<open>Errors\<close>, \<open>Source_Outcome\<close>: challenge pages, the error enum, typed outcomes and joins.
    \<^item> \<open>Rate_Limit\<close>: the sliding window, under any interleaving of threads, and the loop of one caller on the
      limiter it shares with them.
    \<^item> \<open>Base64\<close>, \<open>Sha256\<close>: encoders and the decoder against digit lists; the streaming hasher against the
      padding and the block-wise fold of the standard.
    \<^item> \<open>Dns_Wire\<close>, \<open>Dns_Correct\<close>: queries, names with compression, records, messages.
    \<^item> \<open>Ledger\<close>: evidence levels of \<open>stage.rs\<close> and the claim chain of \<open>ledger.rs\<close>.
    \<^item> \<open>Pattern\<close> (parser and compiler), \<open>Pattern_Match\<close> (the matcher), \<open>Pattern_Total\<close> (the parser returns),
      \<open>Pattern_Code\<close> (the compiler appends a layout), \<open>Pattern_Means\<close> (what a layout means),
      \<open>Pattern_Correct\<close> and \<open>Pattern_Search\<close> (the matcher follows exactly the runs of the program).

    \<^item> \<open>Float_Arith\<close>: the arithmetic of doubles with its rounding, and bounds of the rounding error.
      \<open>Confidence\<close>: effective confidence in that arithmetic, how far it is from the formula over the reals,
      and what the ancestry of a support lets it earn.
    \<^item> \<open>Timefmt\<close>, \<open>Timefmt_Calendar\<close>, \<open>Timefmt_Correct\<close> (with the text lemmas of \<open>Ascii_Text\<close>): civil dates
      against a calendar that only steps a day, timestamps and HTTP dates. The sums of one day number are
      written with their wrap-around and shown not to wrap.
    \<^item> \<open>Net_Parse\<close> (the address parser of \<open>std::net\<close>), \<open>Netblock\<close>, \<open>Netblock_Correct\<close>: blocks of addresses as
      masks on words, and the intervals they are.
    \<^item> \<open>Au_Id\<close>, \<open>Au_Id_Correct\<close>: checksums of business numbers and which errors they detect.
    \<^item> \<open>Geohash\<close>: cells halved along alternating axes; encoding and decoding as one list of choices.
    \<^item> \<open>Mail_Policy\<close>, \<open>Mail_Policy_Correct\<close>: SPF and DMARC records, term by term.

  \<^bold>\<open>Conventions.\<close> A Rust string is its list of UTF-8 bytes, a code point a natural number, \<open>usize\<close> a
  natural number, and a fixed-width integer a word. Maps and sets are ordered lists, as the code iterates
  over them in order. \<open>Result\<close> is a sum with the error on the left. An \<open>option\<close> result is \<open>None\<close> where the
  code would panic or not return, and the properties show that it does not. Clocks, sleeps, random bits,
  Unicode tables, \<open>ln\<close>, \<open>powf\<close> and \<open>powi\<close> of doubles, JSON and linked libraries are arguments. A double is
  a rational, an infinity or NaN. A mutex makes the operation under it one
  step, and concurrent use a list of steps in the order of the lock.

  \<^bold>\<open>Bounds and fuel.\<close> \<open>Ancestry_Walk\<close> recurses over a stack, with a measure on the unfinished nodes;
  \<open>Independence\<close> carries the work budget of the code, so a cut-off is a value of the model; \<open>Pattern\<close>
  parses with a call depth of five per character and four more, shown enough for every input in
  \<open>Pattern_Total\<close>; the waiting loop of \<open>Rate_Limit\<close> and the level loop of
  \<open>Pivot_Reach\<close> are partial functions shown to return, the first once other threads leave the limiter alone; the crawl recurses on the generations its depth bound
  leaves. All other
  recursions terminate by their measures.

  \<^bold>\<open>Not modelled.\<close> The HTTP and socket layer and the collectors of the single services, which are calls
  to a network; the command line, the web server and its pages; file formats read only for metadata
  (Android packages, office documents, images, certificates); reports and exports; tables of data
  (attack techniques, IP and phone prefixes); stores and the scheduler of scans. Of the modelled
  files, left out are the canonical form of a value of each kind (\<open>normalise\<close>, \<open>canonical_selector\<close>,
  \<open>infer_kind\<close>, which rest on the recognisers of values), core numbers, cut vertices and the closeness of
  pivots, the great-circle distance of \<open>geohash.rs\<close>, \<open>observations_from\<close>, the serde encodings, and the functions of \<open>textnorm.rs\<close> that need Unicode normalisation tables.
\<close>

end
